(* ===== verification/Henry_Prelude.thy ===== *)
theory Henry_Prelude
  imports Main "HOL-Library.Word"
begin

text \<open>
  Shared vocabulary of the development: the machine integer types of the C++ sources, byte
  buffers and byte-addressed memories, the little- and big-endian accessors the testbench
  writes out by hand all over \<^verbatim>\<open>sim/henry_tb.cpp\<close>, the C string primitives the monitor
  uses, and the rewriting collections the component theories draw on.
\<close>

unbundle bit_operations_syntax

section \<open>Types\<close>

type_synonym u8 = "8 word"
type_synonym u16 = "16 word"
type_synonym u32 = "32 word"
type_synonym u64 = "64 word"

text \<open>A byte buffer of known length, and a byte memory indexed by its offset.\<close>

type_synonym bytes = "u8 list"
type_synonym mem = "nat \<Rightarrow> u8"

named_theorems bytes_simps \<open>lengths and round trips of the byte encodings\<close>
named_theorems mem_simps \<open>reads of a memory after a write\<close>
named_theorems mask_simps \<open>bit masks written as numerals, as truncations\<close>

section \<open>Masks\<close>

lemma unat_take_bit_mod: "unat (take_bit n (w :: 'a::len word)) = unat w mod 2 ^ n"
proof -
  have "unat (take_bit n w) = take_bit n (unat w)" by (rule unsigned_take_bit_eq)
  then show ?thesis by (simp only: take_bit_eq_mod)
qed

lemma and_numeral_mask: "m = mask n \<Longrightarrow> (w :: 'a::len word) AND m = take_bit n w"
  by (simp add: take_bit_eq_mask)

lemma and_28_bits [mask_simps]: "(w :: u32) AND 0x0fffffff = take_bit 28 w"
  by (rule and_numeral_mask) (simp add: mask_eq_exp_minus_1)

lemma and_29_bits [mask_simps]: "(w :: u32) AND 0x1fffffff = take_bit 29 w"
  by (rule and_numeral_mask) (simp add: mask_eq_exp_minus_1)

lemma and_24_bits [mask_simps]: "(w :: u32) AND 0x00ffffff = take_bit 24 w"
  by (rule and_numeral_mask) (simp add: mask_eq_exp_minus_1)

lemma bit_word_ge: "LENGTH('a) \<le> k \<Longrightarrow> \<not> bit (w :: 'a::len word) k"
  by (metis bit_imp_le_length not_le)

lemma unat_u32_bound: "unat (w :: u32) < 4294967296"
  using unsigned_less [of w, where ?'a = nat] by simp

lemma unat_ucast_u64 [simp]: "unat (ucast (w :: u32) :: u64) = unat w"
  using unat_u32_bound [of w] by (simp add: unsigned_ucast_eq take_bit_nat_eq_self)

lemma ucast_up_down [simp]: "(ucast (ucast (w :: u32) :: u64) :: u32) = w"
  by (rule bit_word_eqI) (simp add: bit_ucast_iff)

lemma ucast_u64_of_nat: "(ucast (w :: u64) :: u32) = of_nat (unat w)"
  by (simp add: word_unat_eq_iff unsigned_ucast_eq unat_of_nat)

lemma ucast_add_u32: "(ucast (a + b :: u64) :: u32) = ucast a + ucast b"
proof -
  have m: "(of_nat (n mod 2 ^ LENGTH(64)) :: u32) = of_nat n" for n
    by (simp add: word_unat_eq_iff unat_of_nat take_bit_eq_mod mod_mod_cancel)
  have "(ucast (a + b) :: u32) = of_nat ((unat a + unat b) mod 2 ^ LENGTH(64))"
    by (simp only: ucast_u64_of_nat unat_word_ariths(1))
  then show ?thesis by (simp only: m of_nat_add ucast_u64_of_nat)
qed

lemma ucast_diff_u32: "(ucast (a - b :: u64) :: u32) = ucast a - ucast b"
  using ucast_add_u32 [of "a - b" b] by (simp add: eq_diff_eq)

lemma unat_drop_bit_div: "unat (drop_bit n (w :: 'a::len word)) = unat w div 2 ^ n"
proof -
  have "unat (drop_bit n w) = drop_bit n (unat w)"
    by (simp only: unsigned_drop_bit_eq take_bit_nat_eq_self unsigned_less)
  then show ?thesis by (simp only: drop_bit_eq_div)
qed

lemma sint_u32_small:
  assumes "unat (w :: u32) < 2147483648"
  shows "sint w = int (unat w)"
proof -
  have u: "uint w = int (unat w)" by (rule uint_nat)
  have "signed_take_bit 31 (int (unat w)) = int (unat w)"
  proof (rule signed_take_bit_int_eq_self)
    show "- (2 ^ 31) \<le> int (unat w)" by (rule order_trans [of _ 0]) simp_all
    have "int (unat w) < int 2147483648" using assms by (simp only: of_nat_less_iff)
    then show "int (unat w) < 2 ^ 31" by simp
  qed
  then show ?thesis unfolding sint_uint u by simp
qed

section \<open>Little- and big-endian words\<close>

text \<open>
  \<^verbatim>\<open>le_bytes n w\<close> are the low \<open>n\<close> bytes of \<open>w\<close>, least significant first (what
  \<^verbatim>\<open>fwrite(&w, n, 1, f)\<close> writes on the little-endian host); \<^verbatim>\<open>le_word\<close> reads them back.
\<close>

definition le_bytes :: "nat \<Rightarrow> 'a::len word \<Rightarrow> bytes" where
  "le_bytes n w = map (\<lambda>i. ucast (drop_bit (8 * i) w)) [0..<n]"

primrec le_word :: "bytes \<Rightarrow> 'a::len word" where
  "le_word [] = 0"
| "le_word (b # bs) = ucast b OR push_bit 8 (le_word bs)"

lemma length_le_bytes [simp, bytes_simps]: "length (le_bytes n w) = n"
  by (simp add: le_bytes_def)

lemma bit_le_word:
  "bit (le_word bs :: 'a::len word) k \<longleftrightarrow>
     k < LENGTH('a) \<and> k div 8 < length bs \<and> bit (bs ! (k div 8)) (k mod 8)"
proof (induction bs arbitrary: k)
  case Nil
  then show ?case by simp
next
  case (Cons b bs)
  show ?case
  proof (cases "k < 8")
    case True
    then show ?thesis
      by (simp add: bit_or_iff bit_push_bit_iff bit_ucast_iff)
  next
    case False
    then obtain j where j: "k = j + 8" by (metis add.commute le_Suc_ex not_less)
    then have k: "k div 8 = Suc ((k - 8) div 8)" "(k - 8) mod 8 = k mod 8"
      by simp_all
    have nb: "\<not> bit b k" using False by (simp add: bit_word_ge)
    have "bit (le_word (b # bs) :: 'a word) k \<longleftrightarrow> k < LENGTH('a) \<and> bit (le_word bs :: 'a word) (k - 8)"
      using False nb by (simp add: bit_or_iff bit_push_bit_iff bit_ucast_iff)
    also have "\<dots> \<longleftrightarrow> k < LENGTH('a) \<and> (k - 8) div 8 < length bs \<and> bit (bs ! ((k - 8) div 8)) (k mod 8)"
      using Cons.IH [of "k - 8"] k(2) by auto
    finally show ?thesis using k(1) by simp
  qed
qed

lemma le_word_le_bytes [bytes_simps]:
  assumes "LENGTH('a) \<le> 8 * n"
  shows "le_word (le_bytes n (w :: 'a::len word)) = w"
proof (rule bit_word_eqI)
  fix k assume k: "k < LENGTH('a)"
  then have "k div 8 < n" using assms by simp
  then show "bit (le_word (le_bytes n w) :: 'a word) k \<longleftrightarrow> bit w k"
    using k by (simp add: bit_le_word le_bytes_def bit_ucast_iff bit_drop_bit_eq)
qed

text \<open>The four-byte accessors, spelled the way the source spells them.\<close>

definition be32 :: "mem \<Rightarrow> nat \<Rightarrow> u32" where
  "be32 m p = push_bit 24 (ucast (m p)) OR push_bit 16 (ucast (m (p + 1)))
     OR push_bit 8 (ucast (m (p + 2))) OR ucast (m (p + 3))"

definition be16 :: "mem \<Rightarrow> nat \<Rightarrow> u16" where
  "be16 m p = push_bit 8 (ucast (m p)) OR ucast (m (p + 1))"

definition le32 :: "mem \<Rightarrow> nat \<Rightarrow> u32" where
  "le32 m p = ucast (m p) OR push_bit 8 (ucast (m (p + 1)))
     OR push_bit 16 (ucast (m (p + 2))) OR push_bit 24 (ucast (m (p + 3)))"

definition be32_bytes :: "u32 \<Rightarrow> bytes" where
  "be32_bytes w = [ucast (drop_bit 24 w), ucast (drop_bit 16 w), ucast (drop_bit 8 w), ucast w]"

lemma length_be32_bytes [simp, bytes_simps]: "length (be32_bytes w) = 4"
  by (simp add: be32_bytes_def)

section \<open>Memory blocks\<close>

text \<open>\<^verbatim>\<open>memcpy(g_mem + off, src, n)\<close>: the block replaces exactly \<open>[off, off + n)\<close>.\<close>

definition mem_copy :: "mem \<Rightarrow> nat \<Rightarrow> bytes \<Rightarrow> mem" where
  "mem_copy m off bs = (\<lambda>a. if off \<le> a \<and> a < off + length bs then bs ! (a - off) else m a)"

definition mem_read :: "mem \<Rightarrow> nat \<Rightarrow> nat \<Rightarrow> bytes" where
  "mem_read m off n = map (\<lambda>i. m (off + i)) [0..<n]"

lemma length_mem_read [simp, bytes_simps]: "length (mem_read m off n) = n"
  by (simp add: mem_read_def)

lemma mem_copy_same [mem_simps]: "i < length bs \<Longrightarrow> mem_copy m off bs (off + i) = bs ! i"
  by (simp add: mem_copy_def)

lemma mem_copy_other [mem_simps]:
  "a < off \<or> off + length bs \<le> a \<Longrightarrow> mem_copy m off bs a = m a"
  by (auto simp: mem_copy_def)

lemma mem_copy_Nil [simp, mem_simps]: "mem_copy m off [] = m"
proof
  fix a show "mem_copy m off [] a = m a" by (rule mem_copy_other) auto
qed

lemma mem_read_copy [mem_simps]: "mem_read (mem_copy m off bs) off (length bs) = bs"
  by (rule nth_equalityI) (auto simp: mem_read_def mem_copy_same)

lemma mem_copy_commute:
  assumes "off + length bs \<le> off' \<or> off' + length bs' \<le> off"
  shows "mem_copy (mem_copy m off bs) off' bs' = mem_copy (mem_copy m off' bs') off bs"
  using assms by (auto simp: mem_copy_def fun_eq_iff)

lemma bit_byte_of: "bit (ucast (drop_bit n (w :: u32)) :: u8) k \<longleftrightarrow> k < 8 \<and> bit w (n + k)"
  by (auto simp: bit_ucast_iff bit_drop_bit_eq dest: bit_imp_le_length)

lemma bit_byte_at:
  "k < 32 \<Longrightarrow> bit (push_bit n (ucast (ucast (drop_bit n (w :: u32)) :: u8)) :: u32) k \<longleftrightarrow>
     n \<le> k \<and> k < n + 8 \<and> bit w k"
  by (auto simp: bit_push_bit_iff bit_ucast_iff bit_drop_bit_eq)

lemma be32_join_bits:
  assumes "k < LENGTH(32)"
  shows "bit (push_bit 24 (ucast (ucast (drop_bit 24 w) :: u8)) OR push_bit 16 (ucast (ucast (drop_bit 16 w) :: u8))
    OR push_bit 8 (ucast (ucast (drop_bit 8 w) :: u8)) OR ucast (ucast w :: u8) :: u32) k \<longleftrightarrow> bit (w :: u32) k"
proof -
  have k: "k < 32" using assms by simp
  have low: "bit (ucast (ucast w :: u8) :: u32) k \<longleftrightarrow> k < 8 \<and> bit w k"
    using bit_byte_at [OF k, of 0 w] by simp
  from k consider "k < 8" | "8 \<le> k" "k < 16" | "16 \<le> k" "k < 24" | "24 \<le> k" by linarith
  then show ?thesis
    by cases (simp_all only: bit_or_iff bit_byte_at [OF k] low, use k in auto)
qed

lemma be32_mem_copy [mem_simps]: "be32 (mem_copy m p (be32_bytes w)) p = w"
proof -
  have "be32 (mem_copy m p (be32_bytes w)) p =
      push_bit 24 (ucast (ucast (drop_bit 24 w) :: u8)) OR push_bit 16 (ucast (ucast (drop_bit 16 w) :: u8))
      OR push_bit 8 (ucast (ucast (drop_bit 8 w) :: u8)) OR ucast (ucast w :: u8)"
    by (simp add: be32_def mem_copy_def be32_bytes_def)
  also have "\<dots> = w"
    by (rule bit_word_eqI) (simp only: be32_join_bits)
  finally show ?thesis .
qed

lemma be32_mem_copy_other [mem_simps]:
  "p + 4 \<le> off \<or> off + length bs \<le> p \<Longrightarrow> be32 (mem_copy m off bs) p = be32 m p"
  by (auto simp: be32_def mem_copy_def)

lemma prefix_split:
  assumes "p @ m = a @ b" "length a \<le> length p"
  obtains q where "p = a @ q" "q @ m = b"
proof -
  have "take (length a) p = a" using arg_cong [OF assms(1), of "take (length a)"] assms(2) by simp
  then have "p = a @ drop (length a) p" by (metis append_take_drop_id)
  then show ?thesis using that assms(1) by (metis append_assoc same_append_eq)
qed

section \<open>Reading a file\<close>

text \<open>\<^verbatim>\<open>fread(p, 1, n, f) == n\<close>: the bytes read and the rest of the file, or a short read.\<close>

definition rd :: "nat \<Rightarrow> bytes \<Rightarrow> (bytes \<times> bytes) option" where
  "rd n f = (if n \<le> length f then Some (take n f, drop n f) else None)"

lemma rd_SomeD: "rd n f = Some (b, f') \<Longrightarrow> f = b @ f' \<and> length b = n"
  by (auto simp: rd_def split: if_splits)

lemma rd_append [simp]: "rd (length b) (b @ f) = Some (b, f)"
  by (simp add: rd_def)

lemma rd_append_len: "length b = n \<Longrightarrow> rd n (b @ f) = Some (b, f)"
  by auto

section \<open>Running a clocked step\<close>

text \<open>From cycle \<open>cyc\<close>, feed one input per cycle to a step that may trap.\<close>

fun run_from :: "(nat \<Rightarrow> 'i \<Rightarrow> 's \<Rightarrow> 's option) \<Rightarrow> nat \<Rightarrow> 'i list \<Rightarrow> 's \<Rightarrow> 's option" where
  "run_from f cyc [] s = Some s"
| "run_from f cyc (i # is) s = Option.bind (f cyc i s) (run_from f (Suc cyc) is)"

lemma run_from_append:
  "run_from f cyc (is @ js) s = Option.bind (run_from f cyc is s) (run_from f (cyc + length is) js)"
proof (induction "is" arbitrary: cyc s)
  case (Cons i "is")
  then show ?case by (cases "f cyc i s") simp_all
qed simp

section \<open>Numbers in text\<close>

text \<open>
  The string comparison and number parsing primitives of the C library, on NUL-terminated
  strings given as the list of characters before the terminator.
\<close>

definition strncmp_eq :: "string \<Rightarrow> string \<Rightarrow> nat \<Rightarrow> bool" where
  "strncmp_eq s lit n \<longleftrightarrow> take n s = take n lit"

definition is_digit :: "char \<Rightarrow> bool" where
  "is_digit c \<longleftrightarrow> 48 \<le> (of_char c :: nat) \<and> (of_char c :: nat) \<le> 57"

end
