(* ===== verification/Address_Map.thy ===== *)
theory Address_Map
  imports Henry_Prelude
begin

text \<open>
  The physical address map of the testbench (\<^verbatim>\<open>sim/henry_tb.cpp\<close>: \<^verbatim>\<open>fpga_map\<close> and the
  routines that read or patch the simulated DRAM through it), and the address fold of the
  FPGA's AXI master (\<^verbatim>\<open>ip_hdl/axi_is_the_worst_v1_0_M00_AXI.v\<close>) that it mirrors.  The
  simulated DRAM \<^verbatim>\<open>g_mem\<close> is a byte memory of \<open>MEM_SIZE\<close> bytes indexed by DRAM offset.
\<close>

section \<open>Constants and the map\<close>

definition MEM_SIZE :: nat where "MEM_SIZE = 0x20000000"
definition MEM_MASK :: u64 where "MEM_MASK = 0x1fffffff"
definition HALT_PA :: u32 where "HALT_PA = 0x1fd00000"
definition FPGA_ADDRESS_MAP :: bool where "FPGA_ADDRESS_MAP = True"
definition FPGA_ADDRMASK :: u32 where "FPGA_ADDRMASK = 0x1effffff"

definition fpga_map :: "u32 \<Rightarrow> u32 \<times> bool" where
  "fpga_map cpuaddr =
     (let t = (if cpuaddr \<ge> 0x08000000 \<and> cpuaddr \<le> 0x17ffffff then cpuaddr AND 0x0fffffff
               else if cpuaddr \<ge> 0x1f000000 \<and> cpuaddr \<le> 0x1fffffff
               then 0x10000000 OR (cpuaddr AND 0x00ffffff)
               else cpuaddr)
      in (t, t > FPGA_ADDRMASK))"

text \<open>The legacy flat window, taken when \<open>FPGA_ADDRESS_MAP\<close> is off.\<close>

definition flat_map :: "u32 \<Rightarrow> u32 \<times> bool" where
  "flat_map phys = (phys AND 0x1fffffff, False)"

definition tb_map :: "u32 \<Rightarrow> u32 \<times> bool" where
  "tb_map phys = (if FPGA_ADDRESS_MAP then fpga_map phys else flat_map phys)"

text \<open>The AXI master's own fold, on the 36-bit address it is given.\<close>

type_synonym u36 = "36 word"

definition axi_cpuaddr :: "bool \<Rightarrow> u36 \<Rightarrow> u36" where
  "axi_cpuaddr sgi_mode req_addr =
     (if sgi_mode then
        (if req_addr \<le> 0x17ffffff \<and> req_addr \<ge> 0x08000000 then take_bit 28 req_addr
         else if req_addr \<le> 0x1fffffff \<and> req_addr \<ge> 0x1f000000
         then push_bit 24 16 OR take_bit 24 req_addr
         else req_addr)
      else req_addr)"

definition axi_bad_addr :: "bool \<Rightarrow> u32 \<Rightarrow> u36 \<Rightarrow> bool" where
  "axi_bad_addr sgi_mode addrmask req_addr \<longleftrightarrow> axi_cpuaddr sgi_mode req_addr > ucast addrmask"

section \<open>Users of the map\<close>

text \<open>\<^verbatim>\<open>scsi_mem\<close>: the DRAM offset of a guest buffer, or a null pointer.\<close>

definition scsi_mem :: "u32 \<Rightarrow> u32 \<Rightarrow> nat option" where
  "scsi_mem phys len =
     (let (off, bad) = (if FPGA_ADDRESS_MAP then fpga_map phys
                        else (ucast ((ucast phys :: u64) AND MEM_MASK), False))
      in if bad \<or> unat off + unat len > MEM_SIZE then None else Some (unat off))"

text \<open>The IP22 System Memory Alias: the low 512 KB are the bottom of Low Local Memory.\<close>

definition sysmem_alias :: "u32 \<Rightarrow> u32" where
  "sysmem_alias pa = (if drop_bit 19 pa = 0 then pa OR 0x08000000 else pa)"

definition put_be32 :: "mem \<Rightarrow> u64 \<Rightarrow> u32 \<Rightarrow> mem" where
  "put_be32 g_mem pa w = mem_copy g_mem (unat (pa AND MEM_MASK)) (be32_bytes w)"

definition dump_pa :: "mem \<Rightarrow> u64 \<Rightarrow> u64 \<times> u32 list" where
  "dump_pa g_mem pa =
     (let pa = pa AND MEM_MASK
      in (pa, map (\<lambda>i. be32 g_mem (unat ((pa + 4 * of_nat i) AND MEM_MASK))) [0..<8]))"

definition mac_bytes :: bytes where
  "mac_bytes = [0x08, 0x00, 0x69, 0x12, 0x34, 0x56]"

definition bbram_mac_pa :: "nat \<Rightarrow> u32" where
  "bbram_mac_pa k = 0x1fbe04e8 + 4 * of_nat k + 3"

definition seed_bbram_mac :: "mem \<Rightarrow> mem" where
  "seed_bbram_mac g_mem =
     fold (\<lambda>k m. m(unat (fst (fpga_map (bbram_mac_pa k))) := mac_bytes ! k)) [0..<6] g_mem"

text \<open>\<^verbatim>\<open>mon_mem_rd\<close>: the monitor's word read, kseg0/1 to physical, then the map.\<close>

definition kseg_phys :: "u32 \<Rightarrow> u32" where
  "kseg_phys va = (if va \<ge> 0x80000000 \<and> va < 0xc0000000 then va AND 0x1fffffff else va)"

definition mon_mem_rd :: "mem \<Rightarrow> u32 \<Rightarrow> u32 option" where
  "mon_mem_rd g_mem va =
     (let (off, bad) = fpga_map (kseg_phys va)
      in if bad \<or> unat off + 4 > MEM_SIZE then None else Some (be32 g_mem (unat off)))"

text \<open>\<^verbatim>\<open>ckpt_pc_sext\<close>: a compat-32 checkpoint pc is sign-extended, a 64-bit one kept.\<close>

definition ckpt_pc_sext :: "u64 \<Rightarrow> u64" where
  "ckpt_pc_sext pc = (if drop_bit 32 pc = 0 then scast (ucast pc :: u32) else pc)"

section \<open>Segments\<close>

text \<open>
  What every user of a map relies on: it displaces each 16 MB segment as a block, and an
  address it does not fault lands inside the DRAM.
\<close>

lemma segment_carry:
  assumes "(x::nat) mod 16777216 + i < 16777216" "x < 4294967296"
  shows "x + i < 4294967296" "(x + i) div 16777216 = x div 16777216"
proof -
  have x: "x = 16777216 * (x div 16777216) + x mod 16777216" by simp
  have "x div 16777216 < 256" using assms(2) by (simp add: div_less_iff_less_mult)
  then show "x + i < 4294967296" using x assms(1) by linarith
  have "16777216 * (x div 16777216) \<le> x + i" using x by linarith
  moreover have "x + i < 16777216 * Suc (x div 16777216)"
    using x assms(1) unfolding mult_Suc_right by linarith
  ultimately show "(x + i) div 16777216 = x div 16777216" by (rule div_nat_eqI)
qed

lemma unat_add_in_segment:
  assumes "unat (a :: u32) mod 16777216 + i < 16777216"
  shows "unat (a + of_nat i) = unat a + i"
proof -
  have "i < 16777216" using assms by linarith
  then have "unat (of_nat i :: u32) = i" by (simp add: unat_of_nat take_bit_eq_mod)
  then show ?thesis
    using segment_carry(1) [OF assms unat_u32_bound] by (simp add: unat_word_ariths)
qed

locale segment_map =
  fixes decode :: "u32 \<Rightarrow> u32 \<times> bool" and size :: nat
  assumes decode_range: "\<not> snd (decode a) \<Longrightarrow> unat (fst (decode a)) < size"
    and decode_segment: "drop_bit 24 a = drop_bit 24 b \<Longrightarrow>
      fst (decode a) - a = fst (decode b) - b \<and> snd (decode a) = snd (decode b)"
    and decode_low: "take_bit 24 (fst (decode a)) = take_bit 24 a"
begin

lemma same_segment:
  assumes "unat (a :: u32) mod 16777216 + i < 16777216"
  shows "drop_bit 24 (a + of_nat i) = drop_bit 24 a"
proof -
  have "unat (drop_bit 24 (a + of_nat i)) = unat (drop_bit 24 a)"
    using segment_carry(2) [OF assms unat_u32_bound] unat_add_in_segment [OF assms]
    by (simp add: unat_drop_bit_div)
  then show ?thesis by (rule unsigned_word_eqI)
qed

lemma decode_add:
  assumes "unat a mod 16777216 + i < 16777216"
  shows "fst (decode (a + of_nat i)) = fst (decode a) + of_nat i"
    and "snd (decode (a + of_nat i)) = snd (decode a)"
proof -
  note d = decode_segment [OF same_segment [OF assms]]
  then have "fst (decode (a + of_nat i)) = fst (decode a) - a + (a + of_nat i)"
    by (metis diff_add_cancel)
  then show "fst (decode (a + of_nat i)) = fst (decode a) + of_nat i" by simp
  show "snd (decode (a + of_nat i)) = snd (decode a)" using d by simp
qed

lemma low_bits: "unat (fst (decode a)) mod 16777216 = unat a mod 16777216"
  using arg_cong [OF decode_low, of unat] by (simp add: unat_take_bit_mod)

lemma unat_decode_add:
  assumes "unat a mod 16777216 + i < 16777216"
  shows "unat (fst (decode (a + of_nat i))) = unat (fst (decode a)) + i"
  using decode_add(1) [OF assms] unat_add_in_segment [of "fst (decode a)" i] low_bits [of a] assms
  by simp

lemma block_in_range:
  assumes "\<not> snd (decode a)" "unat a mod 16777216 + n \<le> 16777216" "0 < n"
  shows "unat (fst (decode a)) + n \<le> size"
proof -
  have i: "unat a mod 16777216 + (n - 1) < 16777216" using assms by linarith
  have "unat (fst (decode (a + of_nat (n - 1)))) < size"
    using decode_range decode_add(2) [OF i] assms(1) by blast
  then show ?thesis using unat_decode_add [OF i] assms(3) by simp
qed

end

lemma take_bit_displacement: "take_bit n (a :: 'a::len word) - a = - push_bit n (drop_bit n a)"
  using bits_ident [of n a] by (simp add: algebra_simps)

lemma drop_bit_mono_eq:
  "drop_bit 24 (a :: u32) = drop_bit 24 b \<Longrightarrow> 24 \<le> n \<Longrightarrow> drop_bit n a = drop_bit n b"
proof -
  assume e: "drop_bit 24 a = drop_bit 24 b" and "24 \<le> n"
  then obtain k where "n = k + 24" by (metis le_add_diff_inverse2)
  then show ?thesis using e by (metis drop_bit_drop_bit)
qed

lemma unat_eq_segment:
  "drop_bit 24 (a :: u32) = drop_bit 24 b \<Longrightarrow> unat a div 16777216 = unat b div 16777216"
  using unat_drop_bit_div [of 24 a] unat_drop_bit_div [of 24 b] by simp

lemma or_segment: "0x10000000 OR take_bit 24 a = 0x10000000 + take_bit 24 (a :: u32)"
proof -
  have "0x10000000 = push_bit 28 (1 :: u32)" by simp
  moreover have "push_bit 28 1 + take_bit 24 a = push_bit 28 1 OR take_bit 24 a"
    by (rule disjunctive_add) (simp only: bit_take_bit_iff bit_push_bit_iff, linarith)
  ultimately show ?thesis by metis
qed

lemma fpga_map_local:
  "0x08000000 \<le> unat a \<Longrightarrow> unat a < 0x18000000 \<Longrightarrow> fst (fpga_map a) = take_bit 28 a"
  by (simp add: fpga_map_def Let_def mask_simps word_le_nat_alt)

lemma fpga_map_shadow:
  "0x1f000000 \<le> unat a \<Longrightarrow> unat a < 0x20000000 \<Longrightarrow> fst (fpga_map a) = 0x10000000 + take_bit 24 a"
  by (simp add: fpga_map_def Let_def mask_simps word_le_nat_alt or_segment)

lemma fpga_map_identity:
  "unat a < 0x08000000 \<or> 0x18000000 \<le> unat a \<and> unat a < 0x1f000000 \<or> 0x20000000 \<le> unat a \<Longrightarrow>
     fst (fpga_map a) = a"
  by (auto simp: fpga_map_def Let_def word_le_nat_alt)

lemma fpga_map_bad: "snd (fpga_map a) \<longleftrightarrow> fst (fpga_map a) > FPGA_ADDRMASK"
  by (simp add: fpga_map_def Let_def)

lemmas fpga_map_regions = fpga_map_local fpga_map_shadow fpga_map_identity

lemma fpga_region_cases:
  obtains (low) "unat (a :: u32) < 0x08000000"
  | (local_mem) "0x08000000 \<le> unat a" "unat a < 0x18000000"
  | (high) "0x18000000 \<le> unat a" "unat a < 0x1f000000"
  | (shadow) "0x1f000000 \<le> unat a" "unat a < 0x20000000"
  | (beyond) "0x20000000 \<le> unat a"
  by linarith

lemma fpga_displacement:
  "fst (fpga_map a) - a =
     (if 0x08000000 \<le> unat a \<and> unat a < 0x18000000 then - push_bit 28 (drop_bit 28 a)
      else if 0x1f000000 \<le> unat a \<and> unat a < 0x20000000 then 0x10000000 - push_bit 24 (drop_bit 24 a)
      else 0)"
  using take_bit_displacement [of 28 a] take_bit_displacement [of 24 a]
  by (cases a rule: fpga_region_cases) (simp_all add: fpga_map_regions add_diff_eq [symmetric])

lemma segment_bounds:
  assumes "unat a div 16777216 = unat (b :: u32) div 16777216"
  shows "16777216 * k \<le> unat a \<longleftrightarrow> 16777216 * k \<le> unat b"
    and "unat a < 16777216 * k \<longleftrightarrow> unat b < 16777216 * k"
proof -
  have "16777216 * k \<le> x \<longleftrightarrow> k \<le> x div 16777216" for x :: nat
    by (simp add: less_eq_div_iff_mult_less_eq mult.commute)
  then show "16777216 * k \<le> unat a \<longleftrightarrow> 16777216 * k \<le> unat b"
    and "unat a < 16777216 * k \<longleftrightarrow> unat b < 16777216 * k"
    using assms by (metis not_less)+
qed

lemma fpga_segment_displacement:
  assumes "drop_bit 24 a = drop_bit 24 b"
  shows "fst (fpga_map a) - a = fst (fpga_map b) - b"
proof -
  note s = segment_bounds [OF unat_eq_segment [OF assms]]
  have "drop_bit 28 a = drop_bit 28 b" using assms by (rule drop_bit_mono_eq) simp
  then show ?thesis
    using assms s(1) [of 8] s(2) [of 24] s(1) [of 31] s(2) [of 32]
    by (simp add: fpga_displacement)
qed

lemma fpga_map_in_range: "\<not> snd (fpga_map a) \<Longrightarrow> unat (fst (fpga_map a)) < MEM_SIZE"
  by (simp add: fpga_map_bad FPGA_ADDRMASK_def MEM_SIZE_def word_less_nat_alt not_less)

lemma unat_fpga_map:
  "unat (fst (fpga_map a)) =
     (if 0x08000000 \<le> unat a \<and> unat a < 0x18000000 then unat a mod 0x10000000
      else if 0x1f000000 \<le> unat a \<and> unat a < 0x20000000 then unat a - 0x0f000000
      else unat a)"
proof (cases a rule: fpga_region_cases)
  case local_mem
  then show ?thesis by (simp add: fpga_map_local unat_take_bit_mod)
next
  case shadow
  have "unat a mod 16777216 = unat a - 0x1f000000"
    using shadow by (simp add: mod_nat_eqI)
  moreover have "unat (0x10000000 + take_bit 24 a) = 0x10000000 + unat a mod 16777216"
    by (simp add: unat_word_ariths unat_take_bit_mod)
  ultimately show ?thesis using shadow by (simp add: fpga_map_shadow)
qed (simp_all add: fpga_map_identity)

lemma fpga_bad_iff: "snd (fpga_map a) \<longleftrightarrow> 0x20000000 \<le> unat a"
  by (simp add: fpga_map_bad FPGA_ADDRMASK_def word_less_nat_alt unat_fpga_map)
     (use mod_less_divisor [of "0x10000000" "unat a"] in linarith)

lemma fpga_map_low24: "take_bit 24 (fst (fpga_map a)) = take_bit 24 a"
proof -
  have "unat (fst (fpga_map a)) mod 16777216 = unat a mod 16777216"
  proof (cases "0x1f000000 \<le> unat a \<and> unat a < 0x20000000")
    case True
    then obtain r where "unat a = 0x0f000000 + r" using le_Suc_ex [of "0x0f000000" "unat a"] by auto
    moreover have "(0x0f000000 + r) mod 16777216 = r mod 16777216"
      using mod_mult_self2 [of r 16777216 15] by (simp add: add.commute)
    ultimately show ?thesis using True by (simp add: unat_fpga_map)
  next
    case False
    then show ?thesis by (auto simp: unat_fpga_map mod_mod_cancel)
  qed
  then show ?thesis by (intro unsigned_word_eqI [where ?'a = nat]) (simp add: unat_take_bit_mod)
qed

interpretation fpga: segment_map fpga_map MEM_SIZE
proof
  fix a b :: u32
  show "\<not> snd (fpga_map a) \<Longrightarrow> unat (fst (fpga_map a)) < MEM_SIZE"
    by (rule fpga_map_in_range)
  show "take_bit 24 (fst (fpga_map a)) = take_bit 24 a" by (rule fpga_map_low24)
  assume s: "drop_bit 24 a = drop_bit 24 b"
  have "0x20000000 \<le> unat a \<longleftrightarrow> 0x20000000 \<le> unat b"
    using segment_bounds(1) [OF unat_eq_segment [OF s], of 32] by simp
  then show "fst (fpga_map a) - a = fst (fpga_map b) - b \<and> snd (fpga_map a) = snd (fpga_map b)"
    using fpga_segment_displacement [OF s] by (simp add: fpga_bad_iff)
qed

interpretation flat: segment_map flat_map MEM_SIZE
proof
  fix a b :: u32
  show "unat (fst (flat_map a)) < MEM_SIZE"
    by (simp add: flat_map_def mask_simps unat_take_bit_mod MEM_SIZE_def)
  show "take_bit 24 (fst (flat_map a)) = take_bit 24 a"
    by (simp add: flat_map_def mask_simps)
  assume s: "drop_bit 24 a = drop_bit 24 b"
  then have "drop_bit 29 a = drop_bit 29 b" by (rule drop_bit_mono_eq) simp
  then show "fst (flat_map a) - a = fst (flat_map b) - b \<and> snd (flat_map a) = snd (flat_map b)"
    by (simp add: flat_map_def mask_simps take_bit_displacement)
qed

section \<open>The testbench map against the AXI master's fold\<close>

text \<open>\<^verbatim>\<open>(uint32_t)tb->mem_req_addr & 0x1fffffff\<close>: the address both bus lanes hand to the map.\<close>

definition tb_phys :: "u64 \<Rightarrow> u32" where
  "tb_phys req_addr = ucast req_addr AND 0x1fffffff"

lemma unat_tb_phys: "unat (tb_phys a) < 0x20000000"
  by (simp add: tb_phys_def mask_simps unat_take_bit_mod)

lemma unat_ucast_36: "unat (ucast (a :: u32) :: u36) = unat a"
proof -
  have "unat a < 2 ^ LENGTH(36)" using unat_u32_bound [of a] by simp
  then show ?thesis by (simp only: unsigned_ucast_eq take_bit_nat_eq_self)
qed

lemma ucast_take_bit_36: "n \<le> 32 \<Longrightarrow> ucast (take_bit n (a :: u32)) = take_bit n (ucast a :: u36)"
  by (rule bit_word_eqI) (auto simp: bit_ucast_iff bit_take_bit_iff)

lemma ucast_or_36: "ucast (a OR (b :: u32)) = (ucast a OR ucast b :: u36)"
  by (rule bit_word_eqI) (auto simp: bit_ucast_iff bit_or_iff)

lemma axi_fold_eq: "ucast (fst (fpga_map phys)) = axi_cpuaddr True (ucast phys)"
  by (simp add: fpga_map_def Let_def axi_cpuaddr_def mask_simps word_le_nat_alt
      unat_ucast_36 ucast_take_bit_36 ucast_or_36)

lemma axi_fault_eq: "axi_bad_addr True FPGA_ADDRMASK (ucast phys) = snd (fpga_map phys)"
proof -
  have "snd (fpga_map phys) \<longleftrightarrow> unat (fst (fpga_map phys)) > unat FPGA_ADDRMASK"
    by (simp add: fpga_map_bad word_less_nat_alt)
  also have "\<dots> \<longleftrightarrow> (ucast (fst (fpga_map phys)) :: u36) > ucast FPGA_ADDRMASK"
    by (simp only: word_less_nat_alt unat_ucast_36)
  finally show ?thesis by (simp add: axi_bad_addr_def axi_fold_eq)
qed

text \<open>
  C25.  The C++ address map and the AXI master in its sgi mode agree on every 32-bit
  physical address: the same folded DRAM offset and the same fault decision against the
  496 MB address mask.
\<close>

theorem fpga_map_matches_axi:
  "ucast (fst (fpga_map phys)) = axi_cpuaddr True (ucast phys) \<and>
   snd (fpga_map phys) = axi_bad_addr True FPGA_ADDRMASK (ucast phys)"
  by (simp add: axi_fold_eq axi_fault_eq)

text \<open>
  The testbench presents only the low 29 bits of a request to the map, and no 29-bit
  address faults: the bus model never raises a bad-address response.  The AXI master, which
  is given all 36 bits, faults exactly from 512 MB up; those requests wrap into DRAM in the
  simulation.
\<close>

theorem tb_phys_never_bad:
  "\<not> snd (fpga_map (tb_phys req_addr)) \<and>
   (axi_bad_addr True FPGA_ADDRMASK a \<longleftrightarrow> 0x20000000 \<le> unat a)"
proof -
  have "axi_bad_addr True FPGA_ADDRMASK a \<longleftrightarrow> 0x20000000 \<le> unat a" for a
  proof (cases "unat a < 2 ^ 32")
    case True
    have u: "unat (ucast a :: u32) = unat a"
      using True by (simp add: unsigned_ucast_eq take_bit_nat_eq_self)
    then have a: "a = ucast (ucast a :: u32)" by (simp add: word_unat_eq_iff unat_ucast_36)
    show ?thesis
      using axi_fault_eq [of "ucast a"] u by (simp add: a [symmetric] fpga_bad_iff)
  next
    case False
    then show ?thesis
      by (simp add: axi_bad_addr_def axi_cpuaddr_def word_le_nat_alt word_less_nat_alt
          FPGA_ADDRMASK_def)
  qed
  then show ?thesis using unat_tb_phys [of req_addr] by (simp add: fpga_bad_iff not_le)
qed

lemma mod_256MB:
  "unat (x :: u32) < 0x18000000 \<Longrightarrow>
     unat x mod 0x10000000 = (if unat x < 0x10000000 then unat x else unat x - 0x10000000)"
  by (simp add: mod_nat_eqI)

lemma fpga_map_inj:
  assumes "0x08000000 \<le> unat a" "unat a < 0x20000000" "0x08000000 \<le> unat b" "unat b < 0x20000000"
    and "unat (fst (fpga_map a)) = unat (fst (fpga_map b))"
  shows "a = b"
proof -
  have "unat a = unat b"
    using assms mod_256MB [of a] mod_256MB [of b] unfolding unat_fpga_map by (auto split: if_splits)
  then show ?thesis by (simp add: word_unat_eq_iff)
qed

text \<open>
  Aliasing of the folded map is exactly the one the source documents: two different
  29-bit addresses share a DRAM offset if and only if the lower lies in the reserved
  region below 128 MB and the other is 256 MB above it (the upper half of Low Local
  Memory).  Every other pair of guest addresses has its own storage.
\<close>

theorem fpga_map_aliases:
  assumes "unat a < unat b" and "unat b < 2 ^ 29"
  shows "fst (fpga_map a) = fst (fpga_map b) \<longleftrightarrow>
    unat a < 0x08000000 \<and> unat b = unat a + 0x10000000"
proof -
  have "fst (fpga_map a) = fst (fpga_map b) \<longleftrightarrow> unat (fst (fpga_map a)) = unat (fst (fpga_map b))"
    by (simp add: word_unat_eq_iff)
  also have "\<dots> \<longleftrightarrow> unat a < 0x08000000 \<and> unat b = unat a + 0x10000000"
    using assms mod_256MB [of a] mod_256MB [of b] unfolding unat_fpga_map by (auto split: if_splits)
  finally show ?thesis .
qed

theorem fpga_map_aliases_witness:
  "unat (0x00001000 :: u32) < unat (0x10001000 :: u32) \<and> unat (0x10001000 :: u32) < 2 ^ 29 \<and>
   fst (fpga_map 0x00001000) = fst (fpga_map 0x10001000)"
proof -
  have h: "unat (0x00001000 :: u32) < unat (0x10001000 :: u32)" "unat (0x10001000 :: u32) < 2 ^ 29"
    by simp_all
  show ?thesis using h fpga_map_aliases [OF h] by simp
qed

lemma bbram_mac_offset:
  "k < 6 \<Longrightarrow> unat (fst (fpga_map (bbram_mac_pa k))) = 0x10be04eb + 4 * k"
proof -
  assume "k < 6"
  then have "k \<in> {0, 1, 2, 3, 4, 5}" by auto
  then show ?thesis by (auto simp: unat_fpga_map bbram_mac_pa_def)
qed

text \<open>
  Seeding the battery-backed RAM puts byte \<open>k\<close> of the station address where the guest
  reads it (the low byte of big-endian word \<open>k\<close> at 0x1fbe04e8), through the same map the
  bus uses, and changes no other byte of DRAM.
\<close>

theorem seed_bbram_mac_exact:
  "seed_bbram_mac g_mem = (\<lambda>a. if a \<in> (\<lambda>k. unat (fst (fpga_map (bbram_mac_pa k)))) ` {..<6}
     then mac_bytes ! ((a - 0x10be04eb) div 4) else g_mem a)"
proof -
  have u: "[0..<6] = [0, 1, 2, 3, 4, 5 :: nat]" by (simp add: upt_rec)
  have i: "(\<lambda>k. unat (fst (fpga_map (bbram_mac_pa k)))) ` {..<6} = (\<lambda>k. 0x10be04eb + 4 * k) ` {..<6}"
    by (rule image_cong) (simp_all add: bbram_mac_offset)
  have s: "{..<6} = {0, 1, 2, 3, 4, 5 :: nat}" by auto
  show ?thesis
    unfolding i unfolding s
    by (simp add: seed_bbram_mac_def u bbram_mac_offset fun_eq_iff mac_bytes_def)
qed

end
