(* ===== verification/Mem_Bus.thy ===== *)
theory Mem_Bus
  imports Address_Map
begin

text \<open>
  The behavioral DRAM behind the SoC's two external memory lanes (\<^verbatim>\<open>sim/henry_tb.cpp\<close>, the
  memory bus servicing of \<^verbatim>\<open>main\<close>): the randomized latency generator, request acceptance
  on a rising edge, the line load and masked store of lane 0 (CPU) and the 16- and 64-byte
  accesses of lane 1 (DMA, ring and fill traffic), and the mirror into the golden model's
  memory.  Diagnostic prints have no effect on this state and are left out; the counter of
  unaligned requests, which the run reports, is kept.
\<close>

section \<open>The latency generator\<close>

text \<open>Configuration read once from the environment (\<^verbatim>\<open>MEM_LAT_MIN\<close>, \<^verbatim>\<open>MEM_LAT_MAX\<close>, \<^verbatim>\<open>AXI_ALIGN\<close>, \<^verbatim>\<open>--checker\<close>).\<close>

record bus_cfg =
  MEM_LAT_MIN :: int
  MEM_LAT_MAX :: int
  axi_align :: bool
  checker :: bool

definition memlat_seed :: "u32 \<Rightarrow> u64" where
  "memlat_seed MEM_SEED = (if MEM_SEED \<noteq> 0 then ucast MEM_SEED else 88172645463325252)"

definition memlat_next :: "u64 \<Rightarrow> u64" where
  "memlat_next s0 =
     (let s1 = s0 XOR push_bit 13 s0;
          s2 = s1 XOR drop_bit 7 s1
      in s2 XOR push_bit 17 s2)"

definition MEM_LAT_SPAN :: "bus_cfg \<Rightarrow> u64" where
  "MEM_LAT_SPAN cfg = of_int (MEM_LAT_MAX cfg - MEM_LAT_MIN cfg + 1)"

text \<open>One draw: the new generator state and the latency.  A zero span traps in the division.\<close>

definition memlat_draw :: "bus_cfg \<Rightarrow> u64 \<Rightarrow> (u64 \<times> int) option" where
  "memlat_draw cfg s =
     (let s' = memlat_next s
      in if MEM_LAT_SPAN cfg = 0 then None
         else Some (s', MEM_LAT_MIN cfg + sint (ucast (s' mod MEM_LAT_SPAN cfg) :: u32)))"

section \<open>Bus state\<close>

text \<open>What the SoC drives on a lane in one cycle.\<close>

record mem_req =
  rq_valid :: bool
  rq_addr :: u64
  rq_opcode :: u32
  rq_mask :: u16
  rq_store_data :: "u32 list"

text \<open>One lane: its outstanding transaction and the response it drives.\<close>

record lane =
  reply_cyc :: int
  prev_req_valid :: bool
  req_addr :: u64
  req_op :: u32
  req_mask :: u16
  req_sd :: "u32 list"
  req_bad :: bool
  req_is_halt :: bool
  req_phys :: u32
  rsp_valid :: bool
  rsp_bad :: bool
  rsp_load_data :: "u32 list"

record bus =
  g_mem :: mem
  g_ss_mem :: mem
  memlat_state :: u64
  halted :: bool
  g_unaligned_mem_req :: u64
  lane0 :: lane
  lane1 :: lane
  lane1_ops :: "nat \<Rightarrow> u64"

definition lane_init :: "nat \<Rightarrow> lane" where
  "lane_init words = \<lparr>reply_cyc = -1, prev_req_valid = False, req_addr = 0, req_op = 0, req_mask = 0,
     req_sd = replicate words 0, req_bad = False, req_is_halt = False, req_phys = 0,
     rsp_valid = False, rsp_bad = False, rsp_load_data = replicate words 0\<rparr>"

section \<open>Moving bytes\<close>

text \<open>\<^verbatim>\<open>(req_sd[i>>2] >> (8*(i&3))) & 0xff\<close>\<close>

definition sd_byte :: "u32 list \<Rightarrow> nat \<Rightarrow> u8" where
  "sd_byte sd i = ucast (drop_bit (8 * (i mod 4)) (sd ! (i div 4)))"

text \<open>\<^verbatim>\<open>(req_addr + i) & MEM_MASK\<close>\<close>

definition line_off :: "u64 \<Rightarrow> nat \<Rightarrow> nat" where
  "line_off a i = unat ((a + of_nat i) AND MEM_MASK)"

definition load_words :: "mem \<Rightarrow> u64 \<Rightarrow> nat \<Rightarrow> u32 list" where
  "load_words m a n = map (\<lambda>i. le32 m (line_off a (4 * i))) [0..<n]"

text \<open>The store loop: byte \<open>i\<close> of the line, for the bytes \<open>sel\<close> enables.\<close>

definition store_bytes :: "(nat \<Rightarrow> bool) \<Rightarrow> u32 list \<Rightarrow> (nat \<Rightarrow> nat) \<Rightarrow> nat \<Rightarrow> mem \<Rightarrow> mem" where
  "store_bytes sel sd off n m =
     fold (\<lambda>i m. if sel i then m(off i := sd_byte sd i) else m) [0..<n] m"

text \<open>The golden model's memory is reached through \<^verbatim>\<open>sparse_mem::get_raw_ptr\<close>, code of the
  core repository: the parameter \<open>raw\<close>.\<close>

definition mirror_off :: "(u64 \<Rightarrow> nat) \<Rightarrow> u32 \<Rightarrow> nat \<Rightarrow> nat" where
  "mirror_off raw phys i = raw (ucast phys + of_nat i)"

section \<open>Lane 0\<close>

definition lane0_phys :: "bus_cfg \<Rightarrow> mem_req \<Rightarrow> u32" where
  "lane0_phys cfg rq =
     (let phys = tb_phys (rq_addr rq)
      in if phys AND 0xf \<noteq> 0 \<and> axi_align cfg then phys AND NOT 0xf else phys)"

definition lane0_accept :: "bus_cfg \<Rightarrow> nat \<Rightarrow> mem_req \<Rightarrow> bus \<Rightarrow> bus option" where
  "lane0_accept cfg cyc rq b =
     (let l = lane0 b in
      if rq_valid rq \<and> \<not> prev_req_valid l \<and> reply_cyc l = -1 then
        (let phys0 = tb_phys (rq_addr rq);
             phys = lane0_phys cfg rq;
             (addr, bad) = (if FPGA_ADDRESS_MAP then map_prod ucast id (fpga_map phys)
                            else (rq_addr rq AND MEM_MASK, False))
         in map_option (\<lambda>(s, lat). b\<lparr>memlat_state := s,
              g_unaligned_mem_req := g_unaligned_mem_req b + (if phys0 AND 0xf \<noteq> 0 then 1 else 0),
              lane0 := l\<lparr>req_is_halt := (phys0 = HALT_PA), req_phys := phys, req_addr := addr,
                req_bad := bad, req_op := rq_opcode rq, req_mask := rq_mask rq,
                req_sd := map (\<lambda>i. rq_store_data rq ! i) [0..<4],
                reply_cyc := int cyc + (if rq_opcode rq = 4 then lat else 2 * lat)\<rparr>\<rparr>)
            (memlat_draw cfg (memlat_state b)))
      else Some b)"

definition lane0_store :: "bus_cfg \<Rightarrow> (u64 \<Rightarrow> nat) \<Rightarrow> bus \<Rightarrow> bus" where
  "lane0_store cfg raw b =
     (let l = lane0 b; sel = (\<lambda>i. bit (req_mask l) i) in
      b\<lparr>halted := (halted b \<or> (\<exists>i\<in>set [0..<16]. sel i \<and> req_is_halt l \<and> sd_byte (req_sd l) i \<noteq> 0)),
        g_mem := store_bytes sel (req_sd l) (line_off (req_addr l)) 16 (g_mem b),
        g_ss_mem := (if checker cfg
          then store_bytes sel (req_sd l) (mirror_off raw (req_phys l)) 16 (g_ss_mem b)
          else g_ss_mem b)\<rparr>)"

definition lane0_reply :: "bus_cfg \<Rightarrow> (u64 \<Rightarrow> nat) \<Rightarrow> nat \<Rightarrow> bus \<Rightarrow> bus" where
  "lane0_reply cfg raw cyc b =
     (if reply_cyc (lane0 b) = int cyc then
        (let l = lane0 b;
             b = (if req_bad l then b\<lparr>lane0 := l\<lparr>rsp_bad := True\<rparr>\<rparr>
                  else if req_op l = 4
                  then b\<lparr>lane0 := l\<lparr>rsp_load_data := load_words (g_mem b) (req_addr l) 4\<rparr>\<rparr>
                  else if req_op l = 7 then lane0_store cfg raw b
                  else b)
         in b\<lparr>lane0 := (lane0 b)\<lparr>rsp_valid := True, reply_cyc := -1\<rparr>\<rparr>)
      else b)"

definition lane0_cycle :: "bus_cfg \<Rightarrow> (u64 \<Rightarrow> nat) \<Rightarrow> nat \<Rightarrow> mem_req \<Rightarrow> bus \<Rightarrow> bus option" where
  "lane0_cycle cfg raw cyc rq b =
     map_option (\<lambda>b. let b = lane0_reply cfg raw cyc b
                     in b\<lparr>lane0 := (lane0 b)\<lparr>prev_req_valid := rq_valid rq\<rparr>\<rparr>)
       (lane0_accept cfg cyc rq (b\<lparr>lane0 := (lane0 b)\<lparr>rsp_valid := False, rsp_bad := False\<rparr>\<rparr>))"

section \<open>Lane 1\<close>

definition is_burst :: "u32 \<Rightarrow> bool" where
  "is_burst op \<longleftrightarrow> op = 5 \<or> op = 6"

definition lane1_phys :: "mem_req \<Rightarrow> u32" where
  "lane1_phys rq = tb_phys (rq_addr rq) AND (if is_burst (rq_opcode rq) then NOT 0x3f else NOT 0xf)"

definition lane1_accept :: "bus_cfg \<Rightarrow> nat \<Rightarrow> mem_req \<Rightarrow> bus \<Rightarrow> bus option" where
  "lane1_accept cfg cyc rq b =
     (let l = lane1 b in
      if rq_valid rq \<and> \<not> prev_req_valid l \<and> reply_cyc l = -1 then
        (let op = rq_opcode rq;
             k = unat (op AND 7);
             phys = lane1_phys rq;
             (addr, bad) = (if FPGA_ADDRESS_MAP then map_prod ucast id (fpga_map phys)
                            else (rq_addr rq AND MEM_MASK AND (if is_burst op then NOT 0x3f else NOT 0xf), False))
         in map_option (\<lambda>(s, lat). b\<lparr>memlat_state := s,
              lane1_ops := (lane1_ops b)(k := lane1_ops b k + 1),
              lane1 := l\<lparr>req_phys := phys, req_addr := addr, req_bad := bad, req_op := op,
                req_mask := rq_mask rq, req_sd := map (\<lambda>i. rq_store_data rq ! i) [0..<16],
                reply_cyc := int cyc + (if op = 4 \<or> op = 5 then lat else 2 * lat)
                  + (if is_burst op then 3 else 0)\<rparr>\<rparr>)
            (memlat_draw cfg (memlat_state b)))
      else Some b)"

definition lane1_nbytes :: "lane \<Rightarrow> nat" where
  "lane1_nbytes l = (if is_burst (req_op l) then 64 else 16)"

definition lane1_store :: "bus_cfg \<Rightarrow> (u64 \<Rightarrow> nat) \<Rightarrow> bus \<Rightarrow> bus" where
  "lane1_store cfg raw b =
     (let l = lane1 b; n = lane1_nbytes l; sel = (\<lambda>i. is_burst (req_op l) \<or> bit (req_mask l) i) in
      b\<lparr>g_mem := store_bytes sel (req_sd l) (line_off (req_addr l)) n (g_mem b),
        g_ss_mem := (if checker cfg
          then store_bytes sel (req_sd l) (mirror_off raw (req_phys l)) n (g_ss_mem b)
          else g_ss_mem b)\<rparr>)"

definition lane1_load :: "mem \<Rightarrow> lane \<Rightarrow> u32 list" where
  "lane1_load m l = load_words m (req_addr l) (lane1_nbytes l div 4)
     @ replicate (16 - lane1_nbytes l div 4) 0"

definition lane1_reply :: "bus_cfg \<Rightarrow> (u64 \<Rightarrow> nat) \<Rightarrow> nat \<Rightarrow> bus \<Rightarrow> bus" where
  "lane1_reply cfg raw cyc b =
     (if reply_cyc (lane1 b) = int cyc then
        (let l = lane1 b;
             b = (if req_bad l
                  then b\<lparr>lane1 := l\<lparr>rsp_bad := True, rsp_load_data := replicate 16 0xa5a5a5a5\<rparr>\<rparr>
                  else if req_op l = 4 \<or> req_op l = 5
                  then b\<lparr>lane1 := l\<lparr>rsp_load_data := lane1_load (g_mem b) l\<rparr>\<rparr>
                  else if req_op l = 7 \<or> req_op l = 6 then lane1_store cfg raw b
                  else b)
         in b\<lparr>lane1 := (lane1 b)\<lparr>rsp_valid := True, reply_cyc := -1\<rparr>\<rparr>)
      else b)"

definition lane1_cycle :: "bus_cfg \<Rightarrow> (u64 \<Rightarrow> nat) \<Rightarrow> nat \<Rightarrow> mem_req \<Rightarrow> bus \<Rightarrow> bus option" where
  "lane1_cycle cfg raw cyc rq b =
     map_option (\<lambda>b. let b = lane1_reply cfg raw cyc b
                     in b\<lparr>lane1 := (lane1 b)\<lparr>prev_req_valid := rq_valid rq\<rparr>\<rparr>)
       (lane1_accept cfg cyc rq (b\<lparr>lane1 := (lane1 b)\<lparr>rsp_valid := False, rsp_bad := False\<rparr>\<rparr>))"

text \<open>One cycle of servicing: lane 0, then lane 1.\<close>

definition bus_cycle :: "bus_cfg \<Rightarrow> (u64 \<Rightarrow> nat) \<Rightarrow> nat \<Rightarrow> mem_req \<times> mem_req \<Rightarrow> bus \<Rightarrow> bus option" where
  "bus_cycle cfg raw cyc rqs b =
     Option.bind (lane0_cycle cfg raw cyc (fst rqs) b) (lane1_cycle cfg raw cyc (snd rqs))"

section \<open>The generator never sticks\<close>

lemma xor_push_bit_zero:
  assumes "0 < k" and "(x :: u64) XOR push_bit k x = 0"
  shows "x = 0"
proof (rule bit_word_eqI)
  fix n assume n: "n < LENGTH(64)"
  have step: "bit x i \<longleftrightarrow> k \<le> i \<and> bit x (i - k)" if "i < LENGTH(64)" for i
    using arg_cong [OF assms(2), of "\<lambda>w. bit w i"] that by (auto simp: bit_xor_iff bit_push_bit_iff)
  have "\<not> bit x n" using n
  proof (induction n rule: less_induct)
    case (less n)
    then show ?case using step [of n] assms(1) by (cases "k \<le> n") auto
  qed
  then show "bit x n \<longleftrightarrow> bit 0 n" by simp
qed

lemma xor_drop_bit_zero:
  assumes "0 < k" and "(x :: u64) XOR drop_bit k x = 0"
  shows "x = 0"
proof (rule bit_word_eqI)
  fix n assume "n < LENGTH(64)"
  have step: "bit x i \<longleftrightarrow> bit x (k + i)" for i
    using arg_cong [OF assms(2), of "\<lambda>w. bit w i"] by (auto simp: bit_xor_iff bit_drop_bit_eq)
  have "\<not> bit x n"
  proof (induction "64 - n" arbitrary: n rule: less_induct)
    case less
    show ?case
    proof (cases "n < 64")
      case True
      then have "\<not> bit x (k + n)" using assms(1) by (intro less) linarith
      then show ?thesis using step by blast
    next
      case False
      then show ?thesis by (simp add: bit_word_ge)
    qed
  qed
  then show "bit x n \<longleftrightarrow> bit 0 n" by simp
qed

lemma memlat_next_eq_0: "memlat_next s = 0 \<longleftrightarrow> s = 0"
proof
  define s1 where "s1 = s XOR push_bit 13 s"
  define s2 where "s2 = s1 XOR drop_bit 7 s1"
  assume "memlat_next s = 0"
  then have "s2 XOR push_bit 17 s2 = 0" by (simp only: memlat_next_def Let_def s1_def s2_def)
  then have "s2 = 0" by (rule xor_push_bit_zero [rotated]) simp
  then have "s1 = 0" unfolding s2_def by (rule xor_drop_bit_zero [rotated]) simp
  then show "s = 0" unfolding s1_def by (rule xor_push_bit_zero [rotated]) simp
qed (simp add: memlat_next_def)

definition lat_ok :: "bus_cfg \<Rightarrow> bool" where
  "lat_ok cfg \<longleftrightarrow> 0 \<le> MEM_LAT_MIN cfg \<and> MEM_LAT_MIN cfg \<le> MEM_LAT_MAX cfg \<and> MEM_LAT_MAX cfg < 2147483647"

lemma memlat_draw_bounds:
  assumes "lat_ok cfg"
  obtains lat where "memlat_draw cfg s = Some (memlat_next s, lat)"
    and "MEM_LAT_MIN cfg \<le> lat" and "lat \<le> MEM_LAT_MAX cfg"
proof -
  define d where "d = MEM_LAT_MAX cfg - MEM_LAT_MIN cfg + 1"
  have d: "0 < d" "d < 2147483648" using assms by (auto simp: d_def lat_ok_def)
  have us: "unat (MEM_LAT_SPAN cfg) = nat d"
    using d by (simp add: MEM_LAT_SPAN_def d_def [symmetric] unsigned_of_int take_bit_int_eq_self)
  then have sp: "MEM_LAT_SPAN cfg \<noteq> 0" using d by auto
  define x where "x = memlat_next s mod MEM_LAT_SPAN cfg"
  have "unat x < nat d"
    using us d by (simp add: x_def unat_mod_distrib)
  moreover from this have "unat (ucast x :: u32) = unat x"
    using d by (simp add: unsigned_ucast_eq take_bit_nat_eq_self)
  ultimately have "unat (ucast x :: u32) < nat d" by simp
  then have "0 \<le> sint (ucast x :: u32)" "sint (ucast x :: u32) < d"
    using d sint_u32_small [of "ucast x"] by linarith+
  then show ?thesis
    using that sp by (auto simp: memlat_draw_def Let_def x_def d_def)
qed

fun memlat_iter :: "nat \<Rightarrow> u64 \<Rightarrow> u64" where
  "memlat_iter 0 s = s"
| "memlat_iter (Suc n) s = memlat_iter n (memlat_next s)"

lemma memlat_iter_nonzero: "s \<noteq> 0 \<Longrightarrow> memlat_iter n s \<noteq> 0"
  by (induction n arbitrary: s) (simp_all add: memlat_next_eq_0)

lemma memlat_iter_next: "memlat_next (memlat_iter n s) = memlat_iter (Suc n) s"
  by (induction n arbitrary: s) simp_all

text \<open>
  Whatever the seed, the latency generator never reaches its absorbing state 0, and
  with a latency range \<open>0 \<le> min \<le> max\<close> every draw succeeds with a latency inside it.
\<close>

theorem memlat_sound:
  assumes "lat_ok cfg"
  shows "memlat_iter n (memlat_seed seed) \<noteq> 0 \<and>
    (\<exists>lat. memlat_draw cfg (memlat_iter n (memlat_seed seed)) = Some (memlat_iter (Suc n) (memlat_seed seed), lat)
       \<and> MEM_LAT_MIN cfg \<le> lat \<and> lat \<le> MEM_LAT_MAX cfg)"
proof -
  have "memlat_seed seed \<noteq> 0"
    using unat_u32_bound [of seed]
    by (simp add: memlat_seed_def word_unat_eq_iff unsigned_ucast_eq take_bit_nat_eq_self)
  moreover obtain lat where "memlat_draw cfg (memlat_iter n (memlat_seed seed))
      = Some (memlat_next (memlat_iter n (memlat_seed seed)), lat)"
    "MEM_LAT_MIN cfg \<le> lat" "lat \<le> MEM_LAT_MAX cfg"
    using assms by (rule memlat_draw_bounds)
  ultimately show ?thesis by (simp add: memlat_iter_nonzero memlat_iter_next del: memlat_iter.simps)
qed

definition default_cfg :: "bool \<Rightarrow> bus_cfg" where
  "default_cfg chk = \<lparr>MEM_LAT_MIN = 1, MEM_LAT_MAX = 16, axi_align = False, checker = chk\<rparr>"

lemma lat_ok_default [simp]: "lat_ok (default_cfg chk)"
  by (simp add: lat_ok_def default_cfg_def)

theorem memlat_sound_witness:
  "lat_ok (default_cfg True) \<and> memlat_iter 3 (memlat_seed 1) \<noteq> 0"
  using memlat_sound [of "default_cfg True" 3 1] by simp

section \<open>Answering a request\<close>

text \<open>
  The contract both lanes give the SoC: while a transaction is outstanding the lane stays
  silent and keeps its due cycle; in that cycle it answers and becomes free.
\<close>

locale one_outstanding =
  fixes ok :: "'c \<Rightarrow> bool"
    and step :: "'c \<Rightarrow> nat \<Rightarrow> 'i \<Rightarrow> 's \<Rightarrow> 's option"
    and due :: "'s \<Rightarrow> int" and rsp :: "'s \<Rightarrow> bool"
  assumes step_total: "ok c \<Longrightarrow> \<exists>s'. step c cyc i s = Some s'"
    and step_wait: "step c cyc i s = Some s' \<Longrightarrow> due s \<noteq> -1 \<Longrightarrow> due s \<noteq> int cyc \<Longrightarrow>
      due s' = due s \<and> \<not> rsp s'"
    and step_reply: "step c cyc i s = Some s' \<Longrightarrow> due s = int cyc \<Longrightarrow> due s' = -1 \<and> rsp s'"
begin

lemma run_total: "ok c \<Longrightarrow> \<exists>s'. run_from (step c) cyc is s = Some s'"
proof (induction "is" arbitrary: cyc s)
  case (Cons i "is")
  from step_total [OF Cons.prems] obtain t where "step c cyc i s = Some t" by blast
  with Cons show ?case by auto
qed simp

lemma silent_until_due:
  "run_from (step c) cyc is s = Some s' \<Longrightarrow> due s = int (cyc + k) \<Longrightarrow> length is \<le> k \<Longrightarrow>
     due s' = due s \<and> (is \<noteq> [] \<longrightarrow> \<not> rsp s')"
proof (induction "is" arbitrary: cyc s k)
  case (Cons i "is")
  then obtain t where t: "step c cyc i s = Some t" "run_from (step c) (Suc cyc) is t = Some s'"
    by (auto simp: bind_eq_Some_conv)
  from Cons.prems obtain j where j: "k = Suc j" by (cases k) auto
  have d: "due t = due s \<and> \<not> rsp t"
    using step_wait [OF t(1)] Cons.prems(2) j by simp
  then have "due t = int (Suc cyc + j)" using Cons.prems(2) j by simp
  then have "due s' = due t \<and> (is \<noteq> [] \<longrightarrow> \<not> rsp s')" using Cons.IH t(2) Cons.prems(3) j by simp
  then show ?case using d t(2) by (cases "is") auto
qed simp

lemma answered_exactly_at_due:
  assumes "ok c" "due s = int (cyc + k)" "length is = k"
  shows "\<exists>t u. run_from (step c) cyc is s = Some t \<and> (is \<noteq> [] \<longrightarrow> \<not> rsp t) \<and>
    step c (cyc + k) i t = Some u \<and> rsp u \<and> due u = -1"
proof -
  obtain t where t: "run_from (step c) cyc is s = Some t" using run_total [OF assms(1)] by blast
  from silent_until_due [OF t assms(2)] assms(3) have d: "due t = int (cyc + k)" "is \<noteq> [] \<longrightarrow> \<not> rsp t"
    using assms(2) by auto
  obtain u where u: "step c (cyc + k) i t = Some u" using step_total [OF assms(1)] by blast
  from step_reply [OF u d(1)] show ?thesis using t d(2) u by blast
qed

end

lemma lane0_accept_total: "lat_ok cfg \<Longrightarrow> \<exists>b'. lane0_accept cfg cyc rq b = Some b'"
proof -
  assume "lat_ok cfg"
  then obtain lat where "memlat_draw cfg (memlat_state b) = Some (memlat_next (memlat_state b), lat)"
    by (rule memlat_draw_bounds)
  then show ?thesis by (simp add: lane0_accept_def Let_def case_prod_unfold)
qed

lemma lane1_accept_total: "lat_ok cfg \<Longrightarrow> \<exists>b'. lane1_accept cfg cyc rq b = Some b'"
proof -
  assume "lat_ok cfg"
  then obtain lat where "memlat_draw cfg (memlat_state b) = Some (memlat_next (memlat_state b), lat)"
    by (rule memlat_draw_bounds)
  then show ?thesis by (simp add: lane1_accept_def Let_def case_prod_unfold)
qed

text \<open>What acceptance and answering do to the registers of both lanes.\<close>

lemma lane0_accept_frame:
  "lane0_accept cfg cyc rq b = Some b' \<Longrightarrow> lane1 b' = lane1 b \<and> g_mem b' = g_mem b \<and>
     g_ss_mem b' = g_ss_mem b \<and> halted b' = halted b \<and> rsp_valid (lane0 b') = rsp_valid (lane0 b)"
  by (cases "memlat_draw cfg (memlat_state b)")
     (auto simp: lane0_accept_def Let_def case_prod_unfold simp del: upt_rec_numeral split: if_splits)

lemma lane1_accept_frame:
  "lane1_accept cfg cyc rq b = Some b' \<Longrightarrow> lane0 b' = lane0 b \<and> g_mem b' = g_mem b \<and>
     g_ss_mem b' = g_ss_mem b \<and> halted b' = halted b \<and> rsp_valid (lane1 b') = rsp_valid (lane1 b)"
  by (cases "memlat_draw cfg (memlat_state b)")
     (auto simp: lane1_accept_def Let_def case_prod_unfold simp del: upt_rec_numeral split: if_splits)

lemma lane0_accept_busy: "reply_cyc (lane0 b) \<noteq> -1 \<Longrightarrow> lane0_accept cfg cyc rq b = Some b"
  by (simp add: lane0_accept_def Let_def)

lemma lane1_accept_busy: "reply_cyc (lane1 b) \<noteq> -1 \<Longrightarrow> lane1_accept cfg cyc rq b = Some b"
  by (simp add: lane1_accept_def Let_def)

lemma lane0_store_frame [simp]: "lane0 (lane0_store cfg raw b) = lane0 b" "lane1 (lane0_store cfg raw b) = lane1 b"
  by (simp_all add: lane0_store_def Let_def)

lemma lane1_store_frame [simp]: "lane0 (lane1_store cfg raw b) = lane0 b" "lane1 (lane1_store cfg raw b) = lane1 b"
  by (simp_all add: lane1_store_def Let_def)

lemma lane0_reply_frame:
  "lane1 (lane0_reply cfg raw cyc b) = lane1 b"
  "reply_cyc (lane0 (lane0_reply cfg raw cyc b)) = (if reply_cyc (lane0 b) = int cyc then -1 else reply_cyc (lane0 b))"
  "rsp_valid (lane0 (lane0_reply cfg raw cyc b)) \<longleftrightarrow> reply_cyc (lane0 b) = int cyc \<or> rsp_valid (lane0 b)"
  by (simp_all add: lane0_reply_def Let_def)

lemma lane1_reply_frame:
  "lane0 (lane1_reply cfg raw cyc b) = lane0 b"
  "reply_cyc (lane1 (lane1_reply cfg raw cyc b)) = (if reply_cyc (lane1 b) = int cyc then -1 else reply_cyc (lane1 b))"
  "rsp_valid (lane1 (lane1_reply cfg raw cyc b)) \<longleftrightarrow> reply_cyc (lane1 b) = int cyc \<or> rsp_valid (lane1 b)"
  by (simp_all add: lane1_reply_def Let_def)

lemma lane0_cycle_lane1: "lane0_cycle cfg raw cyc rq b = Some b' \<Longrightarrow> lane1 b' = lane1 b"
  by (auto simp: lane0_cycle_def Let_def lane0_reply_frame dest: lane0_accept_frame)

lemma lane1_cycle_lane0: "lane1_cycle cfg raw cyc rq b = Some b' \<Longrightarrow> lane0 b' = lane0 b"
  by (auto simp: lane1_cycle_def Let_def lane1_reply_frame dest: lane1_accept_frame)

lemma lane0_busy:
  assumes "lane0_cycle cfg raw cyc rq b = Some b'" and "reply_cyc (lane0 b) \<noteq> -1"
  shows "reply_cyc (lane0 b') = (if reply_cyc (lane0 b) = int cyc then -1 else reply_cyc (lane0 b))"
    and "rsp_valid (lane0 b') \<longleftrightarrow> reply_cyc (lane0 b) = int cyc"
  using assms by (auto simp: lane0_cycle_def lane0_accept_busy Let_def lane0_reply_frame)

lemma lane1_busy:
  assumes "lane1_cycle cfg raw cyc rq b = Some b'" and "reply_cyc (lane1 b) \<noteq> -1"
  shows "reply_cyc (lane1 b') = (if reply_cyc (lane1 b) = int cyc then -1 else reply_cyc (lane1 b))"
    and "rsp_valid (lane1 b') \<longleftrightarrow> reply_cyc (lane1 b) = int cyc"
  using assms by (auto simp: lane1_cycle_def lane1_accept_busy Let_def lane1_reply_frame)

lemma bus_cycle_split:
  assumes "bus_cycle cfg raw cyc rqs b = Some b'"
  obtains b1 where "lane0_cycle cfg raw cyc (fst rqs) b = Some b1"
    and "lane1_cycle cfg raw cyc (snd rqs) b1 = Some b'"
    and "lane1 b1 = lane1 b" and "lane0 b' = lane0 b1"
  using assms lane0_cycle_lane1 lane1_cycle_lane0
  by (auto simp: bus_cycle_def bind_eq_Some_conv)

lemma bus_cycle_total: "lat_ok cfg \<Longrightarrow> \<exists>b'. bus_cycle cfg raw cyc rqs b = Some b'"
proof -
  assume ok: "lat_ok cfg"
  obtain b1 where b1: "lane0_cycle cfg raw cyc (fst rqs) b = Some b1"
    using lane0_accept_total [OF ok] by (fastforce simp: lane0_cycle_def)
  moreover obtain b2 where "lane1_cycle cfg raw cyc (snd rqs) b1 = Some b2"
    using lane1_accept_total [OF ok] by (fastforce simp: lane1_cycle_def)
  ultimately show ?thesis by (simp add: bus_cycle_def)
qed

interpretation cpu_lane: one_outstanding "\<lambda>(cfg, raw). lat_ok cfg"
  "\<lambda>(cfg, raw). bus_cycle cfg raw" "\<lambda>b. reply_cyc (lane0 b)" "\<lambda>b. rsp_valid (lane0 b)"
  by unfold_locales
     (auto simp: bus_cycle_total lane0_busy elim!: bus_cycle_split split: prod.splits)

interpretation dma_lane: one_outstanding "\<lambda>(cfg, raw). lat_ok cfg"
  "\<lambda>(cfg, raw). bus_cycle cfg raw" "\<lambda>b. reply_cyc (lane1 b)" "\<lambda>b. rsp_valid (lane1 b)"
  by unfold_locales
     (auto simp: bus_cycle_total lane1_busy elim!: bus_cycle_split split: prod.splits)

text \<open>An idle lane that sees a rising edge schedules its answer.\<close>

lemma lane0_schedules:
  assumes "lat_ok cfg" "rq_valid rq" "\<not> prev_req_valid (lane0 b)" "reply_cyc (lane0 b) = -1"
    and "1 \<le> MEM_LAT_MIN cfg"
  obtains b' k where "lane0_cycle cfg raw cyc rq b = Some b'" "reply_cyc (lane0 b') = int (cyc + k)"
    "\<not> rsp_valid (lane0 b')" "1 \<le> k" "int k \<le> 2 * MEM_LAT_MAX cfg"
proof -
  obtain lat where lat: "memlat_draw cfg (memlat_state b) = Some (memlat_next (memlat_state b), lat)"
    "MEM_LAT_MIN cfg \<le> lat" "lat \<le> MEM_LAT_MAX cfg"
    using memlat_draw_bounds [OF assms(1)] by metis
  define k where "k = nat (if rq_opcode rq = 4 then lat else 2 * lat)"
  have k: "1 \<le> k" "int k = (if rq_opcode rq = 4 then lat else 2 * lat)" "int k \<le> 2 * MEM_LAT_MAX cfg"
    using lat(2,3) assms(5) by (auto simp: k_def)
  obtain b1 where b1: "lane0_accept cfg cyc rq (b\<lparr>lane0 := (lane0 b)\<lparr>rsp_valid := False, rsp_bad := False\<rparr>\<rparr>) = Some b1"
    using lane0_accept_total [OF assms(1)] by blast
  then have r: "reply_cyc (lane0 b1) = int cyc + int k" "\<not> rsp_valid (lane0 b1)"
    using assms(2-4) lat(1) k(2)
    by (auto simp: lane0_accept_def Let_def case_prod_unfold simp del: upt_rec_numeral)
  then have "\<not> rsp_valid (lane0 (lane0_reply cfg raw cyc b1))"
    "reply_cyc (lane0 (lane0_reply cfg raw cyc b1)) = int (cyc + k)"
    using k(1) by (simp_all add: lane0_reply_frame)
  with k b1 show ?thesis
    by (intro that [of "(lane0_reply cfg raw cyc b1)\<lparr>lane0 :=
          (lane0 (lane0_reply cfg raw cyc b1))\<lparr>prev_req_valid := rq_valid rq\<rparr>\<rparr>" k])
       (simp_all add: lane0_cycle_def Let_def del: of_nat_add)
qed


definition bus_init :: "u32 \<Rightarrow> bus" where
  "bus_init seed = \<lparr>g_mem = (\<lambda>_. 0), g_ss_mem = (\<lambda>_. 0), memlat_state = memlat_seed seed, halted = False,
     g_unaligned_mem_req = 0, lane0 = lane_init 4, lane1 = lane_init 16, lane1_ops = (\<lambda>_. 0)\<rparr>"

definition sample_req :: mem_req where
  "sample_req = \<lparr>rq_valid = True, rq_addr = 0x08001000, rq_opcode = 4, rq_mask = 0xffff,
     rq_store_data = replicate 16 0\<rparr>"


section \<open>What a store leaves behind\<close>

lemma store_bytes_Suc:
  "store_bytes sel sd off (Suc n) m =
     (if sel n then (store_bytes sel sd off n m)(off n := sd_byte sd n) else store_bytes sel sd off n m)"
  by (simp add: store_bytes_def)

lemma store_bytes_0 [simp]: "store_bytes sel sd off 0 m = m"
  by (simp add: store_bytes_def)

lemma store_bytes_miss [mem_simps]:
  "(\<And>i. i < n \<Longrightarrow> off i \<noteq> a) \<Longrightarrow> store_bytes sel sd off n m a = m a"
  by (induction n) (auto simp: store_bytes_Suc)

lemma store_bytes_hit [mem_simps]:
  "inj_on off {..<n} \<Longrightarrow> i < n \<Longrightarrow>
     store_bytes sel sd off n m (off i) = (if sel i then sd_byte sd i else m (off i))"
proof (induction n)
  case (Suc n)
  have inj: "inj_on off {..<n}" using Suc.prems(1) by (rule inj_on_subset) auto
  show ?case
  proof (cases "i = n")
    case True
    have "off j \<noteq> off n" if "j < n" for j using Suc.prems(1) that by (auto simp: inj_on_def)
    then show ?thesis using True by (simp add: store_bytes_Suc store_bytes_miss)
  next
    case False
    then have "off i \<noteq> off n" using Suc.prems by (auto simp: inj_on_def)
    then show ?thesis using False Suc.IH [OF inj] Suc.prems(2) by (simp add: store_bytes_Suc)
  qed
qed simp

lemma line_off_in_range:
  assumes "unat a + i < 0x20000000"
  shows "line_off a i = unat a + i"
proof -
  have m: "(w :: u64) AND MEM_MASK = take_bit 29 w" for w
    unfolding MEM_MASK_def by (rule and_numeral_mask) (simp add: mask_eq_exp_minus_1)
  have "unat (of_nat i :: u64) = i" using assms by (simp add: unat_of_nat take_bit_eq_mod)
  then have "unat (a + of_nat i) = unat a + i" using assms by (simp add: unat_word_ariths)
  then show ?thesis using assms by (simp add: line_off_def m unat_take_bit_mod)
qed

lemma line_off_eq: "line_off a i = (unat a + i) mod 0x20000000"
proof -
  have m: "(w :: u64) AND MEM_MASK = take_bit 29 w" for w
    unfolding MEM_MASK_def by (rule and_numeral_mask) (simp add: mask_eq_exp_minus_1)
  have "(unat a + i mod 2 ^ 64) mod 2 ^ 64 mod 2 ^ 29 = (unat a + i) mod 2 ^ (29::nat)"
    by (simp add: mod_mod_cancel mod_simps)
  then show ?thesis by (simp add: line_off_def m unat_take_bit_mod unat_word_ariths unat_of_nat take_bit_eq_mod)
qed

lemma line_off_neq: "i < j \<Longrightarrow> j < 0x20000000 \<Longrightarrow> line_off a i \<noteq> line_off a j"
proof
  assume ij: "i < j" "j < 0x20000000" and "line_off a i = line_off a j"
  then have "0x20000000 dvd (unat a + j) - (unat a + i)"
    by (subst mod_eq_dvd_iff_nat [symmetric]) (simp_all add: line_off_eq)
  then show False using ij by (auto dest: dvd_imp_le)
qed

lemma inj_line_off: "n \<le> 0x20000000 \<Longrightarrow> inj_on (line_off a) {..<n}"
  by (intro linorder_inj_onI) (auto simp: line_off_neq)

lemma line_off_next:
  assumes "unat a mod 4 = 0" "k < 4"
  shows "line_off a (4 * j) + k = line_off a (4 * j + k)"
proof -
  define x where "x = (unat a + 4 * j) mod 0x20000000"
  have "(unat a + 4 * j) mod 4 = 0" using assms(1) by presburger
  moreover have "x mod 4 = (unat a + 4 * j) mod 4" unfolding x_def by (rule mod_mod_cancel) simp
  ultimately have "x mod 4 = 0" by simp
  moreover have "x < 0x20000000" unfolding x_def by simp
  ultimately have "x + k < 0x20000000" using assms(2) by presburger
  moreover have "(unat a + (4 * j + k)) mod 0x20000000 = (x + k) mod 0x20000000"
    unfolding x_def by (simp add: mod_simps add.assoc)
  ultimately show ?thesis by (simp add: line_off_eq x_def)
qed

lemma le32_byte:
  assumes "k < 4"
  shows "ucast (drop_bit (8 * k) (le32 m p)) = m (p + k)"
proof -
  have "k = 0 \<or> k = 1 \<or> k = 2 \<or> k = 3" using assms by auto
  then show ?thesis
    by (elim disjE; intro bit_word_eqI)
       (auto simp: le32_def bit_ucast_iff bit_drop_bit_eq bit_or_iff bit_push_bit_iff bit_word_ge)
qed

lemma load_words_byte:
  assumes "unat a mod 4 = 0" "i < 4 * n"
  shows "sd_byte (load_words m a n) i = m (line_off a i)"
proof -
  have "i div 4 < n" using assms(2) by linarith
  moreover have "line_off a (4 * (i div 4)) + i mod 4 = line_off a i"
    using line_off_next [OF assms(1), of "i mod 4" "i div 4"] by simp
  ultimately show ?thesis by (simp add: sd_byte_def load_words_def le32_byte)
qed

section \<open>A store, then a load of the same line\<close>

text \<open>The same lane asked to load the line it last stored.\<close>

definition reload :: "nat \<Rightarrow> bus \<Rightarrow> bus" where
  "reload cyc b = b\<lparr>lane0 := (lane0 b)\<lparr>req_op := 4, reply_cyc := int cyc\<rparr>\<rparr>"

text \<open>
  C1.  A line load after a masked store to the same line returns, byte for byte, the stored
  data where the mask enables it and the old memory elsewhere.
\<close>

theorem store_load_roundtrip:
  assumes "reply_cyc (lane0 b) = int cyc" and "req_op (lane0 b) = 7" and "\<not> req_bad (lane0 b)"
    and "unat (req_addr (lane0 b)) mod 4 = 0" and "i < 16"
  shows "sd_byte (rsp_load_data (lane0 (lane0_reply cfg raw cyc' (reload cyc' (lane0_reply cfg raw cyc b))))) i
    = (if bit (req_mask (lane0 b)) i then sd_byte (req_sd (lane0 b)) i
       else g_mem b (line_off (req_addr (lane0 b)) i))"
proof -
  let ?l = "lane0 b"
  let ?m = "store_bytes (bit (req_mask ?l)) (req_sd ?l) (line_off (req_addr ?l)) 16 (g_mem b)"
  have "rsp_load_data (lane0 (lane0_reply cfg raw cyc' (reload cyc' (lane0_reply cfg raw cyc b))))
      = load_words ?m (req_addr ?l) 4"
    using assms(1-3) by (simp add: lane0_reply_def reload_def lane0_store_def Let_def del: upt_rec_numeral)
  then show ?thesis
    using assms(4,5) by (simp add: load_words_byte store_bytes_hit inj_line_off)
qed

definition store_bus :: bus where
  "store_bus = (bus_init 1)\<lparr>lane0 := (lane_init 4)\<lparr>reply_cyc := 9, req_op := 7, req_mask := 0xf0f0,
     req_addr := 0x1000, req_sd := [1, 2, 3, 4]\<rparr>\<rparr>"

theorem store_load_roundtrip_witness:
  "sd_byte (rsp_load_data (lane0 (lane0_reply (default_cfg True) unat 20
     (reload 20 (lane0_reply (default_cfg True) unat 9 store_bus))))) 4 = 2 \<and>
   sd_byte (rsp_load_data (lane0 (lane0_reply (default_cfg True) unat 20
     (reload 20 (lane0_reply (default_cfg True) unat 9 store_bus))))) 8 = 0"
proof -
  have h: "reply_cyc (lane0 store_bus) = int 9" "req_op (lane0 store_bus) = 7" "\<not> req_bad (lane0 store_bus)"
    "unat (req_addr (lane0 store_bus)) mod 4 = 0"
    by (simp_all add: store_bus_def lane_init_def)
  have "bit (0xf0f0 :: u16) 4" "\<not> bit (0xf0f0 :: u16) 8" by simp_all
  then show ?thesis
    using store_load_roundtrip [OF h, of 4] store_load_roundtrip [OF h, of 8]
    by (simp add: store_bus_def bus_init_def lane_init_def sd_byte_def)
qed

section \<open>The golden model's memory follows the bus\<close>

text \<open>Guest memory proper: every 29-bit address except the reserved region below 128 MB.\<close>

definition guest_pa :: "u32 \<Rightarrow> bool" where
  "guest_pa p \<longleftrightarrow> 0x08000000 \<le> unat p \<and> unat p < 0x20000000"

definition mirror_ok :: "(u64 \<Rightarrow> nat) \<Rightarrow> mem \<Rightarrow> mem \<Rightarrow> bool" where
  "mirror_ok raw ss m \<longleftrightarrow> (\<forall>p. guest_pa p \<longrightarrow> ss (raw (ucast p)) = m (unat (fst (fpga_map p))))"

text \<open>A pending request: its DRAM offset is the map of its guest address, on a line boundary.\<close>

definition lane_wf :: "nat \<Rightarrow> lane \<Rightarrow> bool" where
  "lane_wf n l \<longleftrightarrow> reply_cyc l \<noteq> -1 \<longrightarrow> guest_pa (req_phys l) \<and> unat (req_phys l) mod n = 0 \<and>
     req_addr l = ucast (fst (fpga_map (req_phys l)))"

definition bus_coherent :: "(u64 \<Rightarrow> nat) \<Rightarrow> bus \<Rightarrow> bool" where
  "bus_coherent raw b \<longleftrightarrow> mirror_ok raw (g_ss_mem b) (g_mem b) \<and> lane_wf 16 (lane0 b) \<and>
     lane_wf (lane1_nbytes (lane1 b)) (lane1 b)"

lemma guest_pa_add:
  assumes "guest_pa p" "unat p mod n = 0" "n dvd 64" "i < n"
  shows "guest_pa (p + of_nat i)" "unat (p + of_nat i) = unat p + i" "unat p mod 16777216 + i < 16777216"
proof -
  obtain c where c: "64 = n * c" using assms(3) by (rule dvdE)
  have "n \<le> 64" using assms(3) by (auto dest: dvd_imp_le)
  have d: "n dvd 16777216" "n dvd 0x20000000"
    by (rule dvd_trans [OF assms(3)], simp)+
  have "(unat p mod 16777216) mod n = 0" using assms(2) d(1) by (simp add: mod_mod_cancel)
  then have "n dvd 16777216 - unat p mod 16777216"
    using d(1) by (intro dvd_diff_nat) (simp_all add: mod_eq_0_iff_dvd)
  then have "n \<le> 16777216 - unat p mod 16777216" by (rule dvd_imp_le) simp
  then show s: "unat p mod 16777216 + i < 16777216" using assms(4) by linarith
  show u: "unat (p + of_nat i) = unat p + i" by (rule unat_add_in_segment [OF s])
  have "n dvd 0x20000000 - unat p"
    using d(2) assms(2) by (intro dvd_diff_nat) (simp_all add: mod_eq_0_iff_dvd)
  then have "n \<le> 0x20000000 - unat p" using assms(1) by (intro dvd_imp_le) (auto simp: guest_pa_def)
  then show "guest_pa (p + of_nat i)" using assms(1,4) u by (auto simp: guest_pa_def)
qed

lemma mirror_ok_byte:
  assumes "inj_on raw {a. unat a < 0x20000000}" "mirror_ok raw ss m" "guest_pa p"
  shows "mirror_ok raw (ss(raw (ucast p) := v)) (m(unat (fst (fpga_map p)) := v))"
proof -
  have "q = p" if "guest_pa q" "raw (ucast q) = raw (ucast p)" for q
  proof -
    have "(ucast q :: u64) = ucast p"
      using that assms(3) by (intro inj_onD [OF assms(1)]) (auto simp: guest_pa_def)
    then have "unat (ucast q :: u64) = unat (ucast p :: u64)" by simp
    then show ?thesis by (simp add: word_unat_eq_iff)
  qed
  moreover have "q = p" if "guest_pa q" "unat (fst (fpga_map q)) = unat (fst (fpga_map p))" for q
    using that assms(3) by (intro fpga_map_inj) (auto simp: guest_pa_def)
  ultimately show ?thesis using assms(2,3) by (auto simp: mirror_ok_def)
qed

lemma mirror_ok_store:
  assumes "inj_on raw {a. unat a < 0x20000000}" "mirror_ok raw ss m"
    and "guest_pa p" "unat p mod n = 0" "n dvd 64" "k \<le> n"
  shows "mirror_ok raw (store_bytes sel sd (mirror_off raw p) k ss)
    (store_bytes sel sd (line_off (ucast (fst (fpga_map p)))) k m)"
  using assms(6)
proof (induction k)
  case (Suc k)
  note g = guest_pa_add [OF assms(3-5), of k]
  have k: "k < n" using Suc.prems by simp
  have f: "unat (fst (fpga_map (p + of_nat k))) = unat (fst (fpga_map p)) + k"
    by (rule fpga.unat_decode_add [OF g(3) [OF k]])
  have "unat (fst (fpga_map (p + of_nat k))) < 0x20000000"
    using fpga_map_in_range [of "p + of_nat k"] g(1) [OF k] by (simp add: fpga_bad_iff guest_pa_def MEM_SIZE_def)
  then have o1: "line_off (ucast (fst (fpga_map p))) k = unat (fst (fpga_map (p + of_nat k)))"
    using f by (simp add: line_off_in_range)
  have "k < 64" using k dvd_imp_le [OF assms(5)] by simp
  then have "unat (of_nat k :: u64) = k" by (simp add: unat_of_nat take_bit_eq_mod)
  then have "(ucast p + of_nat k :: u64) = ucast (p + of_nat k)"
    using g(2) [OF k] unat_u32_bound [of p] \<open>k < 64\<close>
    by (simp add: word_unat_eq_iff unat_word_ariths)
  then have o2: "mirror_off raw p k = raw (ucast (p + of_nat k))" by (simp add: mirror_off_def)
  show ?case
    using Suc.IH [OF Suc_leD [OF Suc.prems]] mirror_ok_byte [OF assms(1) _ g(1) [OF k]]
    by (simp only: store_bytes_Suc o1 o2 split: if_split) simp
qed (simp add: assms(2))

text \<open>A request the invariant covers: into guest memory, and on a line boundary or aligned by
  the AXI option.\<close>

definition req_ok :: "bus_cfg \<Rightarrow> mem_req \<Rightarrow> bool" where
  "req_ok cfg rq \<longleftrightarrow> rq_valid rq \<longrightarrow> guest_pa (tb_phys (rq_addr rq)) \<and>
     (axi_align cfg \<or> tb_phys (rq_addr rq) AND 0xf = 0)"

lemma unat_and_not_mask:
  "unat (p AND NOT (mask n :: 'a::len word)) = unat p - unat p mod 2 ^ n"
proof -
  have "p AND NOT (mask n) = push_bit n (drop_bit n p)"
    by (rule bit_word_eqI) (auto simp: bit_simps)
  also have "\<dots> = p - take_bit n p" using bits_ident [of n p] by (simp add: algebra_simps)
  finally show ?thesis
    by (simp add: unat_sub word_le_nat_alt unat_take_bit_mod)
qed

lemma line_aligned:
  assumes "guest_pa p" "n \<le> 6"
  shows "guest_pa (p AND NOT (mask n))" "unat (p AND NOT (mask n)) mod 2 ^ n = 0"
proof -
  let ?q = "p AND NOT (mask n)"
  have u: "unat ?q = unat p - unat p mod 2 ^ n" by (rule unat_and_not_mask)
  then show "unat ?q mod 2 ^ n = 0" by (metis minus_mod_eq_mult_div mod_mult_self1_is_0)
  have "(2::nat) ^ n dvd 2 ^ 27" using assms(2) by (intro le_imp_power_dvd) simp
  then have "0x08000000 mod (2::nat) ^ n = 0" by (simp add: mod_eq_0_iff_dvd)
  then have "0x08000000 \<le> unat p div 2 ^ n * 2 ^ n"
    using assms(1) div_le_mono [of "0x08000000" "unat p" "2 ^ n"]
    by (metis guest_pa_def mult_le_mono1 minus_mod_eq_div_mult diff_zero)
  then show "guest_pa ?q"
    using assms(1) u div_times_less_eq_dividend [of "unat p" "2 ^ n"]
    by (simp add: guest_pa_def minus_mod_eq_div_mult del: div_times_less_eq_dividend)
qed

lemma lane0_phys_ok:
  assumes "req_ok cfg rq" "rq_valid rq"
  shows "guest_pa (lane0_phys cfg rq)" "unat (lane0_phys cfg rq) mod 16 = 0"
proof -
  let ?p = "tb_phys (rq_addr rq)"
  have m: "(0xf :: u32) = mask 4" by (simp add: mask_eq_exp_minus_1)
  have "guest_pa (lane0_phys cfg rq) \<and> unat (lane0_phys cfg rq) mod 16 = 0"
  proof (cases "?p AND 0xf = 0")
    case True
    then have "take_bit 4 ?p = 0" by (simp add: m take_bit_eq_mask)
    then have "unat ?p mod 16 = 0" using unat_take_bit_mod [of 4 ?p] by simp
    then show ?thesis using True assms by (simp add: lane0_phys_def Let_def req_ok_def)
  next
    case False
    then show ?thesis
      using assms line_aligned [of ?p 4] by (auto simp: lane0_phys_def Let_def req_ok_def m)
  qed
  then show "guest_pa (lane0_phys cfg rq)" "unat (lane0_phys cfg rq) mod 16 = 0" by simp_all
qed

lemma lane1_phys_ok:
  assumes "guest_pa (tb_phys (rq_addr rq))"
  shows "guest_pa (lane1_phys rq)"
    "unat (lane1_phys rq) mod (if is_burst (rq_opcode rq) then 64 else 16) = 0"
proof -
  have m: "(0xf :: u32) = mask 4" "(0x3f :: u32) = mask 6" by (simp_all add: mask_eq_exp_minus_1)
  show "guest_pa (lane1_phys rq)"
    "unat (lane1_phys rq) mod (if is_burst (rq_opcode rq) then 64 else 16) = 0"
    using line_aligned [OF assms, of 4] line_aligned [OF assms, of 6]
    by (simp_all add: lane1_phys_def m del: unat_and_not_mask)
qed

lemma lane0_accept_coherent:
  assumes "bus_coherent raw b" "req_ok cfg rq" "lane0_accept cfg cyc rq b = Some b'"
  shows "bus_coherent raw b'"
proof (cases "rq_valid rq \<and> \<not> prev_req_valid (lane0 b) \<and> reply_cyc (lane0 b) = -1")
  case True
  then obtain s lat where "memlat_draw cfg (memlat_state b) = Some (s, lat)"
    using assms(3) by (cases "memlat_draw cfg (memlat_state b)") (auto simp: lane0_accept_def Let_def case_prod_unfold)
  then show ?thesis
    using True assms(1,3) lane0_phys_ok [OF assms(2)] assms(2)
    by (simp only: bus_coherent_def lane0_accept_def Let_def lane_wf_def FPGA_ADDRESS_MAP_def
        case_prod_unfold if_True option.map option.inject)
       (auto simp del: upt_rec_numeral)
next
  case False
  then have "lane0_accept cfg cyc rq b = Some b" by (simp only: lane0_accept_def Let_def if_False)
  then show ?thesis using assms(1,3) by simp
qed

lemma lane1_accept_coherent:
  assumes "bus_coherent raw b" "rq_valid rq \<longrightarrow> guest_pa (tb_phys (rq_addr rq))"
    "lane1_accept cfg cyc rq b = Some b'"
  shows "bus_coherent raw b'"
proof (cases "rq_valid rq \<and> \<not> prev_req_valid (lane1 b) \<and> reply_cyc (lane1 b) = -1")
  case True
  then obtain s lat where "memlat_draw cfg (memlat_state b) = Some (s, lat)"
    using assms(3) by (cases "memlat_draw cfg (memlat_state b)") (auto simp: lane1_accept_def Let_def case_prod_unfold)
  then show ?thesis
    using True assms(1,3) lane1_phys_ok [of rq] assms(2)
    by (simp only: bus_coherent_def lane1_accept_def Let_def lane_wf_def FPGA_ADDRESS_MAP_def lane1_nbytes_def
        case_prod_unfold if_True option.map option.inject)
       (auto simp del: upt_rec_numeral)
next
  case False
  then have "lane1_accept cfg cyc rq b = Some b" by (simp only: lane1_accept_def Let_def if_False)
  then show ?thesis using assms(1,3) by simp
qed

lemma lane0_reply_coherent:
  assumes "inj_on raw {a. unat a < 0x20000000}" "checker cfg" "bus_coherent raw b"
  shows "bus_coherent raw (lane0_reply cfg raw cyc b)"
proof (cases "reply_cyc (lane0 b) = int cyc")
  case True
  then have w: "guest_pa (req_phys (lane0 b))" "unat (req_phys (lane0 b)) mod 16 = 0"
      "req_addr (lane0 b) = ucast (fst (fpga_map (req_phys (lane0 b))))"
    using assms(3) by (auto simp: bus_coherent_def lane_wf_def)
  show ?thesis
    using assms(2,3) True w(3) mirror_ok_store [OF assms(1) _ w(1,2), of _ _ 16]
    by (simp add: bus_coherent_def lane0_reply_def lane0_store_def Let_def lane_wf_def del: upt_rec_numeral)
qed (simp add: lane0_reply_def assms(3))

lemma lane1_reply_coherent:
  assumes "inj_on raw {a. unat a < 0x20000000}" "checker cfg" "bus_coherent raw b"
  shows "bus_coherent raw (lane1_reply cfg raw cyc b)"
proof (cases "reply_cyc (lane1 b) = int cyc")
  case True
  let ?n = "lane1_nbytes (lane1 b)"
  have w: "guest_pa (req_phys (lane1 b))" "unat (req_phys (lane1 b)) mod ?n = 0"
      "req_addr (lane1 b) = ucast (fst (fpga_map (req_phys (lane1 b))))"
    using assms(3) True by (auto simp: bus_coherent_def lane_wf_def)
  have "?n dvd 64" by (simp add: lane1_nbytes_def)
  then show ?thesis
    using assms(2,3) True w(3) mirror_ok_store [OF assms(1) _ w(1,2), of _ _ ?n]
    by (simp add: bus_coherent_def lane1_reply_def lane1_store_def Let_def lane_wf_def)
qed (simp add: lane1_reply_def assms(3))

lemma bus_coherent_frame [simp]:
  "bus_coherent raw (b\<lparr>lane0 := (lane0 b)\<lparr>rsp_valid := v, rsp_bad := w\<rparr>\<rparr>) = bus_coherent raw b"
  "bus_coherent raw (b\<lparr>lane1 := (lane1 b)\<lparr>rsp_valid := v, rsp_bad := w\<rparr>\<rparr>) = bus_coherent raw b"
  "bus_coherent raw (b\<lparr>lane0 := (lane0 b)\<lparr>prev_req_valid := v\<rparr>\<rparr>) = bus_coherent raw b"
  "bus_coherent raw (b\<lparr>lane1 := (lane1 b)\<lparr>prev_req_valid := v\<rparr>\<rparr>) = bus_coherent raw b"
  by (simp_all add: bus_coherent_def lane_wf_def lane1_nbytes_def)

lemma bus_cycle_coherent:
  assumes "inj_on raw {a. unat a < 0x20000000}" "checker cfg" "bus_coherent raw b"
    and "req_ok cfg (fst rqs)" "rq_valid (snd rqs) \<longrightarrow> guest_pa (tb_phys (rq_addr (snd rqs)))"
    and "bus_cycle cfg raw cyc rqs b = Some b'"
  shows "bus_coherent raw b'"
proof -
  obtain b1 where b1: "lane0_cycle cfg raw cyc (fst rqs) b = Some b1"
    "lane1_cycle cfg raw cyc (snd rqs) b1 = Some b'" using assms(6) by (rule bus_cycle_split)
  obtain z where z: "lane0_accept cfg cyc (fst rqs) (b\<lparr>lane0 := (lane0 b)\<lparr>rsp_valid := False, rsp_bad := False\<rparr>\<rparr>) = Some z"
    "b1 = (lane0_reply cfg raw cyc z)\<lparr>lane0 := (lane0 (lane0_reply cfg raw cyc z))\<lparr>prev_req_valid := rq_valid (fst rqs)\<rparr>\<rparr>"
    using b1(1) by (auto simp: lane0_cycle_def Let_def)
  have "bus_coherent raw z" by (rule lane0_accept_coherent [OF _ assms(4) z(1)]) (simp add: assms(3))
  then have c1: "bus_coherent raw b1" using z(2) lane0_reply_coherent [OF assms(1,2)] by simp
  obtain y where y: "lane1_accept cfg cyc (snd rqs) (b1\<lparr>lane1 := (lane1 b1)\<lparr>rsp_valid := False, rsp_bad := False\<rparr>\<rparr>) = Some y"
    "b' = (lane1_reply cfg raw cyc y)\<lparr>lane1 := (lane1 (lane1_reply cfg raw cyc y))\<lparr>prev_req_valid := rq_valid (snd rqs)\<rparr>\<rparr>"
    using b1(2) by (auto simp: lane1_cycle_def Let_def)
  have "bus_coherent raw y" by (rule lane1_accept_coherent [OF _ assms(5) y(1)]) (simp add: c1)
  then show ?thesis using y(2) lane1_reply_coherent [OF assms(1,2)] by simp
qed



end
