(* ===== verification/Ctrace.thy ===== *)
theory Ctrace
  imports Henry_Prelude
begin

text \<open>
  The chunked columnar retire trace: its writer (\<^verbatim>\<open>sim/ctrace.hh\<close>, class
  \<^verbatim>\<open>ctrace_writer\<close>), the feed from the retire ports (\<^verbatim>\<open>sim/henry_tb.cpp\<close>), and its reader
  and verifier (\<^verbatim>\<open>sim/ctrace_dump.cc\<close>).  zstd is a library the sources call: the compressor
  and decompressor are the parameters \<open>zcomp\<close> and \<open>decomp\<close>, and \<open>zstd_ok\<close> states what the
  format relies on.  A file is the list of its bytes; buffer growth is the vector's business
  and is left out, as is the wording of the printed lines (the values printed are kept).
\<close>

section \<open>Fixed-size elements\<close>

text \<open>A column is the concatenation of its elements; \<open>dec_elems\<close> slices it again.\<close>

definition enc_elems :: "('a \<Rightarrow> bytes) \<Rightarrow> 'a list \<Rightarrow> bytes" where
  "enc_elems enc xs = concat (map enc xs)"

definition dec_elems :: "nat \<Rightarrow> (bytes \<Rightarrow> 'a) \<Rightarrow> bytes \<Rightarrow> 'a list" where
  "dec_elems sz dec bs = map (\<lambda>i. dec (take sz (drop (sz * i) bs))) [0..<length bs div sz]"

locale fixed_codec =
  fixes sz :: nat and enc :: "'a \<Rightarrow> bytes" and dec :: "bytes \<Rightarrow> 'a"
  assumes sz_pos: "0 < sz"
    and length_enc: "length (enc x) = sz"
    and dec_enc: "dec (enc x) = x"
begin

lemma length_enc_elems: "length (enc_elems enc xs) = sz * length xs"
  by (induction xs) (simp_all add: enc_elems_def length_enc)

lemma slice_enc_elems: "i < length xs \<Longrightarrow> take sz (drop (sz * i) (enc_elems enc xs)) = enc (xs ! i)"
proof (induction xs arbitrary: i)
  case (Cons x xs)
  show ?case
  proof (cases i)
    case 0
    then show ?thesis by (simp add: enc_elems_def length_enc)
  next
    case (Suc j)
    then show ?thesis using Cons by (simp add: enc_elems_def length_enc)
  qed
qed simp

lemma dec_enc_elems: "dec_elems sz dec (enc_elems enc xs) = xs"
  using sz_pos by (intro nth_equalityI) (simp_all add: dec_elems_def length_enc_elems slice_enc_elems dec_enc)

end

interpretation u64s: fixed_codec 8 "le_bytes 8 :: u64 \<Rightarrow> bytes" le_word
  by unfold_locales (simp_all add: le_word_le_bytes)

interpretation u32s: fixed_codec 4 "le_bytes 4 :: u32 \<Rightarrow> bytes" le_word
  by unfold_locales (simp_all add: le_word_le_bytes)

interpretation u8s: fixed_codec 1 "\<lambda>b :: u8. [b]" hd
  by unfold_locales simp_all

lemma enc_u8s: "enc_elems (\<lambda>b :: u8. [b]) xs = xs"
  by (induction xs) (simp_all add: enc_elems_def)

section \<open>The writer\<close>

text \<open>\<^verbatim>\<open>enum ctrace_col\<close> and the flag bits.\<close>

definition CT_PC :: u8 where "CT_PC = 0"
definition CT_DST :: u8 where "CT_DST = 1"
definition CT_VAL :: u8 where "CT_VAL = 2"
definition CT_FLAGS :: u8 where "CT_FLAGS = 3"
definition CT_EXC_IDX :: u8 where "CT_EXC_IDX = 4"
definition CT_EXC_CAU :: u8 where "CT_EXC_CAU = 5"
definition CT_EXC_EPC :: u8 where "CT_EXC_EPC = 6"
definition CT_EXC_BAD :: u8 where "CT_EXC_BAD = 7"
definition CT_ST_PC :: u8 where "CT_ST_PC = 8"
definition CT_ST_ADDR :: u8 where "CT_ST_ADDR = 9"
definition CT_ST_DATA :: u8 where "CT_ST_DATA = 10"

lemmas ct_ids = CT_PC_def CT_DST_def CT_VAL_def CT_FLAGS_def CT_EXC_IDX_def CT_EXC_CAU_def
  CT_EXC_EPC_def CT_EXC_BAD_def CT_ST_PC_def CT_ST_ADDR_def CT_ST_DATA_def

definition CTF_FP :: u8 where "CTF_FP = 1"
definition CTF_FCR :: u8 where "CTF_FCR = 2"
definition CTF_SLOT1 :: u8 where "CTF_SLOT1 = 4"

definition MAGIC :: bytes where "MAGIC = [0x52, 0x39, 0x54, 0x52, 0x41, 0x43, 0x45, 0x31]"
definition TRAILER_MAGIC :: bytes where "TRAILER_MAGIC = [0x52, 0x39, 0x54, 0x52, 0x41, 0x49, 0x4c, 0x52]"

text \<open>The columns staged for the chunk being filled.\<close>

record columns =
  c_pc :: "u64 list"
  c_dst :: "u8 list"
  c_val :: "u64 list"
  c_flags :: "u8 list"
  c_eidx :: "u32 list"
  c_ecau :: "u8 list"
  c_eepc :: "u64 list"
  c_ebad :: "u64 list"
  c_stpc :: "u64 list"
  c_staddr :: "u64 list"
  c_stdata :: "u64 list"

definition no_columns :: columns where
  "no_columns = \<lparr>c_pc = [], c_dst = [], c_val = [], c_flags = [], c_eidx = [], c_ecau = [], c_eepc = [],
     c_ebad = [], c_stpc = [], c_staddr = [], c_stdata = []\<rparr>"

text \<open>\<open>fp\<close> and \<open>raw\<close>: is the file open; \<open>ct_file\<close> and \<open>sidecar\<close>: what was written to it.\<close>

record ctrace_writer =
  fp :: bool
  raw :: bool
  chunk_recs :: u32
  ct_file :: bytes
  sidecar :: bytes
  n_chunks :: u64
  total_recs :: u64
  out_bytes :: u64
  cols :: columns

text \<open>The constructor; the flags say whether the two \<^verbatim>\<open>fopen\<close> calls succeeded.\<close>

definition ctrace_open :: "bool \<Rightarrow> bool \<Rightarrow> u32 \<Rightarrow> ctrace_writer" where
  "ctrace_open path_ok rawpath_ok crecs = \<lparr>fp = path_ok, raw = rawpath_ok, chunk_recs = crecs,
     ct_file = (if path_ok then MAGIC else []), sidecar = [], n_chunks = 0, total_recs = 0, out_bytes = 0,
     cols = no_columns\<rparr>"

type_synonym stage = "bytes \<times> bytes \<times> u32"

definition put_col :: "(bytes \<Rightarrow> bytes option) \<Rightarrow> u8 \<Rightarrow> nat \<Rightarrow> bytes \<Rightarrow> stage \<Rightarrow> stage" where
  "put_col zcomp cid esz v s =
     (if v = [] then s
      else case zcomp v of
        None \<Rightarrow> s
      | Some cs \<Rightarrow> (case s of (hdr, body, nc) \<Rightarrow>
          (hdr @ [cid, of_nat esz] @ le_bytes 4 (of_nat (length v) :: u32) @ le_bytes 4 (of_nat (length cs) :: u32),
           body @ cs, nc + 1)))"

definition stage_columns :: "(bytes \<Rightarrow> bytes option) \<Rightarrow> columns \<Rightarrow> stage" where
  "stage_columns zcomp c =
     (let s = ([], [], 0);
          s = put_col zcomp CT_PC 8 (enc_elems (le_bytes 8) (c_pc c)) s;
          s = put_col zcomp CT_DST 1 (enc_elems (\<lambda>b. [b]) (c_dst c)) s;
          s = put_col zcomp CT_VAL 8 (enc_elems (le_bytes 8) (c_val c)) s;
          s = put_col zcomp CT_FLAGS 1 (enc_elems (\<lambda>b. [b]) (c_flags c)) s;
          s = put_col zcomp CT_EXC_IDX 4 (enc_elems (le_bytes 4) (c_eidx c)) s;
          s = put_col zcomp CT_EXC_CAU 1 (enc_elems (\<lambda>b. [b]) (c_ecau c)) s;
          s = put_col zcomp CT_EXC_EPC 8 (enc_elems (le_bytes 8) (c_eepc c)) s;
          s = put_col zcomp CT_EXC_BAD 8 (enc_elems (le_bytes 8) (c_ebad c)) s;
          s = put_col zcomp CT_ST_PC 8 (enc_elems (le_bytes 8) (c_stpc c)) s;
          s = put_col zcomp CT_ST_ADDR 8 (enc_elems (le_bytes 8) (c_staddr c)) s
      in put_col zcomp CT_ST_DATA 8 (enc_elems (le_bytes 8) (c_stdata c)) s)"

definition flush_chunk :: "(bytes \<Rightarrow> bytes option) \<Rightarrow> ctrace_writer \<Rightarrow> ctrace_writer" where
  "flush_chunk zcomp w =
     (let (hdr, body, nc) = stage_columns zcomp (cols w);
          n = (of_nat (length (c_pc (cols w))) :: u32)
      in w\<lparr>ct_file := ct_file w @ le_bytes 4 n @ le_bytes 4 nc @ hdr @ body,
           out_bytes := out_bytes w + 8 + of_nat (length hdr) + of_nat (length body),
           total_recs := total_recs w + ucast n, n_chunks := n_chunks w + 1, cols := no_columns\<rparr>)"

definition ct_add :: "(bytes \<Rightarrow> bytes option) \<Rightarrow> u64 \<Rightarrow> u8 \<Rightarrow> u64 \<Rightarrow> u8 \<Rightarrow> ctrace_writer \<Rightarrow> ctrace_writer" where
  "ct_add zcomp pc dst val flags w =
     (if \<not> fp w then w
      else
        let c = cols w;
            w = w\<lparr>cols := c\<lparr>c_pc := c_pc c @ [pc], c_dst := c_dst c @ [dst], c_val := c_val c @ [val],
                  c_flags := c_flags c @ [flags]\<rparr>,
                  sidecar := (if raw w then sidecar w @ le_bytes 8 pc @ le_bytes 8 val @ [dst] @ [flags]
                              else sidecar w)\<rparr>
        in if length (c_pc (cols w)) \<ge> unat (chunk_recs w) then flush_chunk zcomp w else w)"

definition ct_add_store :: "u64 \<Rightarrow> u64 \<Rightarrow> u64 \<Rightarrow> ctrace_writer \<Rightarrow> ctrace_writer" where
  "ct_add_store pc addr data w =
     (if \<not> fp w then w
      else let c = cols w in
        w\<lparr>cols := c\<lparr>c_stpc := c_stpc c @ [pc], c_staddr := c_staddr c @ [addr], c_stdata := c_stdata c @ [data]\<rparr>\<rparr>)"

definition ct_add_exception :: "u8 \<Rightarrow> u64 \<Rightarrow> u64 \<Rightarrow> ctrace_writer \<Rightarrow> ctrace_writer" where
  "ct_add_exception cause epc badv w =
     (if \<not> fp w then w
      else let c = cols w in
        w\<lparr>cols := c\<lparr>c_eidx := c_eidx c @ [of_nat (length (c_pc c))], c_ecau := c_ecau c @ [cause],
            c_eepc := c_eepc c @ [epc], c_ebad := c_ebad c @ [badv]\<rparr>\<rparr>)"

definition ct_close :: "(bytes \<Rightarrow> bytes option) \<Rightarrow> ctrace_writer \<Rightarrow> ctrace_writer" where
  "ct_close zcomp w =
     (if \<not> fp w then w
      else let w = (if c_pc (cols w) \<noteq> [] then flush_chunk zcomp w else w)
           in w\<lparr>ct_file := ct_file w @ le_bytes 8 (n_chunks w) @ le_bytes 8 (total_recs w) @ TRAILER_MAGIC,
                fp := False, raw := False\<rparr>)"

section \<open>The feed from the retire ports\<close>

text \<open>The ports of one retire slot, and of one cycle.\<close>

record retire_slot =
  rs_valid :: bool
  rs_pc :: u64
  rs_reg_valid :: bool
  rs_reg_ptr :: u8
  rs_reg_data :: u64
  rs_fp_reg_valid :: bool
  rs_fp_reg_ptr :: u8
  rs_fp_reg_data :: u64
  rs_fcr_reg_valid :: bool
  rs_fcr_reg_ptr :: u8
  rs_fcr_reg_data :: u64

record retire_ports =
  slot0 :: retire_slot
  slot1 :: retire_slot
  took_irq :: bool
  p_cause :: u8
  p_epc :: u64
  p_badvaddr :: u64

text \<open>The destination, value and class flag a slot retires.\<close>

definition slot_result :: "retire_slot \<Rightarrow> u8 \<times> u64 \<times> u8" where
  "slot_result s =
     (if rs_reg_valid s then (rs_reg_ptr s, rs_reg_data s, 0)
      else if rs_fp_reg_valid s then (rs_fp_reg_ptr s, rs_fp_reg_data s, CTF_FP)
      else if rs_fcr_reg_valid s then (rs_fcr_reg_ptr s, rs_fcr_reg_data s, CTF_FCR)
      else (0, 0, 0))"

definition feed_slot :: "(bytes \<Rightarrow> bytes option) \<Rightarrow> u8 \<Rightarrow> retire_slot \<Rightarrow> ctrace_writer \<Rightarrow> ctrace_writer" where
  "feed_slot zcomp f0 s w =
     (if rs_valid s then (case slot_result s of (d, v, f) \<Rightarrow> ct_add zcomp (rs_pc s) d v (f0 OR f) w) else w)"

definition feed_cycle :: "(bytes \<Rightarrow> bytes option) \<Rightarrow> retire_ports \<Rightarrow> ctrace_writer \<Rightarrow> ctrace_writer" where
  "feed_cycle zcomp p w =
     (let w = feed_slot zcomp 0 (slot0 p) w;
          w = feed_slot zcomp CTF_SLOT1 (slot1 p) w
      in if took_irq p then ct_add_exception (p_cause p) (p_epc p) (p_badvaddr p) w else w)"

section \<open>The reader\<close>

text \<open>\<^verbatim>\<open>struct colinfo\<close>\<close>

record colinfo =
  ci_id :: u8
  ci_esz :: u8
  ci_raw :: u32
  ci_comp :: u32

text \<open>One column descriptor, then the table of them; \<^const>\<open>None\<close> is the \<^verbatim>\<open>short header\<close> exit.\<close>

definition rd_colinfo :: "bytes \<Rightarrow> (colinfo \<times> bytes) option" where
  "rd_colinfo f =
     Option.bind (rd 1 f) (\<lambda>(i, f). Option.bind (rd 1 f) (\<lambda>(e, f).
     Option.bind (rd 4 f) (\<lambda>(r, f). Option.bind (rd 4 f) (\<lambda>(c, f).
       Some (\<lparr>ci_id = hd i, ci_esz = hd e, ci_raw = le_word r, ci_comp = le_word c\<rparr>, f)))))"

fun rd_colinfos :: "nat \<Rightarrow> bytes \<Rightarrow> (colinfo list \<times> bytes) option" where
  "rd_colinfos 0 f = Some ([], f)"
| "rd_colinfos (Suc n) f =
     Option.bind (rd_colinfo f) (\<lambda>(c, f). map_option (map_prod ((#) c) id) (rd_colinfos n f))"

text \<open>The decoded columns of one chunk, and the running totals.\<close>

record chunk_cols =
  k_pc :: "u64 list"
  k_val :: "u64 list"
  k_dst :: "u8 list"
  k_flags :: "u8 list"
  k_stpc :: "u64 list"
  k_staddr :: "u64 list"
  k_stdata :: "u64 list"

definition no_chunk_cols :: chunk_cols where
  "no_chunk_cols = \<lparr>k_pc = [], k_val = [], k_dst = [], k_flags = [], k_stpc = [], k_staddr = [], k_stdata = []\<rparr>"

type_synonym rec_line = "u64 \<times> u64 \<times> u8 \<times> u64 \<times> u8"

record dump_state =
  d_chunks :: u64
  d_recs :: u64
  d_comp_bytes :: u64
  d_raw_bytes :: u64
  d_excs :: u64
  d_mismatches :: u64
  d_nstores :: u64
  d_nhit :: u64
  d_truncated :: bool
  d_raw :: "bytes option"
  d_head :: "rec_line list"
  d_stores :: "(u64 \<times> u64 \<times> u64 \<times> u64) list"

datatype dump_error = BadMagic | ShortHeader | DecompressFail u8 | PcColumnMismatch | OutOfBounds

definition dec_u64s :: "bytes \<Rightarrow> u64 list" where
  "dec_u64s = dec_elems 8 le_word"

definition assign_col :: "u8 \<Rightarrow> bytes \<Rightarrow> chunk_cols \<Rightarrow> chunk_cols" where
  "assign_col cid dbuf k =
     (if cid = CT_PC then k\<lparr>k_pc := dec_u64s dbuf\<rparr>
      else if cid = CT_VAL then k\<lparr>k_val := dec_u64s dbuf\<rparr>
      else if cid = CT_DST then k\<lparr>k_dst := dbuf\<rparr>
      else if cid = CT_FLAGS then k\<lparr>k_flags := dbuf\<rparr>
      else if cid = CT_ST_PC then k\<lparr>k_stpc := dec_u64s dbuf\<rparr>
      else if cid = CT_ST_ADDR then k\<lparr>k_staddr := dec_u64s dbuf\<rparr>
      else if cid = CT_ST_DATA then k\<lparr>k_stdata := dec_u64s dbuf\<rparr>
      else k)"

text \<open>The column loop of a chunk.  A short read sets \<open>truncated\<close> and leaves the file at its end.\<close>

fun rd_columns :: "(nat \<Rightarrow> bytes \<Rightarrow> bytes option) \<Rightarrow> colinfo list \<Rightarrow> chunk_cols \<Rightarrow> dump_state \<Rightarrow> bytes
    \<Rightarrow> dump_error + chunk_cols \<times> dump_state \<times> bytes" where
  "rd_columns decomp [] k d f = Inr (k, d, f)"
| "rd_columns decomp (c # cs) k d f =
     (case rd (unat (ci_comp c)) f of
        None \<Rightarrow> Inr (k, d\<lparr>d_truncated := True\<rparr>, [])
      | Some (cbuf, f) \<Rightarrow>
          (case decomp (unat (ci_raw c)) cbuf of
             None \<Rightarrow> Inl (DecompressFail (ci_id c))
           | Some dbuf \<Rightarrow>
               if length dbuf \<noteq> unat (ci_raw c) then Inl (DecompressFail (ci_id c))
               else rd_columns decomp cs (assign_col (ci_id c) dbuf k)
                 (d\<lparr>d_comp_bytes := d_comp_bytes d + ucast (ci_comp c), d_raw_bytes := d_raw_bytes d + ucast (ci_raw c),
                    d_excs := d_excs d + (if ci_id c = CT_EXC_IDX then of_nat (length dbuf div 4) else 0)\<rparr>) f))"

text \<open>The \<^verbatim>\<open>--addr\<close> query over the stores of a chunk.\<close>

definition store_hits :: "u64 \<Rightarrow> u64 \<Rightarrow> chunk_cols \<Rightarrow> (u64 \<times> u64 \<times> u64 \<times> u64) list" where
  "store_hits want chunk k =
     [(chunk, pc, a, x). (pc, a, x) \<leftarrow> zip (k_stpc k) (zip (k_staddr k) (k_stdata k)),
        a AND NOT 63 = want AND NOT 63]"

definition nth_opt :: "'a list \<Rightarrow> nat \<Rightarrow> 'a option" where
  "nth_opt xs i = (if i < length xs then Some (xs ! i) else None)"

text \<open>
  The comparison of record \<open>i\<close> with a sidecar record, in the order of the source's
  short-circuit; \<^const>\<open>None\<close> is a read past the end of a column.
\<close>

definition rec_differs :: "chunk_cols \<Rightarrow> nat \<Rightarrow> u64 \<times> u64 \<times> u8 \<times> u8 \<Rightarrow> bool option" where
  "rec_differs k i r = (case r of (rpc, rval, rdst, rfl) \<Rightarrow>
     Option.bind (nth_opt (k_pc k) i) (\<lambda>pc. if rpc \<noteq> pc then Some True else
     Option.bind (nth_opt (k_val k) i) (\<lambda>v. if rval \<noteq> v then Some True else
     Option.bind (nth_opt (k_dst k) i) (\<lambda>d. if rdst \<noteq> d then Some True else
     map_option (\<lambda>fl. rfl \<noteq> fl) (nth_opt (k_flags k) i)))))"

definition rec_line :: "chunk_cols \<Rightarrow> nat \<Rightarrow> u64 \<Rightarrow> rec_line option" where
  "rec_line k i num =
     Option.bind (nth_opt (k_pc k) i) (\<lambda>pc. Option.bind (nth_opt (k_dst k) i) (\<lambda>d.
     Option.bind (nth_opt (k_val k) i) (\<lambda>v. map_option (\<lambda>fl. (num, pc, d, v, fl)) (nth_opt (k_flags k) i))))"

text \<open>A sidecar record; a failing read leaves the sidecar at its end.\<close>

definition rd_raw :: "bytes \<Rightarrow> ((u64 \<times> u64 \<times> u8 \<times> u8) option) \<times> bytes" where
  "rd_raw r =
     (case rd 18 r of
        None \<Rightarrow> (None, [])
      | Some (b, r) \<Rightarrow> (Some (le_word (take 8 b), le_word (take 8 (drop 8 b)), b ! 16, b ! 17), r))"

definition compare_rec :: "chunk_cols \<Rightarrow> nat \<Rightarrow> dump_state \<Rightarrow> dump_error + dump_state" where
  "compare_rec k i d =
     (case d_raw d of
        None \<Rightarrow> Inr d
      | Some r \<Rightarrow>
          (case rd_raw r of (None, r) \<Rightarrow> Inr (d\<lparr>d_raw := Some r\<rparr>)
           | (Some x, r) \<Rightarrow>
               (case rec_differs k i x of
                  None \<Rightarrow> Inl OutOfBounds
                | Some False \<Rightarrow> Inr (d\<lparr>d_raw := Some r\<rparr>)
                | Some True \<Rightarrow>
                    if d_mismatches d < 8 \<and> rec_line k i 0 = None then Inl OutOfBounds
                    else Inr (d\<lparr>d_raw := Some r, d_mismatches := d_mismatches d + 1\<rparr>))))"

definition print_rec :: "nat \<Rightarrow> chunk_cols \<Rightarrow> nat \<Rightarrow> dump_state \<Rightarrow> dump_error + dump_state" where
  "print_rec head k i d =
     (if length (d_head d) < head then
        (case rec_line k i (d_recs d + of_nat i) of
           None \<Rightarrow> Inl OutOfBounds
         | Some l \<Rightarrow> Inr (d\<lparr>d_head := d_head d @ [l]\<rparr>))
      else Inr d)"

fun rd_records :: "nat \<Rightarrow> chunk_cols \<Rightarrow> nat list \<Rightarrow> dump_state \<Rightarrow> dump_error + dump_state" where
  "rd_records head k [] d = Inr d"
| "rd_records head k (i # is) d =
     (case compare_rec k i d of
        Inl e \<Rightarrow> Inl e
      | Inr d \<Rightarrow> (case print_rec head k i d of Inl e \<Rightarrow> Inl e | Inr d \<Rightarrow> rd_records head k is d))"

text \<open>Command line: \<^verbatim>\<open>--head\<close> and \<^verbatim>\<open>--addr\<close> (the sidecar of \<^verbatim>\<open>--raw\<close> is part of the state).\<close>

record dump_opts =
  o_head :: nat
  o_addr :: "u64 option"

definition chunk_stats :: "dump_opts \<Rightarrow> chunk_cols \<Rightarrow> dump_state \<Rightarrow> dump_state" where
  "chunk_stats opts k d =
     (let hits = (case o_addr opts of None \<Rightarrow> [] | Some a \<Rightarrow> store_hits a (d_chunks d) k)
      in d\<lparr>d_nstores := d_nstores d + of_nat (length (k_staddr k)),
           d_nhit := d_nhit d + of_nat (length hits), d_stores := d_stores d @ hits\<rparr>)"

text \<open>One turn of the chunk loop: an error exit, the loop's end, or the next turn.\<close>

datatype turn = Error dump_error | Break dump_state bytes | Next dump_state bytes

definition rd_chunk :: "(nat \<Rightarrow> bytes \<Rightarrow> bytes option) \<Rightarrow> dump_opts \<Rightarrow> dump_state \<Rightarrow> bytes \<Rightarrow> turn" where
  "rd_chunk decomp opts d f =
     (case rd 4 f of
        None \<Rightarrow> Break d []
      | Some (nb, f1) \<Rightarrow>
     (case rd 4 f1 of
        None \<Rightarrow> Break d []
      | Some (ncb, f2) \<Rightarrow>
          let n = (le_word nb :: u32); nc = (le_word ncb :: u32) in
          if nc = 0 \<or> nc > 16 then Break d f
          else
     (case rd_colinfos (unat nc) f2 of
        None \<Rightarrow> Error ShortHeader
      | Some (cs, f3) \<Rightarrow>
     (case rd_columns decomp cs no_chunk_cols d f3 of
        Inl e \<Rightarrow> Error e
      | Inr (k, d, f4) \<Rightarrow>
          if d_truncated d then Break d f4
          else
            let d = chunk_stats opts k d in
            if length (k_pc k) \<noteq> unat n then Error PcColumnMismatch
            else (case rd_records (o_head opts) k [0..<unat n] d of
                    Inl e \<Rightarrow> Error e
                  | Inr d \<Rightarrow> Next (d\<lparr>d_recs := d_recs d + ucast n, d_chunks := d_chunks d + 1\<rparr>) f4)))))"

text \<open>Every turn that continues has consumed its chunk header.\<close>

lemma rd_colinfos_shrinks: "rd_colinfos n f = Some (cs, f') \<Longrightarrow> length f' \<le> length f"
proof (induction n arbitrary: f cs)
  case (Suc n)
  then obtain c g cs' where "rd_colinfo f = Some (c, g)" "rd_colinfos n g = Some (cs', f')"
    by (auto simp: bind_eq_Some_conv split: prod.splits)
  moreover have "length g \<le> length f" if "rd_colinfo f = Some (c, g)" for c g
    using that by (auto simp: rd_colinfo_def bind_eq_Some_conv dest!: rd_SomeD)
  ultimately show ?case using Suc.IH by force
qed simp

lemma rd_columns_shrinks: "rd_columns decomp cs k d f = Inr (k', d', f') \<Longrightarrow> length f' \<le> length f"
proof (induction cs arbitrary: k d f)
  case (Cons c cs)
  then show ?case
    by (fastforce split: option.splits prod.splits if_splits dest: rd_SomeD)
qed simp

lemma rd_chunk_shrinks:
  assumes "rd_chunk decomp opts d f = Next d' f'"
  shows "length f' < length f"
proof -
  obtain nb f1 ncb f2 cs f3 k d1 where r: "rd 4 f = Some (nb, f1)" "rd 4 f1 = Some (ncb, f2)"
      "rd_colinfos (unat (le_word ncb :: u32)) f2 = Some (cs, f3)"
      "rd_columns decomp cs no_chunk_cols d f3 = Inr (k, d1, f')"
    using assms unfolding rd_chunk_def Let_def
    by (auto split: option.splits prod.splits sum.splits if_splits)
  then show ?thesis
    using rd_colinfos_shrinks [OF r(3)] rd_columns_shrinks [OF r(4)] by (auto dest!: rd_SomeD)
qed

function dump_loop :: "(nat \<Rightarrow> bytes \<Rightarrow> bytes option) \<Rightarrow> dump_opts \<Rightarrow> dump_state \<Rightarrow> bytes
    \<Rightarrow> dump_error + dump_state \<times> bytes" where
  "dump_loop decomp opts d f =
     (case rd_chunk decomp opts d f of
        Error e \<Rightarrow> Inl e
      | Break d f \<Rightarrow> Inr (d, f)
      | Next d f' \<Rightarrow> dump_loop decomp opts d f')"
  by pat_completeness auto
termination
  by (relation "measure (\<lambda>(_, _, _, f). length f)") (auto dest: rd_chunk_shrinks)

declare dump_loop.simps [simp del]

definition dump_init :: "bytes option \<Rightarrow> dump_state" where
  "dump_init sc = \<lparr>d_chunks = 0, d_recs = 0, d_comp_bytes = 0, d_raw_bytes = 0, d_excs = 0, d_mismatches = 0,
     d_nstores = 0, d_nhit = 0, d_truncated = False, d_raw = sc, d_head = [], d_stores = []\<rparr>"

text \<open>The trailer, when the file still holds a whole one.\<close>

definition rd_trailer :: "bytes \<Rightarrow> (u64 \<times> u64) option" where
  "rd_trailer f =
     Option.bind (rd 8 f) (\<lambda>(c, f). Option.bind (rd 8 f) (\<lambda>(r, f). Option.bind (rd 8 f) (\<lambda>(m, f).
       if m = TRAILER_MAGIC then Some (le_word c, le_word r) else None)))"

text \<open>\<^verbatim>\<open>main\<close>: the exit code, the totals and the trailer, or the error exit (code 1).\<close>

record dump_report =
  exit_code :: nat
  totals :: dump_state
  trailer :: "(u64 \<times> u64) option"

definition ctrace_dump :: "(nat \<Rightarrow> bytes \<Rightarrow> bytes option) \<Rightarrow> dump_opts \<Rightarrow> bytes option \<Rightarrow> bytes
    \<Rightarrow> dump_error + dump_report" where
  "ctrace_dump decomp opts sc f =
     (case rd 8 f of
        None \<Rightarrow> Inl BadMagic
      | Some (m, f) \<Rightarrow>
          if m \<noteq> MAGIC then Inl BadMagic
          else (case dump_loop decomp opts (dump_init sc) f of
             Inl e \<Rightarrow> Inl e
           | Inr (d, f) \<Rightarrow>
               let t = rd_trailer f;
                   code = (case t of
                      Some (tc, tr) \<Rightarrow> if tc \<noteq> d_chunks d \<or> tr \<noteq> d_recs d then 2
                        else if sc \<noteq> None \<and> d_mismatches d \<noteq> 0 then 3 else 0
                    | None \<Rightarrow> if sc \<noteq> None \<and> d_mismatches d \<noteq> 0 then 3 else 0)
               in Inr \<lparr>exit_code = code, totals = d, trailer = t\<rparr>))"

section \<open>A chunk, written and read\<close>

text \<open>What the format needs of zstd: compression succeeds within the library's published
  bound (\<^verbatim>\<open>ZSTD_compressBound\<close>) and decompression into a buffer of the original size inverts it.\<close>

definition zstd_ok :: "(bytes \<Rightarrow> bytes option) \<Rightarrow> (nat \<Rightarrow> bytes \<Rightarrow> bytes option) \<Rightarrow> bool" where
  "zstd_ok zcomp zdecomp \<longleftrightarrow> (\<forall>v. \<exists>cs. zcomp v = Some cs \<and> length cs \<le> length v + length v div 256 + 64 \<and>
     zdecomp (length v) cs = Some v)"

type_synonym col = "u8 \<times> nat \<times> bytes"

definition all_cols :: "columns \<Rightarrow> col list" where
  "all_cols c =
     [(CT_PC, 8, enc_elems (le_bytes 8) (c_pc c)), (CT_DST, 1, enc_elems (\<lambda>b. [b]) (c_dst c)),
      (CT_VAL, 8, enc_elems (le_bytes 8) (c_val c)), (CT_FLAGS, 1, enc_elems (\<lambda>b. [b]) (c_flags c)),
      (CT_EXC_IDX, 4, enc_elems (le_bytes 4) (c_eidx c)), (CT_EXC_CAU, 1, enc_elems (\<lambda>b. [b]) (c_ecau c)),
      (CT_EXC_EPC, 8, enc_elems (le_bytes 8) (c_eepc c)), (CT_EXC_BAD, 8, enc_elems (le_bytes 8) (c_ebad c)),
      (CT_ST_PC, 8, enc_elems (le_bytes 8) (c_stpc c)), (CT_ST_ADDR, 8, enc_elems (le_bytes 8) (c_staddr c)),
      (CT_ST_DATA, 8, enc_elems (le_bytes 8) (c_stdata c))]"

definition live_cols :: "columns \<Rightarrow> col list" where
  "live_cols c = filter (\<lambda>(_, _, v). v \<noteq> []) (all_cols c)"

definition col_body :: "(bytes \<Rightarrow> bytes option) \<Rightarrow> col \<Rightarrow> bytes" where
  "col_body zcomp x = (case x of (_, _, v) \<Rightarrow> the (zcomp v))"

definition col_info :: "(bytes \<Rightarrow> bytes option) \<Rightarrow> col \<Rightarrow> colinfo" where
  "col_info zcomp x = (case x of (cid, esz, v) \<Rightarrow>
     \<lparr>ci_id = cid, ci_esz = of_nat esz, ci_raw = of_nat (length v), ci_comp = of_nat (length (col_body zcomp x))\<rparr>)"

definition enc_colinfo :: "colinfo \<Rightarrow> bytes" where
  "enc_colinfo c = [ci_id c, ci_esz c] @ le_bytes 4 (ci_raw c) @ le_bytes 4 (ci_comp c)"

lemma stage_fold:
  "stage_columns zcomp c = fold (\<lambda>(cid, esz, v). put_col zcomp cid esz v) (all_cols c) ([], [], 0)"
  by (simp add: stage_columns_def all_cols_def Let_def)

lemma put_col_total:
  assumes "\<forall>v. zcomp v \<noteq> None"
  shows "put_col zcomp cid esz v (hdr, body, nc) = (if v = [] then (hdr, body, nc)
    else (hdr @ enc_colinfo (col_info zcomp (cid, esz, v)), body @ col_body zcomp (cid, esz, v), nc + 1))"
proof -
  obtain cs where "zcomp v = Some cs" using assms by fastforce
  then show ?thesis by (simp add: put_col_def enc_colinfo_def col_info_def col_body_def)
qed

lemma fold_put_col:
  assumes "\<forall>v. zcomp v \<noteq> None"
  shows "fold (\<lambda>(cid, esz, v). put_col zcomp cid esz v) xs (hdr, body, nc) =
    (hdr @ concat (map (enc_colinfo \<circ> col_info zcomp) (filter (\<lambda>(_, _, v). v \<noteq> []) xs)),
     body @ concat (map (col_body zcomp) (filter (\<lambda>(_, _, v). v \<noteq> []) xs)),
     nc + of_nat (length (filter (\<lambda>(_, _, v). v \<noteq> []) xs)))"
proof (induction xs arbitrary: hdr body nc)
  case (Cons x xs)
  obtain cid esz v where x: "x = (cid, esz, v)" by (cases x)
  show ?case by (simp add: x Cons put_col_total [OF assms])
qed simp

definition enc_chunk :: "(bytes \<Rightarrow> bytes option) \<Rightarrow> columns \<Rightarrow> bytes" where
  "enc_chunk zcomp c = le_bytes 4 (of_nat (length (c_pc c)) :: u32) @ le_bytes 4 (of_nat (length (live_cols c)) :: u32)
     @ concat (map (enc_colinfo \<circ> col_info zcomp) (live_cols c)) @ concat (map (col_body zcomp) (live_cols c))"

lemma zstd_total: "zstd_ok zcomp zdecomp \<Longrightarrow> \<forall>v. zcomp v \<noteq> None"
  unfolding zstd_ok_def by fastforce

lemma flush_chunk_file:
  assumes "zstd_ok zcomp zdecomp"
  shows "ct_file (flush_chunk zcomp w) = ct_file w @ enc_chunk zcomp (cols w)"
  by (simp add: flush_chunk_def stage_fold fold_put_col [OF zstd_total [OF assms]] enc_chunk_def
      live_cols_def Let_def)

lemma rd_colinfo_enc: "rd_colinfo (enc_colinfo c @ f) = Some (c, f)"
proof -
  have r: "rd (Suc 0) (b # g) = Some ([b], g)" for b g by (simp add: rd_def)
  show ?thesis
    by (simp add: rd_colinfo_def enc_colinfo_def r rd_append_len le_word_le_bytes)
qed

lemma rd_colinfos_enc: "rd_colinfos (length cs) (concat (map enc_colinfo cs) @ f) = Some (cs, f)"
  by (induction cs) (simp_all add: rd_colinfo_enc)

text \<open>A column list whose sizes fit the format's 32-bit fields.\<close>

definition cols_fit :: "(bytes \<Rightarrow> bytes option) \<Rightarrow> col list \<Rightarrow> bool" where
  "cols_fit zcomp xs \<longleftrightarrow> (\<forall>(_, _, v)\<in>set xs. length v < 2 ^ 31)"

lemma col_info_sizes:
  assumes "zstd_ok zcomp zdecomp" "length v < 2 ^ 31"
  shows "unat (ci_raw (col_info zcomp (cid, esz, v))) = length v"
    "unat (ci_comp (col_info zcomp (cid, esz, v))) = length (col_body zcomp (cid, esz, v))"
    "zdecomp (length v) (col_body zcomp (cid, esz, v)) = Some v"
proof -
  obtain cs where cs: "zcomp v = Some cs" "length cs \<le> length v + length v div 256 + 64" "zdecomp (length v) cs = Some v"
    using assms(1) by (auto simp: zstd_ok_def)
  have "length cs < 2 ^ 32" using cs(2) assms(2) by simp
  then show "unat (ci_raw (col_info zcomp (cid, esz, v))) = length v"
    "unat (ci_comp (col_info zcomp (cid, esz, v))) = length (col_body zcomp (cid, esz, v))"
    "zdecomp (length v) (col_body zcomp (cid, esz, v)) = Some v"
    using assms(2) cs(1,3) by (simp_all add: col_info_def col_body_def unat_of_nat take_bit_eq_mod)
qed

text \<open>Reading the columns back applies each in turn and adds up the totals.\<close>

definition count_col :: "(bytes \<Rightarrow> bytes option) \<Rightarrow> col \<Rightarrow> dump_state \<Rightarrow> dump_state" where
  "count_col zcomp x d = (case x of (cid, esz, v) \<Rightarrow>
     d\<lparr>d_comp_bytes := d_comp_bytes d + ucast (ci_comp (col_info zcomp x)),
       d_raw_bytes := d_raw_bytes d + ucast (ci_raw (col_info zcomp x)),
       d_excs := d_excs d + (if cid = CT_EXC_IDX then of_nat (length v div 4) else 0)\<rparr>)"

lemma rd_columns_step:
  assumes "zstd_ok zcomp zdecomp" "length v < 2 ^ 31"
  shows "rd_columns zdecomp (col_info zcomp (cid, esz, v) # cs) k d (col_body zcomp (cid, esz, v) @ f) =
    rd_columns zdecomp cs (assign_col cid v k) (count_col zcomp (cid, esz, v) d) f"
proof -
  have "ci_id (col_info zcomp (cid, esz, v)) = cid" by (simp add: col_info_def)
  then show ?thesis using col_info_sizes [OF assms, of cid esz] by (simp add: count_col_def)
qed

lemma rd_columns_enc:
  assumes "zstd_ok zcomp zdecomp" "cols_fit zcomp xs"
  shows "rd_columns zdecomp (map (col_info zcomp) xs) k d (concat (map (col_body zcomp) xs) @ f) =
    Inr (fold (\<lambda>(cid, _, v). assign_col cid v) xs k, fold (count_col zcomp) xs d, f)"
  using assms(2)
proof (induction xs arbitrary: k d)
  case (Cons x xs)
  obtain cid esz v where x: "x = (cid, esz, v)" by (cases x)
  have v: "length v < 2 ^ 31" using Cons.prems by (auto simp: cols_fit_def x)
  have "cols_fit zcomp xs" using Cons.prems by (simp add: cols_fit_def)
  then show ?case using Cons.IH by (simp add: x rd_columns_step [OF assms(1) v] del: rd_columns.simps(2))
qed simp

lemma assign_cols:
  "k_pc k = [] \<Longrightarrow> (if enc_elems (le_bytes 8) v = [] then k else assign_col CT_PC (enc_elems (le_bytes 8) v) k) = k\<lparr>k_pc := v\<rparr>"
  "k_val k = [] \<Longrightarrow> (if enc_elems (le_bytes 8) v = [] then k else assign_col CT_VAL (enc_elems (le_bytes 8) v) k) = k\<lparr>k_val := v\<rparr>"
  "k_dst k = [] \<Longrightarrow> (if enc_elems (\<lambda>b. [b]) u = [] then k else assign_col CT_DST (enc_elems (\<lambda>b. [b]) u) k) = k\<lparr>k_dst := u\<rparr>"
  "k_flags k = [] \<Longrightarrow> (if enc_elems (\<lambda>b. [b]) u = [] then k else assign_col CT_FLAGS (enc_elems (\<lambda>b. [b]) u) k) = k\<lparr>k_flags := u\<rparr>"
  "k_stpc k = [] \<Longrightarrow> (if enc_elems (le_bytes 8) v = [] then k else assign_col CT_ST_PC (enc_elems (le_bytes 8) v) k) = k\<lparr>k_stpc := v\<rparr>"
  "k_staddr k = [] \<Longrightarrow> (if enc_elems (le_bytes 8) v = [] then k else assign_col CT_ST_ADDR (enc_elems (le_bytes 8) v) k) = k\<lparr>k_staddr := v\<rparr>"
  "k_stdata k = [] \<Longrightarrow> (if enc_elems (le_bytes 8) v = [] then k else assign_col CT_ST_DATA (enc_elems (le_bytes 8) v) k) = k\<lparr>k_stdata := v\<rparr>"
  "assign_col CT_EXC_IDX bs k = k" "assign_col CT_EXC_CAU bs k = k"
  "assign_col CT_EXC_EPC bs k = k" "assign_col CT_EXC_BAD bs k = k"
proof -
  have e: "enc_elems (le_bytes 8 :: u64 \<Rightarrow> bytes) v = [] \<longleftrightarrow> v = []"
    using u64s.length_enc_elems [of v] by (metis length_0_conv mult_eq_0_iff zero_neq_numeral)
  note d = u64s.dec_enc_elems [of v]
  show "k_pc k = [] \<Longrightarrow> (if enc_elems (le_bytes 8) v = [] then k else assign_col CT_PC (enc_elems (le_bytes 8) v) k) = k\<lparr>k_pc := v\<rparr>"
    "k_val k = [] \<Longrightarrow> (if enc_elems (le_bytes 8) v = [] then k else assign_col CT_VAL (enc_elems (le_bytes 8) v) k) = k\<lparr>k_val := v\<rparr>"
    "k_stpc k = [] \<Longrightarrow> (if enc_elems (le_bytes 8) v = [] then k else assign_col CT_ST_PC (enc_elems (le_bytes 8) v) k) = k\<lparr>k_stpc := v\<rparr>"
    "k_staddr k = [] \<Longrightarrow> (if enc_elems (le_bytes 8) v = [] then k else assign_col CT_ST_ADDR (enc_elems (le_bytes 8) v) k) = k\<lparr>k_staddr := v\<rparr>"
    "k_stdata k = [] \<Longrightarrow> (if enc_elems (le_bytes 8) v = [] then k else assign_col CT_ST_DATA (enc_elems (le_bytes 8) v) k) = k\<lparr>k_stdata := v\<rparr>"
    by (auto simp: e d assign_col_def ct_ids dec_u64s_def)
qed (auto simp: enc_u8s assign_col_def ct_ids)

lemma fold_filter_if:
  "fold f (filter P xs) k = fold (\<lambda>x k. if P x then f x k else k) xs k"
  by (induction xs arbitrary: k) auto

text \<open>The columns as the reader holds them.\<close>

definition read_cols :: "columns \<Rightarrow> chunk_cols" where
  "read_cols c = \<lparr>k_pc = c_pc c, k_val = c_val c, k_dst = c_dst c, k_flags = c_flags c,
     k_stpc = c_stpc c, k_staddr = c_staddr c, k_stdata = c_stdata c\<rparr>"

lemma assign_live_cols: "fold (\<lambda>(cid, _, v). assign_col cid v) (live_cols c) no_chunk_cols = read_cols c"
proof -
  have i: "(if x \<noteq> y then p else q) = (if x = y then q else p)" for x y :: bytes and p q :: chunk_cols by simp
  show ?thesis
    unfolding live_cols_def fold_filter_if all_cols_def
    by (simp add: i assign_cols no_chunk_cols_def read_cols_def del: if_not_P cong del: if_weak_cong)
qed

text \<open>The records of a chunk, as the sidecar holds them, and as the reader prints them.\<close>

definition enc_raw :: "u64 \<times> u8 \<times> u64 \<times> u8 \<Rightarrow> bytes" where
  "enc_raw r = (case r of (pc, dst, v, fl) \<Rightarrow> le_bytes 8 pc @ le_bytes 8 v @ [dst] @ [fl])"

definition records :: "columns \<Rightarrow> (u64 \<times> u8 \<times> u64 \<times> u8) list" where
  "records c = zip (c_pc c) (zip (c_dst c) (zip (c_val c) (c_flags c)))"

definition print_line :: "u64 \<Rightarrow> u64 \<times> u8 \<times> u64 \<times> u8 \<Rightarrow> rec_line" where
  "print_line num r = (num, r)"

text \<open>A chunk the writer can produce: records in step, at least one, sizes that fit.\<close>

definition chunk_ok :: "columns \<Rightarrow> bool" where
  "chunk_ok c \<longleftrightarrow> c_pc c \<noteq> [] \<and> length (c_dst c) = length (c_pc c) \<and> length (c_val c) = length (c_pc c) \<and>
     length (c_flags c) = length (c_pc c) \<and> length (c_eidx c) < 2 ^ 28 \<and> length (c_ecau c) < 2 ^ 28 \<and>
     length (c_eepc c) < 2 ^ 28 \<and> length (c_ebad c) < 2 ^ 28 \<and> length (c_stpc c) < 2 ^ 28 \<and>
     length (c_staddr c) < 2 ^ 28 \<and> length (c_stdata c) < 2 ^ 28 \<and> length (c_pc c) < 2 ^ 28"

lemma length_records: "chunk_ok c \<Longrightarrow> length (records c) = length (c_pc c)"
  by (simp add: records_def chunk_ok_def)

lemma nth_records:
  "chunk_ok c \<Longrightarrow> i < length (c_pc c) \<Longrightarrow> records c ! i = (c_pc c ! i, c_dst c ! i, c_val c ! i, c_flags c ! i)"
  by (simp add: records_def chunk_ok_def)

lemma live_cols_fit: "chunk_ok c \<Longrightarrow> cols_fit zcomp (live_cols c)"
proof -
  assume "chunk_ok c"
  then have "cols_fit zcomp (all_cols c)"
    by (simp add: chunk_ok_def cols_fit_def all_cols_def enc_u8s u64s.length_enc_elems u32s.length_enc_elems)
  then show ?thesis by (simp add: cols_fit_def live_cols_def)
qed

lemma length_live_cols: "length (live_cols c) \<le> 11"
  unfolding live_cols_def by (rule order_trans [OF length_filter_le]) (simp add: all_cols_def)

lemma live_cols_nonempty: "chunk_ok c \<Longrightarrow> live_cols c \<noteq> []"
proof -
  assume "chunk_ok c"
  then have "enc_elems (le_bytes 8) (c_pc c) \<noteq> []"
    using u64s.length_enc_elems [of "c_pc c"] by (auto simp: chunk_ok_def)
  then show ?thesis by (simp add: live_cols_def all_cols_def)
qed

lemma rd_raw_enc: "rd_raw (enc_raw (pc, dst, v, fl) @ r) = (Some (pc, v, dst, fl), r)"
proof -
  have "length (enc_raw (pc, dst, v, fl)) = 18" by (simp add: enc_raw_def)
  then have "rd 18 (enc_raw (pc, dst, v, fl) @ r) = Some (enc_raw (pc, dst, v, fl), r)"
    by (rule rd_append_len)
  then show ?thesis by (simp add: rd_raw_def enc_raw_def nth_append le_word_le_bytes)
qed

lemma compare_rec_equal:
  assumes "chunk_ok c" "i < length (c_pc c)" "d_raw d = Some (enc_raw (records c ! i) @ r)"
  shows "compare_rec (read_cols c) i d = Inr (d\<lparr>d_raw := Some r\<rparr>)"
  using assms by (simp add: compare_rec_def nth_records rd_raw_enc rec_differs_def nth_opt_def
      read_cols_def chunk_ok_def)

lemma print_rec_line:
  assumes "chunk_ok c" "i < length (c_pc c)"
  shows "print_rec head (read_cols c) i d = Inr (if length (d_head d) < head
    then d\<lparr>d_head := d_head d @ [print_line (d_recs d + of_nat i) (records c ! i)]\<rparr> else d)"
  using assms by (simp add: print_rec_def rec_line_def nth_opt_def read_cols_def chunk_ok_def nth_records print_line_def)

lemma rd_records_equal:
  assumes "chunk_ok c" "i \<le> length (c_pc c)" "length (d_head d) \<le> head"
    and "d_raw d = Some (concat (map enc_raw (drop i (records c))) @ r)"
  shows "rd_records head (read_cols c) [i..<length (c_pc c)] d = Inr (d\<lparr>d_raw := Some r,
    d_head := take head (d_head d @ map (\<lambda>j. print_line (d_recs d + of_nat j) (records c ! j)) [i..<length (c_pc c)])\<rparr>)"
  using assms(2-)
proof (induction "length (c_pc c) - i" arbitrary: i d)
  case 0
  then show ?case by (simp add: length_records [OF assms(1)])
next
  case (Suc n)
  then have i: "i < length (c_pc c)" by simp
  then have "drop i (records c) = records c ! i # drop (Suc i) (records c)"
    by (simp add: Cons_nth_drop_Suc length_records [OF assms(1)])
  then have raw: "d_raw d = Some (enc_raw (records c ! i) @ concat (map enc_raw (drop (Suc i) (records c))) @ r)"
    using Suc.prems(3) by simp
  note step = compare_rec_equal [OF assms(1) i raw] print_rec_line [OF assms(1) i]
  have u: "[i..<length (c_pc c)] = i # [Suc i..<length (c_pc c)]" using i by (rule upt_conv_Cons)
  show ?case
  proof (cases "length (d_head d) < head")
    case True
    then have "take head (d_head d @ map f (i # is)) = take head ((d_head d @ [f i]) @ map f is)" for f :: "nat \<Rightarrow> rec_line" and "is"
      by simp
    then show ?thesis
      unfolding u rd_records.simps step
      using True Suc.prems Suc.hyps(2) by (simp add: step Suc.hyps(1))
  next
    case False
    then show ?thesis
      unfolding u rd_records.simps step
      using Suc.prems Suc.hyps(2) by (simp add: step Suc.hyps(1))
  qed
qed

text \<open>What one chunk does to the reader's totals: the state after a whole chunk.\<close>

definition after_chunk :: "(bytes \<Rightarrow> bytes option) \<Rightarrow> dump_opts \<Rightarrow> columns \<Rightarrow> dump_state \<Rightarrow> dump_state" where
  "after_chunk zcomp opts c d =
     (let d = chunk_stats opts (read_cols c) (fold (count_col zcomp) (live_cols c) d);
          n = length (c_pc c)
      in d\<lparr>d_raw := map_option (drop (18 * n)) (d_raw d),
           d_head := take (o_head opts) (d_head d @
             map (\<lambda>j. print_line (d_recs d + of_nat j) (records c ! j)) [0..<n]),
           d_recs := d_recs d + of_nat n, d_chunks := d_chunks d + 1\<rparr>)"

lemma fold_count_col [simp]:
  "d_raw (fold (count_col zcomp) xs d) = d_raw d" "d_head (fold (count_col zcomp) xs d) = d_head d"
  "d_recs (fold (count_col zcomp) xs d) = d_recs d" "d_truncated (fold (count_col zcomp) xs d) = d_truncated d"
  "d_chunks (fold (count_col zcomp) xs d) = d_chunks d" "d_mismatches (fold (count_col zcomp) xs d) = d_mismatches d"
  "d_nstores (fold (count_col zcomp) xs d) = d_nstores d" "d_stores (fold (count_col zcomp) xs d) = d_stores d"
  by (induction xs arbitrary: d) (auto simp: count_col_def split: prod.splits)

lemma chunk_stats_frame [simp]:
  "d_raw (chunk_stats opts k d) = d_raw d" "d_head (chunk_stats opts k d) = d_head d"
  "d_recs (chunk_stats opts k d) = d_recs d" "d_truncated (chunk_stats opts k d) = d_truncated d"
  "d_chunks (chunk_stats opts k d) = d_chunks d" "d_mismatches (chunk_stats opts k d) = d_mismatches d"
  "d_excs (chunk_stats opts k d) = d_excs d"
  by (simp_all add: chunk_stats_def Let_def)

lemma length_concat_raw: "length (concat (map enc_raw xs)) = 18 * length xs"
  by (induction xs) (auto simp: enc_raw_def split: prod.splits)

lemma le32_of_nat: "n < 2 ^ 32 \<Longrightarrow> unat (le_word (le_bytes 4 (of_nat n :: u32)) :: u32) = n"
  by (simp add: le_word_le_bytes unat_of_nat take_bit_eq_mod)

lemma rd_chunk_enc:
  assumes z: "zstd_ok zcomp zdecomp" and c: "chunk_ok c"
    and d: "\<not> d_truncated d" "length (d_head d) \<le> o_head opts"
      "d_raw d = Some (concat (map enc_raw (records c)) @ r)"
  shows "rd_chunk zdecomp opts d (enc_chunk zcomp c @ f) = Next (after_chunk zcomp opts c d) f"
proof -
  let ?L = "live_cols c" and ?n = "length (c_pc c)"
  have nc: "0 < length ?L" "length ?L \<le> 16" using live_cols_nonempty [OF c] length_live_cols [of c] by auto
  then have nc': "(of_nat (length ?L) :: u32) \<noteq> 0" "\<not> (16 :: u32) < of_nat (length ?L)"
      "unat (of_nat (length ?L) :: u32) = length ?L"
    by (simp_all add: word_unat_eq_iff word_less_nat_alt unat_of_nat take_bit_eq_mod)
  have n: "unat (of_nat ?n :: u32) = ?n" "(ucast (of_nat ?n :: u32) :: u64) = of_nat ?n"
    using c by (simp_all add: chunk_ok_def unat_of_nat take_bit_eq_mod word_unat_eq_iff)
  have tab: "rd_colinfos (length ?L) (concat (map (enc_colinfo \<circ> col_info zcomp) ?L) @ g) = Some (map (col_info zcomp) ?L, g)" for g
    using rd_colinfos_enc [of "map (col_info zcomp) ?L" g] by (simp add: comp_def)
  let ?d = "chunk_stats opts (read_cols c) (fold (count_col zcomp) ?L d)"
  have recs: "rd_records (o_head opts) (read_cols c) [0..<?n] ?d = Inr (?d\<lparr>d_raw := Some r,
      d_head := take (o_head opts) (d_head ?d @ map (\<lambda>j. print_line (d_recs ?d + of_nat j) (records c ! j)) [0..<?n])\<rparr>)"
    by (rule rd_records_equal) (use c d in simp_all)
  have rdrop: "d_raw ?d = Some (concat (map enc_raw (records c)) @ r)" using d(3) by simp
  show ?thesis
    using nc' n recs d(1) length_records [OF c]
    by (simp add: rd_chunk_def enc_chunk_def rd_append_len le_word_le_bytes tab Let_def
        rd_columns_enc [OF z live_cols_fit [OF c]] assign_live_cols after_chunk_def d(3) length_concat_raw)
       (simp add: read_cols_def)
qed

text \<open>A file's worth of chunks.\<close>

definition numbered :: "(u64 \<times> u8 \<times> u64 \<times> u8) list \<Rightarrow> rec_line list" where
  "numbered rs = map (\<lambda>j. print_line (of_nat j) (rs ! j)) [0..<length rs]"

lemma numbered_append:
  "numbered (xs @ ys) = numbered xs @ map (\<lambda>j. print_line (of_nat (length xs) + of_nat j) (ys ! j)) [0..<length ys]"
proof -
  have "[0..<length xs + length ys] = [0..<length xs] @ map (\<lambda>j. j + length xs) [0..<length ys]"
    by (simp only: upt_add_eq_append [OF le0] map_add_upt) (simp add: add.commute)
  then show ?thesis by (simp add: numbered_def nth_append add.commute)
qed

definition all_records :: "columns list \<Rightarrow> (u64 \<times> u8 \<times> u64 \<times> u8) list" where
  "all_records ds = concat (map records ds)"

lemma after_chunk_sel:
  "d_head (after_chunk zcomp opts c d) = take (o_head opts) (d_head d @
     map (\<lambda>j. print_line (d_recs d + of_nat j) (records c ! j)) [0..<length (c_pc c)])"
  "d_recs (after_chunk zcomp opts c d) = d_recs d + of_nat (length (c_pc c))"
  "d_chunks (after_chunk zcomp opts c d) = d_chunks d + 1"
  "d_mismatches (after_chunk zcomp opts c d) = d_mismatches d"
  "d_truncated (after_chunk zcomp opts c d) = d_truncated d"
  "d_raw (after_chunk zcomp opts c d) = map_option (drop (18 * length (c_pc c))) (d_raw d)"
  "d_nstores (after_chunk zcomp opts c d) = d_nstores d + of_nat (length (c_staddr c))"
  by (simp_all add: after_chunk_def Let_def) (simp add: chunk_stats_def Let_def read_cols_def)

lemma after_chunks:
  assumes "\<forall>c\<in>set ds. chunk_ok c" "d_head d = []" "d_recs d = 0" "d_chunks d = 0" "d_nstores d = 0"
    and "d_raw d = Some (concat (map enc_raw (all_records ds)) @ r)"
  shows "let d' = fold (after_chunk zcomp opts) ds d in
    d_head d' = take (o_head opts) (numbered (all_records ds)) \<and> d_recs d' = of_nat (length (all_records ds)) \<and>
    d_chunks d' = of_nat (length ds) \<and> d_mismatches d' = d_mismatches d \<and> d_truncated d' = d_truncated d \<and>
    d_raw d' = Some r \<and> d_nstores d' = of_nat (length (concat (map c_staddr ds)))"
  using assms
proof (induction ds arbitrary: r rule: rev_induct)
  case Nil
  then show ?case by (simp add: all_records_def numbered_def)
next
  case (snoc c ds)
  let ?d = "fold (after_chunk zcomp opts) ds d"
  have c: "chunk_ok c" using snoc.prems(1) by simp
  have ih: "d_head ?d = take (o_head opts) (numbered (all_records ds))" "d_recs ?d = of_nat (length (all_records ds))"
      "d_chunks ?d = of_nat (length ds)" "d_mismatches ?d = d_mismatches d" "d_truncated ?d = d_truncated d"
      "d_raw ?d = Some (concat (map enc_raw (records c)) @ r)" "d_nstores ?d = of_nat (length (concat (map c_staddr ds)))"
    using snoc.IH [of "concat (map enc_raw (records c)) @ r"] snoc.prems by (simp_all add: all_records_def Let_def)
  show ?case
    using ih length_records [OF c]
    by (simp add: after_chunk_sel Let_def all_records_def numbered_append length_concat_raw min_def)
qed

lemma dump_loop_chunks:
  assumes z: "zstd_ok zcomp zdecomp" and "\<forall>c\<in>set ds. chunk_ok c" "\<not> d_truncated d" "length (d_head d) \<le> o_head opts"
    and "d_raw d = Some (concat (map enc_raw (all_records ds)) @ r)"
  shows "dump_loop zdecomp opts d (concat (map (enc_chunk zcomp) ds) @ f) =
    dump_loop zdecomp opts (fold (after_chunk zcomp opts) ds d) f"
  using assms(2-)
proof (induction ds arbitrary: d)
  case (Cons c ds)
  let ?d = "after_chunk zcomp opts c d"
  have c: "chunk_ok c" using Cons.prems(1) by simp
  have raw: "d_raw d = Some (concat (map enc_raw (records c)) @ concat (map enc_raw (all_records ds)) @ r)"
    using Cons.prems(4) by (simp add: all_records_def)
  have "rd_chunk zdecomp opts d (enc_chunk zcomp c @ concat (map (enc_chunk zcomp) ds) @ f)
      = Next ?d (concat (map (enc_chunk zcomp) ds) @ f)"
    by (rule rd_chunk_enc [OF z c Cons.prems(2,3) raw])
  then have "dump_loop zdecomp opts d (concat (map (enc_chunk zcomp) (c # ds)) @ f) =
      dump_loop zdecomp opts ?d (concat (map (enc_chunk zcomp) ds) @ f)"
    by (subst dump_loop.simps) simp
  moreover have "dump_loop zdecomp opts ?d (concat (map (enc_chunk zcomp) ds) @ f) =
      dump_loop zdecomp opts (fold (after_chunk zcomp opts) ds ?d) f"
    by (rule Cons.IH)
       (use Cons.prems raw length_records [OF c] in
         \<open>simp_all add: after_chunk_sel length_concat_raw\<close>)
  ultimately show ?case by simp
qed simp

text \<open>The trailer stands where a chunk header would: its chunk count has a zero high word.\<close>

lemma trailer_breaks:
  assumes "n < 2 ^ 32"
  shows "dump_loop zdecomp opts d (le_bytes 8 (of_nat n :: u64) @ f) = Inr (d, le_bytes 8 (of_nat n :: u64) @ f)"
proof -
  define w where "w = (of_nat n :: u64)"
  have "unat w < 2 ^ 32" using assms by (simp add: w_def unat_of_nat take_bit_eq_mod)
  then have hi: "drop_bit 32 w = 0" by (simp add: word_unat_eq_iff unat_drop_bit_div)
  have split: "le_bytes 8 w = le_bytes 4 w @ map (\<lambda>i. ucast (drop_bit (32 + 8 * i) w)) [0..<4]"
    by (simp add: le_bytes_def upt_rec)
  have z: "map (\<lambda>i. ucast (drop_bit (32 + 8 * i) w)) [0..<4] = ([0, 0, 0, 0] :: bytes)"
  proof -
    have "drop_bit (32 + 8 * i) w = 0" for i
      using arg_cong [OF hi, of "drop_bit (8 * i)"] by (simp add: add.commute)
    then show ?thesis by (simp add: upt_rec)
  qed
  have "rd 4 (le_bytes 8 w @ f) = Some (le_bytes 4 w, [0, 0, 0, 0] @ f)"
    unfolding split z append_assoc by (rule rd_append_len) simp
  moreover have "rd 4 ([0, 0, 0, 0] @ f) = Some ([0, 0, 0, 0 :: u8], f)" by (rule rd_append_len) simp
  ultimately have "rd_chunk zdecomp opts d (le_bytes 8 w @ f) = Break d (le_bytes 8 w @ f)"
    by (simp add: rd_chunk_def)
  then show ?thesis unfolding w_def [symmetric] by (subst dump_loop.simps) simp
qed

section \<open>The writer against its specification\<close>

text \<open>
  Specification of the writer: the chunks finished so far and the columns of the next.
\<close>

datatype ct_op = Add u64 u8 u64 u8 | AddStore u64 u64 u64 | AddException u8 u64 u64

fun run_op :: "(bytes \<Rightarrow> bytes option) \<Rightarrow> ct_op \<Rightarrow> ctrace_writer \<Rightarrow> ctrace_writer" where
  "run_op zcomp (Add pc dst v fl) w = ct_add zcomp pc dst v fl w"
| "run_op zcomp (AddStore pc a x) w = ct_add_store pc a x w"
| "run_op zcomp (AddException ca epc bad) w = ct_add_exception ca epc bad w"

fun spec_op :: "u32 \<Rightarrow> ct_op \<Rightarrow> columns list \<times> columns \<Rightarrow> columns list \<times> columns" where
  "spec_op cr (Add pc dst v fl) (ds, c) =
     (let c = c\<lparr>c_pc := c_pc c @ [pc], c_dst := c_dst c @ [dst], c_val := c_val c @ [v], c_flags := c_flags c @ [fl]\<rparr>
      in if unat cr \<le> length (c_pc c) then (ds @ [c], no_columns) else (ds, c))"
| "spec_op cr (AddStore pc a x) (ds, c) =
     (ds, c\<lparr>c_stpc := c_stpc c @ [pc], c_staddr := c_staddr c @ [a], c_stdata := c_stdata c @ [x]\<rparr>)"
| "spec_op cr (AddException ca epc bad) (ds, c) =
     (ds, c\<lparr>c_eidx := c_eidx c @ [of_nat (length (c_pc c))], c_ecau := c_ecau c @ [ca], c_eepc := c_eepc c @ [epc],
        c_ebad := c_ebad c @ [bad]\<rparr>)"

definition ct_rel :: "(bytes \<Rightarrow> bytes option) \<Rightarrow> u32 \<Rightarrow> ctrace_writer \<Rightarrow> columns list \<times> columns \<Rightarrow> bool" where
  "ct_rel zcomp cr w x \<longleftrightarrow> (case x of (ds, c) \<Rightarrow>
     fp w \<and> raw w \<and> chunk_recs w = cr \<and> cols w = c \<and>
     ct_file w = MAGIC @ concat (map (enc_chunk zcomp) ds) \<and>
     sidecar w = concat (map enc_raw (all_records ds @ records c)) \<and>
     n_chunks w = of_nat (length ds) \<and> total_recs w = of_nat (length (all_records ds)))"

text \<open>After \<open>n\<close> operations: records in step, no column longer than \<open>n\<close>, finished chunks well formed.\<close>

definition cur_ok :: "nat \<Rightarrow> columns \<Rightarrow> bool" where
  "cur_ok n c \<longleftrightarrow> length (c_dst c) = length (c_pc c) \<and> length (c_val c) = length (c_pc c) \<and>
     length (c_flags c) = length (c_pc c) \<and> length (c_eidx c) \<le> n \<and> length (c_ecau c) \<le> n \<and>
     length (c_eepc c) \<le> n \<and> length (c_ebad c) \<le> n \<and> length (c_stpc c) \<le> n \<and>
     length (c_staddr c) \<le> n \<and> length (c_stdata c) \<le> n \<and> length (c_pc c) \<le> n"

lemma cur_ok_chunk_ok: "cur_ok n c \<Longrightarrow> n < 2 ^ 28 \<Longrightarrow> c_pc c \<noteq> [] \<Longrightarrow> chunk_ok c"
  by (auto simp: cur_ok_def chunk_ok_def)

lemma records_snoc:
  "cur_ok n c \<Longrightarrow> records (c\<lparr>c_pc := c_pc c @ [pc], c_dst := c_dst c @ [dst], c_val := c_val c @ [v],
     c_flags := c_flags c @ [fl]\<rparr>) = records c @ [(pc, dst, v, fl)]"
  by (simp add: cur_ok_def records_def)

lemma no_columns_simps [simp]: "records no_columns = []" "cur_ok n no_columns" "c_pc no_columns = []"
  by (simp_all add: records_def no_columns_def cur_ok_def)

fun op_record :: "ct_op \<Rightarrow> (u64 \<times> u8 \<times> u64 \<times> u8) list" where
  "op_record (Add pc dst v fl) = [(pc, dst, v, fl)]"
| "op_record _ = []"

definition spec_inv :: "nat \<Rightarrow> (u64 \<times> u8 \<times> u64 \<times> u8) list \<Rightarrow> columns list \<times> columns \<Rightarrow> bool" where
  "spec_inv n rs x \<longleftrightarrow> (\<forall>c\<in>set (fst x). chunk_ok c) \<and> cur_ok n (snd x) \<and> length (fst x) \<le> n \<and>
     all_records (fst x) @ records (snd x) = rs"

lemma spec_op_inv:
  assumes "spec_inv n rs (ds, c)" "Suc n < 2 ^ 28"
  shows "spec_inv (Suc n) (rs @ op_record op) (spec_op cr op (ds, c))"
proof (cases op)
  case (Add pc dst v fl)
  let ?c = "c\<lparr>c_pc := c_pc c @ [pc], c_dst := c_dst c @ [dst], c_val := c_val c @ [v], c_flags := c_flags c @ [fl]\<rparr>"
  have cur: "cur_ok (Suc n) ?c" using assms(1) by (auto simp: spec_inv_def cur_ok_def)
  then have "chunk_ok ?c" using assms(2) by (rule cur_ok_chunk_ok) simp
  moreover have r: "records ?c = records c @ [(pc, dst, v, fl)]"
    using assms(1) by (auto simp: spec_inv_def intro: records_snoc)
  ultimately show ?thesis
    using assms(1) cur by (auto simp: Add spec_inv_def Let_def all_records_def)
next
  case (AddStore pc a x)
  then show ?thesis using assms(1) by (auto simp: spec_inv_def cur_ok_def records_def)
next
  case (AddException ca epc bad)
  then show ?thesis using assms(1) by (auto simp: spec_inv_def cur_ok_def records_def)
qed

lemma flush_rel:
  assumes z: "zstd_ok zcomp zdecomp" and r: "ct_rel zcomp cr w (ds, c)" and c: "chunk_ok c"
  shows "ct_rel zcomp cr (flush_chunk zcomp w) (ds @ [c], no_columns)"
proof -
  have "(ucast (of_nat (length (c_pc c)) :: u32) :: u64) = of_nat (length (c_pc c))"
    using c by (simp add: chunk_ok_def unat_of_nat take_bit_eq_mod word_unat_eq_iff)
  then show ?thesis
    using r flush_chunk_file [OF z, of w] length_records [OF c]
    by (simp add: ct_rel_def flush_chunk_def Let_def all_records_def case_prod_unfold)
qed

text \<open>\<^verbatim>\<open>ctrace_writer\<close> refines its specification, operation by operation.\<close>

lemma run_op_rel:
  assumes z: "zstd_ok zcomp zdecomp" and r: "ct_rel zcomp cr w (ds, c)" and i: "spec_inv n rs (ds, c)" "Suc n < 2 ^ 28"
  shows "ct_rel zcomp cr (run_op zcomp op w) (spec_op cr op (ds, c))"
proof (cases op)
  case (Add pc dst v fl)
  let ?c = "c\<lparr>c_pc := c_pc c @ [pc], c_dst := c_dst c @ [dst], c_val := c_val c @ [v], c_flags := c_flags c @ [fl]\<rparr>"
  let ?w = "w\<lparr>cols := ?c, sidecar := sidecar w @ le_bytes 8 pc @ le_bytes 8 v @ [dst] @ [fl]\<rparr>"
  have "cur_ok (Suc n) ?c" using i by (auto simp: spec_inv_def cur_ok_def)
  then have ok: "chunk_ok ?c" using i(2) by (rule cur_ok_chunk_ok) simp
  have "records ?c = records c @ [(pc, dst, v, fl)]"
    using i(1) by (auto simp: spec_inv_def intro: records_snoc)
  then have rel: "ct_rel zcomp cr ?w (ds, ?c)" using r by (simp add: ct_rel_def enc_raw_def)
  have "run_op zcomp op w = (if unat cr \<le> length (c_pc ?c) then flush_chunk zcomp ?w else ?w)"
    using r by (simp add: Add ct_add_def ct_rel_def Let_def)
  then show ?thesis using rel flush_rel [OF z rel ok] by (simp add: Add Let_def)
next
  case (AddStore pc a x)
  then show ?thesis using r by (simp add: ct_rel_def ct_add_store_def Let_def records_def)
next
  case (AddException ca epc bad)
  then show ?thesis using r by (simp add: ct_rel_def ct_add_exception_def Let_def records_def)
qed

lemma run_ops_rel:
  assumes z: "zstd_ok zcomp zdecomp" and "length ops < 2 ^ 28"
  shows "ct_rel zcomp cr (fold (run_op zcomp) ops (ctrace_open True True cr)) (fold (spec_op cr) ops ([], no_columns)) \<and>
    spec_inv (length ops) (concat (map op_record ops)) (fold (spec_op cr) ops ([], no_columns))"
  using assms(2)
proof (induction ops rule: rev_induct)
  case Nil
  then show ?case by (simp add: ct_rel_def ctrace_open_def spec_inv_def all_records_def)
next
  case (snoc op ops)
  obtain ds c where x: "fold (spec_op cr) ops ([], no_columns) = (ds, c)" by fastforce
  have ih: "ct_rel zcomp cr (fold (run_op zcomp) ops (ctrace_open True True cr)) (ds, c)"
      "spec_inv (length ops) (concat (map op_record ops)) (ds, c)" "Suc (length ops) < 2 ^ 28"
    using snoc by (simp_all add: x)
  show ?case using run_op_rel [OF z ih] spec_op_inv [OF ih(2,3)] by (simp add: x)
qed

lemma close_rel:
  assumes z: "zstd_ok zcomp zdecomp" and r: "ct_rel zcomp cr w (ds, c)" and i: "spec_inv n rs (ds, c)" "n < 2 ^ 28"
  obtains ds' where "\<forall>c\<in>set ds'. chunk_ok c" "all_records ds' = rs" "length ds' \<le> Suc n"
    "sidecar (ct_close zcomp w) = concat (map enc_raw rs)"
    "ct_file (ct_close zcomp w) = MAGIC @ concat (map (enc_chunk zcomp) ds') @
       le_bytes 8 (of_nat (length ds') :: u64) @ le_bytes 8 (of_nat (length rs) :: u64) @ TRAILER_MAGIC"
    "ds' = ds @ (if c_pc c = [] then [] else [c])"
proof (cases "c_pc c = []")
  case True
  then have "records c = []" by (simp add: records_def)
  then show ?thesis
    using True r i by (intro that [of ds]) (auto simp: ct_close_def ct_rel_def spec_inv_def)
next
  case False
  then have ok: "chunk_ok c" using i by (intro cur_ok_chunk_ok) (auto simp: spec_inv_def)
  have f: "ct_rel zcomp cr (flush_chunk zcomp w) (ds @ [c], no_columns)" by (rule flush_rel [OF z r ok])
  have "cols w = c" "fp w" using r by (simp_all add: ct_rel_def)
  then show ?thesis
    using False f i ok by (intro that [of "ds @ [c]"]) (auto simp: ct_close_def ct_rel_def spec_inv_def all_records_def)
qed

lemma rd_trailer_enc:
  "rd_trailer (le_bytes 8 a @ le_bytes 8 b @ TRAILER_MAGIC) = Some (a, b)"
proof -
  have t: "rd 8 TRAILER_MAGIC = Some (TRAILER_MAGIC, [])" by (simp add: rd_def TRAILER_MAGIC_def)
  show ?thesis by (simp add: rd_trailer_def rd_append_len le_word_le_bytes t)
qed

text \<open>
  C4.  Writer and reader round-trip: after any sequence of records, stores and exceptions
  and a close, the dump of the file against the raw sidecar exits 0, finds a matching
  trailer, counts every record added, sees no mismatch, and lists exactly the records
  added, in order.
\<close>

theorem ctrace_roundtrip:
  assumes "zstd_ok zcomp zdecomp" and "length ops < 2 ^ 28"
  shows "let w = ct_close zcomp (fold (run_op zcomp) ops (ctrace_open True True cr));
             rs = concat (map op_record ops)
    in \<exists>d. ctrace_dump zdecomp opts (Some (sidecar w)) (ct_file w) =
         Inr \<lparr>exit_code = 0, totals = d, trailer = Some (d_chunks d, d_recs d)\<rparr> \<and>
       d_recs d = of_nat (length rs) \<and> d_mismatches d = 0 \<and> \<not> d_truncated d \<and>
       d_head d = take (o_head opts) (numbered rs)"
proof -
  let ?rs = "concat (map op_record ops)" and ?w0 = "fold (run_op zcomp) ops (ctrace_open True True cr)"
  obtain ds c where x: "fold (spec_op cr) ops ([], no_columns) = (ds, c)" by fastforce
  have r: "ct_rel zcomp cr ?w0 (ds, c)" "spec_inv (length ops) ?rs (ds, c)"
    using run_ops_rel [OF assms, of cr] by (simp_all add: x)
  obtain ds' where ds': "\<forall>c\<in>set ds'. chunk_ok c" "all_records ds' = ?rs" "length ds' \<le> Suc (length ops)"
    "sidecar (ct_close zcomp ?w0) = concat (map enc_raw ?rs)"
    "ct_file (ct_close zcomp ?w0) = MAGIC @ concat (map (enc_chunk zcomp) ds') @
       le_bytes 8 (of_nat (length ds') :: u64) @ le_bytes 8 (of_nat (length ?rs) :: u64) @ TRAILER_MAGIC"
    by (rule close_rel [OF assms(1) r assms(2)])
  let ?t = "le_bytes 8 (of_nat (length ds') :: u64) @ le_bytes 8 (of_nat (length ?rs) :: u64) @ TRAILER_MAGIC"
  let ?i = "dump_init (Some (sidecar (ct_close zcomp ?w0)))"
  let ?d = "fold (after_chunk zcomp opts) ds' ?i"
  have i: "d_raw ?i = Some (concat (map enc_raw (all_records ds')) @ [])" by (simp add: dump_init_def ds')
  have d: "d_head ?d = take (o_head opts) (numbered ?rs)" "d_recs ?d = of_nat (length ?rs)"
      "d_chunks ?d = of_nat (length ds')" "d_mismatches ?d = 0" "\<not> d_truncated ?d"
    using after_chunks [OF ds'(1) _ _ _ _ i, of zcomp opts] ds'(2) by (simp_all add: dump_init_def Let_def)
  have "length ds' < 2 ^ 32" using ds'(3) assms(2) by simp
  then have "dump_loop zdecomp opts ?i (concat (map (enc_chunk zcomp) ds') @ ?t) = Inr (?d, ?t)"
    using dump_loop_chunks [OF assms(1) ds'(1) _ _ i, of opts ?t] trailer_breaks [of "length ds'"]
    by (simp add: dump_init_def)
  moreover have "rd 8 (MAGIC @ f) = Some (MAGIC, f)" for f by (rule rd_append_len) (simp add: MAGIC_def)
  ultimately have "ctrace_dump zdecomp opts (Some (sidecar (ct_close zcomp ?w0))) (ct_file (ct_close zcomp ?w0)) =
      Inr \<lparr>exit_code = 0, totals = ?d, trailer = Some (d_chunks ?d, d_recs ?d)\<rparr>"
    using d by (simp add: ctrace_dump_def ds'(5) rd_trailer_enc)
  then show ?thesis using d unfolding Let_def by blast
qed

text \<open>A codec that meets \<open>zstd_ok\<close>: stored frames.\<close>

lemma zstd_ok_stored: "zstd_ok Some (\<lambda>n cs. if length cs \<le> n then Some cs else None)"
  by (simp add: zstd_ok_def)

definition sample_ops :: "ct_op list" where
  "sample_ops = [Add 0xbfc00000 2 7 0, AddStore 0xbfc00004 0x08001000 5, Add 0xbfc00004 0 0 4]"

definition sample_trace :: ctrace_writer where
  "sample_trace = ct_close Some (fold (run_op Some) sample_ops (ctrace_open True True 1))"

theorem ctrace_roundtrip_witness:
  "\<exists>d. ctrace_dump (\<lambda>n cs. if length cs \<le> n then Some cs else None) \<lparr>o_head = 2, o_addr = None\<rparr>
     (Some (sidecar sample_trace)) (ct_file sample_trace) =
       Inr \<lparr>exit_code = 0, totals = d, trailer = Some (d_chunks d, d_recs d)\<rparr> \<and> d_recs d = 2 \<and>
     d_head d = [(0, 0xbfc00000, 2, 7, 0), (1, 0xbfc00004, 0, 0, 4)]"
proof -
  have "length sample_ops < 2 ^ 28" by (simp add: sample_ops_def)
  from ctrace_roundtrip [OF zstd_ok_stored this, of 1 "\<lparr>o_head = 2, o_addr = None\<rparr>"]
  obtain d where d: "ctrace_dump (\<lambda>n cs. if length cs \<le> n then Some cs else None) \<lparr>o_head = 2, o_addr = None\<rparr>
     (Some (sidecar sample_trace)) (ct_file sample_trace) =
       Inr \<lparr>exit_code = 0, totals = d, trailer = Some (d_chunks d, d_recs d)\<rparr>"
      "d_recs d = of_nat (length (concat (map op_record sample_ops)))"
      "d_head d = take 2 (numbered (concat (map op_record sample_ops)))"
    unfolding Let_def sample_trace_def [symmetric] by auto
  have "concat (map op_record sample_ops) = [(0xbfc00000, 2, 7, 0), (0xbfc00004, 0, 0, 4)]"
    by (simp add: sample_ops_def)
  then show ?thesis using d by (simp add: numbered_def print_line_def upt_rec)
qed

section \<open>A trace cut short\<close>

lemma rd_colinfo_short: "length f < 10 \<Longrightarrow> rd_colinfo f = None"
  by (auto simp: rd_colinfo_def rd_def bind_eq_None_conv)

lemma rd_colinfos_short: "length f < 10 * n \<Longrightarrow> rd_colinfos n f = None"
proof (induction n arbitrary: f)
  case (Suc n)
  show ?case
  proof (cases "length f < 10")
    case False
    have "length g < 10 * n" if "rd_colinfo f = Some (c, g)" for c g
      using that Suc.prems by (auto simp: rd_colinfo_def bind_eq_Some_conv dest!: rd_SomeD)
    then show ?thesis using Suc.IH by (cases "rd_colinfo f") auto
  qed (simp add: rd_colinfo_short)
qed simp

text \<open>The totals a partial chunk leaves alone.\<close>

definition same_totals :: "dump_state \<Rightarrow> dump_state \<Rightarrow> bool" where
  "same_totals d d' \<longleftrightarrow> d_recs d' = d_recs d \<and> d_chunks d' = d_chunks d \<and> d_head d' = d_head d \<and>
     d_mismatches d' = d_mismatches d \<and> d_nstores d' = d_nstores d"

lemma rd_columns_short:
  assumes z: "zstd_ok zcomp zdecomp" and "cols_fit zcomp xs" "part @ lost = concat (map (col_body zcomp) xs)" "lost \<noteq> []"
  shows "\<exists>k' d'. rd_columns zdecomp (map (col_info zcomp) xs) k d part = Inr (k', d', []) \<and> d_truncated d' \<and>
    same_totals d d'"
  using assms(2,3)
proof (induction xs arbitrary: k d part)
  case Nil
  then show ?case using assms(4) by simp
next
  case (Cons x xs)
  obtain cid esz v where x: "x = (cid, esz, v)" by (cases x)
  have v: "length v < 2 ^ 31" using Cons.prems(1) by (auto simp: cols_fit_def x)
  show ?case
  proof (cases "length (col_body zcomp x) \<le> length part")
    case True
    then obtain p' where p': "part = col_body zcomp x @ p'" "p' @ lost = concat (map (col_body zcomp) xs)"
      using Cons.prems(2) by (auto elim: prefix_split)
    have fit: "cols_fit zcomp xs" using Cons.prems(1) by (simp add: cols_fit_def)
    have "same_totals d (count_col zcomp x d)" by (simp add: same_totals_def count_col_def x)
    then show ?thesis
      using Cons.IH [OF fit p'(2), of "assign_col cid v k" "count_col zcomp x d"]
      by (auto simp: x p'(1) rd_columns_step [OF z v] same_totals_def simp del: rd_columns.simps(2))
  next
    case False
    then show ?thesis
      using col_info_sizes(2) [OF z v, of cid esz] by (simp add: x rd_def same_totals_def)
  qed
qed

lemma length_table: "length (concat (map (enc_colinfo \<circ> f) xs)) = 10 * length xs"
  by (induction xs) (simp_all add: enc_colinfo_def)

lemma rd_chunk_part:
  assumes z: "zstd_ok zcomp zdecomp" and c: "chunk_ok c" and p: "part @ lost = enc_chunk zcomp c" "lost \<noteq> []"
  shows "if 8 \<le> length part \<and> length part < 8 + 10 * length (live_cols c)
    then rd_chunk zdecomp opts d part = Error ShortHeader
    else \<exists>d'. rd_chunk zdecomp opts d part = Break d' [] \<and> same_totals d d' \<and>
      d_truncated d' = (d_truncated d \<or> 8 \<le> length part)"
proof (cases "length part < 8")
  case True
  then show ?thesis by (auto simp: rd_chunk_def rd_def same_totals_def)
next
  case False
  let ?L = "live_cols c" and ?n = "of_nat (length (c_pc c)) :: u32" and ?nc = "of_nat (length (live_cols c)) :: u32"
  let ?T = "concat (map (enc_colinfo \<circ> col_info zcomp) ?L)" and ?B = "concat (map (col_body zcomp) ?L)"
  have "length (le_bytes 4 ?n @ le_bytes 4 ?nc) = 8" by simp
  then obtain q where q: "part = le_bytes 4 ?n @ le_bytes 4 ?nc @ q" "q @ lost = ?T @ ?B"
    using False p(1) prefix_split [of part lost "le_bytes 4 ?n @ le_bytes 4 ?nc" "?T @ ?B"]
    by (auto simp: enc_chunk_def)
  have nc: "0 < length ?L" "length ?L \<le> 16" using live_cols_nonempty [OF c] length_live_cols [of c] by auto
  then have nc': "?nc \<noteq> 0" "\<not> 16 < ?nc" "unat ?nc = length ?L"
    by (simp_all add: word_unat_eq_iff word_less_nat_alt unat_of_nat take_bit_eq_mod)
  have step: "rd_chunk zdecomp opts d part = (case rd_colinfos (length ?L) q of None \<Rightarrow> Error ShortHeader
      | Some (cs, f3) \<Rightarrow> (case rd_columns zdecomp cs no_chunk_cols d f3 of
        Inl e \<Rightarrow> Error e
      | Inr (k, d, f4) \<Rightarrow> if d_truncated d then Break d f4
          else let d = chunk_stats opts k d in
            if length (k_pc k) \<noteq> unat ?n then Error PcColumnMismatch
            else (case rd_records (o_head opts) k [0..<unat ?n] d of
                    Inl e \<Rightarrow> Error e
                  | Inr d \<Rightarrow> Next (d\<lparr>d_recs := d_recs d + ucast ?n, d_chunks := d_chunks d + 1\<rparr>) f4)))"
    using nc' by (simp add: rd_chunk_def q(1) rd_append_len le_word_le_bytes Let_def)
  show ?thesis
  proof (cases "length q < 10 * length ?L")
    case True
    then show ?thesis using step rd_colinfos_short [OF True] by (simp add: q(1))
  next
    case False
    then obtain b where b: "q = ?T @ b" "b @ lost = ?B"
      using q(2) length_table [of "col_info zcomp" ?L] prefix_split [of q lost ?T ?B] by auto
    have tab: "rd_colinfos (length ?L) q = Some (map (col_info zcomp) ?L, b)"
      using rd_colinfos_enc [of "map (col_info zcomp) ?L" b] by (simp add: b(1) comp_def)
    obtain k' d' where "rd_columns zdecomp (map (col_info zcomp) ?L) no_chunk_cols d b = Inr (k', d', [])"
        "d_truncated d'" "same_totals d d'"
      using rd_columns_short [OF z live_cols_fit [OF c] b(2) p(2)] by blast
    then show ?thesis using step tab False by (simp add: q(1))
  qed
qed

text \<open>
  C29.  A trace cut anywhere inside a chunk, as a killed run leaves it, keeps its complete
  chunks readable: the dump exits 0, reports the trailer absent and exactly the records and
  stores of the chunks before the cut.  There is one exception, against the stated aim: a
  cut inside the column table ends the dump with the error exit and no report at all.
\<close>

theorem ctrace_truncated:
  assumes "zstd_ok zcomp zdecomp" and "\<forall>c\<in>set ds. chunk_ok c" and "chunk_ok c"
    and "part @ lost = enc_chunk zcomp c" and "lost \<noteq> []"
  shows "let res = ctrace_dump zdecomp opts (Some (concat (map enc_raw (all_records ds)) @ r))
                (MAGIC @ concat (map (enc_chunk zcomp) ds) @ part)
    in if 8 \<le> length part \<and> length part < 8 + 10 * length (live_cols c) then res = Inl ShortHeader
       else \<exists>d. res = Inr \<lparr>exit_code = 0, totals = d, trailer = None\<rparr> \<and> d_chunks d = of_nat (length ds) \<and>
         d_recs d = of_nat (length (all_records ds)) \<and> d_mismatches d = 0 \<and>
         d_nstores d = of_nat (length (concat (map c_staddr ds))) \<and>
         d_head d = take (o_head opts) (numbered (all_records ds)) \<and> d_truncated d = (8 \<le> length part)"
proof -
  let ?i = "dump_init (Some (concat (map enc_raw (all_records ds)) @ r))"
  let ?d = "fold (after_chunk zcomp opts) ds ?i"
  have i: "d_raw ?i = Some (concat (map enc_raw (all_records ds)) @ r)" by (simp add: dump_init_def)
  have d: "d_head ?d = take (o_head opts) (numbered (all_records ds))" "d_recs ?d = of_nat (length (all_records ds))"
      "d_chunks ?d = of_nat (length ds)" "d_mismatches ?d = 0" "\<not> d_truncated ?d"
      "d_nstores ?d = of_nat (length (concat (map c_staddr ds)))"
    using after_chunks [OF assms(2) _ _ _ _ i, of zcomp opts] by (simp_all add: dump_init_def Let_def)
  have loop: "dump_loop zdecomp opts ?i (concat (map (enc_chunk zcomp) ds) @ part) = dump_loop zdecomp opts ?d part"
    by (rule dump_loop_chunks [OF assms(1,2) _ _ i]) (simp_all add: dump_init_def)
  have m: "rd 8 (MAGIC @ f) = Some (MAGIC, f)" for f by (rule rd_append_len) (simp add: MAGIC_def)
  have t: "rd_trailer [] = None" by (simp add: rd_trailer_def rd_def)
  show ?thesis
  proof (cases "8 \<le> length part \<and> length part < 8 + 10 * length (live_cols c)")
    case True
    then have "rd_chunk zdecomp opts ?d part = Error ShortHeader"
      using rd_chunk_part [OF assms(1,3,4,5), of opts ?d] by simp
    then have "dump_loop zdecomp opts ?d part = Inl ShortHeader" by (subst dump_loop.simps) simp
    then show ?thesis using True by (simp add: ctrace_dump_def m loop)
  next
    case False
    then obtain d' where d': "rd_chunk zdecomp opts ?d part = Break d' []" "same_totals ?d d'"
        "d_truncated d' = (d_truncated ?d \<or> 8 \<le> length part)"
      using rd_chunk_part [OF assms(1,3,4,5), of opts ?d] by auto
    have "dump_loop zdecomp opts ?d part = Inr (d', [])" using d'(1) by (subst dump_loop.simps) simp
    then show ?thesis
      using False d d'(2,3) by (auto simp: ctrace_dump_def m loop t same_totals_def)
  qed
qed

definition sample_chunk :: columns where
  "sample_chunk = no_columns\<lparr>c_pc := [0xbfc00000], c_dst := [2], c_val := [7], c_flags := [0]\<rparr>"

theorem ctrace_truncated_witness:
  "ctrace_dump (\<lambda>n cs. if length cs \<le> n then Some cs else None) \<lparr>o_head = 2, o_addr = None\<rparr>
     (Some (concat (map enc_raw (all_records [])) @ [])) (MAGIC @ concat (map (enc_chunk Some) []) @ take 20 (enc_chunk Some sample_chunk))
     = Inl ShortHeader"
proof -
  have ok: "chunk_ok sample_chunk" by (simp add: sample_chunk_def chunk_ok_def no_columns_def)
  have l: "length (live_cols sample_chunk) = 4"
    by (simp add: live_cols_def all_cols_def sample_chunk_def no_columns_def enc_elems_def le_bytes_def)
  have len: "length (enc_chunk Some sample_chunk) = 66"
    using l by (simp add: enc_chunk_def length_table)
      (simp add: live_cols_def all_cols_def sample_chunk_def no_columns_def enc_elems_def le_bytes_def col_body_def)
  have "drop 20 (enc_chunk Some sample_chunk) \<noteq> []" using len by simp
  from ctrace_truncated [OF zstd_ok_stored _ ok append_take_drop_id this, of "[]" "\<lparr>o_head = 2, o_addr = None\<rparr>" "[]"]
  show ?thesis using l len by (simp add: Let_def)
qed

text \<open>
  A close with no record pending writes only the trailer: stores and exceptions logged
  since the last chunk was flushed never reach the file.
\<close>

theorem ct_close_drops_sparse:
  assumes "fp w" and "c_pc (cols w) = []"
  shows "ct_file (ct_close zcomp (ct_add_store pc a x (ct_add_exception ca epc bad w))) = ct_file (ct_close zcomp w)"
  using assms by (simp add: ct_close_def ct_add_store_def ct_add_exception_def Let_def)

theorem ct_close_drops_sparse_witness:
  "fp (ctrace_open True False 4) \<and>
   ct_file (ct_close Some (ct_add_store 1 2 3 (ct_add_exception 0 0 0 (ctrace_open True False 4)))) =
   MAGIC @ le_bytes 8 (0 :: u64) @ le_bytes 8 (0 :: u64) @ TRAILER_MAGIC"
proof -
  have h: "fp (ctrace_open True False 4)" "c_pc (cols (ctrace_open True False 4)) = []"
    by (simp_all add: ctrace_open_def no_columns_def)
  show ?thesis
    using h ct_close_drops_sparse [OF h, of Some 1 2 3 0 0 0] by (simp add: ct_close_def ctrace_open_def Let_def no_columns_def)
qed

end
