(* ===== verification/Dram_Trace.thy ===== *)
theory Dram_Trace
  imports Henry_Prelude
begin

text \<open>
  The compressed control-flow trace: the RTL encoder and bit packer
  (\<^verbatim>\<open>rtl/dram_trace.sv\<close>) and the testbench's decoder and verdict
  (\<^verbatim>\<open>sim/henry_tb.cpp\<close>, the \<^verbatim>\<open>TRACE_VALIDATE\<close> and \<^verbatim>\<open>TRACE_LOADVAL\<close> blocks, and the capture of the
  reference streams).  The beat FIFO and the drain to DRAM are represented by their
  result: the flushed bytes stand in memory from \<open>BASE\<close> on.
\<close>

section \<open>The RTL encoder\<close>

definition bits_of :: "nat \<Rightarrow> 'a::len word \<Rightarrow> bool list" where
  "bits_of n w = map (bit w) [0..<n]"

type_synonym u33 = "33 word"
type_synonym u40 = "40 word"
type_synonym u41 = "41 word"
type_synonym u96 = "96 word"
type_synonym u128 = "128 word"
type_synonym u256 = "256 word"

definition w_d :: "u32 \<Rightarrow> u32 \<Rightarrow> u32" where
  "w_d last_pc pc = pc - (last_pc + 4)"

definition w_zz :: "u32 \<Rightarrow> u33" where
  "w_zz d = push_bit 1 (ucast d) XOR (if bit d 31 then - 1 else 0)"

text \<open>Verilog part select \<^verbatim>\<open>w[hi:lo]\<close>, in the width of \<open>w\<close>.\<close>

definition part :: "'a::len word \<Rightarrow> nat \<Rightarrow> nat \<Rightarrow> 'a word" where
  "part w hi lo = take_bit (hi - lo + 1) (drop_bit lo w)"

definition w_nb :: "u33 \<Rightarrow> nat" where
  "w_nb zz = (if part zz 32 28 \<noteq> 0 then 5 else if part zz 27 21 \<noteq> 0 then 4
     else if part zz 20 14 \<noteq> 0 then 3 else if part zz 13 7 \<noteq> 0 then 2 else 1)"

definition cont :: "bool \<Rightarrow> u40" where
  "cont c = (if c then push_bit 7 1 else 0)"

definition w_leb :: "u33 \<Rightarrow> u40" where
  "w_leb zz =
     push_bit 32 (ucast (part zz 32 28))
     OR push_bit 24 (cont (w_nb zz > 4) OR ucast (part zz 27 21))
     OR push_bit 16 (cont (w_nb zz > 3) OR ucast (part zz 20 14))
     OR push_bit 8 (cont (w_nb zz > 2) OR ucast (part zz 13 7))
     OR (cont (w_nb zz > 1) OR ucast (part zz 6 0))"

definition w_code :: "bool \<Rightarrow> u32 \<Rightarrow> u32 \<Rightarrow> u41" where
  "w_code seeded last_pc pc =
     (if \<not> seeded then ucast pc
      else if w_d last_pc pc = 0 then 1
      else push_bit 1 (ucast (w_leb (w_zz (w_d last_pc pc)))))"

definition w_len :: "bool \<Rightarrow> u32 \<Rightarrow> u32 \<Rightarrow> nat" where
  "w_len seeded last_pc pc =
     (if \<not> seeded then 32
      else if w_d last_pc pc = 0 then 1
      else 1 + 8 * w_nb (w_zz (w_d last_pc pc)))"

text \<open>The userspace, ASID and pc-range filter of one retiree.\<close>

record trace_filter =
  filter_en :: bool
  asid :: u8
  target_asid :: u8
  pc_range_en :: bool

definition w_user :: "trace_filter \<Rightarrow> bool \<Rightarrow> u64 \<Rightarrow> bool" where
  "w_user f retire_valid pc \<longleftrightarrow>
     retire_valid \<and> drop_bit 31 pc = 0 \<and> (\<not> filter_en f \<or> asid f = target_asid f) \<and>
     (\<not> pc_range_en f \<or> (ucast pc :: u32) \<ge> 0x0e000000 \<and> (ucast pc :: u32) < 0x10200000)"

text \<open>
  One cycle: both retirees are encoded against the registered last pc (the second against
  the first), their codes joined, and the join registered; the packer merges the join
  registered in the cycle before and flushes a 128-bit beat when it is full.
\<close>

record dram_trace =
  r_last_pc :: u32
  r_seeded :: bool
  r_p_append :: u96
  r_p_applen :: nat
  r_acc :: u256
  r_nbits :: nat

definition dram_trace_reset :: dram_trace where
  "dram_trace_reset = \<lparr>r_last_pc = 0, r_seeded = False, r_p_append = 0, r_p_applen = 0, r_acc = 0, r_nbits = 0\<rparr>"

definition encode_cycle :: "u32 option \<Rightarrow> u32 option \<Rightarrow> dram_trace \<Rightarrow> dram_trace" where
  "encode_cycle r0 r1 s =
     (let ec0 = (case r0 of Some pc \<Rightarrow> w_code (r_seeded s) (r_last_pc s) pc | None \<Rightarrow> 0);
          el0 = (case r0 of Some pc \<Rightarrow> w_len (r_seeded s) (r_last_pc s) pc | None \<Rightarrow> 0);
          last1 = (case r0 of Some pc \<Rightarrow> pc | None \<Rightarrow> r_last_pc s);
          seeded1 = (case r0 of Some pc \<Rightarrow> True | None \<Rightarrow> r_seeded s);
          ec1 = (case r1 of Some pc \<Rightarrow> w_code seeded1 last1 pc | None \<Rightarrow> 0);
          el1 = (case r1 of Some pc \<Rightarrow> w_len seeded1 last1 pc | None \<Rightarrow> 0)
      in s\<lparr>r_p_append := push_bit el0 (ucast ec1) OR ucast ec0, r_p_applen := el0 + el1,
           r_last_pc := (case r1 of Some pc \<Rightarrow> pc | None \<Rightarrow> last1),
           r_seeded := (case r1 of Some pc \<Rightarrow> True | None \<Rightarrow> seeded1)\<rparr>)"

definition pack_cycle :: "dram_trace \<Rightarrow> dram_trace \<times> u128 list" where
  "pack_cycle s =
     (let merged = r_acc s OR push_bit (r_nbits s) (ucast (r_p_append s));
          total = r_nbits s + r_p_applen s
      in if total \<ge> 128
         then (s\<lparr>r_acc := drop_bit 128 merged, r_nbits := total - 128\<rparr>, [ucast merged])
         else (s\<lparr>r_acc := merged, r_nbits := total\<rparr>, []))"

definition trace_cycle :: "u32 option \<times> u32 option \<Rightarrow> dram_trace \<times> u128 list \<Rightarrow> dram_trace \<times> u128 list" where
  "trace_cycle rs x = (case x of (s, beats) \<Rightarrow> case pack_cycle s of (s', b) \<Rightarrow>
     (encode_cycle (fst rs) (snd rs) s', beats @ b))"

section \<open>The testbench's decoder\<close>

definition BASE :: nat where "BASE = 0x18000000"

text \<open>\<open>None\<close> is the source's -1.\<close>

definition getbit :: "mem \<Rightarrow> nat \<Rightarrow> nat \<Rightarrow> bool option \<times> nat" where
  "getbit g_mem maxbits bitpos =
     (if bitpos \<ge> maxbits then (None, bitpos)
      else (Some (bit (g_mem (BASE + bitpos div 8)) (bitpos mod 8)), bitpos + 1))"

fun getbits_loop :: "mem \<Rightarrow> nat \<Rightarrow> nat \<Rightarrow> nat \<Rightarrow> u32 \<Rightarrow> nat \<Rightarrow> u32 \<times> nat" where
  "getbits_loop g_mem maxbits 0 i v bitpos = (v, bitpos)"
| "getbits_loop g_mem maxbits (Suc n) i v bitpos =
     (case getbit g_mem maxbits bitpos of
        (None, bitpos) \<Rightarrow> (v, bitpos)
      | (Some b, bitpos) \<Rightarrow> getbits_loop g_mem maxbits n (i + 1) (v OR push_bit i (of_bool b)) bitpos)"

definition getbits :: "mem \<Rightarrow> nat \<Rightarrow> nat \<Rightarrow> nat \<Rightarrow> u32 \<times> nat" where
  "getbits g_mem maxbits nb bitpos = getbits_loop g_mem maxbits nb 0 0 bitpos"

function getleb_loop :: "mem \<Rightarrow> nat \<Rightarrow> u64 \<Rightarrow> nat \<Rightarrow> nat \<Rightarrow> u64 \<times> nat" where
  "getleb_loop g_mem maxbits u sh bitpos =
     (case getbits g_mem maxbits 8 bitpos of (by8, bitpos) \<Rightarrow>
        let u = u OR push_bit sh (ucast (by8 AND 0x7f));
            sh = sh + 7
        in if by8 AND 0x80 = 0 \<or> sh > 63 \<or> bitpos \<ge> maxbits then (u, bitpos)
           else getleb_loop g_mem maxbits u sh bitpos)"
  by pat_completeness auto
termination by (relation "measure (\<lambda>(_, _, _, sh, _). 64 - sh)") auto

declare getleb_loop.simps [simp del]

definition getleb :: "mem \<Rightarrow> nat \<Rightarrow> nat \<Rightarrow> u64 \<times> nat" where
  "getleb g_mem maxbits bitpos = getleb_loop g_mem maxbits 0 0 bitpos"

definition unzigzag :: "u64 \<Rightarrow> u64" where
  "unzigzag zz = (if zz AND 1 \<noteq> 0 then - drop_bit 1 (zz + 1) else drop_bit 1 zz)"

definition next_pc :: "mem \<Rightarrow> nat \<Rightarrow> u32 \<Rightarrow> nat \<Rightarrow> (u32 \<times> nat) option" where
  "next_pc g_mem maxbits pc bitpos =
     (case getbit g_mem maxbits bitpos of
        (None, bitpos) \<Rightarrow> None
      | (Some s, bitpos) \<Rightarrow>
          if s then Some (pc + 4, bitpos)
          else case getleb g_mem maxbits bitpos of (zz, bitpos) \<Rightarrow>
            Some (ucast ((ucast (pc + 4) :: u64) + unzigzag zz), bitpos))"

text \<open>\<open>n\<close> counts how many more pcs the reference stream has.\<close>

fun decode_loop :: "mem \<Rightarrow> nat \<Rightarrow> nat \<Rightarrow> u32 \<Rightarrow> nat \<Rightarrow> u32 list" where
  "decode_loop g_mem maxbits 0 pc bitpos = []"
| "decode_loop g_mem maxbits (Suc n) pc bitpos =
     (if bitpos < maxbits then
        (case next_pc g_mem maxbits pc bitpos of
           None \<Rightarrow> []
         | Some (pc, bitpos) \<Rightarrow> pc # decode_loop g_mem maxbits n pc bitpos)
      else [])"

definition trace_decode :: "mem \<Rightarrow> nat \<Rightarrow> nat \<Rightarrow> u32 list" where
  "trace_decode g_mem wbytes nref =
     (if wbytes \<ge> 4 \<and> nref \<noteq> 0 then
        (case getbits g_mem (wbytes * 8) 32 0 of (pc, bitpos) \<Rightarrow>
           pc # decode_loop g_mem (wbytes * 8) (nref - 1) pc bitpos)
      else [])"

datatype verdict = PASS | FAIL | NothingDecoded

definition verdict_of :: "nat \<Rightarrow> nat \<Rightarrow> verdict" where
  "verdict_of n mism = (if mism = 0 \<and> n > 0 then PASS else if n = 0 then NothingDecoded else FAIL)"

text \<open>The comparison: pcs compared, mismatches, and the verdict printed.\<close>

definition trace_validate :: "mem \<Rightarrow> nat \<Rightarrow> u32 list \<Rightarrow> nat \<times> nat \<times> verdict" where
  "trace_validate g_mem wbytes g_trace_ref =
     (let dec = trace_decode g_mem wbytes (length g_trace_ref);
          n = min (length dec) (length g_trace_ref);
          mism = length (filter (\<lambda>i. dec ! i \<noteq> g_trace_ref ! i) [0..<n])
      in (n, mism, verdict_of n mism))"

text \<open>The reference streams: userspace pcs, head then next-head; and the loads among them.\<close>

definition trace_ref_capture :: "bool \<Rightarrow> u64 \<Rightarrow> bool \<Rightarrow> u64 \<Rightarrow> u32 list \<Rightarrow> u32 list" where
  "trace_ref_capture valid0 pc0 valid1 pc1 ref =
     (if length ref < 2000000 then
        (let ref = (if valid0 \<and> drop_bit 31 pc0 = 0 then ref @ [ucast pc0] else ref)
         in if valid1 \<and> drop_bit 31 pc1 = 0 then ref @ [ucast pc1] else ref)
      else ref)"

text \<open>\<^verbatim>\<open>tb_is_load\<close>: LW LB LBU LH LHU, LWL LWR, LD LWU LDL LDR LLD.\<close>

definition tb_is_load :: "u32 \<Rightarrow> bool" where
  "tb_is_load op \<longleftrightarrow> op \<in> set [44, 45, 46, 47, 48, 61, 62, 88, 101, 106, 107, 111]"

type_synonym lvrec = "u32 \<times> u32 \<times> u32"

record load_slot =
  ls_valid :: bool
  ls_pc :: u64
  ls_reg_valid :: bool
  ls_op :: u32
  ls_reg_data :: u64
  ls_load_addr :: u64

definition loadval_of :: "load_slot \<Rightarrow> lvrec list" where
  "loadval_of r = (if ls_valid r \<and> drop_bit 31 (ls_pc r) = 0 \<and> ls_reg_valid r \<and> tb_is_load (ls_op r)
     then [(ucast (ls_pc r), ucast (ls_reg_data r), ucast (ls_load_addr r))] else [])"

definition loadval_capture :: "load_slot \<Rightarrow> load_slot \<Rightarrow> lvrec list \<Rightarrow> lvrec list" where
  "loadval_capture r0 r1 ref = (if length ref < 2000000 then ref @ loadval_of r0 @ loadval_of r1 else ref)"

definition loadval_decode :: "mem \<Rightarrow> nat \<Rightarrow> lvrec" where
  "loadval_decode g_mem i = (le32 g_mem (BASE + i * 16), le32 g_mem (BASE + i * 16 + 4), le32 g_mem (BASE + i * 16 + 8))"

definition loadval_validate :: "mem \<Rightarrow> nat \<Rightarrow> lvrec list \<Rightarrow> nat \<times> nat \<times> verdict" where
  "loadval_validate g_mem wbytes ref =
     (let n = min (wbytes div 16) (length ref);
          mism = length (filter (\<lambda>i. loadval_decode g_mem i \<noteq> ref ! i) [0..<n])
      in (n, mism, verdict_of n mism))"

section \<open>The stream\<close>

text \<open>What the encoder means to send: a 32-bit seed, then one code per retire.\<close>

fun enc_stream :: "bool \<Rightarrow> u32 \<Rightarrow> u32 list \<Rightarrow> bool list" where
  "enc_stream seeded last_pc [] = []"
| "enc_stream seeded last_pc (pc # pcs) =
     bits_of (w_len seeded last_pc pc) (w_code seeded last_pc pc) @ enc_stream True pc pcs"

lemma length_bits_of [simp]: "length (bits_of n w) = n"
  by (simp add: bits_of_def)

lemma nth_bits_of [simp]: "i < n \<Longrightarrow> bits_of n w ! i = bit w i"
  by (simp add: bits_of_def)

lemma w_nb_bounds: "1 \<le> w_nb zz" "w_nb zz \<le> 5"
  by (simp_all add: w_nb_def)

lemma w_len_bounds: "1 \<le> w_len s l pc" "w_len s l pc \<le> 41"
  using w_nb_bounds(2) [of "w_zz (w_d l pc)"] by (auto simp: w_len_def)

lemma bit_part: "bit (part w hi lo) k \<longleftrightarrow> k < hi - lo + 1 \<and> bit w (lo + k)"
  by (auto simp: part_def bit_take_bit_iff bit_drop_bit_eq)

lemma part_eq_0:
  assumes "lo \<le> hi"
  shows "part w hi lo = 0 \<longleftrightarrow> (\<forall>k. lo \<le> k \<and> k \<le> hi \<longrightarrow> \<not> bit w k)"
proof
  assume "part w hi lo = 0"
  then have z: "\<not> (k < hi - lo + 1 \<and> bit w (lo + k))" for k by (metis bit_part bit_0_eq bot_apply bot_bool_def)
  show "\<forall>k. lo \<le> k \<and> k \<le> hi \<longrightarrow> \<not> bit w k"
  proof (intro allI impI)
    fix k assume "lo \<le> k \<and> k \<le> hi"
    then show "\<not> bit w k" using z [of "k - lo"] by auto
  qed
next
  assume a: "\<forall>k. lo \<le> k \<and> k \<le> hi \<longrightarrow> \<not> bit w k"
  show "part w hi lo = 0"
  proof (rule bit_word_eqI)
    fix n show "bit (part w hi lo) n \<longleftrightarrow> bit 0 n" using a [rule_format, of "lo + n"] assms by (auto simp: bit_part)
  qed
qed

text \<open>The LEB128 groups carry seven bits each; \<open>w_nb\<close> of them hold the whole value.\<close>

lemma w_nb_covers:
  assumes "bit (zz :: u33) k"
  shows "k < 7 * w_nb zz"
proof (rule ccontr)
  assume n: "\<not> k < 7 * w_nb zz"
  have "k < 33" using assms bit_imp_le_length by fastforce
  consider "k < 7" | "7 \<le> k" "k \<le> 13" | "14 \<le> k" "k \<le> 20" | "21 \<le> k" "k \<le> 27" | "28 \<le> k" "k \<le> 32"
    using \<open>k < 33\<close> by linarith
  then show False
    using n assms w_nb_bounds(1) [of zz] by cases (auto simp: w_nb_def part_eq_0 split: if_splits)
qed

lemma bit_leb_group:
  assumes "lo + 6 < 33"
  shows "bit (cont p OR ucast (part (zz :: u33) (lo + 6) lo) :: u40) k \<longleftrightarrow> p \<and> k = 7 \<or> k < 7 \<and> bit zz (lo + k)"
proof -
  have "bit (cont p) k \<longleftrightarrow> p \<and> k = 7"
    by (cases p; simp only: cont_def if_True if_False bit_push_bit_iff bit_1_iff) auto
  then show ?thesis by (auto simp: bit_or_iff bit_ucast_iff bit_part)
qed

lemma bit_group_at:
  assumes "\<And>k. bit g k \<Longrightarrow> k < 8" "j < 8" "8 * i + j < 40"
  shows "bit (push_bit (8 * m) g :: u40) (8 * i + j) \<longleftrightarrow> m = i \<and> bit g j"
proof (cases "m = i")
  case False
  then have "\<not> (8 * m \<le> 8 * i + j \<and> bit g (8 * i + j - 8 * m))"
    using assms(1) [of "8 * i + j - 8 * m"] assms(2) by auto
  then show ?thesis using False by (simp add: bit_push_bit_iff)
qed (use assms(3) in \<open>simp add: bit_push_bit_iff\<close>)

lemma less_cases_4: "(i :: nat) = 0 \<or> i = 1 \<or> i = 2 \<or> i = 3 \<or> 4 \<le> i"
  by linarith

lemma w_leb_byte:
  assumes "i < 5" "j < 8"
  shows "bit (w_leb zz) (8 * i + j) \<longleftrightarrow> (if j < 7 then bit zz (7 * i + j) else Suc i < w_nb zz)"
proof -
  define g where "g m = (cont (w_nb zz > m + 1) OR ucast (part zz (7 * m + 6) (7 * m)) :: u40)" for m
  have nb: "w_nb zz \<le> 5" by (rule w_nb_bounds)
  have g: "bit (g m) k \<longleftrightarrow> w_nb zz > m + 1 \<and> k = 7 \<or> k < 7 \<and> bit zz (7 * m + k)" if "m < 4" for m k
    unfolding g_def using that by (intro bit_leb_group) simp
  define h where "h = (ucast (part zz 32 28) :: u40)"
  have h: "bit h k \<longleftrightarrow> k < 5 \<and> bit zz (28 + k)" for k by (auto simp: h_def bit_ucast_iff bit_part)
  have leb: "w_leb zz = push_bit (8 * 4) h OR push_bit (8 * 3) (g 3) OR push_bit (8 * 2) (g 2) OR push_bit (8 * 1) (g 1) OR push_bit (8 * 0) (g 0)"
    by (simp add: w_leb_def g_def h_def flip: numeral_2_eq_2)
  have ij: "8 * i + j < 40" using assms by simp
  have hb: "\<And>k. bit h k \<Longrightarrow> k < 8" by (simp add: h)
  have gb: "\<And>k. bit (g m) k \<Longrightarrow> k < 8" if "m < 4" for m using that by (auto simp: g)
  have G4: "bit (push_bit (8 * 4) h) (8 * i + j) \<longleftrightarrow> 4 = i \<and> bit h j"
    by (rule bit_group_at [OF hb assms(2) ij])
  have G3: "bit (push_bit (8 * 3) (g 3)) (8 * i + j) \<longleftrightarrow> 3 = i \<and> bit (g 3) j"
    by (rule bit_group_at [OF gb assms(2) ij]) simp_all
  have G2: "bit (push_bit (8 * 2) (g 2)) (8 * i + j) \<longleftrightarrow> 2 = i \<and> bit (g 2) j"
    by (rule bit_group_at [OF gb assms(2) ij]) simp_all
  have G1: "bit (push_bit (8 * 1) (g 1)) (8 * i + j) \<longleftrightarrow> 1 = i \<and> bit (g 1) j"
    by (rule bit_group_at [OF gb assms(2) ij]) simp_all
  have G0: "bit (push_bit (8 * 0) (g 0)) (8 * i + j) \<longleftrightarrow> 0 = i \<and> bit (g 0) j"
    by (rule bit_group_at [OF gb assms(2) ij]) simp_all
  have at: "bit (w_leb zz) (8 * i + j) \<longleftrightarrow> (4 = i \<and> bit h j) \<or> (3 = i \<and> bit (g 3) j) \<or> (2 = i \<and> bit (g 2) j) \<or> (1 = i \<and> bit (g 1) j) \<or> (0 = i \<and> bit (g 0) j)"
    unfolding leb bit_or_iff G4 G3 G2 G1 G0 by (simp only: disj_assoc)
  show ?thesis
  proof (cases "i = 4")
    case True
    have "\<not> bit zz (28 + j)" if "5 \<le> j" using that by (intro bit_word_ge) simp
    then have "bit (w_leb zz) (8 * i + j) \<longleftrightarrow> j < 7 \<and> bit zz (28 + j)"
      unfolding at h using True by (cases "5 \<le> j") auto
    then show ?thesis using True assms nb by simp
  next
    case False
    then have "i < 4" using assms(1) by linarith
    then have "bit (w_leb zz) (8 * i + j) \<longleftrightarrow> bit (g i) j"
      unfolding at using less_cases_4 [of i] by (elim disjE) simp_all
    then show ?thesis using g [OF \<open>i < 4\<close>, of j] assms(2) by auto
  qed
qed

lemma w_leb_high: "8 * w_nb zz \<le> k \<Longrightarrow> \<not> bit (w_leb zz) k"
proof (cases "k < 40")
  case True
  assume k: "8 * w_nb zz \<le> k"
  have e: "8 * (k div 8) + k mod 8 = k" by simp
  have i: "k div 8 < 5" "w_nb zz \<le> k div 8" using True k by linarith+
  have "\<not> bit zz (7 * (k div 8) + k mod 8)" using w_nb_covers [of zz "7 * (k div 8) + k mod 8"] i(2) by linarith
  then show ?thesis using w_leb_byte [OF i(1), of "k mod 8" zz] i(2) by (simp add: e split: if_splits)
qed (simp add: bit_word_ge)

section \<open>The zigzag transform\<close>

lemma unat_w_zz: "unat (w_zz d) = (if bit d 31 then 8589934591 - 2 * unat d else 2 * unat d)"
proof -
  have u: "unat (ucast d :: u33) = unat d"
    using unat_u32_bound [of d] by (simp add: unsigned_ucast_eq take_bit_nat_eq_self)
  then have p: "unat (push_bit 1 (ucast d :: u33)) = 2 * unat d"
    using unat_u32_bound [of d] by (simp add: push_bit_eq_mult unat_word_ariths)
  show ?thesis
  proof (cases "bit d 31")
    case True
    have "w_zz d = NOT (push_bit 1 (ucast d))"
      using True by (simp add: w_zz_def bit_eq_iff bit_xor_iff bit_not_iff)
    also have "\<dots> = - 1 - push_bit 1 (ucast d)" by (simp add: not_eq_complement)
    finally show ?thesis
      using True p unat_u32_bound [of d] unat_sub [of "push_bit 1 (ucast d)" "-1 :: u33"]
      by (simp add: word_le_nat_alt unsigned_minus_1_eq_mask mask_eq_exp_minus_1)
  next
    case False
    then show ?thesis using p by (simp add: w_zz_def)
  qed
qed

lemma bit31_iff: "bit (d :: u32) 31 \<longleftrightarrow> 2147483648 \<le> unat d"
proof -
  have "bit d 31 \<longleftrightarrow> odd (unat d div 2147483648)"
    using bit_unsigned_iff [of d 31, where ?'a = nat] by (simp add: bit_iff_odd)
  moreover have "unat d div 2147483648 = (if 2147483648 \<le> unat d then 1 else 0)"
    using unat_u32_bound [of d] by (auto simp: div_nat_eqI)
  ultimately show ?thesis by simp
qed

lemma unzigzag_zz: "(ucast (unzigzag (ucast (w_zz d))) :: u32) = d"
proof -
  let ?z = "ucast (w_zz d) :: u64"
  have "unat (w_zz d) < 2 ^ 33" using unsigned_less [of "w_zz d", where ?'a = nat] by simp
  then have z: "unat ?z = unat (w_zz d)" by (simp add: unsigned_ucast_eq take_bit_nat_eq_self)
  have par: "?z AND 1 \<noteq> 0 \<longleftrightarrow> odd (unat (w_zz d))"
    using z by (simp add: and_one_eq odd_iff_mod_2_eq_one word_unat_eq_iff unat_mod_distrib)
  show ?thesis
  proof (cases "bit d 31")
    case True
    then have d: "2147483648 \<le> unat d" by (simp add: bit31_iff)
    have o: "odd (unat (w_zz d))" using True d unat_u32_bound [of d] by (simp add: unat_w_zz)
    have "unat (?z + 1) = unat (w_zz d) + 1"
      using \<open>unat (w_zz d) < 2 ^ 33\<close> z by (simp add: unat_word_ariths)
    then have "unat (drop_bit 1 (?z + 1)) = 4294967296 - unat d"
      using True d unat_u32_bound [of d] by (simp add: unat_drop_bit_div unat_w_zz)
    then have "drop_bit 1 (?z + 1) = 4294967296 - ucast d"
      using unat_u32_bound [of d] by (simp add: word_unat_eq_iff unat_sub word_le_nat_alt)
    then have "unzigzag ?z = ucast d - 4294967296" using par o by (simp add: unzigzag_def)
    then have "(ucast (unzigzag ?z) :: u32) = ucast (ucast d :: u64) - ucast (4294967296 :: u64)"
      by (simp only: ucast_diff_u32)
    moreover have "(ucast (4294967296 :: u64) :: u32) = 0" by (simp add: word_unat_eq_iff unsigned_ucast_eq)
    ultimately show ?thesis by simp
  next
    case False
    have e: "even (unat (w_zz d))" using False by (simp add: unat_w_zz)
    have "unat (drop_bit 1 ?z) = unat d" using False z by (simp add: unat_drop_bit_div unat_w_zz)
    then have "drop_bit 1 ?z = ucast d" by (simp add: word_unat_eq_iff)
    then have "unzigzag ?z = ucast d" using par e by (simp add: unzigzag_def)
    then show ?thesis by simp
  qed
qed

section \<open>Decoding what the encoder sent\<close>

text \<open>Stream bit \<open>p\<close> of the ring, and a ring that holds a given stream.\<close>

definition mbit :: "mem \<Rightarrow> nat \<Rightarrow> bool" where
  "mbit g_mem p = bit (g_mem (BASE + p div 8)) (p mod 8)"

definition holds_at :: "mem \<Rightarrow> nat \<Rightarrow> bool list \<Rightarrow> bool" where
  "holds_at g_mem p bs \<longleftrightarrow> (\<forall>k < length bs. mbit g_mem (p + k) = bs ! k)"

lemma holds_at_append: "holds_at m p (xs @ ys) \<longleftrightarrow> holds_at m p xs \<and> holds_at m (p + length xs) ys"
proof
  assume a: "holds_at m p (xs @ ys)"
  have "mbit m (p + k) = xs ! k" if "k < length xs" for k
    using a that by (auto simp: holds_at_def nth_append dest!: spec [of _ k])
  moreover have "mbit m (p + length xs + k) = ys ! k" if "k < length ys" for k
    using a that by (auto simp: holds_at_def nth_append add.assoc dest!: spec [of _ "length xs + k"])
  ultimately show "holds_at m p xs \<and> holds_at m (p + length xs) ys" by (simp add: holds_at_def)
next
  assume a: "holds_at m p xs \<and> holds_at m (p + length xs) ys"
  have "mbit m (p + k) = (xs @ ys) ! k" if "k < length xs + length ys" for k
  proof (cases "k < length xs")
    case False
    have "k - length xs < length ys" using False that by linarith
    then have "mbit m (p + length xs + (k - length xs)) = ys ! (k - length xs)"
      using a unfolding holds_at_def by blast
    then show ?thesis using False by (simp add: nth_append)
  qed (use a in \<open>simp add: holds_at_def nth_append\<close>)
  then show "holds_at m p (xs @ ys)" by (simp add: holds_at_def)
qed

lemma getbits_loop_full:
  assumes "bitpos + n \<le> maxbits"
  shows "\<exists>v'. getbits_loop m maxbits n i v bitpos = (v', bitpos + n) \<and>
    (\<forall>k < 32. bit v' k \<longleftrightarrow> bit v k \<or> i \<le> k \<and> k < i + n \<and> mbit m (bitpos + (k - i)))"
  using assms
proof (induction n arbitrary: i v bitpos)
  case (Suc n)
  let ?b = "mbit m bitpos" and ?v = "v OR push_bit i (of_bool (mbit m bitpos))"
  have "getbits_loop m maxbits (Suc n) i v bitpos = getbits_loop m maxbits n (i + 1) ?v (bitpos + 1)"
    using Suc.prems by (simp add: getbit_def mbit_def)
  moreover obtain v' where v': "getbits_loop m maxbits n (i + 1) ?v (bitpos + 1) = (v', bitpos + 1 + n)"
      "\<forall>k < 32. bit v' k \<longleftrightarrow> bit ?v k \<or> i + 1 \<le> k \<and> k < i + 1 + n \<and> mbit m (bitpos + 1 + (k - (i + 1)))"
    using Suc.IH [of "bitpos + 1" "i + 1" ?v] Suc.prems by auto
  moreover have "bit v' k \<longleftrightarrow> bit v k \<or> i \<le> k \<and> k < i + Suc n \<and> mbit m (bitpos + (k - i))" if "k < 32" for k
  proof -
    have "bit ?v k \<longleftrightarrow> bit v k \<or> k = i \<and> ?b"
      using that by (auto simp: bit_or_iff bit_push_bit_iff bit_1_iff)
    moreover have "bitpos + 1 + (k - (i + 1)) = bitpos + (k - i)" if "i + 1 \<le> k" using that by simp
    ultimately show ?thesis using v'(2) that by (cases "k = i") auto
  qed
  ultimately show ?case by auto
qed auto

lemma getbits_full:
  assumes "bitpos + n \<le> maxbits"
  obtains v where "getbits m maxbits n bitpos = (v, bitpos + n)"
    "\<And>k. k < 32 \<Longrightarrow> bit v k \<longleftrightarrow> k < n \<and> mbit m (bitpos + k)"
  using getbits_loop_full [OF assms, of m 0 0] by (auto simp: getbits_def)

lemma and_0x7f: "(w :: u32) AND 0x7f = take_bit 7 w"
  by (rule and_numeral_mask) (simp add: mask_eq_exp_minus_1)

lemma and_0x80: "(w :: u32) AND 0x80 = 0 \<longleftrightarrow> \<not> bit w 7"
proof -
  have e: "(0x80 :: u32) = push_bit 7 1" by simp
  have "w AND push_bit 7 1 = push_bit 7 (of_bool (bit w 7))"
    by (rule bit_word_eqI) (auto simp only: bit_and_iff bit_push_bit_iff bit_1_iff bit_of_bool_iff diff_is_0_eq
        dest: antisym)
  then show ?thesis unfolding e by (cases "bit w 7") simp_all
qed

text \<open>LEB128 groups from the ring, one turn of the loop per group.\<close>

lemma getleb_loop_groups:
  assumes "i < w_nb zz" "p + 8 * w_nb zz \<le> maxbits"
    and "\<And>k. k < 8 * w_nb zz \<Longrightarrow> mbit m (p + k) = bit (w_leb zz) k"
  shows "getleb_loop m maxbits (take_bit (7 * i) (ucast zz)) (7 * i) (p + 8 * i) = (ucast zz, p + 8 * w_nb zz)"
  using assms(1)
proof (induction "w_nb zz - i" arbitrary: i)
  case (Suc n)
  have "p + 8 * i + 8 \<le> maxbits" using Suc.prems assms(2) by linarith
  then obtain b where b: "getbits m maxbits 8 (p + 8 * i) = (b, p + 8 * i + 8)"
      "\<And>k. k < 32 \<Longrightarrow> bit b k \<longleftrightarrow> k < 8 \<and> mbit m (p + 8 * i + k)" using getbits_full [where m = m] by blast
  have bb: "bit b k \<longleftrightarrow> (if k < 7 then bit zz (7 * i + k) else k = 7 \<and> Suc i < w_nb zz)" if "k < 32" for k
  proof (cases "k < 8")
    case True
    have "mbit m (p + (8 * i + k)) = bit (w_leb zz) (8 * i + k)" using True Suc.prems by (intro assms(3)) linarith
    then show ?thesis using True b(2) [of k] w_leb_byte [OF _ True, of i zz] Suc.prems w_nb_bounds(2) [of zz] by (auto simp: add.assoc)
  qed (use b(2) [of k] that in auto)
  let ?Z = "ucast zz :: u64"
  have u: "take_bit (7 * i) ?Z OR push_bit (7 * i) (ucast (b AND 0x7f)) = take_bit (7 * Suc i) ?Z"
  proof (rule bit_word_eqI)
    fix k assume k: "k < LENGTH(64)"
    show "bit (take_bit (7 * i) ?Z OR push_bit (7 * i) (ucast (b AND 0x7f))) k \<longleftrightarrow> bit (take_bit (7 * Suc i) ?Z) k"
    proof (cases "7 * i \<le> k \<and> k < 7 * i + 7")
      case True
      then obtain j where j: "k = 7 * i + j" "j < 7" by (metis le_Suc_ex nat_add_left_cancel_less)
      then have "bit b (k - 7 * i) \<longleftrightarrow> bit zz k" using bb [of j] by simp
      then show ?thesis
        using True k by (auto simp: bit_or_iff bit_take_bit_iff bit_push_bit_iff bit_ucast_iff and_0x7f)
    qed (use k in \<open>auto simp: bit_or_iff bit_take_bit_iff bit_push_bit_iff bit_ucast_iff and_0x7f\<close>)
  qed
  have stop: "b AND 0x80 = 0 \<longleftrightarrow> Suc i = w_nb zz" using bb [of 7] Suc.prems by (auto simp: and_0x80)
  have sh: "\<not> 63 < 7 * i + 7" using Suc.prems w_nb_bounds(2) [of zz] by linarith
  show ?case
  proof (cases "Suc i = w_nb zz")
    case True
    have "take_bit (7 * Suc i) ?Z = ?Z"
    proof (rule bit_word_eqI)
      fix k show "bit (take_bit (7 * Suc i) ?Z) k \<longleftrightarrow> bit ?Z k"
        using True w_nb_covers [of zz k] by (auto simp: bit_take_bit_iff bit_ucast_iff)
    qed
    then show ?thesis
      using True stop b(1) u by (subst getleb_loop.simps) (simp add: Let_def del: mult_Suc_right)
  next
    case False
    then have "\<not> maxbits \<le> p + 8 * i + 8" using Suc.prems assms(2) by linarith
    then have "getleb_loop m maxbits (take_bit (7 * i) ?Z) (7 * i) (p + 8 * i) =
        getleb_loop m maxbits (take_bit (7 * Suc i) ?Z) (7 * Suc i) (p + 8 * Suc i)"
      using False stop sh b(1) u by (subst getleb_loop.simps) (simp add: Let_def ac_simps)
    then show ?thesis using Suc.hyps(1) [of "Suc i"] Suc.hyps(2) Suc.prems False by simp
  qed
qed simp

lemma next_pc_code:
  assumes "holds_at m p (bits_of (w_len True last_pc pc) (w_code True last_pc pc))"
    and "p + w_len True last_pc pc \<le> maxbits"
  shows "next_pc m maxbits last_pc p = Some (pc, p + w_len True last_pc pc)"
proof (cases "w_d last_pc pc = 0")
  case True
  then have "bits_of (w_len True last_pc pc) (w_code True last_pc pc) = [True]"
    by (simp add: w_len_def w_code_def bits_of_def)
  then have "mbit m p" using assms(1) by (simp add: holds_at_def)
  moreover have "pc = last_pc + 4" using True by (simp add: w_d_def)
  ultimately show ?thesis using assms(2) True by (simp add: next_pc_def getbit_def mbit_def w_len_def)
next
  case False
  define zz where "zz = w_zz (w_d last_pc pc)"
  have len: "w_len True last_pc pc = 1 + 8 * w_nb zz" using False by (simp add: w_len_def zz_def)
  have code: "w_code True last_pc pc = push_bit 1 (ucast (w_leb zz))" using False by (simp add: w_code_def zz_def)
  have at: "mbit m (p + k) = bit (w_code True last_pc pc) k" if "k < 1 + 8 * w_nb zz" for k
    using assms(1) that by (simp add: holds_at_def len)
  have b0: "\<not> mbit m p" using at [of 0] unfolding code bit_push_bit_iff by simp
  have bs: "mbit m (p + 1 + k) = bit (w_leb zz) k" if "k < 8 * w_nb zz" for k
  proof -
    have "k < 40" using that w_nb_bounds(2) [of zz] by linarith
    then show ?thesis using at [of "1 + k"] that unfolding code bit_push_bit_iff by (simp add: bit_ucast_iff)
  qed
  have "getleb m maxbits (p + 1) = (ucast zz, p + 1 + 8 * w_nb zz)"
    using getleb_loop_groups [of 0 zz "p + 1" maxbits m] w_nb_bounds(1) [of zz] assms(2) bs
    by (simp add: getleb_def len)
  moreover have "(ucast ((ucast (last_pc + 4) :: u64) + unzigzag (ucast zz)) :: u32) = pc"
  proof -
    show ?thesis by (simp only: ucast_add_u32 ucast_up_down zz_def unzigzag_zz) (simp add: w_d_def)
  qed
  moreover have "p < maxbits" using assms(2) len by simp
  ultimately show ?thesis using b0 len by (simp add: next_pc_def getbit_def mbit_def)
qed

lemma decode_loop_stream:
  assumes "holds_at m p (enc_stream True last_pc pcs)" "p + length (enc_stream True last_pc pcs) \<le> maxbits"
    and "length pcs \<le> n"
  shows "decode_loop m maxbits n last_pc p =
    pcs @ decode_loop m maxbits (n - length pcs) (last (last_pc # pcs)) (p + length (enc_stream True last_pc pcs))"
  using assms
proof (induction pcs arbitrary: n last_pc p)
  case (Cons pc pcs)
  let ?l = "w_len True last_pc pc"
  obtain n' where n: "n = Suc n'" using Cons.prems(3) by (cases n) simp_all
  have h: "holds_at m p (bits_of ?l (w_code True last_pc pc))" "holds_at m (p + ?l) (enc_stream True pc pcs)"
    using Cons.prems(1) by (simp_all add: holds_at_append)
  have le: "p + ?l \<le> maxbits" "p + ?l + length (enc_stream True pc pcs) \<le> maxbits" using Cons.prems(2) by simp_all
  have "p < maxbits" using le(1) w_len_bounds(1) [of True last_pc pc] by linarith
  then show ?case
    using next_pc_code [OF h(1) le(1)] Cons.IH [OF h(2) le(2), of n'] Cons.prems(3) by (simp add: n add.assoc)
qed simp

lemma trace_decode_stream:
  assumes "holds_at m 0 (enc_stream False l (pc # pcs))" "length (enc_stream False l (pc # pcs)) \<le> 8 * wbytes"
    and "length (pc # pcs) \<le> nref"
  shows "trace_decode m wbytes nref = pc # pcs @
    decode_loop m (wbytes * 8) (nref - length (pc # pcs)) (last (pc # pcs)) (length (enc_stream False l (pc # pcs)))"
proof -
  have w: "w_len False l pc = 32" "w_code False l pc = ucast pc" by (simp_all add: w_len_def w_code_def)
  have h: "holds_at m 0 (bits_of 32 (ucast pc :: u41))" "holds_at m 32 (enc_stream True pc pcs)"
    using assms(1) by (simp_all add: w holds_at_append)
  have le: "32 + length (enc_stream True pc pcs) \<le> wbytes * 8" using assms(2) by (simp add: w)
  then obtain v where v: "getbits m (wbytes * 8) 32 0 = (v, 0 + 32)" "\<And>k. k < 32 \<Longrightarrow> bit v k \<longleftrightarrow> k < 32 \<and> mbit m (0 + k)"
    using getbits_full [of 0 32 "wbytes * 8" m] by (metis add_leD1 add_0)
  have "v = pc"
    using v(2) h(1) by (intro bit_word_eqI) (auto simp: holds_at_def bit_ucast_iff)
  moreover have "wbytes \<ge> 4" using le by linarith
  ultimately show ?thesis
    using v(1) decode_loop_stream [OF h(2) le, of "nref - 1"] assms(3) by (simp add: trace_decode_def w)
qed

text \<open>
  The testbench decoder inverts the RTL's codec: when the flushed bytes hold the
  stream of the captured pcs, the decoder returns exactly those pcs; and when the ring was
  cut short, it still returns every pc whose code was flushed completely.
\<close>

theorem trace_decode_roundtrip:
  assumes "holds_at m 0 (enc_stream False l (pcs @ rest))" and "pcs \<noteq> []"
    and "length (enc_stream False l pcs) \<le> 8 * wbytes"
  shows "take (length pcs) (trace_decode m wbytes (length (pcs @ rest))) = pcs \<and>
    (rest = [] \<longrightarrow> trace_decode m wbytes (length pcs) = pcs \<and> trace_validate m wbytes pcs = (length pcs, 0, PASS))"
proof -
  obtain pc ps where p: "pcs = pc # ps" using assms(2) by (cases pcs) auto
  have app: "enc_stream s x (a @ b) = enc_stream s x a @ enc_stream (s \<or> a \<noteq> []) (last (x # a)) b" for s x a b
    by (induction a arbitrary: s x) simp_all
  have h: "holds_at m 0 (enc_stream False l (pc # ps))"
    using assms(1) unfolding p app holds_at_append by simp
  have t: "trace_decode m wbytes n = pcs @ decode_loop m (wbytes * 8) (n - length pcs) (last pcs) (length (enc_stream False l pcs))"
    if "length pcs \<le> n" for n
    using trace_decode_stream [OF h, of wbytes n] assms(3) that by (simp add: p)
  then have "trace_decode m wbytes (length pcs) = pcs" by simp
  then show ?thesis using t [of "length (pcs @ rest)"] assms(2) by (simp add: trace_validate_def Let_def verdict_of_def)
qed

text \<open>A ring that holds a given stream.\<close>

definition ring_of :: "bool list \<Rightarrow> mem" where
  "ring_of bs a = (if BASE \<le> a then horner_sum of_bool 2 (map (\<lambda>j. 8 * (a - BASE) + j < length bs \<and> bs ! (8 * (a - BASE) + j)) [0..<8]) else 0)"

lemma holds_ring_of: "holds_at (ring_of bs) 0 bs"
proof -
  have "mbit (ring_of bs) k = bs ! k" if "k < length bs" for k
  proof -
    have k: "8 * (k div 8) + k mod 8 = k" by simp
    have "bit (ring_of bs (BASE + k div 8)) (k mod 8) \<longleftrightarrow>
        (8 * (k div 8) + k mod 8 < length bs \<and> bs ! (8 * (k div 8) + k mod 8))"
      by (simp only: ring_of_def le_add1 if_True bit_horner_sum_bit_word_iff length_map length_upt diff_add_inverse)
         (simp del: upt_rec_numeral)
    then show ?thesis unfolding mbit_def k using that by simp
  qed
  then show ?thesis by (simp add: holds_at_def)
qed

theorem trace_decode_roundtrip_witness:
  "take 2 (trace_decode (ring_of (enc_stream False 0 [0x400000, 0x400004, 0x400100])) 5 3) = [0x400000, 0x400004]"
proof -
  let ?a = "[0x400000, 0x400004 :: u32]" and ?b = "[0x400100 :: u32]"
  have "length (enc_stream False 0 ?a) \<le> 8 * 5" by (simp add: w_len_def w_d_def)
  then show ?thesis
    using trace_decode_roundtrip [of "ring_of (enc_stream False 0 (?a @ ?b))" 0 ?a ?b 5] holds_ring_of
    by (simp add: numeral_2_eq_2 numeral_3_eq_3)
qed

lemma getbits_at_end: "maxbits \<le> bitpos \<Longrightarrow> getbits_loop m maxbits n i v bitpos = (v, bitpos)"
  by (cases n) (simp_all add: getbit_def)

text \<open>
  The verdict can fail on a correct trace: when the flushed beats end right after the
  leading 0 of a taken branch's code, the decoder reads an empty delta past the end of the
  ring, appends a sequential pc in the branch's place, and reports one mismatch.
\<close>

theorem trace_validate_spurious:
  assumes "holds_at m 0 (enc_stream False l (pcs @ [pc]))" and "pcs \<noteq> []" and "pc \<noteq> last pcs + 4"
    and "8 * wbytes = length (enc_stream False l pcs) + 1"
  shows "trace_decode m wbytes (length (pcs @ [pc])) = pcs @ [last pcs + 4] \<and>
    trace_validate m wbytes (pcs @ [pc]) = (length pcs + 1, 1, FAIL)"
proof -
  obtain q qs where p: "pcs = q # qs" using assms(2) by (cases pcs) auto
  have app: "enc_stream s x (a @ b) = enc_stream s x a @ enc_stream (s \<or> a \<noteq> []) (last (x # a)) b" for s x a b
    by (induction a arbitrary: s x) simp_all
  let ?n = "length (enc_stream False l pcs)"
  have e: "enc_stream False l (pcs @ [pc]) = enc_stream False l pcs @ enc_stream True (last pcs) [pc]"
    unfolding app using assms(2) by simp
  have h: "holds_at m 0 (enc_stream False l pcs)" "holds_at m ?n (enc_stream True (last pcs) [pc])"
    using assms(1) unfolding e holds_at_append by simp_all
  have d: "w_d (last pcs) pc \<noteq> 0" using assms(3) by (simp add: w_d_def)
  have "\<not> bit (w_code True (last pcs) pc) 0"
    using d by (simp only: w_code_def) (auto simp only: bit_push_bit_iff simp_thms if_False)
  then have b: "\<not> mbit m ?n"
    using h(2) w_len_bounds(1) [of True "last pcs" pc] by (auto simp: holds_at_def dest!: spec [of _ 0])
  have mx: "wbytes * 8 = ?n + 1" using assms(4) by simp
  have "getbits m (wbytes * 8) 8 (?n + 1) = (0, ?n + 1)"
    unfolding getbits_def mx using getbits_at_end by blast
  then have "getleb m (wbytes * 8) (?n + 1) = (0, ?n + 1)"
    unfolding getleb_def by (subst getleb_loop.simps) (simp add: Let_def)
  then have "next_pc m (wbytes * 8) (last pcs) ?n = Some (last pcs + 4, ?n + 1)"
    using b mx by (simp add: next_pc_def getbit_def mbit_def unzigzag_def)
  then have "decode_loop m (wbytes * 8) (Suc 0) (last pcs) ?n = [last pcs + 4]"
    using mx by simp
  moreover have "trace_decode m wbytes (length (pcs @ [pc])) =
      pcs @ decode_loop m (wbytes * 8) (Suc 0) (last pcs) ?n"
    using trace_decode_stream [of m l q qs wbytes "length (pcs @ [pc])"] h(1) assms(4) by (simp add: p)
  ultimately have dec: "trace_decode m wbytes (length (pcs @ [pc])) = pcs @ [last pcs + 4]" by simp
  have "filter (\<lambda>i. (pcs @ [last pcs + 4]) ! i \<noteq> (pcs @ [pc]) ! i) [0..<length pcs + 1] = [length pcs]"
    using assms(3) by (auto simp: nth_append intro: filter_False)
  then show ?thesis
    using dec by (simp add: trace_validate_def Let_def verdict_of_def del: filter.simps)
qed

definition seq_pcs :: "u32 list" where
  "seq_pcs = [0x400000, 0x400004, 0x400008, 0x40000c, 0x400010, 0x400014, 0x400018, 0x40001c]"

theorem trace_validate_spurious_witness:
  "trace_validate (ring_of (enc_stream False 0 (seq_pcs @ [0x400100]))) 5 (seq_pcs @ [0x400100]) = (9, 1, FAIL)"
proof -
  have "8 * 5 = length (enc_stream False 0 seq_pcs) + 1" by (simp add: seq_pcs_def w_len_def w_d_def)
  moreover have "seq_pcs \<noteq> []" "(0x400100 :: u32) \<noteq> last seq_pcs + 4" "length seq_pcs + 1 = 9" by (simp_all add: seq_pcs_def)
  ultimately show ?thesis using trace_validate_spurious [OF holds_ring_of, of seq_pcs "0x400100" 5] by simp
qed

section \<open>The packer loses nothing\<close>

text \<open>The bits flushed, then those in the accumulator, then those in the pipeline register.\<close>

definition beat_bits :: "u128 list \<Rightarrow> bool list" where
  "beat_bits beats = concat (map (bits_of 128) beats)"

definition sent_bits :: "dram_trace \<times> u128 list \<Rightarrow> bool list" where
  "sent_bits x = beat_bits (snd x) @ bits_of (r_nbits (fst x)) (r_acc (fst x)) @ bits_of (r_p_applen (fst x)) (r_p_append (fst x))"

definition trace_inv :: "dram_trace \<Rightarrow> bool" where
  "trace_inv s \<longleftrightarrow> r_nbits s < 128 \<and> r_p_applen s \<le> 82 \<and> (\<forall>k \<ge> r_nbits s. \<not> bit (r_acc s) k) \<and>
     (\<forall>k \<ge> r_p_applen s. \<not> bit (r_p_append s) k)"

lemma bits_of_append_word:
  assumes "\<And>k. n \<le> k \<Longrightarrow> \<not> bit w k" "\<And>k. k < n + l \<Longrightarrow> bit x k \<longleftrightarrow> bit w k \<or> n \<le> k \<and> bit v (k - n)"
  shows "bits_of (n + l) x = bits_of n w @ bits_of l v"
proof (rule nth_equalityI)
  fix i assume "i < length (bits_of (n + l) x)"
  then show "bits_of (n + l) x ! i = (bits_of n w @ bits_of l v) ! i"
    using assms by (cases "i < n") (simp_all add: nth_append)
qed simp

lemma bits_of_split:
  assumes "128 \<le> t"
  shows "bits_of t (M :: u256) = bits_of 128 (ucast M :: u128) @ bits_of (t - 128) (drop_bit 128 M)"
proof (rule nth_equalityI)
  fix i assume "i < length (bits_of t M)"
  then show "bits_of t M ! i = (bits_of 128 (ucast M :: u128) @ bits_of (t - 128) (drop_bit 128 M)) ! i"
    by (cases "i < 128") (simp_all add: nth_append bit_ucast_iff bit_drop_bit_eq)
qed (use assms in simp)

lemma pack_cycle_bits:
  assumes "trace_inv s" "pack_cycle s = (s', b)"
  shows "beat_bits b @ bits_of (r_nbits s') (r_acc s') = bits_of (r_nbits s) (r_acc s) @ bits_of (r_p_applen s) (r_p_append s)"
    and "r_nbits s' < 128" and "\<forall>k \<ge> r_nbits s'. \<not> bit (r_acc s') k"
    and "r_last_pc s' = r_last_pc s" "r_seeded s' = r_seeded s"
proof -
  let ?m = "r_acc s OR push_bit (r_nbits s) (ucast (r_p_append s)) :: u256" and ?t = "r_nbits s + r_p_applen s"
  note inv = assms(1) [unfolded trace_inv_def]
  have t: "?t < 210" using inv by linarith
  have m: "bit ?m k \<longleftrightarrow> bit (r_acc s) k \<or> r_nbits s \<le> k \<and> bit (r_p_append s) (k - r_nbits s)" for k
  proof (cases "k < 256")
    case True
    then show ?thesis using bit_imp_le_length [of "r_p_append s" "k - r_nbits s"]
      by (auto simp: bit_or_iff bit_push_bit_iff bit_ucast_iff)
  next
    case False
    then have "r_p_applen s \<le> k - r_nbits s" using t by linarith
    then show ?thesis using False inv by (auto simp: bit_word_ge)
  qed
  have all: "bits_of ?t ?m = bits_of (r_nbits s) (r_acc s) @ bits_of (r_p_applen s) (r_p_append s)"
    by (rule bits_of_append_word) (use inv m in auto)
  have hi: "\<not> bit ?m k" if "?t \<le> k" for k using m inv that by auto
  have "beat_bits b @ bits_of (r_nbits s') (r_acc s') = bits_of ?t ?m \<and> r_nbits s' < 128 \<and>
      (\<forall>k \<ge> r_nbits s'. \<not> bit (r_acc s') k) \<and> r_last_pc s' = r_last_pc s \<and> r_seeded s' = r_seeded s"
  proof (cases "128 \<le> ?t")
    case True
    note sp = bits_of_split [OF True, of ?m]
    have s': "s' = s\<lparr>r_acc := drop_bit 128 ?m, r_nbits := ?t - 128\<rparr>" "b = [ucast ?m]"
      using assms(2) True by (simp_all add: pack_cycle_def Let_def)
    have "\<not> bit (drop_bit 128 ?m) k" if "?t - 128 \<le> k" for k
      using hi [of "128 + k"] that by (simp only: bit_drop_bit_eq) simp
    then show ?thesis using sp t unfolding s' beat_bits_def by simp
  next
    case False
    then have "s' = s\<lparr>r_acc := ?m, r_nbits := ?t\<rparr>" "b = []"
      using assms(2) by (simp_all add: pack_cycle_def Let_def)
    then show ?thesis using False hi by (simp add: beat_bits_def)
  qed
  then show "beat_bits b @ bits_of (r_nbits s') (r_acc s') = bits_of (r_nbits s) (r_acc s) @ bits_of (r_p_applen s) (r_p_append s)"
    and "r_nbits s' < 128" and "\<forall>k \<ge> r_nbits s'. \<not> bit (r_acc s') k"
    and "r_last_pc s' = r_last_pc s" "r_seeded s' = r_seeded s" using all by simp_all
qed

text \<open>No code has a bit above its length.\<close>

lemma w_code_high:
  assumes "w_len s l pc \<le> k"
  shows "\<not> bit (w_code s l pc) k"
proof -
  show ?thesis
  proof (cases "s \<and> w_d l pc \<noteq> 0")
    case True
    then have "8 * w_nb (w_zz (w_d l pc)) \<le> k - 1" "1 \<le> k" using assms by (auto simp: w_len_def)
    then show ?thesis
      using True w_leb_high by (simp only: w_code_def) (auto simp only: bit_push_bit_iff bit_ucast_iff simp_thms if_False)
  next
    case False
    then show ?thesis using assms by (auto simp: w_code_def w_len_def bit_ucast_iff bit_1_iff bit_word_ge)
  qed
qed

definition opt_list :: "'a option \<Rightarrow> 'a list" where
  "opt_list x = (case x of None \<Rightarrow> [] | Some y \<Rightarrow> [y])"

lemma enc_stream_append:
  "enc_stream s l (a @ b) = enc_stream s l a @ enc_stream (s \<or> a \<noteq> []) (last (l # a)) b"
  by (induction a arbitrary: s l) simp_all

lemma encode_cycle_bits:
  fixes r0 r1 :: "u32 option" and s :: dram_trace
  assumes "r_nbits s < 128" "\<forall>k \<ge> r_nbits s. \<not> bit (r_acc s) k"
  defines "s' \<equiv> encode_cycle r0 r1 s" and "pcs \<equiv> opt_list r0 @ opt_list r1"
  shows "bits_of (r_p_applen s') (r_p_append s') = enc_stream (r_seeded s) (r_last_pc s) pcs"
    and "trace_inv s'" "r_nbits s' = r_nbits s" "r_acc s' = r_acc s"
    and "r_last_pc s' = last (r_last_pc s # pcs)" "r_seeded s' = (r_seeded s \<or> pcs \<noteq> [])"
proof -
  define ec where "ec sd l x = (case x of Some pc \<Rightarrow> w_code sd l pc | None \<Rightarrow> 0)" for sd l x
  define el where "el sd l x = (case x of Some pc \<Rightarrow> w_len sd l pc | None \<Rightarrow> 0)" for sd l x
  define l1 where "l1 = last (r_last_pc s # opt_list r0)"
  define s1 where "s1 = (r_seeded s \<or> opt_list r0 \<noteq> [])"
  let ?c0 = "ec (r_seeded s) (r_last_pc s) r0" and ?n0 = "el (r_seeded s) (r_last_pc s) r0"
  let ?c1 = "ec s1 l1 r1" and ?n1 = "el s1 l1 r1"
  have s': "r_p_append s' = push_bit ?n0 (ucast ?c1) OR ucast ?c0" "r_p_applen s' = ?n0 + ?n1"
      "r_last_pc s' = last (l1 # opt_list r1)" "r_seeded s' = (s1 \<or> opt_list r1 \<noteq> [])"
      "r_nbits s' = r_nbits s" "r_acc s' = r_acc s"
    by (simp_all add: s'_def encode_cycle_def Let_def ec_def el_def l1_def s1_def opt_list_def split: option.splits)
  have hi: "\<not> bit (ec sd l x) k" if "el sd l x \<le> k" for sd l x k
    using that by (cases x) (auto simp: ec_def el_def w_code_high)
  have bd: "el sd l x \<le> 41" for sd l x using w_len_bounds(2) by (cases x) (auto simp: el_def)
  have st: "bits_of (el sd l x) (ec sd l x) = enc_stream sd l (opt_list x)" for sd l x
    by (cases x) (simp_all add: ec_def el_def opt_list_def bits_of_def)
  have m: "bit (push_bit ?n0 (ucast ?c1) OR ucast ?c0 :: u96) k \<longleftrightarrow> bit ?c0 k \<or> ?n0 \<le> k \<and> bit ?c1 (k - ?n0)" for k
  proof (cases "k < 96")
    case True
    then show ?thesis by (auto simp: bit_or_iff bit_push_bit_iff bit_ucast_iff dest: bit_imp_le_length)
  next
    case False
    then have "?n1 \<le> k - ?n0" "?n0 \<le> k" using bd [of "r_seeded s" "r_last_pc s" r0] bd [of s1 l1 r1] by linarith+
    then show ?thesis using False hi by (auto simp: bit_word_ge)
  qed
  have "bits_of (?n0 + ?n1) (push_bit ?n0 (ucast ?c1) OR ucast ?c0 :: u96) = bits_of ?n0 ?c0 @ bits_of ?n1 ?c1"
    by (rule bits_of_append_word) (use m hi in auto)
  then show "bits_of (r_p_applen s') (r_p_append s') = enc_stream (r_seeded s) (r_last_pc s) pcs"
    unfolding s' pcs_def enc_stream_append st l1_def s1_def by simp
  have "\<not> bit (r_p_append s') k" if "r_p_applen s' \<le> k" for k
    using that hi [of "r_seeded s" "r_last_pc s" r0 k] hi [of s1 l1 r1 "k - ?n0"] unfolding s' m by linarith
  then show "trace_inv s'"
    using assms(1,2) bd [of "r_seeded s" "r_last_pc s" r0] bd [of s1 l1 r1]
    unfolding trace_inv_def s' by (simp add: s')
  show "r_nbits s' = r_nbits s" "r_acc s' = r_acc s" by (simp_all add: s')
  show "r_last_pc s' = last (r_last_pc s # pcs)" "r_seeded s' = (r_seeded s \<or> pcs \<noteq> [])"
    by (auto simp: s' l1_def s1_def pcs_def)
qed

lemma trace_cycle_bits:
  fixes rs :: "u32 option \<times> u32 option" and x :: "dram_trace \<times> u128 list"
  assumes "trace_inv (fst x)"
  defines "pcs \<equiv> opt_list (fst rs) @ opt_list (snd rs)" and "y \<equiv> trace_cycle rs x"
  shows "sent_bits y = sent_bits x @ enc_stream (r_seeded (fst x)) (r_last_pc (fst x)) pcs"
    and "trace_inv (fst y)" "r_last_pc (fst y) = last (r_last_pc (fst x) # pcs)"
    and "r_seeded (fst y) = (r_seeded (fst x) \<or> pcs \<noteq> [])"
proof -
  obtain s beats where x: "x = (s, beats)" by fastforce
  obtain s' b where p: "pack_cycle s = (s', b)" by fastforce
  have y: "y = (encode_cycle (fst rs) (snd rs) s', beats @ b)" by (simp add: y_def x trace_cycle_def p)
  note pk = pack_cycle_bits [OF assms(1) [unfolded x fst_conv] p]
  note en = encode_cycle_bits [OF pk(2,3), of "fst rs" "snd rs", folded pcs_def]
  have "beat_bits (beats @ b) = beat_bits beats @ beat_bits b" by (simp add: beat_bits_def)
  then show "sent_bits y = sent_bits x @ enc_stream (r_seeded (fst x)) (r_last_pc (fst x)) pcs"
    using pk(1) by (simp add: sent_bits_def x y en pk(4,5))
  show "trace_inv (fst y)" "r_last_pc (fst y) = last (r_last_pc (fst x) # pcs)"
    "r_seeded (fst y) = (r_seeded (fst x) \<or> pcs \<noteq> [])"
    using en by (simp_all add: x y pk(4,5))
qed

definition retired_pcs :: "(u32 option \<times> u32 option) list \<Rightarrow> u32 list" where
  "retired_pcs rss = concat (map (\<lambda>rs. opt_list (fst rs) @ opt_list (snd rs)) rss)"

lemma trace_run_bits:
  "let y = fold trace_cycle rss (dram_trace_reset, []) in trace_inv (fst y) \<and>
     sent_bits y = enc_stream False 0 (retired_pcs rss) \<and> r_last_pc (fst y) = last (0 # retired_pcs rss) \<and>
     r_seeded (fst y) = (retired_pcs rss \<noteq> [])"
proof (induction rss rule: rev_induct)
  case Nil
  then show ?case
    by (simp add: retired_pcs_def sent_bits_def beat_bits_def bits_of_def dram_trace_reset_def trace_inv_def)
next
  case (snoc rs rss)
  let ?y = "fold trace_cycle rss (dram_trace_reset, [])" and ?p = "opt_list (fst rs) @ opt_list (snd rs)"
  have r: "retired_pcs (rss @ [rs]) = retired_pcs rss @ ?p" by (simp add: retired_pcs_def)
  have i: "trace_inv (fst ?y)" "sent_bits ?y = enc_stream False 0 (retired_pcs rss)"
      "r_last_pc (fst ?y) = last (0 # retired_pcs rss)" "r_seeded (fst ?y) = (retired_pcs rss \<noteq> [])"
    using snoc by (simp_all add: Let_def)
  have "enc_stream False 0 (retired_pcs rss @ ?p) = enc_stream False 0 (retired_pcs rss) @
      enc_stream (r_seeded (fst ?y)) (r_last_pc (fst ?y)) ?p"
    unfolding enc_stream_append i by simp
  then show ?case
    using trace_cycle_bits [OF i(1), of rs] i unfolding r by (auto simp: Let_def)
qed


definition far_retires :: "(u32 option \<times> u32 option) list" where
  "far_retires = [(Some 0x400000, Some 0x7fff0000), (Some 0x400000, Some 0x7fff0000), (None, None)]"

lemma far_retires_beat: "length (snd (fold trace_cycle far_retires (dram_trace_reset, []))) = 1"
  by code_simp


end
