(* ===== verification/Store_Check.thy ===== *)
theory Store_Check
  imports Ctrace
begin

text \<open>
  The co-simulation store check and the TLB-write mirror of \<^verbatim>\<open>sim/henry_tb.cpp\<close>: the queues
  of committed stores of the golden model and of the RTL (\<^verbatim>\<open>wr_log\<close>,
  \<^verbatim>\<open>drain_store_check\<close>, and the stop decision of the main loop), and \<^verbatim>\<open>tlb_wr_log\<close> with its
  duplicate-entry scan and the FIFO of pending TLB writes.  The golden model pushes its own
  stores (its interpreter lies outside this repository): in the step relation it is the event
  that appends to \<open>g_iss_stores\<close>.
\<close>

section \<open>The two store streams\<close>

record store_rec =
  sr_pc :: u64
  sr_addr :: u64
  sr_data :: u64

definition store_eq :: "store_rec \<Rightarrow> store_rec \<Rightarrow> bool" where
  "store_eq i r \<longleftrightarrow> (ucast (sr_pc i) :: u32) = ucast (sr_pc r) \<and> sr_addr i = sr_addr r \<and> sr_data i = sr_data r"

text \<open>\<open>sc_reports\<close> are the full divergence reports printed, \<open>sc_n\<close> counts divergences.\<close>

record store_check =
  g_iss_stores :: "store_rec list"
  g_rtl_stores :: "store_rec list"
  g_store_diverged :: bool
  sc_n :: nat
  sc_reports :: "(store_rec \<times> store_rec) list"

definition store_check_init :: store_check where
  "store_check_init = \<lparr>g_iss_stores = [], g_rtl_stores = [], g_store_diverged = False, sc_n = 0, sc_reports = []\<rparr>"

text \<open>\<^verbatim>\<open>wr_log\<close>: the RTL's store goes to the queue under \<^verbatim>\<open>--checker\<close>, and to the trace if one is open.\<close>

definition wr_log :: "bool \<Rightarrow> u64 \<Rightarrow> u64 \<Rightarrow> u64 \<Rightarrow> store_check \<times> ctrace_writer option
    \<Rightarrow> store_check \<times> ctrace_writer option" where
  "wr_log g_checker pc addr data x = (case x of (s, g_ct) \<Rightarrow>
     ((if g_checker then s\<lparr>g_rtl_stores := g_rtl_stores s @ [\<lparr>sr_pc = pc, sr_addr = addr, sr_data = data\<rparr>]\<rparr> else s),
      map_option (ct_add_store pc addr data) g_ct))"

text \<open>A mismatch at the fronts: counted, reported up to the cap, flagged; nothing is popped.\<close>

definition store_mismatch :: "nat \<Rightarrow> store_rec \<Rightarrow> store_rec \<Rightarrow> store_check \<Rightarrow> store_check" where
  "store_mismatch sc_max i r s =
     s\<lparr>sc_n := sc_n s + 1, g_store_diverged := True,
       sc_reports := (if sc_n s + 1 > sc_max then sc_reports s else sc_reports s @ [(i, r)])\<rparr>"

fun drain_loop :: "nat \<Rightarrow> store_rec list \<Rightarrow> store_rec list \<Rightarrow> store_check \<Rightarrow> store_check" where
  "drain_loop sc_max (i # is) (r # rs) s =
     (if store_eq i r then drain_loop sc_max is rs s
      else store_mismatch sc_max i r (s\<lparr>g_iss_stores := i # is, g_rtl_stores := r # rs\<rparr>))"
| "drain_loop sc_max is rs s = s\<lparr>g_iss_stores := is, g_rtl_stores := rs\<rparr>"

definition drain_store_check :: "nat \<Rightarrow> store_check \<Rightarrow> store_check" where
  "drain_store_check sc_max s = drain_loop sc_max (g_iss_stores s) (g_rtl_stores s) s"

text \<open>The main loop after a drain: stop the run, or, under \<^verbatim>\<open>NOSTORECHECK\<close>, clear the flag and go on.\<close>

definition store_check_cycle :: "nat \<Rightarrow> bool \<Rightarrow> store_check \<Rightarrow> bool \<times> store_check" where
  "store_check_cycle sc_max no_sc_stop s =
     (let s = drain_store_check sc_max s in
      if g_store_diverged s then
        (if no_sc_stop then (False, s\<lparr>g_store_diverged := False\<rparr>) else (True, s))
      else (False, s))"

section \<open>What a drain does\<close>

text \<open>The reference: where two streams first differ.\<close>

fun first_diff :: "store_rec list \<Rightarrow> store_rec list \<Rightarrow> nat" where
  "first_diff (i # is) (r # rs) = (if store_eq i r then Suc (first_diff is rs) else 0)"
| "first_diff _ _ = 0"

lemma first_diff_le: "first_diff is rs \<le> length is" "first_diff is rs \<le> length rs"
  by (induction "is" rs rule: first_diff.induct) simp_all

lemma first_diff_matches: "j < first_diff is rs \<Longrightarrow> store_eq (is ! j) (rs ! j)"
proof (induction "is" rs arbitrary: j rule: first_diff.induct)
  case (1 i "is" r rs)
  then show ?case by (cases j) (auto split: if_splits)
qed simp_all

lemma first_diff_differs:
  "first_diff is rs < length is \<Longrightarrow> first_diff is rs < length rs \<Longrightarrow>
     \<not> store_eq (is ! first_diff is rs) (rs ! first_diff is rs)"
  by (induction "is" rs rule: first_diff.induct) (auto split: if_splits)

lemma drain_loop_first_diff:
  defines "k \<equiv> first_diff"
  shows "drain_loop sc_max is rs s =
    (if k is rs < length is \<and> k is rs < length rs
     then store_mismatch sc_max (is ! k is rs) (rs ! k is rs)
       (s\<lparr>g_iss_stores := drop (k is rs) is, g_rtl_stores := drop (k is rs) rs\<rparr>)
     else s\<lparr>g_iss_stores := drop (k is rs) is, g_rtl_stores := drop (k is rs) rs\<rparr>)"
  unfolding k_def by (induction "is" rs rule: first_diff.induct) simp_all

lemma drain_frame:
  "g_iss_stores (drain_store_check m s) = drop (first_diff (g_iss_stores s) (g_rtl_stores s)) (g_iss_stores s)"
  "g_rtl_stores (drain_store_check m s) = drop (first_diff (g_iss_stores s) (g_rtl_stores s)) (g_rtl_stores s)"
  "g_store_diverged (drain_store_check m s) \<longleftrightarrow> g_store_diverged s \<or>
     first_diff (g_iss_stores s) (g_rtl_stores s) < length (g_iss_stores s) \<and>
     first_diff (g_iss_stores s) (g_rtl_stores s) < length (g_rtl_stores s)"
  by (auto simp: drain_store_check_def drain_loop_first_diff store_mismatch_def)

section \<open>The incremental check equals a comparison of the whole streams\<close>

text \<open>
  Runs of the checker: stores are committed by either side in any interleaving and the
  queues are drained at any time, until a drain flags a divergence.  \<open>I\<close> and \<open>R\<close> are the
  complete streams so far.
\<close>

inductive sc_run :: "nat \<Rightarrow> store_rec list \<Rightarrow> store_rec list \<Rightarrow> store_check \<Rightarrow> bool" for m where
  init: "sc_run m [] [] store_check_init"
| iss: "sc_run m I R s \<Longrightarrow> \<not> g_store_diverged s \<Longrightarrow> sc_run m (I @ [i]) R (s\<lparr>g_iss_stores := g_iss_stores s @ [i]\<rparr>)"
| rtl: "sc_run m I R s \<Longrightarrow> \<not> g_store_diverged s \<Longrightarrow> sc_run m I (R @ [r])
     (fst (wr_log True (sr_pc r) (sr_addr r) (sr_data r) (s, None)))"
| drain: "sc_run m I R s \<Longrightarrow> \<not> g_store_diverged s \<Longrightarrow> sc_run m I R (drain_store_check m s)"

lemma wr_log_queue:
  "fst (wr_log True (sr_pc r) (sr_addr r) (sr_data r) (s, c)) = s\<lparr>g_rtl_stores := g_rtl_stores s @ [r]\<rparr>"
  by (simp add: wr_log_def)

text \<open>Some matching prefix has been popped; the flag means the fronts differ.\<close>

definition sc_inv :: "store_rec list \<Rightarrow> store_rec list \<Rightarrow> store_check \<Rightarrow> bool" where
  "sc_inv I R s \<longleftrightarrow> (\<exists>k. k \<le> length I \<and> k \<le> length R \<and> (\<forall>j < k. store_eq (I ! j) (R ! j)) \<and>
     g_iss_stores s = drop k I \<and> g_rtl_stores s = drop k R \<and>
     (g_store_diverged s \<longrightarrow> k < length I \<and> k < length R \<and> \<not> store_eq (I ! k) (R ! k)))"

lemma sc_inv_drain:
  assumes "sc_inv I R s" "\<not> g_store_diverged s"
  shows "sc_inv I R (drain_store_check m s)"
proof -
  from assms obtain k where k: "k \<le> length I" "k \<le> length R" "\<forall>j < k. store_eq (I ! j) (R ! j)"
      "g_iss_stores s = drop k I" "g_rtl_stores s = drop k R"
    by (auto simp: sc_inv_def)
  define n where "n = first_diff (drop k I) (drop k R)"
  have n: "n \<le> length I - k" "n \<le> length R - k" using first_diff_le [of "drop k I" "drop k R"] by (simp_all add: n_def)
  have "store_eq (I ! j) (R ! j)" if "j < k + n" for j
  proof (cases "j < k")
    case False
    then show ?thesis
      using first_diff_matches [of "j - k" "drop k I" "drop k R"] that k(1,2) by (auto simp: n_def)
  qed (use k(3) in blast)
  moreover have "\<not> store_eq (I ! (k + n)) (R ! (k + n))" if "n < length I - k" "n < length R - k"
    using first_diff_differs [of "drop k I" "drop k R"] that k(1,2) by (simp add: n_def)
  ultimately show ?thesis
    using k n assms(2) unfolding sc_inv_def
    by (intro exI [of _ "k + n"]) (auto simp: drain_frame n_def [symmetric] add.commute)
qed

lemma sc_run_inv: "sc_run m I R s \<Longrightarrow> sc_inv I R s"
proof (induction rule: sc_run.induct)
  case init
  then show ?case by (simp add: sc_inv_def store_check_init_def)
next
  case (iss I R s i)
  then obtain k where "k \<le> length I" "k \<le> length R" "\<forall>j < k. store_eq (I ! j) (R ! j)"
      "g_iss_stores s = drop k I" "g_rtl_stores s = drop k R" by (auto simp: sc_inv_def)
  then show ?case using iss.hyps(2) unfolding sc_inv_def by (intro exI [of _ k]) (auto simp: nth_append)
next
  case (rtl I R s r)
  then obtain k where "k \<le> length I" "k \<le> length R" "\<forall>j < k. store_eq (I ! j) (R ! j)"
      "g_iss_stores s = drop k I" "g_rtl_stores s = drop k R" by (auto simp: sc_inv_def)
  then show ?case
    using rtl.hyps(2) unfolding sc_inv_def wr_log_queue by (intro exI [of _ k]) (auto simp: nth_append)
next
  case (drain I R s)
  then show ?case by (intro sc_inv_drain)
qed

text \<open>
  C8.  However the two sides' commits interleave with the drains, a drain flags a divergence
  exactly when the complete streams differ somewhere in their common length, and the pair it
  reports at the queue fronts is the first pair that differs.
\<close>

theorem store_check_complete:
  assumes "sc_run m I R s" and "\<not> g_store_diverged s"
  shows "(g_store_diverged (drain_store_check m s) \<longleftrightarrow>
      (\<exists>j. j < length I \<and> j < length R \<and> \<not> store_eq (I ! j) (R ! j))) \<and>
    (g_store_diverged (drain_store_check m s) \<longrightarrow>
      (\<exists>k. (\<forall>j < k. store_eq (I ! j) (R ! j)) \<and> \<not> store_eq (I ! k) (R ! k) \<and>
        g_iss_stores (drain_store_check m s) = drop k I \<and> g_rtl_stores (drain_store_check m s) = drop k R))"
proof -
  let ?d = "drain_store_check m s"
  have inv: "sc_inv I R ?d" using sc_run_inv [OF assms(1)] assms(2) by (rule sc_inv_drain)
  then obtain k where k: "k \<le> length I" "k \<le> length R" "\<forall>j < k. store_eq (I ! j) (R ! j)"
      "g_iss_stores ?d = drop k I" "g_rtl_stores ?d = drop k R"
      "g_store_diverged ?d \<longrightarrow> k < length I \<and> k < length R \<and> \<not> store_eq (I ! k) (R ! k)"
    unfolding sc_inv_def by blast
  have stop: "g_store_diverged ?d" if "g_iss_stores ?d \<noteq> []" "g_rtl_stores ?d \<noteq> []"
    using that assms(2) by (auto simp: drain_frame not_less)
  have "j < k" if "j < length I" "j < length R" "\<not> g_store_diverged ?d" for j
    using that stop k(4,5) by (metis drop_eq_Nil leI order_less_le_trans)
  then show ?thesis using k by blast
qed

definition st :: "u64 \<Rightarrow> store_rec" where
  "st a = \<lparr>sr_pc = 0x88001000, sr_addr = a, sr_data = 7\<rparr>"

theorem store_check_complete_witness:
  "g_store_diverged (drain_store_check 200 (store_check_init\<lparr>g_iss_stores := [st 1], g_rtl_stores := [st 2]\<rparr>))"
proof -
  let ?s1 = "store_check_init\<lparr>g_iss_stores := g_iss_stores store_check_init @ [st 1]\<rparr>"
  have "sc_run 200 ([] @ [st 1]) [] ?s1"
    by (rule sc_run.iss [OF sc_run.init]) (simp add: store_check_init_def)
  then have "sc_run 200 ([] @ [st 1]) ([] @ [st 2]) (fst (wr_log True (sr_pc (st 2)) (sr_addr (st 2)) (sr_data (st 2)) (?s1, None)))"
    by (rule sc_run.rtl) (simp add: store_check_init_def)
  then have r: "sc_run 200 [st 1] [st 2] (store_check_init\<lparr>g_iss_stores := [st 1], g_rtl_stores := [st 2]\<rparr>)"
    by (simp add: wr_log_queue store_check_init_def)
  have n: "\<not> g_store_diverged (store_check_init\<lparr>g_iss_stores := [st 1], g_rtl_stores := [st 2]\<rparr>)"
    by (simp add: store_check_init_def)
  have "\<not> store_eq (st 1) (st 2)" by (simp add: store_eq_def st_def)
  then show ?thesis using store_check_complete [OF r n] by auto
qed

text \<open>
  Under \<^verbatim>\<open>NOSTORECHECK\<close> the run is meant to continue past a divergence, but the pair at
  the fronts is never popped: from the first divergence on, whatever stores follow, every
  cycle finds the same pair again, nothing later is ever compared, and the queues only grow.
\<close>

theorem nostorecheck_stuck:
  assumes "g_iss_stores s = i # is" and "g_rtl_stores s = r # rs" and "\<not> store_eq i r"
  shows "let s' = snd (store_check_cycle m True (s\<lparr>g_iss_stores := g_iss_stores s @ is', g_rtl_stores := g_rtl_stores s @ rs'\<rparr>))
    in g_iss_stores s' = i # is @ is' \<and> g_rtl_stores s' = r # rs @ rs' \<and> sc_n s' = sc_n s + 1 \<and> \<not> g_store_diverged s'"
  using assms by (simp add: store_check_cycle_def drain_store_check_def store_mismatch_def Let_def)

theorem nostorecheck_stuck_witness:
  "sc_n (snd (store_check_cycle 200 True ((store_check_init\<lparr>g_iss_stores := [st 1], g_rtl_stores := [st 2]\<rparr>)
     \<lparr>g_iss_stores := [st 1] @ [st 3], g_rtl_stores := [st 2] @ [st 3]\<rparr>))) = 1"
proof -
  let ?s = "store_check_init\<lparr>g_iss_stores := [st 1], g_rtl_stores := [st 2]\<rparr>"
  have h: "g_iss_stores ?s = st 1 # []" "g_rtl_stores ?s = st 2 # []" "\<not> store_eq (st 1) (st 2)"
    by (simp_all add: store_eq_def st_def)
  show ?thesis
    using nostorecheck_stuck [OF h, of 200 "[st 3]" "[st 3]"] by (simp add: store_check_init_def Let_def)
qed

section \<open>The TLB-write mirror\<close>

text \<open>\<^verbatim>\<open>struct pend_tlb_t\<close>, and the shadow of the 48 entries kept by the duplicate scan.\<close>

record pend_tlb =
  pt_idx :: int
  pt_ehi :: u64
  pt_elo0 :: u64
  pt_elo1 :: u64
  pt_pm :: u32

record tlb_mirror =
  m_ehi :: "nat \<Rightarrow> u64"
  m_elo0 :: "nat \<Rightarrow> u64"
  m_elo1 :: "nat \<Rightarrow> u64"
  m_wr :: "nat \<Rightarrow> bool"
  n_wr :: u64

definition tlb_mirror_init :: tlb_mirror where
  "tlb_mirror_init = \<lparr>m_ehi = (\<lambda>_. 0), m_elo0 = (\<lambda>_. 0), m_elo1 = (\<lambda>_. 0), m_wr = (\<lambda>_. False), n_wr = 0\<rparr>"

definition vpn2 :: "u64 \<Rightarrow> u64" where "vpn2 e = drop_bit 13 e AND 0x7ffffff"
definition rfld :: "u64 \<Rightarrow> u64" where "rfld e = drop_bit 62 e AND 0x3"
definition tlb_asid :: "u64 \<Rightarrow> u64" where "tlb_asid e = e AND 0xff"
definition glob :: "u64 \<Rightarrow> u64 \<Rightarrow> bool" where "glob l0 l1 \<longleftrightarrow> l0 AND 1 \<noteq> 0 \<and> l1 AND 1 \<noteq> 0"
definition vld :: "u64 \<Rightarrow> u64 \<Rightarrow> bool" where "vld l0 l1 \<longleftrightarrow> drop_bit 1 l0 AND 1 \<noteq> 0 \<or> drop_bit 1 l1 AND 1 \<noteq> 0"

text \<open>The condition of the \<^verbatim>\<open>[TLBDUP]\<close> report between the entry written and slot \<open>j\<close>.\<close>

definition tlb_dup :: "tlb_mirror \<Rightarrow> nat \<Rightarrow> u64 \<Rightarrow> u64 \<Rightarrow> u64 \<Rightarrow> bool" where
  "tlb_dup m j ehi elo0 elo1 \<longleftrightarrow>
     (vpn2 (m_ehi m j) = vpn2 ehi \<and> rfld (m_ehi m j) = rfld ehi) \<and>
     (tlb_asid (m_ehi m j) = tlb_asid ehi \<or> glob (m_elo0 m j) (m_elo1 m j) \<and> glob elo0 elo1) \<and>
     vld elo0 elo1 \<and> vld (m_elo0 m j) (m_elo1 m j)"

text \<open>The scan: the mirror after the write, and the slots reported as duplicates.\<close>

definition tlb_scan :: "nat \<Rightarrow> u64 \<Rightarrow> u64 \<Rightarrow> u64 \<Rightarrow> tlb_mirror \<Rightarrow> tlb_mirror \<times> nat list" where
  "tlb_scan entry ehi elo0 elo1 m =
     (let m = m\<lparr>n_wr := n_wr m + 1, m_ehi := (m_ehi m)(entry := ehi), m_elo0 := (m_elo0 m)(entry := elo0),
               m_elo1 := (m_elo1 m)(entry := elo1), m_wr := (m_wr m)(entry := True)\<rparr>
      in (m, filter (\<lambda>j. \<not> (j = entry \<or> \<not> m_wr m j) \<and> tlb_dup m j ehi elo0 elo1) [0..<48]))"

record tlb_log =
  tlog_mirror :: tlb_mirror
  g_pend_tlb :: "pend_tlb list"
  g_tlbwr_fp :: "bytes option"

definition tlb_wr_log :: "bool \<Rightarrow> bool \<Rightarrow> u64 \<Rightarrow> int \<Rightarrow> u64 \<Rightarrow> u64 \<Rightarrow> u64 \<Rightarrow> u32 \<Rightarrow> tlb_log \<Rightarrow> tlb_log \<times> nat list" where
  "tlb_wr_log g_checker tdup cyc entry ehi elo0 elo1 pm t =
     (let t = t\<lparr>g_tlbwr_fp := map_option (\<lambda>f. f @ le_bytes 8 cyc @ le_bytes 8 ehi @ le_bytes 8 elo0 @ le_bytes 8 elo1
                @ le_bytes 4 (of_int entry :: u32) @ le_bytes 4 pm) (g_tlbwr_fp t)\<rparr>;
          (m, dups) = (if tdup \<and> 0 \<le> entry \<and> entry < 48 then tlb_scan (nat entry) ehi elo0 elo1 (tlog_mirror t)
                       else (tlog_mirror t, []));
          t = t\<lparr>tlog_mirror := m\<rparr>
      in (if g_checker
          then t\<lparr>g_pend_tlb := g_pend_tlb t @
            [\<lparr>pt_idx = entry, pt_ehi = ehi, pt_elo0 = elo0, pt_elo1 = elo1, pt_pm = push_bit 13 pm\<rparr>]\<rparr>
          else t, dups))"

text \<open>
  The main loop's drain of the FIFO; \<open>apply_tlb\<close> is the golden model's
  \<^verbatim>\<open>iss_apply_tlb_write\<close>, code outside this repository.
\<close>

fun drain_pend_tlb :: "(pend_tlb \<Rightarrow> 's \<Rightarrow> 's) \<Rightarrow> pend_tlb list \<Rightarrow> 's \<Rightarrow> 's" where
  "drain_pend_tlb apply_tlb [] ss = ss"
| "drain_pend_tlb apply_tlb (p # ps) ss = drain_pend_tlb apply_tlb ps (apply_tlb p ss)"

text \<open>Two different written slots that a single access could both match.\<close>

definition dup_pair :: "tlb_mirror \<Rightarrow> nat \<Rightarrow> nat \<Rightarrow> bool" where
  "dup_pair m j k \<longleftrightarrow> j \<noteq> k \<and> m_wr m j \<and> m_wr m k \<and> tlb_dup m j (m_ehi m k) (m_elo0 m k) (m_elo1 m k)"

definition no_dups :: "tlb_mirror \<Rightarrow> bool" where
  "no_dups m \<longleftrightarrow> (\<forall>j k. j < 48 \<and> k < 48 \<longrightarrow> \<not> dup_pair m j k)"

lemma dup_pair_sym: "dup_pair m j k \<longleftrightarrow> dup_pair m k j"
  by (auto simp: dup_pair_def tlb_dup_def)

lemma scan_reports:
  assumes "entry < 48"
  shows "set (snd (tlb_scan entry ehi elo0 elo1 m)) = {j. j < 48 \<and> dup_pair (fst (tlb_scan entry ehi elo0 elo1 m)) j entry}"
  by (auto simp: tlb_scan_def Let_def dup_pair_def)

lemma scan_other_pairs:
  assumes "j \<noteq> entry" "k \<noteq> entry"
  shows "dup_pair (fst (tlb_scan entry ehi elo0 elo1 m)) j k = dup_pair m j k"
  using assms by (simp add: tlb_scan_def Let_def dup_pair_def tlb_dup_def)



text \<open>
  The FIFO is lossless: however many TLB writes the RTL logs in a cycle, draining it
  applies to the golden model exactly those writes, in the order they were made.
\<close>

theorem pend_tlb_lossless:
  "drain_pend_tlb apply_tlb (g_pend_tlb (fold (\<lambda>(cyc, e, hi, l0, l1, pm) t.
       fst (tlb_wr_log True tdup cyc e hi l0 l1 pm t)) ws t)) ss =
   fold (\<lambda>(cyc, e, hi, l0, l1, pm). apply_tlb \<lparr>pt_idx = e, pt_ehi = hi, pt_elo0 = l0, pt_elo1 = l1, pt_pm = push_bit 13 pm\<rparr>)
     ws (drain_pend_tlb apply_tlb (g_pend_tlb t) ss)"
proof -
  have app: "drain_pend_tlb apply_tlb (ps @ qs) ss = drain_pend_tlb apply_tlb qs (drain_pend_tlb apply_tlb ps ss)" for ps qs ss
    by (induction ps arbitrary: ss) simp_all
  have push: "g_pend_tlb (fst (tlb_wr_log True tdup cyc e hi l0 l1 pm t)) = g_pend_tlb t @
      [\<lparr>pt_idx = e, pt_ehi = hi, pt_elo0 = l0, pt_elo1 = l1, pt_pm = push_bit 13 pm\<rparr>]" for cyc e hi l0 l1 pm t
    by (simp add: tlb_wr_log_def Let_def case_prod_unfold)
  show ?thesis by (induction ws arbitrary: t) (auto simp: push app)
qed

end
