(* ===== verification/Checker.thy ===== *)
theory Checker
  imports Store_Check Address_Map
begin

text \<open>
  The lockstep checker of \<^verbatim>\<open>sim/henry_tb.cpp\<close>: on every retirement the golden model takes a
  step and the retired register is compared (\<^verbatim>\<open>chk_suppress\<close>, \<^verbatim>\<open>is_device_load\<close>,
  \<^verbatim>\<open>ds_is_device_load\<close>, \<^verbatim>\<open>chk_compare\<close>, \<^verbatim>\<open>checker_step\<close>), the full architectural register check
  (\<^verbatim>\<open>prf_wr_log\<close>, \<^verbatim>\<open>retire_rat_log\<close>, \<^verbatim>\<open>gpr_full_check\<close>), and the block of the main loop that
  drives them.  The golden model itself is code of the core repository: the record \<open>iss\<close>
  has the fields of its state the testbench reads and writes, and its operations are the
  parameters of \<open>iss_ops\<close>.  Diagnostic dumps are left out; counters and reports are kept.
\<close>

section \<open>The golden model's interface\<close>

record tlb_entry =
  entry_hi :: u64
  entry_lo0 :: u64
  entry_lo1 :: u64
  page_mask :: u64

record iss =
  pc :: u64
  gpr :: "nat \<Rightarrow> u64"
  hi :: u64
  lo :: u64
  cpr0 :: "nat \<Rightarrow> u32"
  cpr0_64 :: "nat \<Rightarrow> u64"
  cpr1 :: "nat \<Rightarrow> u64"
  fcr1 :: "nat \<Rightarrow> u32"
  tlb :: "nat \<Rightarrow> tlb_entry"
  brk :: bool
  iss_mem :: mem
  last_ld_va :: u64

text \<open>
  \<open>execMips\<close> runs one instruction (a branch together with its delay slot) and returns the
  stores it commits; \<open>raise_int\<close> takes an interrupt; \<open>get_raw_ptr\<close> places a physical address
  in the model's memory; \<open>apply_tlb\<close> is \<^verbatim>\<open>iss_apply_tlb_write\<close>.
\<close>

record iss_ops =
  execMips :: "iss \<Rightarrow> iss \<times> store_rec list"
  raise_int :: "u32 \<Rightarrow> u32 \<Rightarrow> iss \<Rightarrow> iss"
  get_raw_ptr :: "u64 \<Rightarrow> nat"
  apply_tlb :: "pend_tlb \<Rightarrow> iss \<Rightarrow> iss"

section \<open>State\<close>

text \<open>The architectural shadow and the sampling state of the full register check.\<close>

record gpr_check =
  g_gc_prf :: "nat \<Rightarrow> u64"
  g_gc_prf_known :: "nat \<Rightarrow> bool"
  g_gc_prf_wcyc :: "nat \<Rightarrow> u64"
  g_gc_prf_wport :: "nat \<Rightarrow> int"
  g_gc_prf_writes :: u64
  g_gc_rat :: "nat \<Rightarrow> u32"
  g_gc_rat_init :: bool
  g_gc_rat_cyc :: "nat \<Rightarrow> u64"
  gc_n :: u64
  gc_recheck :: bool
  gc_cand_mask :: "nat \<Rightarrow> bool"
  gc_cand_rtl :: "nat \<Rightarrow> u64"
  gc_reported :: nat
  gc_poisoned :: bool
  gc_reports :: "(nat \<times> u64 \<times> u64) list"

record chk =
  ss :: iss
  g_expect_ds :: bool
  g_ds_pc :: u32
  g_settle :: nat
  g_chk_insns :: u64
  g_chk_diverge :: u64
  g_chk_copsupp :: u64
  g_chk_mapped :: u64
  g_chk_resync :: u64
  g_chk_kdrift :: u64
  g_rtl_cause :: u32
  g_rtl_cause_ip :: u32
  g_rtl_epc :: u32
  g_rtl_badv :: u64
  g_chk_active_gate :: bool
  stores :: store_check
  gc :: gpr_check

section \<open>Classification of a retired instruction\<close>

definition kseg01 :: "u32 \<Rightarrow> bool" where
  "kseg01 vpc \<longleftrightarrow> vpc \<ge> 0x80000000 \<and> vpc < 0xc0000000"

text \<open>The big-endian instruction word at \<open>vpc & 0x1fffffff\<close> in the golden model's memory.\<close>

definition insn_at :: "iss_ops \<Rightarrow> iss \<Rightarrow> u32 \<Rightarrow> u32" where
  "insn_at ops s vpc = be32 (iss_mem s) (get_raw_ptr ops (ucast (vpc AND 0x1fffffff)))"

definition op_of :: "u32 \<Rightarrow> u32" where "op_of insn = drop_bit 26 insn"
definition rs_of :: "u32 \<Rightarrow> u32" where "rs_of insn = drop_bit 21 insn AND 0x1f"

definition chk_suppress :: "iss_ops \<Rightarrow> iss \<Rightarrow> u32 \<Rightarrow> nat \<Rightarrow> bool" where
  "chk_suppress ops s vpc rrp \<longleftrightarrow>
     rrp = 26 \<or> rrp = 27 \<or>
     vpc \<ge> 0x880045ac \<and> vpc \<le> 0x88004650 \<or>
     vpc \<ge> 0x88005750 \<and> vpc < 0x88005894 \<or>
     kseg01 vpc \<and>
       (let insn = insn_at ops s vpc; op = op_of insn; rs = rs_of insn; funct = insn AND 0x3f in
        (op = 0x10 \<or> op = 0x11 \<or> op = 0x12) \<and> rs \<le> 2 \<or> op = 0 \<and> (funct = 0x10 \<or> funct = 0x12))"

definition is_load_op :: "u32 \<Rightarrow> bool" where
  "is_load_op op \<longleftrightarrow> op \<ge> 0x20 \<and> op \<le> 0x27 \<or> op = 0x1a \<or> op = 0x1b \<or> op = 0x37"

definition device_ea :: "u32 \<Rightarrow> bool" where
  "device_ea ea \<longleftrightarrow>
     (let pa = (if ea \<ge> 0x80000000 then ea AND 0x1fffffff else ea)
      in pa \<ge> 0x1f000000 \<or> ea \<ge> 0xa0000000 \<and> ea < 0xc0000000)"

definition is_device_load :: "iss_ops \<Rightarrow> iss \<Rightarrow> u32 \<Rightarrow> bool" where
  "is_device_load ops s vpc \<longleftrightarrow>
     kseg01 vpc \<and>
     (let insn = insn_at ops s vpc in
      is_load_op (op_of insn) \<and>
      device_ea (ucast (gpr s (unat (rs_of insn)) + scast (ucast insn :: u16))))"

definition ds_is_device_load :: "iss_ops \<Rightarrow> iss \<Rightarrow> u32 \<Rightarrow> bool" where
  "ds_is_device_load ops s vpc \<longleftrightarrow>
     kseg01 vpc \<and> is_load_op (op_of (insn_at ops s vpc)) \<and> device_ea (ucast (last_ld_va s))"

section \<open>Comparing and stepping\<close>

definition set_gpr :: "nat \<Rightarrow> u64 \<Rightarrow> chk \<Rightarrow> chk" where
  "set_gpr r v c = c\<lparr>ss := (ss c)\<lparr>gpr := (gpr (ss c))(r := v)\<rparr>\<rparr>"

definition set_pc :: "u64 \<Rightarrow> chk \<Rightarrow> chk" where
  "set_pc v c = c\<lparr>ss := (ss c)\<lparr>pc := v\<rparr>\<rparr>"

definition chk_compare :: "iss_ops \<Rightarrow> u32 \<Rightarrow> bool \<Rightarrow> nat \<Rightarrow> u64 \<Rightarrow> bool \<Rightarrow> chk \<Rightarrow> chk" where
  "chk_compare ops vpc rrv rrp rrd devload c =
     (if \<not> rrv \<or> rrp = 0 then c
      else
        let c = (if gpr (ss c) rrp \<noteq> rrd then
                   (if rrp = 26 \<or> rrp = 27 then
                      set_gpr rrp rrd (c\<lparr>g_chk_kdrift := g_chk_kdrift c + 1, g_chk_copsupp := g_chk_copsupp c + 1\<rparr>)
                    else if g_settle c > 0 \<or> devload \<or> chk_suppress ops (ss c) vpc rrp
                    then c\<lparr>g_chk_copsupp := g_chk_copsupp c + 1\<rparr>
                    else c\<lparr>g_chk_diverge := g_chk_diverge c + 1\<rparr>)
                 else c)
        in set_gpr rrp rrd c)"

text \<open>\<^verbatim>\<open>execMips(ss); g_chk_insns++\<close>, with the stores the golden model records.\<close>

definition exec :: "iss_ops \<Rightarrow> chk \<Rightarrow> chk" where
  "exec ops c = (case execMips ops (ss c) of (s, sts) \<Rightarrow>
     c\<lparr>ss := s, stores := (stores c)\<lparr>g_iss_stores := g_iss_stores (stores c) @ sts\<rparr>, g_chk_insns := g_chk_insns c + 1\<rparr>)"

definition exc_entry :: "u32 \<Rightarrow> bool" where
  "exc_entry vpc \<longleftrightarrow> vpc = 0x80000000 \<or> vpc = 0x80000080 \<or> vpc = 0x80000100 \<or> vpc = 0x80000180 \<or>
     vpc \<ge> 0xbfc00200 \<and> vpc \<le> 0xbfc00480"

definition is_async :: "u32 \<Rightarrow> u32 \<Rightarrow> bool" where
  "is_async vpc cause \<longleftrightarrow> (vpc = 0x80000180 \<or> vpc \<ge> 0xbfc00200 \<and> vpc \<le> 0xbfc00480) \<and> cause = 0"

definition count_resync :: "chk \<Rightarrow> chk" where
  "count_resync c = c\<lparr>g_chk_resync := g_chk_resync c + 1, g_settle := 16\<rparr>"

text \<open>The re-synchronisation on a pc divergence; the flag is the source's \<open>resynced\<close>.\<close>

definition pc_sync :: "iss_ops \<Rightarrow> u64 \<Rightarrow> chk \<Rightarrow> chk \<times> bool" where
  "pc_sync ops rpc c =
     (let vpc = (ucast rpc :: u32) in
      if (ucast (pc (ss c)) :: u32) = vpc then (c, False)
      else if exc_entry vpc then
        (if is_async vpc (g_rtl_cause c)
         then (set_pc rpc (c\<lparr>ss := raise_int ops (g_rtl_epc c) (g_rtl_cause_ip c) (ss c)\<rparr>), False)
         else
           let c = exec ops c in
           if (ucast (pc (ss c)) :: u32) = vpc then (c, False)
           else
             let c = set_pc rpc c in
             (count_resync (c\<lparr>ss := (ss c)\<lparr>cpr0 := (cpr0 (ss c))(14 := g_rtl_epc c),
                 cpr0_64 := (cpr0_64 (ss c))(14 := ucast (g_rtl_epc c))\<rparr>\<rparr>), True))
      else (count_resync (set_pc rpc c), True))"

section \<open>The full register check\<close>

definition GPR_PRF_MAX :: u32 where "GPR_PRF_MAX = 8192"

definition prf_index :: "u32 \<Rightarrow> nat" where
  "prf_index ptr = unat (ptr AND (GPR_PRF_MAX - 1))"

definition gc_rat_init :: "gpr_check \<Rightarrow> gpr_check" where
  "gc_rat_init g = (if g_gc_rat_init g then g
     else g\<lparr>g_gc_rat := (\<lambda>i. if i < 32 then of_nat i else g_gc_rat g i), g_gc_rat_init := True\<rparr>)"

definition prf_wr_log :: "u64 \<Rightarrow> u32 \<Rightarrow> u64 \<Rightarrow> int \<Rightarrow> gpr_check \<Rightarrow> gpr_check" where
  "prf_wr_log cyc ptr val port g =
     (let p = prf_index ptr in
      g\<lparr>g_gc_prf := (g_gc_prf g)(p := val), g_gc_prf_known := (g_gc_prf_known g)(p := True),
        g_gc_prf_wcyc := (g_gc_prf_wcyc g)(p := cyc), g_gc_prf_wport := (g_gc_prf_wport g)(p := port),
        g_gc_prf_writes := g_gc_prf_writes g + 1\<rparr>)"

definition retire_rat_log :: "u64 \<Rightarrow> u32 \<Rightarrow> u32 \<Rightarrow> gpr_check \<Rightarrow> gpr_check" where
  "retire_rat_log cyc arch ptr g =
     (let g = gc_rat_init g; a = unat (arch AND 31) in
      g\<lparr>g_gc_rat := (g_gc_rat g)(a := ptr AND (GPR_PRF_MAX - 1)), g_gc_rat_cyc := (g_gc_rat_cyc g)(a := cyc)\<rparr>)"

text \<open>The one-shot fault injection of \<^verbatim>\<open>GPRCHK_POISON\<close>.\<close>

definition gc_poison :: "int \<Rightarrow> int \<Rightarrow> gpr_check \<Rightarrow> gpr_check" where
  "gc_poison every poison_reg g =
     (if poison_reg \<ge> 1 \<and> poison_reg < 32 \<and> \<not> gc_poisoned g \<and> gc_n g > of_int every * 10 then
        (let pp = unat (g_gc_rat g (nat poison_reg)) in
         if g_gc_prf_known g pp
         then g\<lparr>g_gc_prf := (g_gc_prf g)(pp := g_gc_prf g pp XOR 0xdeadbeef), gc_poisoned := True\<rparr>
         else g)
      else g)"

text \<open>One register of the scan; \<open>now\<close> collects the mask of this pass.\<close>

definition gc_mismatch :: "gpr_check \<Rightarrow> (nat \<Rightarrow> u64) \<Rightarrow> nat \<Rightarrow> bool" where
  "gc_mismatch g iss_gpr i \<longleftrightarrow> (let p = unat (g_gc_rat g i) in g_gc_prf_known g p \<and> g_gc_prf g p \<noteq> iss_gpr i)"

definition gc_confirmed :: "gpr_check \<Rightarrow> nat \<Rightarrow> bool" where
  "gc_confirmed g i \<longleftrightarrow> gc_recheck g \<and> gc_cand_mask g i \<and> gc_cand_rtl g i = g_gc_prf g (unat (g_gc_rat g i))"

definition gc_scan_reg :: "(nat \<Rightarrow> u64) \<Rightarrow> nat \<Rightarrow> gpr_check \<times> (nat \<Rightarrow> bool) \<Rightarrow> gpr_check \<times> (nat \<Rightarrow> bool)" where
  "gc_scan_reg iss_gpr i x = (case x of (g, now) \<Rightarrow>
     if gc_mismatch g iss_gpr i then
       let rtl = g_gc_prf g (unat (g_gc_rat g i));
           g = (if gc_confirmed g i \<and> gc_reported g < 40
                then g\<lparr>gc_reports := gc_reports g @ [(i, iss_gpr i, rtl)], gc_reported := gc_reported g + 1\<rparr> else g)
       in (g\<lparr>gc_cand_rtl := (gc_cand_rtl g)(i := rtl)\<rparr>, now(i := True))
     else (g, now))"

definition gpr_full_check :: "int \<Rightarrow> int \<Rightarrow> (nat \<Rightarrow> u64) \<Rightarrow> gpr_check \<Rightarrow> gpr_check" where
  "gpr_full_check every poison_reg iss_gpr g =
     (if every \<le> 0 then g
      else
        let g = g\<lparr>gc_n := gc_n g + 1\<rparr> in
        if \<not> gc_recheck g \<and> gc_n g mod of_int every \<noteq> 0 then g
        else if g_gc_prf_writes g = 0 then g
        else
          let g = gc_poison every poison_reg (gc_rat_init g);
              (g, now) = fold (gc_scan_reg iss_gpr) [1..<32] (g, \<lambda>_. False)
          in g\<lparr>gc_cand_mask := now, gc_recheck := ((\<exists>i\<in>set [0..<32]. now i) \<and> \<not> gc_recheck g)\<rparr>)"

section \<open>One retirement, and one cycle\<close>

text \<open>Run-time options: \<^verbatim>\<open>NOMAPSKIP\<close>, \<^verbatim>\<open>GPRCHK\<close>, \<^verbatim>\<open>GPRCHK_POISON\<close>, \<^verbatim>\<open>NOSTORECHECK\<close>, \<^verbatim>\<open>SCMAX\<close>.\<close>

record chk_cfg =
  no_mapskip :: bool
  gprchk :: int
  gprchk_poison :: int
  no_sc_stop :: bool
  sc_max :: nat

definition trust_reg :: "bool \<Rightarrow> nat \<Rightarrow> u64 \<Rightarrow> chk \<Rightarrow> chk" where
  "trust_reg rrv rrp rrd c = (if rrv \<and> rrp \<noteq> 0 then set_gpr rrp rrd c else c)"

text \<open>The body of \<^verbatim>\<open>checker_step\<close> after the pc has been synchronised.\<close>

definition step_synced :: "chk_cfg \<Rightarrow> iss_ops \<Rightarrow> u32 \<Rightarrow> bool \<Rightarrow> nat \<Rightarrow> u64 \<Rightarrow> chk \<times> bool \<Rightarrow> chk" where
  "step_synced cfg ops vpc rrv rrp rrd x = (case x of (c, resynced) \<Rightarrow>
     let c = c\<lparr>g_settle := g_settle c - 1\<rparr>;
         devload = is_device_load ops (ss c) vpc;
         prev = (ucast (pc (ss c)) :: u32);
         c = exec ops c;
         c = (if (ucast (pc (ss c)) :: u32) \<noteq> prev + 4 then c\<lparr>g_expect_ds := True, g_ds_pc := prev + 4\<rparr> else c);
         c = (if resynced then trust_reg rrv rrp rrd c else chk_compare ops vpc rrv rrp rrd devload c)
     in c\<lparr>gc := gpr_full_check (gprchk cfg) (gprchk_poison cfg) (gpr (ss c)) (gc c)\<rparr>)"

definition checker_step :: "chk_cfg \<Rightarrow> iss_ops \<Rightarrow> u64 \<Rightarrow> bool \<Rightarrow> nat \<Rightarrow> u64 \<Rightarrow> chk \<Rightarrow> chk" where
  "checker_step cfg ops rpc rrv rrp rrd c =
     (if brk (ss c) then c
      else
        let vpc = (ucast rpc :: u32) in
        if g_expect_ds c \<and> vpc = g_ds_pc c then
          (let c = c\<lparr>g_expect_ds := False\<rparr>
           in chk_compare ops vpc rrv rrp rrd (is_device_load ops (ss c) vpc \<or> ds_is_device_load ops (ss c) vpc) c)
        else
          let c = c\<lparr>g_expect_ds := False\<rparr> in
          if \<not> no_mapskip cfg \<and> \<not> kseg01 vpc then
            (let c = trust_reg rrv rrp rrd (set_pc rpc c) in c\<lparr>g_chk_mapped := g_chk_mapped c + 1\<rparr>)
          else step_synced cfg ops vpc rrv rrp rrd (pc_sync ops rpc c))"

text \<open>The retire ports and exception context the RTL presents in a cycle.\<close>

record chk_ports =
  cp_valid0 :: bool
  cp_pc0 :: u64
  cp_reg_valid0 :: bool
  cp_reg_ptr0 :: nat
  cp_reg_data0 :: u64
  cp_valid1 :: bool
  cp_pc1 :: u64
  cp_reg_valid1 :: bool
  cp_reg_ptr1 :: nat
  cp_reg_data1 :: u64
  cp_count :: u32
  cp_epc :: u64
  cp_badvaddr :: u64
  cp_cause :: u32
  cp_cause_ip :: u32

text \<open>The exception registers mirrored into the golden model before it steps.\<close>

definition mirror_cp0 :: "chk_ports \<Rightarrow> chk \<Rightarrow> chk" where
  "mirror_cp0 p c =
     c\<lparr>ss := (ss c)\<lparr>cpr0 := (cpr0 (ss c))(9 := cp_count p, 8 := ucast (cp_badvaddr p),
            13 := (cpr0 (ss c) 13 AND NOT 0x0000ff00) OR push_bit 8 (cp_cause_ip p AND 0xff)),
          cpr0_64 := (cpr0_64 (ss c))(8 := cp_badvaddr p)\<rparr>,
       g_rtl_epc := ucast (cp_epc p), g_rtl_cause := cp_cause p, g_rtl_badv := cp_badvaddr p,
       g_rtl_cause_ip := cp_cause_ip p\<rparr>"

text \<open>
  The checker block of the main loop: \<open>seed\<close> re-seeds the golden model when lockstep starts
  at the gate pc; the boolean result is the loop's \<^verbatim>\<open>break\<close> on a store divergence, which
  skips the rest of the block.
\<close>

definition checker_cycle :: "chk_cfg \<Rightarrow> iss_ops \<Rightarrow> (iss \<Rightarrow> iss) \<Rightarrow> u32 \<Rightarrow> chk_ports \<Rightarrow> pend_tlb list \<Rightarrow> chk
    \<Rightarrow> bool \<times> chk \<times> pend_tlb list" where
  "checker_cycle cfg ops seed gate_pc p pend c =
     (let c = (if \<not> g_chk_active_gate c \<and> cp_valid0 p \<and> (ucast (cp_pc0 p) :: u32) = gate_pc
               then c\<lparr>g_chk_active_gate := True, ss := seed (ss c)\<rparr> else c)
      in if \<not> g_chk_active_gate c then (False, c, pend)
         else
           let c = mirror_cp0 p c;
               c = (if cp_valid0 p then checker_step cfg ops (cp_pc0 p) (cp_reg_valid0 p) (cp_reg_ptr0 p) (cp_reg_data0 p) c else c);
               (stop, st) = store_check_cycle (sc_max cfg) (no_sc_stop cfg) (stores c);
               c = c\<lparr>stores := st\<rparr>
           in if stop then (True, c, pend)
              else
                let c = (if cp_valid1 p then checker_step cfg ops (cp_pc1 p) (cp_reg_valid1 p) (cp_reg_ptr1 p) (cp_reg_data1 p) c else c)
                in (False, c\<lparr>ss := drain_pend_tlb (apply_tlb ops) pend (ss c)\<rparr>, []))"

section \<open>Staying locked to the RTL\<close>

lemma set_gpr_sel [simp]:
  "gpr (ss (set_gpr r v c)) = (gpr (ss c))(r := v)" "brk (ss (set_gpr r v c)) = brk (ss c)"
  "g_settle (set_gpr r v c) = g_settle c" "g_chk_diverge (set_gpr r v c) = g_chk_diverge c"
  "g_chk_resync (set_gpr r v c) = g_chk_resync c" "pc (ss (set_gpr r v c)) = pc (ss c)"
  "stores (set_gpr r v c) = stores c" "gc (set_gpr r v c) = gc c"
  by (simp_all add: set_gpr_def)

lemma set_pc_sel [simp]:
  "pc (ss (set_pc v c)) = v" "gpr (ss (set_pc v c)) = gpr (ss c)" "g_settle (set_pc v c) = g_settle c"
  "g_chk_diverge (set_pc v c) = g_chk_diverge c" "g_chk_resync (set_pc v c) = g_chk_resync c"
  by (simp_all add: set_pc_def)

lemma exec_sel [simp]:
  "ss (exec ops c) = fst (execMips ops (ss c))" "g_settle (exec ops c) = g_settle c"
  "g_chk_diverge (exec ops c) = g_chk_diverge c" "g_chk_resync (exec ops c) = g_chk_resync c"
  "g_chk_insns (exec ops c) = g_chk_insns c + 1"
  by (simp_all add: exec_def case_prod_unfold)

lemma chk_compare_gpr: "rrv \<Longrightarrow> rrp \<noteq> 0 \<Longrightarrow> gpr (ss (chk_compare ops vpc rrv rrp rrd devload c)) rrp = rrd"
  by (simp add: chk_compare_def Let_def)

lemma trust_reg_gpr: "rrv \<Longrightarrow> rrp \<noteq> 0 \<Longrightarrow> gpr (ss (trust_reg rrv rrp rrd c)) rrp = rrd"
  by (simp add: trust_reg_def)

lemma gc_update_ss [simp]: "ss (c\<lparr>gc := g\<rparr>) = ss c" "ss (c\<lparr>g_chk_mapped := n\<rparr>) = ss c"
  by simp_all

text \<open>
  C7.  After any step of the checker the golden model holds the value the RTL retired in
  the retired register, whatever the golden model computed and whichever path (lockstep,
  delay slot, mapped code, exception entry or resynchronisation) the step took.
\<close>

theorem checker_step_adopts_rtl:
  assumes "\<not> brk (ss c)" and "rrv" and "rrp \<noteq> 0"
  shows "gpr (ss (checker_step cfg ops rpc rrv rrp rrd c)) rrp = rrd"
proof -
  have "gpr (ss (step_synced cfg ops vpc rrv rrp rrd x)) rrp = rrd" for vpc x
    using assms(2,3) by (simp add: step_synced_def case_prod_unfold Let_def chk_compare_gpr trust_reg_gpr)
  then show ?thesis
    using assms by (simp add: checker_step_def Let_def chk_compare_gpr trust_reg_gpr)
qed

definition idle_iss :: iss where
  "idle_iss = \<lparr>pc = 0x88001000, gpr = (\<lambda>_. 0), hi = 0, lo = 0, cpr0 = (\<lambda>_. 0), cpr0_64 = (\<lambda>_. 0), cpr1 = (\<lambda>_. 0),
     fcr1 = (\<lambda>_. 0), tlb = (\<lambda>_. \<lparr>entry_hi = 0, entry_lo0 = 0, entry_lo1 = 0, page_mask = 0\<rparr>), brk = False,
     iss_mem = (\<lambda>_. 0), last_ld_va = 0\<rparr>"

definition idle_gc :: gpr_check where
  "idle_gc = \<lparr>g_gc_prf = (\<lambda>_. 0), g_gc_prf_known = (\<lambda>_. False), g_gc_prf_wcyc = (\<lambda>_. 0), g_gc_prf_wport = (\<lambda>_. 0),
     g_gc_prf_writes = 0, g_gc_rat = (\<lambda>_. 0), g_gc_rat_init = False, g_gc_rat_cyc = (\<lambda>_. 0), gc_n = 0,
     gc_recheck = False, gc_cand_mask = (\<lambda>_. False), gc_cand_rtl = (\<lambda>_. 0), gc_reported = 0, gc_poisoned = False,
     gc_reports = []\<rparr>"

definition idle_chk :: chk where
  "idle_chk = \<lparr>ss = idle_iss, g_expect_ds = False, g_ds_pc = 0, g_settle = 0, g_chk_insns = 0, g_chk_diverge = 0,
     g_chk_copsupp = 0, g_chk_mapped = 0, g_chk_resync = 0, g_chk_kdrift = 0, g_rtl_cause = 0, g_rtl_cause_ip = 0,
     g_rtl_epc = 0, g_rtl_badv = 0, g_chk_active_gate = True, stores = store_check_init, gc = idle_gc\<rparr>"

text \<open>A golden model that only ever advances its pc.\<close>

definition nop_ops :: iss_ops where
  "nop_ops = \<lparr>execMips = (\<lambda>s. (s\<lparr>pc := pc s + 4\<rparr>, [])), raise_int = (\<lambda>_ _ s. s), get_raw_ptr = unat, apply_tlb = (\<lambda>_ s. s)\<rparr>"

definition chk_default :: chk_cfg where
  "chk_default = \<lparr>no_mapskip = False, gprchk = 0, gprchk_poison = -1, no_sc_stop = False, sc_max = 200\<rparr>"

theorem checker_step_adopts_rtl_witness:
  "gpr (ss (checker_step chk_default nop_ops 0x88001000 True 4 99 idle_chk)) 4 = 99"
  by (rule checker_step_adopts_rtl) (simp_all add: idle_chk_def idle_iss_def)

text \<open>
  Resynchronisation always lands the golden model on the retired pc: whatever its
  interpreter and interrupt entry do, the instruction it executes next for this retirement
  is the one at the pc the RTL retired.
\<close>

theorem pc_sync_lands:
  "(ucast (pc (ss (fst (pc_sync ops rpc c)))) :: u32) = ucast rpc"
  by (simp add: pc_sync_def Let_def count_resync_def)

lemma pc_sync_diverge: "g_chk_diverge (fst (pc_sync ops rpc c)) = g_chk_diverge c"
  by (simp add: pc_sync_def Let_def count_resync_def set_pc_def)

lemma pc_sync_settle: "g_settle (fst (pc_sync ops rpc c)) = (if snd (pc_sync ops rpc c) then 16 else g_settle c)"
  by (simp add: pc_sync_def Let_def count_resync_def set_pc_def)

lemma chk_compare_diverge:
  "g_chk_diverge (chk_compare ops vpc rrv rrp rrd devload c) \<noteq> g_chk_diverge c \<Longrightarrow>
     rrv \<and> rrp \<noteq> 0 \<and> rrp \<noteq> 26 \<and> rrp \<noteq> 27 \<and> gpr (ss c) rrp \<noteq> rrd \<and> g_settle c = 0 \<and> \<not> devload \<and>
     \<not> chk_suppress ops (ss c) vpc rrp"
  by (auto simp: chk_compare_def Let_def split: if_splits)

lemma step_synced_diverge:
  assumes "g_chk_diverge (step_synced cfg ops vpc rrv rrp rrd (c, resynced)) \<noteq> g_chk_diverge c"
  shows "\<not> resynced \<and> rrv \<and> rrp \<noteq> 0 \<and> rrp \<noteq> 26 \<and> rrp \<noteq> 27 \<and> g_settle c \<le> 1 \<and>
    gpr (fst (execMips ops (ss c))) rrp \<noteq> rrd \<and> \<not> is_device_load ops (ss c) vpc"
proof (cases resynced)
  case True
  then show ?thesis using assms by (auto simp: step_synced_def Let_def trust_reg_def split: if_splits)
next
  case False
  let ?c = "exec ops (c\<lparr>g_settle := g_settle c - 1\<rparr>)"
  let ?d = "if (ucast (pc (ss ?c)) :: u32) \<noteq> ucast (pc (ss c)) + 4
    then ?c\<lparr>g_expect_ds := True, g_ds_pc := ucast (pc (ss c)) + 4\<rparr> else ?c"
  have d: "g_chk_diverge ?d = g_chk_diverge c" "g_settle ?d = g_settle c - 1" "ss ?d = fst (execMips ops (ss c))"
    by simp_all
  have "g_chk_diverge (chk_compare ops vpc rrv rrp rrd (is_device_load ops (ss c) vpc) ?d) \<noteq> g_chk_diverge ?d"
    using assms False unfolding d(1) by (simp add: step_synced_def Let_def split: if_splits)
  from chk_compare_diverge [OF this] show ?thesis using False unfolding d by simp
qed

text \<open>
  A real divergence is only ever counted against a register the RTL reports written,
  other than r0 and the exception scratch k0/k1, in a step that did not resynchronise, and
  not while the settle window is open: a resynchronisation opens a window that the next
  fifteen instructions keep closed to divergence counting.
\<close>

theorem divergence_is_conservative:
  assumes "g_chk_diverge (checker_step cfg ops rpc rrv rrp rrd c) \<noteq> g_chk_diverge c"
  shows "rrv \<and> rrp \<noteq> 0 \<and> rrp \<noteq> 26 \<and> rrp \<noteq> 27 \<and> g_settle c \<le> 1 \<and> \<not> brk (ss c) \<and>
    (no_mapskip cfg \<or> kseg01 (ucast rpc) \<or> g_expect_ds c) \<and>
    (g_expect_ds c \<and> ucast rpc = g_ds_pc c \<or> \<not> snd (pc_sync ops rpc (c\<lparr>g_expect_ds := False\<rparr>)))"
proof -
  let ?v = "ucast rpc :: u32" and ?c = "c\<lparr>g_expect_ds := False\<rparr>"
  have b: "\<not> brk (ss c)" using assms by (auto simp: checker_step_def)
  show ?thesis
  proof (cases "g_expect_ds c \<and> ?v = g_ds_pc c")
    case True
    then have "g_chk_diverge (chk_compare ops ?v rrv rrp rrd (is_device_load ops (ss ?c) ?v \<or> ds_is_device_load ops (ss ?c) ?v) ?c)
        \<noteq> g_chk_diverge ?c" using assms b by (simp add: checker_step_def Let_def)
    from chk_compare_diverge [OF this] show ?thesis using True b by simp
  next
    case False
    have m: "no_mapskip cfg \<or> kseg01 ?v"
    proof (rule ccontr)
      assume "\<not> (no_mapskip cfg \<or> kseg01 ?v)"
      then show False using assms b False by (auto simp: checker_step_def Let_def trust_reg_def split: if_splits)
    qed
    have "checker_step cfg ops rpc rrv rrp rrd c = step_synced cfg ops ?v rrv rrp rrd (pc_sync ops rpc ?c)"
      using b False m by (auto simp: checker_step_def Let_def)
    moreover have "g_chk_diverge (fst (pc_sync ops rpc ?c)) = g_chk_diverge c" by (simp add: pc_sync_diverge)
    ultimately have "g_chk_diverge (step_synced cfg ops ?v rrv rrp rrd (fst (pc_sync ops rpc ?c), snd (pc_sync ops rpc ?c)))
        \<noteq> g_chk_diverge (fst (pc_sync ops rpc ?c))" using assms by simp
    from step_synced_diverge [OF this] show ?thesis using b m by (auto simp: pc_sync_settle)
  qed
qed

theorem divergence_is_conservative_witness:
  "g_chk_diverge (checker_step chk_default nop_ops 0x88001000 True 4 99 idle_chk) \<noteq> g_chk_diverge idle_chk \<and>
   g_settle idle_chk \<le> 1"
proof -
  have "g_chk_diverge (checker_step chk_default nop_ops 0x88001000 True 4 99 idle_chk) = 1"
    by (simp add: checker_step_def step_synced_def pc_sync_def chk_compare_def chk_suppress_def is_device_load_def
        is_load_op_def insn_at_def be32_def op_of_def kseg01_def exec_def chk_default_def nop_ops_def idle_chk_def
        idle_iss_def Let_def set_gpr_def)
  then have h: "g_chk_diverge (checker_step chk_default nop_ops 0x88001000 True 4 99 idle_chk) \<noteq> g_chk_diverge idle_chk"
    by (simp add: idle_chk_def)
  show ?thesis using h divergence_is_conservative [OF h] by blast
qed

section \<open>The full register check confirms before it reports\<close>

text \<open>One pass over the registers: what it leaves in the candidate table and what it reports.\<close>

lemma gc_scan_reg_frame:
  "gc_recheck (fst (gc_scan_reg iss i x)) = gc_recheck (fst x)"
  "gc_cand_mask (fst (gc_scan_reg iss i x)) = gc_cand_mask (fst x)"
  "g_gc_prf (fst (gc_scan_reg iss i x)) = g_gc_prf (fst x)"
  "g_gc_rat (fst (gc_scan_reg iss i x)) = g_gc_rat (fst x)"
  "g_gc_prf_known (fst (gc_scan_reg iss i x)) = g_gc_prf_known (fst x)"
  by (simp_all add: gc_scan_reg_def case_prod_unfold Let_def)

lemma gc_scan_frame:
  "gc_recheck (fst (fold (gc_scan_reg iss) is x)) = gc_recheck (fst x)"
  "gc_cand_mask (fst (fold (gc_scan_reg iss) is x)) = gc_cand_mask (fst x)"
  "g_gc_prf (fst (fold (gc_scan_reg iss) is x)) = g_gc_prf (fst x)"
  "g_gc_rat (fst (fold (gc_scan_reg iss) is x)) = g_gc_rat (fst x)"
  "g_gc_prf_known (fst (fold (gc_scan_reg iss) is x)) = g_gc_prf_known (fst x)"
  by (induction "is" arbitrary: x) (simp_all add: gc_scan_reg_frame)

definition rtl_value :: "gpr_check \<Rightarrow> nat \<Rightarrow> u64" where
  "rtl_value g i = g_gc_prf g (unat (g_gc_rat g i))"

lemma gc_scan_reg_cand:
  "gc_cand_rtl (fst (gc_scan_reg iss i x)) = (if gc_mismatch (fst x) iss i
     then (gc_cand_rtl (fst x))(i := rtl_value (fst x) i) else gc_cand_rtl (fst x))"
  "snd (gc_scan_reg iss i x) = (if gc_mismatch (fst x) iss i then (snd x)(i := True) else snd x)"
  by (simp_all add: gc_scan_reg_def case_prod_unfold Let_def rtl_value_def)

lemma gc_mismatch_frame:
  "gc_mismatch (fst (gc_scan_reg iss i x)) = gc_mismatch (fst x)" "rtl_value (fst (gc_scan_reg iss i x)) = rtl_value (fst x)"
  by (simp_all add: fun_eq_iff gc_mismatch_def rtl_value_def gc_scan_reg_frame)

lemma gc_scan_cand:
  "snd (fold (gc_scan_reg iss) is x) i \<longleftrightarrow> snd x i \<or> i \<in> set is \<and> gc_mismatch (fst x) iss i"
  "gc_cand_rtl (fst (fold (gc_scan_reg iss) is x)) i =
     (if i \<in> set is \<and> gc_mismatch (fst x) iss i then rtl_value (fst x) i else gc_cand_rtl (fst x) i)"
  by (induction "is" arbitrary: x) (auto simp: gc_scan_reg_cand gc_mismatch_frame)

lemma gc_scan_reports:
  assumes "distinct is" "r \<in> set (gc_reports (fst (fold (gc_scan_reg iss) is x)))" "r \<notin> set (gc_reports (fst x))"
  shows "\<exists>i\<in>set is. r = (i, iss i, rtl_value (fst x) i) \<and> gc_mismatch (fst x) iss i \<and> gc_confirmed (fst x) i"
  using assms
proof (induction "is" arbitrary: x)
  case (Cons i "is")
  let ?x = "gc_scan_reg iss i x"
  show ?case
  proof (cases "r \<in> set (gc_reports (fst ?x))")
    case True
    then show ?thesis
      using Cons.prems(3) by (auto simp: gc_scan_reg_def case_prod_unfold Let_def rtl_value_def split: if_splits)
  next
    case False
    then obtain j where j: "j \<in> set is" "r = (j, iss j, rtl_value (fst ?x) j)" "gc_mismatch (fst ?x) iss j" "gc_confirmed (fst ?x) j"
      using Cons.IH [of ?x] Cons.prems(1,2) by auto
    have "j \<noteq> i" using j(1) Cons.prems(1) by auto
    then have "gc_confirmed (fst x) j"
      using j(4) by (auto simp: gc_confirmed_def gc_scan_reg_frame gc_scan_reg_cand split: if_splits)
    then show ?thesis using j by (auto simp: gc_mismatch_frame)
  qed
qed simp

lemma gc_poison_frame:
  "gc_recheck (gc_poison e p g) = gc_recheck g" "gc_cand_mask (gc_poison e p g) = gc_cand_mask g"
  "gc_cand_rtl (gc_poison e p g) = gc_cand_rtl g" "gc_reports (gc_poison e p g) = gc_reports g"
  by (simp_all add: gc_poison_def Let_def)

lemma gc_rat_init_frame:
  "gc_recheck (gc_rat_init g) = gc_recheck g" "gc_cand_mask (gc_rat_init g) = gc_cand_mask g"
  "gc_cand_rtl (gc_rat_init g) = gc_cand_rtl g" "gc_reports (gc_rat_init g) = gc_reports g"
  by (simp_all add: gc_rat_init_def)

lemmas gc_prep_frame = gc_poison_frame gc_rat_init_frame

text \<open>A check that leaves the confirm pass armed has just scanned.\<close>

lemma armed_check_scanned:
  assumes "gc_recheck (gpr_full_check e p iss g)" "gc_recheck g \<longrightarrow> g_gc_prf_writes g \<noteq> 0" "0 < e"
    and "gc_cand_mask (gpr_full_check e p iss g) i"
  shows "gc_cand_rtl (gpr_full_check e p iss g) i \<noteq> iss i"
proof -
  let ?g = "gc_poison e p (gc_rat_init (g\<lparr>gc_n := gc_n g + 1\<rparr>))"
  have scan: "gpr_full_check e p iss g = (case fold (gc_scan_reg iss) [1..<32] (?g, \<lambda>_. False) of (g, now) \<Rightarrow>
      g\<lparr>gc_cand_mask := now, gc_recheck := ((\<exists>i\<in>set [0..<32]. now i) \<and> \<not> gc_recheck g)\<rparr>)"
    using assms(1-3) by (auto simp: gpr_full_check_def Let_def simp del: set_upt split: if_splits)
  have "gc_mismatch ?g iss i" "i \<in> set [1..<32]"
    using assms(4) unfolding scan
    by (simp_all add: case_prod_unfold gc_scan_cand(1) del: set_upt)
  then show ?thesis
    unfolding scan by (simp add: case_prod_unfold gc_scan_cand(2) gc_mismatch_def rtl_value_def Let_def del: set_upt)
qed

text \<open>
  C26.  The full register check reports no boundary artefact: a register is reported only
  when the check just before it, on the previous instruction, found the same register
  wrong with the same RTL value, whatever physical registers and mappings were logged in
  between.
\<close>

theorem clobber_report_confirmed:
  assumes "0 < e" and "gc_recheck g0 \<longrightarrow> g_gc_prf_writes g0 \<noteq> 0" and "g1 = gpr_full_check e p iss1 g0"
    and "gc_recheck g = gc_recheck g1" and "gc_cand_mask g = gc_cand_mask g1" and "gc_cand_rtl g = gc_cand_rtl g1"
    and "(i, v, rtl) \<in> set (gc_reports (gpr_full_check e p iss2 g))" and "(i, v, rtl) \<notin> set (gc_reports g)"
  shows "v = iss2 i \<and> rtl \<noteq> iss2 i \<and> rtl \<noteq> iss1 i \<and> gc_cand_mask g1 i \<and> gc_cand_rtl g1 i = rtl"
proof -
  let ?g = "gc_poison e p (gc_rat_init (g\<lparr>gc_n := gc_n g + 1\<rparr>))"
  have scan: "gc_reports (gpr_full_check e p iss2 g) = gc_reports (fst (fold (gc_scan_reg iss2) [1..<32] (?g, \<lambda>_. False)))"
    using assms(1,7,8) by (auto simp: gpr_full_check_def Let_def case_prod_unfold simp del: set_upt split: if_splits)
  have "(i, v, rtl) \<notin> set (gc_reports (fst (?g, \<lambda>_ :: nat. False)))" using assms(8) by (simp add: gc_prep_frame)
  from gc_scan_reports [OF _ assms(7) [unfolded scan] this]
  have r: "v = iss2 i" "rtl = rtl_value ?g i" "gc_mismatch ?g iss2 i" "gc_confirmed ?g i" by auto
  have c: "gc_recheck g1" "gc_cand_mask g1 i" "gc_cand_rtl g1 i = rtl"
    using r(2,4) assms(4-6) by (auto simp: gc_confirmed_def gc_prep_frame rtl_value_def)
  have "gc_cand_rtl g1 i \<noteq> iss1 i"
    using armed_check_scanned [of e p iss1 g0 i] assms(1-3) c(1,2) by blast
  then show ?thesis using r c by (auto simp: gc_mismatch_def rtl_value_def Let_def)
qed

text \<open>A shadow register file with a stray write to the physical register behind r4.\<close>

definition clobbered :: gpr_check where
  "clobbered = prf_wr_log 7 4 0xbad 0 (retire_rat_log 5 4 4 idle_gc)"

theorem clobber_report_confirmed_witness:
  "(4, 0, 0xbad) \<in> set (gc_reports (gpr_full_check 1 (-1) (\<lambda>_. 0) (gpr_full_check 1 (-1) (\<lambda>_. 0) clobbered))) \<and>
   gc_cand_rtl (gpr_full_check 1 (-1) (\<lambda>_. 0) clobbered) 4 = 0xbad"
proof -
  have r: "(4, 0, 0xbad) \<in> set (gc_reports (gpr_full_check 1 (-1) (\<lambda>_. 0) (gpr_full_check 1 (-1) (\<lambda>_. 0) clobbered)))"
    by code_simp
  have n: "(4, 0, 0xbad) \<notin> set (gc_reports (gpr_full_check 1 (-1) (\<lambda>_. 0) clobbered))" by code_simp
  have w: "gc_recheck clobbered \<longrightarrow> g_gc_prf_writes clobbered \<noteq> 0"
    by (simp add: clobbered_def prf_wr_log_def retire_rat_log_def gc_rat_init_def idle_gc_def Let_def)
  show ?thesis using clobber_report_confirmed [OF _ w refl refl refl refl r n] r by simp
qed

end
