(* ===== verification/Image_Loader.thy ===== *)
theory Image_Loader
  imports Checker
begin

text \<open>
  Everything that puts a program into the simulated machine (\<^verbatim>\<open>sim/henry_tb.cpp\<close>): the
  big-endian ELF loader, the firmware blob loader, the ARCS handoff block, and the
  checkpoint files (load, compact image, verification, and the register seeds the RTL
  reads back through DPI).  A file is the list of its bytes; an \<^verbatim>\<open>mmap\<close>ed one reads as zero
  up to its page boundary and faults beyond.  Both memories are written: the simulated DRAM
  through the address map, and the golden model's memory, when there is one, at the
  physical address (\<open>rawp\<close> is its \<^verbatim>\<open>get_raw_ptr\<close>).
\<close>

datatype load_error = CannotOpen | NotElf | NotBe32 | SegmentOutOfRam | BadCheckpoint | ShortCheckpoint | BadCimg
  | MapFault | RamOverrun

text \<open>The two memories an image is loaded into.\<close>

record mems =
  dram :: mem
  gold :: "mem option"

definition MAP_PAGE :: nat where "MAP_PAGE = 4096"

definition mapped :: "bytes \<Rightarrow> bytes" where
  "mapped f = f @ replicate ((MAP_PAGE - length f mod MAP_PAGE) mod MAP_PAGE) 0"

text \<open>\<^verbatim>\<open>memcpy\<close> into the DRAM array and into the golden model's memory.\<close>

definition copy_dram :: "nat \<Rightarrow> bytes \<Rightarrow> mems \<Rightarrow> load_error + mems" where
  "copy_dram off bs m = (if off + length bs \<le> MEM_SIZE then Inr (m\<lparr>dram := mem_copy (dram m) off bs\<rparr>) else Inl RamOverrun)"

definition copy_gold :: "(u64 \<Rightarrow> nat) \<Rightarrow> u32 \<Rightarrow> bytes \<Rightarrow> mems \<Rightarrow> mems" where
  "copy_gold rawp pa bs m = m\<lparr>gold := map_option (\<lambda>g. mem_copy g (rawp (ucast pa)) bs) (gold m)\<rparr>"

section \<open>The ELF loader\<close>

definition file_be32 :: "bytes \<Rightarrow> nat \<Rightarrow> load_error + u32" where
  "file_be32 f p = (if p + 4 \<le> length f then Inr (be32 (\<lambda>i. f ! i) p) else Inl MapFault)"

definition file_be16 :: "bytes \<Rightarrow> nat \<Rightarrow> load_error + u16" where
  "file_be16 f p = (if p + 2 \<le> length f then Inr (be16 (\<lambda>i. f ! i) p) else Inl MapFault)"

definition bind_sum :: "'e + 'a \<Rightarrow> ('a \<Rightarrow> 'e + 'b) \<Rightarrow> 'e + 'b" where
  "bind_sum x k = (case x of Inl e \<Rightarrow> Inl e | Inr a \<Rightarrow> k a)"

lemma bind_sum_Inr: "bind_sum x k = Inr b \<longleftrightarrow> (\<exists>a. x = Inr a \<and> k a = Inr b)"
  by (cases x) (simp_all add: bind_sum_def)

text \<open>The program header fields the loader reads.\<close>

record phdr =
  p_type :: u32
  p_offset :: u32
  p_paddr :: u32
  p_filesz :: u32
  p_memsz :: u32

definition read_phdr :: "bytes \<Rightarrow> nat \<Rightarrow> load_error + phdr" where
  "read_phdr f ph =
     bind_sum (file_be32 f ph) (\<lambda>t. bind_sum (file_be32 f (ph + 4)) (\<lambda>off. bind_sum (file_be32 f (ph + 12)) (\<lambda>pa.
     bind_sum (file_be32 f (ph + 16)) (\<lambda>fs. bind_sum (file_be32 f (ph + 20)) (\<lambda>ms.
       Inr \<lparr>p_type = t, p_offset = off, p_paddr = pa, p_filesz = fs, p_memsz = ms\<rparr>)))))"

definition seg_pa :: "phdr \<Rightarrow> u32" where
  "seg_pa p = p_paddr p AND 0x1fffffff"

text \<open>Where the core will fetch the segment: the memory alias, then the FPGA map.\<close>

definition seg_off :: "phdr \<Rightarrow> u32" where
  "seg_off p = fst (fpga_map (sysmem_alias (seg_pa p)))"

text \<open>The bounds check as written: \<^verbatim>\<open>off + p_memsz\<close> is computed in 32 bits.\<close>

definition seg_in_ram :: "phdr \<Rightarrow> bool" where
  "seg_in_ram p \<longleftrightarrow> \<not> (snd (fpga_map (sysmem_alias (seg_pa p))) \<or> unat (seg_off p + p_memsz p) > MEM_SIZE)"

definition file_slice :: "bytes \<Rightarrow> nat \<Rightarrow> nat \<Rightarrow> load_error + bytes" where
  "file_slice f off n = (if off + n \<le> length f then Inr (take n (drop off f)) else Inl MapFault)"

definition load_segment :: "(u64 \<Rightarrow> nat) \<Rightarrow> bytes \<Rightarrow> phdr \<Rightarrow> mems \<Rightarrow> load_error + mems" where
  "load_segment rawp f p m =
     (if p_type p \<noteq> 1 then Inr m
      else if \<not> seg_in_ram p then Inl SegmentOutOfRam
      else bind_sum (file_slice f (unat (p_offset p)) (unat (p_filesz p))) (\<lambda>bs.
           bind_sum (copy_dram (unat (seg_off p)) bs m) (\<lambda>m. Inr (copy_gold rawp (seg_pa p) bs m))))"

fun load_segments :: "(u64 \<Rightarrow> nat) \<Rightarrow> bytes \<Rightarrow> nat list \<Rightarrow> mems \<Rightarrow> load_error + mems" where
  "load_segments rawp f [] m = Inr m"
| "load_segments rawp f (ph # phs) m =
     bind_sum (read_phdr f ph) (\<lambda>p. bind_sum (load_segment rawp f p m) (load_segments rawp f phs))"

text \<open>\<^verbatim>\<open>e_phoff + (uint32_t)i * e_phentsize\<close>, wrapped at 32 bits before it is added to the mapping.\<close>

definition phdr_offsets :: "u32 \<Rightarrow> u16 \<Rightarrow> u16 \<Rightarrow> nat list" where
  "phdr_offsets e_phoff e_phentsize e_phnum =
     map (\<lambda>i. unat e_phoff + unat ((of_nat i :: u32) * ucast e_phentsize)) [0..<unat e_phnum]"

definition load_elf_be32 :: "(u64 \<Rightarrow> nat) \<Rightarrow> bytes \<Rightarrow> mems \<Rightarrow> load_error + u32 \<times> mems" where
  "load_elf_be32 rawp file m =
     (let f = mapped file in
      if file = [] then Inl CannotOpen
      else if take 4 f \<noteq> [0x7f, 0x45, 0x4c, 0x46] then Inl NotElf
      else if f ! 4 \<noteq> 1 \<or> f ! 5 \<noteq> 2 then Inl NotBe32
      else
        bind_sum (file_be32 f 24) (\<lambda>e_entry. bind_sum (file_be32 f 28) (\<lambda>e_phoff.
        bind_sum (file_be16 f 42) (\<lambda>e_phentsize. bind_sum (file_be16 f 44) (\<lambda>e_phnum.
        bind_sum (load_segments rawp f (phdr_offsets e_phoff e_phentsize e_phnum) m) (\<lambda>m. Inr (e_entry, m)))))))"

section \<open>The firmware blob\<close>

definition load_blob :: "(u64 \<Rightarrow> nat) \<Rightarrow> bytes \<Rightarrow> u64 \<Rightarrow> mems \<Rightarrow> load_error + mems" where
  "load_blob rawp f pa m =
     (let off = fst (fpga_map (sysmem_alias (ucast pa)))
      in bind_sum (copy_dram (unat off) f m) (\<lambda>m. Inr (copy_gold rawp (ucast pa) f m)))"

section \<open>The ARCS handoff\<close>

text \<open>A C string with its terminator, as bytes.\<close>

definition cstr :: "string \<Rightarrow> bytes" where
  "cstr s = map of_char s @ [0]"

definition argv_strs :: "string list" where
  "argv_strs = [''scsi(0)disk(1)rdisk(0)partition(0)/unix'', ''OSLoadOptions=auto'',
     ''ConsoleIn=serial(0)'', ''ConsoleOut=serial(0)'',
     ''SystemPartition=scsi(0)disk(1)rdisk(0)partition(8)'', ''OSLoader=sash'',
     ''OSLoadPartition=scsi(0)disk(1)rdisk(0)partition(0)'', ''OSLoadFilename=/unix'']"

definition envp_strs :: "string list" where
  "envp_strs = [''AutoLoad=Yes'', ''TimeZone=PST8PDT'', ''console=d'', ''diskless=0'', ''dbaud=9600'',
     ''volume=80'', ''sgilogo=y'', ''autopower=y'', ''eaddr=08:01:02:03:04:05'',
     ''ConsoleOut=serial(0)'', ''ConsoleIn=serial(0)'', ''cpufreq=100'',
     ''SystemPartition=scsi(0)disk(1)rdisk(0)partition(8)'',
     ''OSLoadPartition=scsi(0)disk(1)rdisk(0)partition(0)'',
     ''OSLoadFilename=/unix'', ''OSLoader=sash'',
     ''kernname=scsi(0)disk(1)rdisk(0)partition(0)/unix'']"

definition KSEG0 :: u32 where "KSEG0 = 0x80000000"
definition STUB_PA :: u32 where "STUB_PA = 0x08ff0000"
definition ARGV_ARR :: u32 where "ARGV_ARR = 0x08ff0100"
definition ENVP_ARR :: u32 where "ENVP_ARR = 0x08ff0400"

text \<open>\<^verbatim>\<open>(str_pa + strlen(s) + 1 + 3) & ~3u\<close>\<close>

definition next_str :: "u32 \<Rightarrow> string \<Rightarrow> u32" where
  "next_str str_pa s = (str_pa + of_nat (length s) + 1 + 3) AND NOT 3"

text \<open>Lay out strings at \<open>str_pa\<close> and their pointers from \<open>arr\<close>, with the null at the end.\<close>

fun put_strs :: "u32 \<Rightarrow> u32 \<Rightarrow> string list \<Rightarrow> mem \<Rightarrow> mem \<times> u32" where
  "put_strs arr str_pa [] m = (put_be32 m (ucast arr) 0, str_pa)"
| "put_strs arr str_pa (s # strs) m =
     put_strs (arr + 4) (next_str str_pa s) strs
       (put_be32 (mem_copy m (unat str_pa) (cstr s)) (ucast arr) (KSEG0 OR str_pa))"

definition stub_words :: "u32 \<Rightarrow> u32 list" where
  "stub_words kentry =
     (let av = KSEG0 OR ARGV_ARR; ev = KSEG0 OR ENVP_ARR
      in [0x34040000 OR of_nat (length argv_strs), 0x3c050000 OR drop_bit 16 av, 0x34a50000 OR (av AND 0xffff),
          0x3c060000 OR drop_bit 16 ev, 0x34c60000 OR (ev AND 0xffff),
          0x3c010000 OR drop_bit 16 kentry, 0x34210000 OR (kentry AND 0xffff), 0x00200008, 0])"

fun put_words :: "u32 \<Rightarrow> u32 list \<Rightarrow> mem \<Rightarrow> mem" where
  "put_words p [] m = m"
| "put_words p (w # ws) m = put_words (p + 4) ws (put_be32 m (ucast p) w)"

definition install_arcs_handoff :: "u32 \<Rightarrow> mem \<Rightarrow> mem \<times> u32" where
  "install_arcs_handoff kentry m =
     (let (m, str_pa) = put_strs ARGV_ARR 0x08ff1000 argv_strs m;
          (m, str_pa) = put_strs ENVP_ARR str_pa envp_strs m
      in (put_words STUB_PA (stub_words kentry) m, KSEG0 OR STUB_PA))"

section \<open>Checkpoints\<close>

record cp_header =
  cp_magic :: u64
  cp_pc :: u64
  cp_gpr :: "u64 list"
  cp_hi :: u64
  cp_lo :: u64
  cp_cpr0 :: "u32 list"
  cp_cpr0_64 :: "u64 list"
  cp_cpr1 :: "u64 list"
  cp_fcr1 :: "u32 list"
  cp_tlb :: "tlb_entry list"
  cp_icnt :: u64
  cp_num_pages :: u32

definition CKPT_MAGIC :: u64 where "CKPT_MAGIC = 0x6d697073f5f5d005"
definition CKPT_HDR :: nat where "CKPT_HDR = 2496"

definition u64_at :: "bytes \<Rightarrow> nat \<Rightarrow> u64" where "u64_at f p = le_word (take 8 (drop p f))"
definition u32_at :: "bytes \<Rightarrow> nat \<Rightarrow> u32" where "u32_at f p = le_word (take 4 (drop p f))"

text \<open>\<^verbatim>\<open>struct cp_tlb\<close>: three 64-bit words, the page mask and padding.\<close>

definition tlb_at :: "bytes \<Rightarrow> nat \<Rightarrow> tlb_entry" where
  "tlb_at f p = \<lparr>entry_hi = u64_at f p, entry_lo0 = u64_at f (p + 8), entry_lo1 = u64_at f (p + 16),
     page_mask = ucast (u32_at f (p + 24))\<rparr>"

text \<open>\<^verbatim>\<open>struct cp_header\<close>, packed, little-endian.\<close>

definition parse_header :: "bytes \<Rightarrow> cp_header" where
  "parse_header b = \<lparr>cp_magic = u64_at b 0, cp_pc = u64_at b 8, cp_gpr = map (\<lambda>i. u64_at b (16 + 8 * i)) [0..<32],
     cp_hi = u64_at b 272, cp_lo = u64_at b 280, cp_cpr0 = map (\<lambda>i. u32_at b (288 + 4 * i)) [0..<32],
     cp_cpr0_64 = map (\<lambda>i. u64_at b (416 + 8 * i)) [0..<32], cp_cpr1 = map (\<lambda>i. u64_at b (672 + 8 * i)) [0..<32],
     cp_fcr1 = map (\<lambda>i. u32_at b (928 + 4 * i)) [0..<5], cp_tlb = map (\<lambda>i. tlb_at b (948 + 32 * i)) [0..<48],
     cp_icnt = u64_at b 2484, cp_num_pages = u32_at b 2492\<rparr>"

definition rd_header :: "bytes \<Rightarrow> (cp_header \<times> bytes) option" where
  "rd_header f = Option.bind (rd CKPT_HDR f) (\<lambda>(b, f).
     if cp_magic (parse_header b) = CKPT_MAGIC then Some (parse_header b, f) else None)"

text \<open>\<^verbatim>\<open>struct cp_page\<close>\<close>

definition rd_page :: "bytes \<Rightarrow> ((u32 \<times> bytes) \<times> bytes) option" where
  "rd_page f = map_option (\<lambda>(b, f). ((u32_at b 0, drop 4 b), f)) (rd 4100 f)"

definition load_page :: "(u64 \<Rightarrow> nat) \<Rightarrow> u32 \<times> bytes \<Rightarrow> mems \<Rightarrow> load_error + mems" where
  "load_page rawp p m = (case p of (va, bs) \<Rightarrow>
     bind_sum (if snd (fpga_map va) then Inr m else copy_dram (unat (fst (fpga_map va))) bs m)
       (\<lambda>m. Inr (copy_gold rawp va bs m)))"

fun load_pages :: "(u64 \<Rightarrow> nat) \<Rightarrow> nat \<Rightarrow> bytes \<Rightarrow> mems \<Rightarrow> load_error + mems" where
  "load_pages rawp 0 f m = Inr m"
| "load_pages rawp (Suc n) f m =
     (case rd_page f of
        None \<Rightarrow> Inl ShortCheckpoint
      | Some (p, f) \<Rightarrow> bind_sum (load_page rawp p m) (load_pages rawp n f))"

definition load_checkpoint :: "(u64 \<Rightarrow> nat) \<Rightarrow> bytes option \<Rightarrow> mems \<Rightarrow> load_error + cp_header \<times> mems" where
  "load_checkpoint rawp file m =
     (case file of
        None \<Rightarrow> Inl CannotOpen
      | Some f \<Rightarrow>
          (case rd_header f of
             None \<Rightarrow> Inl BadCheckpoint
           | Some (h, f) \<Rightarrow> bind_sum (load_pages rawp (unat (cp_num_pages h)) f m) (\<lambda>m. Inr (h, m))))"

text \<open>The compact image: a short one is loaded as far as it goes.\<close>

fun load_cimg_pages :: "(u64 \<Rightarrow> nat) \<Rightarrow> nat \<Rightarrow> bytes \<Rightarrow> mems \<times> u32 \<Rightarrow> load_error + mems \<times> u32" where
  "load_cimg_pages rawp 0 f x = Inr x"
| "load_cimg_pages rawp (Suc n) f x = (case x of (m, loaded) \<Rightarrow>
     (case rd_page f of
        None \<Rightarrow> Inr (m, loaded)
      | Some (p, f) \<Rightarrow> bind_sum (load_page rawp p m) (\<lambda>m. load_cimg_pages rawp n f
          (m, if snd (fpga_map (fst p)) then loaded else loaded + 1))))"

definition load_cimg :: "(u64 \<Rightarrow> nat) \<Rightarrow> bytes option \<Rightarrow> mems \<Rightarrow> load_error + u64 \<times> mems \<times> u32" where
  "load_cimg rawp file m =
     (case file of
        None \<Rightarrow> Inl CannotOpen
      | Some f \<Rightarrow>
          (case rd 8 f of
             None \<Rightarrow> Inl BadCimg
           | Some (ib, f) \<Rightarrow>
          (case rd 4 f of
             None \<Rightarrow> Inl BadCimg
           | Some (nb, f) \<Rightarrow>
               bind_sum (load_cimg_pages rawp (unat (le_word nb :: u32)) f (m, 0)) (\<lambda>x. Inr (le_word ib, x)))))"

text \<open>\<^verbatim>\<open>verify_against_checkpoint\<close>: pages that match and mismatch, in the DRAM and in the golden model.\<close>

record page_counts =
  rtl_ok :: nat
  rtl_bad :: nat
  iss_ok :: nat
  iss_bad :: nat

definition verify_page :: "(u64 \<Rightarrow> nat) \<Rightarrow> mems \<Rightarrow> u32 \<times> bytes \<Rightarrow> page_counts \<Rightarrow> page_counts" where
  "verify_page rawp m p k = (case p of (va, bs) \<Rightarrow>
     let (off, bad) = fpga_map va;
         k = (if bad then k
              else if mem_read (dram m) (unat off) 4096 = bs then k\<lparr>rtl_ok := rtl_ok k + 1\<rparr>
              else k\<lparr>rtl_bad := rtl_bad k + 1\<rparr>)
     in (case gold m of
           None \<Rightarrow> k
         | Some g \<Rightarrow> if mem_read g (rawp (ucast va)) 4096 = bs then k\<lparr>iss_ok := iss_ok k + 1\<rparr>
             else k\<lparr>iss_bad := iss_bad k + 1\<rparr>))"

fun verify_pages :: "(u64 \<Rightarrow> nat) \<Rightarrow> mems \<Rightarrow> nat \<Rightarrow> bytes \<Rightarrow> page_counts \<Rightarrow> page_counts" where
  "verify_pages rawp m 0 f k = k"
| "verify_pages rawp m (Suc n) f k =
     (case rd_page f of
        None \<Rightarrow> k
      | Some (p, f) \<Rightarrow> verify_pages rawp m n f (verify_page rawp m p k))"

definition verify_against_checkpoint :: "(u64 \<Rightarrow> nat) \<Rightarrow> mems \<Rightarrow> bytes option \<Rightarrow> page_counts option" where
  "verify_against_checkpoint rawp m file =
     Option.bind file (\<lambda>f. map_option (\<lambda>(h, f). verify_pages rawp m (unat (cp_num_pages h)) f
       \<lparr>rtl_ok = 0, rtl_bad = 0, iss_ok = 0, iss_bad = 0\<rparr>) (rd_header f))"

text \<open>\<^verbatim>\<open>setup_verify\<close>: the retired count at which to compare, or verification disabled.\<close>

definition setup_verify :: "u64 \<Rightarrow> bytes option \<Rightarrow> (u64 \<times> u64) option" where
  "setup_verify ckpt_icnt vfile =
     Option.bind vfile (\<lambda>f. Option.bind (rd_header f) (\<lambda>(vh, _).
       if cp_icnt vh > ckpt_icnt then Some (cp_icnt vh, cp_icnt vh - ckpt_icnt) else None))"

text \<open>The register seeds read back by the RTL; no checkpoint, no seed.\<close>

definition loadgpr :: "cp_header option \<Rightarrow> u32 \<Rightarrow> u64" where
  "loadgpr g r = (case g of None \<Rightarrow> 0 | Some h \<Rightarrow> cp_gpr h ! unat (r AND 31))"

definition loadfpr :: "cp_header option \<Rightarrow> u32 \<Rightarrow> u64" where
  "loadfpr g r = (case g of None \<Rightarrow> 0 | Some h \<Rightarrow> cp_cpr1 h ! unat (r AND 31))"

definition loadcp0 :: "cp_header option \<Rightarrow> u32 \<Rightarrow> u32" where
  "loadcp0 g r = (case g of None \<Rightarrow> 0 | Some h \<Rightarrow> cp_cpr0 h ! unat (r AND 31))"

definition loadcp0_64 :: "cp_header option \<Rightarrow> u32 \<Rightarrow> u64" where
  "loadcp0_64 g r = (case g of None \<Rightarrow> 0 | Some h \<Rightarrow> cp_cpr0_64 h ! unat (r AND 31))"

definition loadhilo :: "cp_header option \<Rightarrow> bool \<Rightarrow> u64" where
  "loadhilo g half = (case g of None \<Rightarrow> 0 | Some h \<Rightarrow> if half then cp_hi h else cp_lo h)"

definition loadfcsr :: "cp_header option \<Rightarrow> u32" where
  "loadfcsr g = (case g of None \<Rightarrow> 0 | Some h \<Rightarrow> cp_fcr1 h ! 4)"

definition loadtlb :: "cp_header option \<Rightarrow> nat \<Rightarrow> u32 \<Rightarrow> u64" where
  "loadtlb g entry field = (case g of None \<Rightarrow> 0 | Some h \<Rightarrow>
     let t = cp_tlb h ! (entry mod 48); k = field AND 3
     in if k = 0 then entry_hi t else if k = 1 then entry_lo0 t else if k = 2 then entry_lo1 t else page_mask t)"

definition seed_checker :: "cp_header option \<Rightarrow> iss \<Rightarrow> iss" where
  "seed_checker g s = (case g of None \<Rightarrow> s | Some h \<Rightarrow>
     s\<lparr>pc := ckpt_pc_sext (cp_pc h), hi := cp_hi h, lo := cp_lo h,
       gpr := (\<lambda>i. if i < 32 then cp_gpr h ! i else gpr s i),
       cpr0 := (\<lambda>i. if i < 32 then cp_cpr0 h ! i else cpr0 s i),
       cpr0_64 := (\<lambda>i. if i < 32 then cp_cpr0_64 h ! i else cpr0_64 s i),
       cpr1 := (\<lambda>i. if i < 32 then cp_cpr1 h ! i else cpr1 s i),
       fcr1 := (\<lambda>i. if i < 5 then cp_fcr1 h ! i else fcr1 s i),
       tlb := (\<lambda>i. if i < 48 then cp_tlb h ! i else tlb s i)\<rparr>)"

section \<open>Where a kernel's segments land\<close>

text \<open>The program headers of an image, and the ones that are loaded.\<close>

definition elf_phdrs :: "bytes \<Rightarrow> phdr list" where
  "elf_phdrs f = map (\<lambda>ph. projr (read_phdr f ph))
     (phdr_offsets (projr (file_be32 f 28)) (projr (file_be16 f 42)) (projr (file_be16 f 44)))"

definition pt_loads :: "bytes \<Rightarrow> phdr list" where
  "pt_loads f = filter (\<lambda>p. p_type p = 1) (elf_phdrs f)"

definition seg_block :: "phdr \<Rightarrow> nat set" where
  "seg_block p = {unat (seg_off p) ..< unat (seg_off p) + unat (p_filesz p)}"

fun disjoint_segs :: "phdr list \<Rightarrow> bool" where
  "disjoint_segs [] = True"
| "disjoint_segs (p # ps) = ((\<forall>q\<in>set ps. seg_block p \<inter> seg_block q = {}) \<and> disjoint_segs ps)"

lemma copy_gold_dram [simp]: "dram (copy_gold rawp pa bs m) = dram m"
  by (simp add: copy_gold_def)

lemma load_segment_dram:
  assumes "load_segment rawp f p m = Inr m'" "p_type p = 1"
  shows "dram m' = mem_copy (dram m) (unat (seg_off p)) (take (unat (p_filesz p)) (drop (unat (p_offset p)) f))"
    and "unat (p_offset p) + unat (p_filesz p) \<le> length f"
  using assms by (auto simp: load_segment_def bind_sum_Inr copy_dram_def file_slice_def split: if_splits)

lemma load_segment_other: "load_segment rawp f p m = Inr m' \<Longrightarrow> p_type p \<noteq> 1 \<Longrightarrow> dram m' = dram m"
  by (simp add: load_segment_def)

lemma mem_copy_block:
  assumes "length bs = n"
  shows "i < n \<Longrightarrow> mem_copy m off bs (off + i) = bs ! i" "a \<notin> {off ..< off + n} \<Longrightarrow> mem_copy m off bs a = m a"
  using assms by (auto simp: mem_copy_same intro: mem_copy_other)

text \<open>What a list of segments leaves in the DRAM, by induction over the header table.\<close>

lemma load_segments_placed:
  assumes "load_segments rawp f phs m = Inr m'"
    and "disjoint_segs (filter (\<lambda>p. p_type p = 1) (map (\<lambda>ph. projr (read_phdr f ph)) phs))"
  shows "(\<forall>p\<in>set (map (\<lambda>ph. projr (read_phdr f ph)) phs). p_type p = 1 \<longrightarrow>
      (\<forall>i < unat (p_filesz p). dram m' (unat (seg_off p) + i) = f ! (unat (p_offset p) + i))) \<and>
    (\<forall>a. (\<forall>p\<in>set (map (\<lambda>ph. projr (read_phdr f ph)) phs). p_type p = 1 \<longrightarrow> a \<notin> seg_block p) \<longrightarrow> dram m' a = dram m a)"
  using assms
proof (induction phs arbitrary: m)
  case (Cons ph phs)
  obtain p m1 where s: "read_phdr f ph = Inr p" "load_segment rawp f p m = Inr m1" "load_segments rawp f phs m1 = Inr m'"
    using Cons.prems(1) by (auto simp: bind_sum_Inr)
  let ?ps = "map (\<lambda>ph. projr (read_phdr f ph)) phs"
  have ih: "\<forall>q\<in>set ?ps. p_type q = 1 \<longrightarrow> (\<forall>i < unat (p_filesz q). dram m' (unat (seg_off q) + i) = f ! (unat (p_offset q) + i))"
      "\<forall>a. (\<forall>q\<in>set ?ps. p_type q = 1 \<longrightarrow> a \<notin> seg_block q) \<longrightarrow> dram m' a = dram m1 a"
    using Cons.IH [OF s(3)] Cons.prems(2) s(1) by (auto split: if_splits)
  show ?case
  proof (cases "p_type p = 1")
    case False
    then show ?thesis using ih load_segment_other [OF s(2)] s(1) by auto
  next
    case True
    note d = load_segment_dram [OF s(2) True]
    let ?bs = "take (unat (p_filesz p)) (drop (unat (p_offset p)) f)"
    have len: "length ?bs = unat (p_filesz p)" using d(2) by simp
    have dis: "\<forall>q\<in>set ?ps. p_type q = 1 \<longrightarrow> seg_block p \<inter> seg_block q = {}"
      using Cons.prems(2) s(1) True by auto
    have "dram m' (unat (seg_off p) + i) = f ! (unat (p_offset p) + i)" if i: "i < unat (p_filesz p)" for i
    proof -
      have "unat (seg_off p) + i \<in> seg_block p" using i by (simp add: seg_block_def)
      then have "dram m' (unat (seg_off p) + i) = dram m1 (unat (seg_off p) + i)" using ih(2) dis by blast
      also have "\<dots> = ?bs ! i" unfolding d(1) by (rule mem_copy_block(1) [OF len i])
      finally show ?thesis using i d(2) by simp
    qed
    moreover have "dram m' a = dram m a" if "a \<notin> seg_block p" "\<forall>q\<in>set ?ps. p_type q = 1 \<longrightarrow> a \<notin> seg_block q" for a
      using ih(2) that mem_copy_block(2) [OF len, of a "unat (seg_off p)"] unfolding d(1) by (simp add: seg_block_def)
    ultimately show ?thesis using ih(1) s(1) True by simp
  qed
qed simp


text \<open>A one-segment kernel: 4 bytes for physical 0x08002000, entered at 0x88002000.\<close>

definition sample_elf :: bytes where
  "sample_elf = [0x7f, 0x45, 0x4c, 0x46, 1, 2, 1, 0, 0, 0, 0, 0, 0, 0, 0, 0,
     0, 2, 0, 8, 0, 0, 0, 1, 0x88, 0, 0x20, 0, 0, 0, 0, 52, 0, 0, 0, 0, 0, 0, 0, 0, 0, 52, 0, 32, 0, 1, 0, 0, 0, 0, 0, 0,
     0, 0, 0, 1, 0, 0, 0, 84, 0x88, 0, 0x20, 0, 0x88, 0, 0x20, 0, 0, 0, 0, 4, 0, 0, 0, 8, 0, 0, 0, 7, 0, 0, 0x10, 0,
     0xde, 0xad, 0xbe, 0xef]"

definition blank :: mems where
  "blank = \<lparr>dram = (\<lambda>_. 0), gold = None\<rparr>"

lemma mapped_sample: "mapped sample_elf = sample_elf @ replicate 4008 0"
  by (simp add: mapped_def MAP_PAGE_def sample_elf_def)

lemma length_sample: "length (mapped sample_elf) = 4096" "length sample_elf = 88"
  by (simp_all add: mapped_sample) (simp_all add: sample_elf_def)

lemma nth_sample: "i < 88 \<Longrightarrow> mapped sample_elf ! i = sample_elf ! i"
  by (simp add: mapped_sample nth_append length_sample)

lemma sample_fields:
  "file_be32 (mapped sample_elf) 24 = Inr 0x88002000" "file_be32 (mapped sample_elf) 28 = Inr 52"
  "file_be16 (mapped sample_elf) 42 = Inr 32" "file_be16 (mapped sample_elf) 44 = Inr 1"
  "read_phdr (mapped sample_elf) 52 = Inr \<lparr>p_type = 1, p_offset = 84, p_paddr = 0x88002000, p_filesz = 4, p_memsz = 8\<rparr>"
  by (simp_all add: read_phdr_def bind_sum_def file_be32_def file_be16_def be32_def be16_def length_sample nth_sample)
     (simp_all add: sample_elf_def)

lemma sample_phdrs: "phdr_offsets 52 32 1 = [52]"
  by (simp add: phdr_offsets_def)

definition sample_seg :: phdr where
  "sample_seg = \<lparr>p_type = 1, p_offset = 84, p_paddr = 0x88002000, p_filesz = 4, p_memsz = 8\<rparr>"

lemma sample_seg_place: "seg_pa sample_seg = 0x08002000" "seg_off sample_seg = 0x08002000" "seg_in_ram sample_seg"
proof -
  show pa: "seg_pa sample_seg = 0x08002000" by (simp add: seg_pa_def sample_seg_def)
  show off: "seg_off sample_seg = 0x08002000" unfolding seg_off_def pa by (simp add: sysmem_alias_def fpga_map_def Let_def)
  show "seg_in_ram sample_seg"
    unfolding seg_in_ram_def pa off
    by (simp add: sysmem_alias_def fpga_map_def Let_def FPGA_ADDRMASK_def MEM_SIZE_def sample_seg_def)
qed

lemma sample_elf_loads: "\<exists>m'. load_elf_be32 unat sample_elf m = Inr (0x88002000, m')"
proof -
  have h: "take 4 (mapped sample_elf) = [0x7f, 0x45, 0x4c, 0x46]" "mapped sample_elf ! 4 = 1" "mapped sample_elf ! 5 = 2"
      "sample_elf \<noteq> []"
    by (simp_all add: mapped_sample) (simp_all add: sample_elf_def)
  have "file_slice (mapped sample_elf) (unat (p_offset sample_seg)) (unat (p_filesz sample_seg)) =
      Inr (take 4 (drop 84 (mapped sample_elf)))"
    by (simp add: file_slice_def length_sample sample_seg_def)
  then have "\<exists>m'. load_segment unat (mapped sample_elf) sample_seg m = Inr m'"
    using sample_seg_place
    by (simp add: load_segment_def bind_sum_def copy_dram_def length_sample MEM_SIZE_def sample_seg_def)
  then show ?thesis
    using h sample_fields by (auto simp: load_elf_be32_def Let_def bind_sum_def sample_phdrs sample_seg_def)
qed

lemma sample_loads: "pt_loads (mapped sample_elf) = [sample_seg]"
  by (simp add: pt_loads_def elf_phdrs_def sample_fields sample_phdrs sample_seg_def)


text \<open>
  The loader's bounds check is too weak: the end of a segment is computed in 32 bits,
  so the check accepts, besides the segments that fit the 512 MB window, exactly those whose
  memory size wraps the sum past 4 GB to a small value; the file size is never checked.
\<close>

theorem seg_check_wraps:
  "seg_in_ram p \<longleftrightarrow> unat (seg_off p) + unat (p_memsz p) \<le> MEM_SIZE \<or>
     2 ^ 32 \<le> unat (seg_off p) + unat (p_memsz p) \<and> unat (seg_off p) + unat (p_memsz p) \<le> 2 ^ 32 + MEM_SIZE"
proof -
  let ?a = "unat (seg_off p)" and ?b = "unat (p_memsz p)"
  have pa: "unat (seg_pa p) < 0x20000000" by (simp add: seg_pa_def mask_simps unat_take_bit_mod)
  have al: "unat (sysmem_alias (seg_pa p)) < 0x20000000"
  proof (cases "drop_bit 19 (seg_pa p) = 0")
    case True
    have "unat (seg_pa p OR 0x08000000) < 2 ^ 29"
    proof -
      have "take_bit 29 (seg_pa p) = seg_pa p" by (simp add: seg_pa_def mask_simps)
      then have "take_bit 29 (seg_pa p OR 0x08000000) = seg_pa p OR 0x08000000" by (simp add: take_bit_or)
      then show ?thesis using unat_take_bit_mod [of 29 "seg_pa p OR 0x08000000"] by simp
    qed
    then show ?thesis using True by (simp add: sysmem_alias_def)
  next
    case False
    then show ?thesis using pa by (simp add: sysmem_alias_def)
  qed
  then have nb: "\<not> snd (fpga_map (sysmem_alias (seg_pa p)))" by (simp add: fpga_bad_iff)
  have "?a < 2 ^ 29" using fpga_map_in_range [OF nb] by (simp add: seg_off_def MEM_SIZE_def)
  moreover have "?b < 2 ^ 32" using unat_u32_bound [of "p_memsz p"] by simp
  moreover have "unat (seg_off p + p_memsz p) = (?a + ?b) mod 2 ^ 32" by (simp add: unat_word_ariths)
  ultimately show ?thesis
    using nb by (cases "?a + ?b < 2 ^ 32") (auto simp: seg_in_ram_def MEM_SIZE_def le_mod_geq not_less)
qed

section \<open>A checkpoint, loaded and verified\<close>

fun rd_pages :: "nat \<Rightarrow> bytes \<Rightarrow> (u32 \<times> bytes) list" where
  "rd_pages 0 f = []"
| "rd_pages (Suc n) f = (case rd_page f of None \<Rightarrow> [] | Some (p, f) \<Rightarrow> p # rd_pages n f)"

definition page_off :: "u32 \<times> bytes \<Rightarrow> nat" where
  "page_off p = unat (fst (fpga_map (fst p)))"

definition put_page :: "u32 \<times> bytes \<Rightarrow> mem \<Rightarrow> mem" where
  "put_page p d = (if snd (fpga_map (fst p)) then d else mem_copy d (page_off p) (snd p))"

lemma rd_page_length: "rd_page f = Some ((va, bs), f') \<Longrightarrow> length bs = 4096"
  by (auto simp: rd_page_def dest!: rd_SomeD)

lemma load_page_dram: "load_page rawp p m = Inr m' \<Longrightarrow> dram m' = put_page p (dram m)"
  by (auto simp: load_page_def put_page_def page_off_def bind_sum_Inr copy_dram_def split: prod.splits if_splits)

lemma load_pages_dram:
  "load_pages rawp n f m = Inr m' \<Longrightarrow> dram m' = fold put_page (rd_pages n f) (dram m)"
proof (induction n arbitrary: f m)
  case (Suc n)
  then show ?case by (auto simp: bind_sum_Inr load_page_dram split: option.splits)
qed simp

lemma verify_page_rtl:
  "rtl_ok (verify_page rawp m p k) = rtl_ok k + (if \<not> snd (fpga_map (fst p)) \<and> mem_read (dram m) (page_off p) 4096 = snd p then 1 else 0)"
  "rtl_bad (verify_page rawp m p k) = rtl_bad k + (if \<not> snd (fpga_map (fst p)) \<and> mem_read (dram m) (page_off p) 4096 \<noteq> snd p then 1 else 0)"
  by (auto simp: verify_page_def Let_def page_off_def split: prod.splits option.splits)

lemma verify_pages_rtl:
  "rtl_ok (verify_pages rawp m n f k) = rtl_ok k + length (filter (\<lambda>p. \<not> snd (fpga_map (fst p)) \<and> mem_read (dram m) (page_off p) 4096 = snd p) (rd_pages n f))"
  "rtl_bad (verify_pages rawp m n f k) = rtl_bad k + length (filter (\<lambda>p. \<not> snd (fpga_map (fst p)) \<and> mem_read (dram m) (page_off p) 4096 \<noteq> snd p) (rd_pages n f))"
  by (induction n arbitrary: f k) (auto simp: verify_page_rtl split: option.splits)

text \<open>Pages of guest memory proper, on page boundaries, each present once.\<close>

definition pages_ok :: "(u32 \<times> bytes) list \<Rightarrow> bool" where
  "pages_ok ps \<longleftrightarrow> distinct (map fst ps) \<and> (\<forall>p\<in>set ps. 0x08000000 \<le> unat (fst p) \<and> unat (fst p) mod 4096 = 0 \<and> length (snd p) = 4096)"

lemma page_off_aligned: "unat (fst p) mod 4096 = 0 \<Longrightarrow> page_off p mod 4096 = 0"
proof -
  assume a: "unat (fst p) mod 4096 = 0"
  have "page_off p mod 16777216 = unat (fst p) mod 16777216" unfolding page_off_def by (rule fpga.low_bits)
  then have "page_off p mod 16777216 mod 4096 = unat (fst p) mod 16777216 mod 4096" by simp
  then show ?thesis using a by (simp add: mod_mod_cancel)
qed

lemma aligned_blocks_disjoint:
  "(a :: nat) mod 4096 = 0 \<Longrightarrow> b mod 4096 = 0 \<Longrightarrow> a \<noteq> b \<Longrightarrow> a + 4096 \<le> b \<or> b + 4096 \<le> a"
proof -
  assume "a mod 4096 = 0" "b mod 4096 = 0" "a \<noteq> b"
  then obtain x y where "a = 4096 * x" "b = 4096 * y" "x < y \<or> y < x" by (metis linorder_neqE_nat minus_mod_eq_mult_div diff_zero)
  then show ?thesis by auto
qed

lemma pages_disjoint:
  assumes "pages_ok ps" "p \<in> set ps" "q \<in> set ps" "fst p \<noteq> fst q" "\<not> snd (fpga_map (fst p))" "\<not> snd (fpga_map (fst q))"
  shows "page_off p + 4096 \<le> page_off q \<or> page_off q + 4096 \<le> page_off p"
proof (rule aligned_blocks_disjoint)
  show "page_off p mod 4096 = 0" "page_off q mod 4096 = 0"
    using assms(1-3) by (auto simp: pages_ok_def intro!: page_off_aligned split: prod.splits)
  show "page_off p \<noteq> page_off q"
    using assms fpga_map_inj [of "fst p" "fst q"]
    by (auto simp: page_off_def pages_ok_def fpga_bad_iff not_le split: prod.splits)
qed

lemma put_pages_read:
  assumes "pages_ok ps" "p \<in> set ps" "\<not> snd (fpga_map (fst p))"
  shows "mem_read (fold put_page ps d) (page_off p) 4096 = snd p"
  using assms
proof (induction ps rule: rev_induct)
  case (snoc q ps)
  have ok: "pages_ok ps" "length (snd q) = 4096" "length (snd p) = 4096"
    using snoc.prems(1,2) by (auto simp: pages_ok_def split: prod.splits)
  show ?case
  proof (cases "p = q")
    case True
    then show ?thesis using snoc.prems(3) mem_read_copy [of _ "page_off q" "snd q"] ok(2) by (simp add: put_page_def)
  next
    case False
    then have p: "p \<in> set ps" using snoc.prems(2) by simp
    have "fst q \<notin> fst ` set ps" using snoc.prems(1) by (simp add: pages_ok_def)
    then have ne: "fst p \<noteq> fst q" using p by (metis imageI)
    have "mem_read (put_page q (fold put_page ps d)) (page_off p) 4096 = mem_read (fold put_page ps d) (page_off p) 4096"
    proof (cases "snd (fpga_map (fst q))")
      case True
      then show ?thesis by (simp add: put_page_def)
    next
      case False
      have "page_off p + 4096 \<le> page_off q \<or> page_off q + 4096 \<le> page_off p"
        by (rule pages_disjoint [OF snoc.prems(1)]) (use p ne False snoc.prems(3) in auto)
      then show ?thesis
        using False ok(2) by (auto simp: put_page_def mem_read_def intro!: mem_copy_other)
    qed
    then show ?thesis using snoc.IH ok(1) p snoc.prems(3) by simp
  qed
qed simp


text \<open>A checkpoint of one zero page at physical 0x08000000.\<close>

definition sample_ckpt :: bytes where
  "sample_ckpt = le_bytes 8 CKPT_MAGIC @ replicate 2484 0 @ le_bytes 4 (1 :: u32) @ le_bytes 4 (0x08000000 :: u32) @ replicate 4096 0"

lemma sample_ckpt_header: "rd_header sample_ckpt = Some (parse_header (take CKPT_HDR sample_ckpt), drop CKPT_HDR sample_ckpt)"
    "unat (cp_num_pages (parse_header (take CKPT_HDR sample_ckpt))) = 1"
    "drop CKPT_HDR sample_ckpt = le_bytes 4 (0x08000000 :: u32) @ replicate 4096 0"
proof -
  let ?h = "le_bytes 8 CKPT_MAGIC @ replicate 2484 0 @ le_bytes 4 (1 :: u32)"
  have l: "length ?h = CKPT_HDR" by (simp add: CKPT_HDR_def)
  have s: "sample_ckpt = ?h @ le_bytes 4 (0x08000000 :: u32) @ replicate 4096 0" by (simp add: sample_ckpt_def)
  have t: "take CKPT_HDR sample_ckpt = ?h" "drop CKPT_HDR sample_ckpt = le_bytes 4 (0x08000000 :: u32) @ replicate 4096 0"
    unfolding s l [symmetric] by simp_all
  have m: "u64_at ?h 0 = CKPT_MAGIC" by (simp add: u64_at_def le_word_le_bytes)
  have "u32_at ?h 2492 = 1" by (simp add: u32_at_def le_word_le_bytes)
  then show "unat (cp_num_pages (parse_header (take CKPT_HDR sample_ckpt))) = 1"
    by (simp only: t(1) parse_header_def cp_header.simps) simp
  show "drop CKPT_HDR sample_ckpt = le_bytes 4 (0x08000000 :: u32) @ replicate 4096 0" by (rule t(2))
  have "CKPT_HDR \<le> length sample_ckpt" by (simp add: sample_ckpt_def CKPT_HDR_def)
  moreover have "cp_magic (parse_header (take CKPT_HDR sample_ckpt)) = CKPT_MAGIC"
    by (simp only: t(1) parse_header_def cp_header.simps m)
  ultimately show "rd_header sample_ckpt = Some (parse_header (take CKPT_HDR sample_ckpt), drop CKPT_HDR sample_ckpt)"
    by (simp add: rd_header_def rd_def)
qed

lemma sample_ckpt_page: "rd_page (le_bytes 4 (0x08000000 :: u32) @ replicate 4096 0) = Some ((0x08000000, replicate 4096 0), [])"
  by (simp add: rd_page_def rd_def u32_at_def le_word_le_bytes)


text \<open>
  Unlike the ELF and blob loaders, the checkpoint loader does not apply the System
  Memory Alias: a page of the low 512 KB leaves every byte the core would fetch for it
  unchanged.
\<close>

theorem low_page_not_aliased:
  assumes "load_page rawp (va, bs) m = Inr m'" and "unat va + 4096 \<le> 0x80000" and "length bs = 4096" and "i < 4096"
  shows "dram m' (unat (fst (fpga_map (sysmem_alias va))) + i) = dram m (unat (fst (fpga_map (sysmem_alias va))) + i)"
proof -
  have "unat (drop_bit 19 va) = 0" using assms(2) by (simp add: unat_drop_bit_div)
  then have z: "drop_bit 19 va = 0" by (simp add: word_unat_eq_iff)
  have b: "\<not> bit va 27" using arg_cong [OF z, of "\<lambda>w. bit w 8"] by (simp add: bit_drop_bit_eq)
  have "\<not> bit va n \<or> \<not> bit (push_bit 27 1 :: u32) n" for n
    using b by (cases "n = 27"; simp only: bit_push_bit_iff bit_1_iff) auto
  then have "va + push_bit 27 1 = va OR push_bit 27 1" by (rule disjunctive_add)
  then have "va OR 0x08000000 = va + 0x08000000" by simp
  then have u: "unat (sysmem_alias va) = unat va + 0x08000000"
    using z assms(2) by (simp add: sysmem_alias_def unat_word_ariths)
  have off: "unat (fst (fpga_map (sysmem_alias va))) = unat va + 0x08000000"
    using assms(2) by (simp add: unat_fpga_map u)
  have low: "unat (fst (fpga_map va)) = unat va" using assms(2) by (simp add: unat_fpga_map)
  show ?thesis
    unfolding load_page_dram [OF assms(1)] off using assms(2-4) low
    by (auto simp: put_page_def page_off_def intro!: mem_copy_other)
qed

theorem low_page_not_aliased_witness:
  "\<exists>m'. load_page unat (0x1000, replicate 4096 7) blank = Inr m' \<and> dram m' 0x08001000 = 0 \<and> dram m' 0x1000 = 7"
proof -
  have f: "fpga_map 0x1000 = (0x1000, False)" by (simp add: fpga_map_def FPGA_ADDRMASK_def)
  obtain m' where l: "load_page unat (0x1000, replicate 4096 7) blank = Inr m'"
    by (simp add: load_page_def bind_sum_def copy_dram_def f MEM_SIZE_def)
  have a: "unat (fst (fpga_map (sysmem_alias 0x1000))) = 0x08001000"
    by (simp add: sysmem_alias_def unat_fpga_map)
  have "dram m' (0x08001000 + 0) = dram blank (0x08001000 + 0)"
    using low_page_not_aliased [OF l, of 0] by (simp add: a)
  moreover have "dram m' 0x1000 = 7"
    using load_page_dram [OF l] mem_copy_same [of 0 "replicate 4096 7"] by (simp add: put_page_def page_off_def f)
  ultimately show ?thesis using l by (simp add: blank_def)
qed

end
