(* ===== verification/Device_Service.thy ===== *)
theory Device_Service
  imports Address_Map
begin

text \<open>
  The host side of the SoC's devices as \<^verbatim>\<open>sim/henry_tb.cpp\<close> plays it every cycle: the SCSI
  disk service (a command doorbell, chunked transfers through the staging rings, the running
  hash of a write, the post-DMA check of a read against the bytes staged), the ethernet
  staging rings, the GIO window with the Newport and keyboard glue, and the doorbell
  registers.  The disk, the staging rings, the command decoder and the device models come
  from sources outside this repository: they are the fields of \<open>scsi_ext\<close>, \<open>enet_ext\<close> and
  \<open>gio_ext\<close>, and their state is left abstract.
\<close>

section \<open>Check of a SCSI read\<close>

record desc =
  d_bp :: u32
  d_bc :: u32
  d_dp :: u32

definition rd_desc :: "mem \<Rightarrow> nat \<Rightarrow> desc" where
  "rd_desc g_mem d = \<lparr>d_bp = be32 g_mem d, d_bc = be32 g_mem (d + 4), d_dp = be32 g_mem (d + 8)\<rparr>"

text \<open>The walk: bytes compared, bytes bad, and where the first bad one was (address, stream offset).\<close>

record walk =
  w_off :: nat
  w_bad :: nat
  w_first :: "u32 \<times> nat"

definition compare_byte :: "mem \<Rightarrow> bytes \<Rightarrow> nat \<Rightarrow> u32 \<Rightarrow> walk \<Rightarrow> walk" where
  "compare_byte g_mem buf pos pa w =
     (if g_mem (unat (fst (fpga_map pa))) \<noteq> buf ! (pos + w_off w)
      then w\<lparr>w_first := (if w_bad w = 0 then (pa, w_off w) else w_first w), w_bad := w_bad w + 1, w_off := w_off w + 1\<rparr>
      else w\<lparr>w_off := w_off w + 1\<rparr>)"

text \<open>One descriptor: \<open>i\<close> bytes done, \<open>k\<close> to go; the flag is \<^verbatim>\<open>b2\<close>, a byte the map faults.\<close>

fun rdchk_desc :: "mem \<Rightarrow> bytes \<Rightarrow> nat \<Rightarrow> nat \<Rightarrow> u32 \<Rightarrow> nat \<Rightarrow> nat \<Rightarrow> walk \<Rightarrow> bool \<times> walk" where
  "rdchk_desc g_mem buf pos len bp i 0 w = (False, w)"
| "rdchk_desc g_mem buf pos len bp i (Suc k) w =
     (if w_off w < len then
        (if snd (fpga_map (bp + of_nat i)) then (True, w)
         else rdchk_desc g_mem buf pos len bp (Suc i) k (compare_byte g_mem buf pos (bp + of_nat i) w))
      else (False, w))"

fun rdchk_walk :: "nat \<Rightarrow> mem \<Rightarrow> bytes \<Rightarrow> nat \<Rightarrow> nat \<Rightarrow> u32 \<Rightarrow> walk \<Rightarrow> walk" where
  "rdchk_walk 0 g_mem buf pos len nbdp w = w"
| "rdchk_walk (Suc guard) g_mem buf pos len nbdp w =
     (if w_off w < len \<and> \<not> snd (fpga_map nbdp) then
        (let d = rd_desc g_mem (unat (fst (fpga_map nbdp)));
             (b2, w) = rdchk_desc g_mem buf pos len (d_bp d) 0 (unat (d_bc d AND 0x3fff)) w
         in if b2 \<or> d_bc d AND 0x80000000 \<noteq> 0 \<or> d_dp d = 0 then w
            else rdchk_walk guard g_mem buf pos len (d_dp d) w)
      else w)"

text \<open>The totals; \<open>rdchk_log\<close> are the printed mismatches (bad, compared, address, offset, chain), 20 at most.\<close>

record rdchk =
  g_rdchk_reads :: nat
  g_rdchk_bytes :: nat
  g_rdchk_bad_reads :: nat
  g_rdchk_bad_bytes :: nat
  rdchk_log :: "(nat \<times> nat \<times> u32 \<times> nat \<times> u32) list"

definition scsi_read_check :: "mem \<Rightarrow> bytes \<Rightarrow> nat \<Rightarrow> nat \<Rightarrow> u32 \<Rightarrow> rdchk \<Rightarrow> rdchk" where
  "scsi_read_check g_mem buf pos len nbdp c =
     (let w = rdchk_walk 256 g_mem buf pos len nbdp \<lparr>w_off = 0, w_bad = 0, w_first = (0, 0)\<rparr>;
          c = c\<lparr>g_rdchk_reads := g_rdchk_reads c + 1, g_rdchk_bytes := g_rdchk_bytes c + w_off w\<rparr>
      in if w_bad w \<noteq> 0 then
           c\<lparr>g_rdchk_bad_reads := g_rdchk_bad_reads c + 1, g_rdchk_bad_bytes := g_rdchk_bad_bytes c + w_bad w,
             rdchk_log := (if g_rdchk_bad_reads c + 1 \<le> 20
                           then rdchk_log c @ [(w_bad w, w_off w, fst (w_first w), snd (w_first w), nbdp)]
                           else rdchk_log c)\<rparr>
         else c)"

section \<open>The disk service\<close>

definition FNV_OFFSET :: u64 where
  "FNV_OFFSET = 1469598103934665603"

definition FNV_PRIME :: u64 where
  "FNV_PRIME = 1099511628211"

definition fnv :: "u64 \<Rightarrow> u64 \<Rightarrow> u64" where
  "fnv x h = (h XOR x) * FNV_PRIME"

definition fnv_bytes :: "bytes \<Rightarrow> u64 \<Rightarrow> u64" where
  "fnv_bytes bs h = fold (\<lambda>b. fnv (ucast b)) bs h"

record scsi_req =
  rq_seq :: u32
  rq_nbdp :: u32
  rq_xfer_len :: u32
  rq_cdb :: bytes
  rq_dest :: u8
  rq_lun :: u8
  rq_to_device :: u8

record scsi_rsp =
  rs_completion :: u8
  rs_residual :: u32
  rs_scsi_status :: u8
  rs_tgt_status :: u8
  rs_seq :: u32

record scsi_cqe =
  cqe_seq :: u32
  cqe_bytes :: u32
  cqe_flags :: u32
  cqe_nbdp :: u32

text \<open>
  The code outside the repository (\<^verbatim>\<open>scsi_service.h\<close>, \<^verbatim>\<open>ring_service.h\<close>): the disk \<open>'d\<close>, the
  staging ring \<open>'r\<close>, and the status codes of the shared header.  \<open>service_run\<close> updates the
  response, the disk, the buffer, the direction and the LBA it is given by reference.
\<close>

record ('d, 'r) scsi_ext =
  disk_ok :: "'d \<Rightarrow> bool"
  block_write :: "u64 \<Rightarrow> bytes \<Rightarrow> 'd \<Rightarrow> 'd"
  service_run :: "scsi_req \<Rightarrow> scsi_rsp \<times> 'd \<times> bytes \<times> bool \<times> u64 \<Rightarrow> scsi_rsp \<times> 'd \<times> bytes \<times> bool \<times> u64"
  stage_read :: "bytes \<Rightarrow> u32 \<Rightarrow> 'r \<Rightarrow> 'r"
  ring_poll :: "u32 \<Rightarrow> 'r \<Rightarrow> scsi_cqe option \<times> 'r"
  ring_read_wr :: "nat \<Rightarrow> 'r \<Rightarrow> (nat \<Rightarrow> u8) \<times> 'r"
  ST_SELECT_TRANSFER_SUCCESS :: u8
  TGT_GOOD :: u8
  SCSI_DONE_PAUSE :: u8
  SCSI_DONE_COMPLETE :: u8

text \<open>The ports the shim drives, and the environment switches.\<close>

record scsi_ports =
  p_req_seq :: u32
  p_nbdp :: u32
  p_xfer_len :: u32
  p_cdb :: "u32 list"
  p_dest :: u32
  p_lun :: u32
  p_to_device :: u32

record scsi_cfg =
  g_scsihash :: bool
  g_scsidump :: bool

record ('d, 'r) scsi_svc =
  g_scsi_disk :: 'd
  g_sring :: 'r
  g_last_scsi_req_seq :: u32
  g_cmd_lba :: u32
  g_cmd_op :: u8
  g_buf :: bytes
  g_to_dev :: bool
  g_wr_lba :: u64
  g_pending_rsp :: scsi_rsp
  g_pos :: nat
  g_total :: nat
  g_active :: bool
  g_sring_wait :: bool
  g_sring_seq :: u32
  g_rdchk :: rdchk
  g_wh :: u64
  g_wh_bytes :: nat
  g_wdump :: bytes
  whash_log :: "(u64 \<times> nat \<times> nat \<times> u64) list"
  wdump_files :: "bytes list"
  tb_rsp :: "u32 \<times> u8 \<times> u8 \<times> u32"

definition post_rsp :: "('d, 'r) scsi_svc \<Rightarrow> ('d, 'r) scsi_svc" where
  "post_rsp s = s\<lparr>tb_rsp := (rs_residual (g_pending_rsp s), rs_scsi_status (g_pending_rsp s),
                            rs_tgt_status (g_pending_rsp s), rs_seq (g_pending_rsp s))\<rparr>"

definition read_req :: "scsi_ports \<Rightarrow> scsi_req" where
  "read_req p = \<lparr>rq_seq = p_req_seq p, rq_nbdp = p_nbdp p, rq_xfer_len = p_xfer_len p,
     rq_cdb = concat (map (le_bytes 4) (take 4 (p_cdb p))),
     rq_dest = ucast (p_dest p), rq_lun = ucast (p_lun p), rq_to_device = ucast (p_to_device p)\<rparr>"

definition cdb_lba :: "bytes \<Rightarrow> u32" where
  "cdb_lba cdb = push_bit 24 (ucast (cdb ! 2)) OR push_bit 16 (ucast (cdb ! 3))
     OR push_bit 8 (ucast (cdb ! 4)) OR ucast (cdb ! 5)"

text \<open>A doorbell: decode a new command, or resume the transfer in progress with a new chain.\<close>

definition scsi_new_command :: "('d, 'r) scsi_ext \<Rightarrow> scsi_req \<Rightarrow> ('d, 'r) scsi_svc \<Rightarrow> ('d, 'r) scsi_svc" where
  "scsi_new_command X req s =
     (let (rsp, disk, buf, to_dev, lba) =
            service_run X req (g_pending_rsp s, g_scsi_disk s, g_buf s, g_to_dev s, g_wr_lba s)
      in s\<lparr>g_pending_rsp := rsp, g_scsi_disk := disk, g_buf := buf, g_to_dev := to_dev, g_wr_lba := lba,
           g_total := length buf, g_pos := 0,
           g_active := rs_scsi_status rsp = ST_SELECT_TRANSFER_SUCCESS X \<and> buf \<noteq> []\<rparr>)"

definition scsi_resume :: "('d, 'r) scsi_ext \<Rightarrow> ('d, 'r) scsi_svc \<Rightarrow> ('d, 'r) scsi_svc" where
  "scsi_resume X s = s\<lparr>g_pending_rsp := (g_pending_rsp s)\<lparr>rs_scsi_status := ST_SELECT_TRANSFER_SUCCESS X,
                                                           rs_tgt_status := TGT_GOOD X\<rparr>\<rparr>"

definition scsi_doorbell :: "('d, 'r) scsi_ext \<Rightarrow> scsi_ports \<Rightarrow> ('d, 'r) scsi_svc \<Rightarrow> ('d, 'r) scsi_svc" where
  "scsi_doorbell X p s =
     (if disk_ok X (g_scsi_disk s) \<and> p_req_seq p \<noteq> g_last_scsi_req_seq s then
        (let req = read_req p;
             s = s\<lparr>g_last_scsi_req_seq := p_req_seq p, g_cmd_lba := cdb_lba (rq_cdb req), g_cmd_op := rq_cdb req ! 0\<rparr>;
             s = (if g_active s \<and> g_pos s < g_total s then scsi_resume X s else scsi_new_command X req s);
             s = s\<lparr>g_pending_rsp := (g_pending_rsp s)\<lparr>rs_seq := p_req_seq p\<rparr>\<rparr>
         in if g_active s then
              s\<lparr>g_sring := (if g_to_dev s then g_sring s else stage_read X (drop (g_pos s) (g_buf s)) (rq_seq req) (g_sring s)),
                g_sring_wait := True, g_sring_seq := rq_seq req\<rparr>
            else post_rsp s)
      else s)"

text \<open>A chain's completion.  First the data of a write: gathered into the buffer, written by blocks, hashed.\<close>

definition write_blocks :: "('d, 'r) scsi_ext \<Rightarrow> u64 \<Rightarrow> bytes \<Rightarrow> nat \<Rightarrow> nat \<Rightarrow> 'd \<Rightarrow> 'd" where
  "write_blocks X lba buf pos moved d =
     fold (\<lambda>b. block_write X (lba + of_nat (pos div 512) + of_nat b) (take 512 (drop (pos + b * 512) buf)))
       [0..<moved div 512] d"

definition whash_key :: "u64 \<Rightarrow> nat \<Rightarrow> bytes" where
  "whash_key lba ntotal = le_bytes 8 (push_bit 16 lba XOR of_nat (ntotal div 512))"

definition gather_write :: "('d, 'r) scsi_ext \<Rightarrow> scsi_cfg \<Rightarrow> nat \<Rightarrow> ('d, 'r) scsi_svc \<Rightarrow> ('d, 'r) scsi_svc" where
  "gather_write X cfg moved s =
     (let (data, ring) = ring_read_wr X moved (g_sring s);
          buf = take (g_pos s) (g_buf s) @ map data [0..<moved] @ drop (g_pos s + moved) (g_buf s);
          s = s\<lparr>g_sring := ring, g_buf := buf,
                g_scsi_disk := write_blocks X (g_wr_lba s) buf (g_pos s) moved (g_scsi_disk s)\<rparr>
      in if g_scsihash cfg then
           (let s = (if g_pos s = 0
                     then s\<lparr>g_wh := fnv_bytes (whash_key (g_wr_lba s) (g_total s)) FNV_OFFSET, g_wh_bytes := 0\<rparr>
                     else s);
                chunk = take moved (drop (g_pos s) buf)
            in s\<lparr>g_wh := fnv_bytes chunk (g_wh s), g_wh_bytes := g_wh_bytes s + moved,
                 g_wdump := (if g_scsidump cfg then g_wdump s @ chunk else g_wdump s)\<rparr>)
         else s)"

text \<open>The whole command is delivered: one hash record, and the dump of the first four payloads.\<close>

definition whash_report :: "scsi_cfg \<Rightarrow> ('d, 'r) scsi_svc \<Rightarrow> ('d, 'r) scsi_svc" where
  "whash_report cfg s =
     (if g_to_dev s \<and> g_scsihash cfg then
        (let s = s\<lparr>whash_log := whash_log s @ [(g_wr_lba s, g_wh_bytes s div 512, g_wh_bytes s, g_wh s)]\<rparr>
         in if g_scsidump cfg then
              s\<lparr>wdump_files := (if length (wdump_files s) < 4 then wdump_files s @ [g_wdump s] else wdump_files s),
                g_wdump := []\<rparr>
            else s)
      else s)"

definition scsi_completion :: "('d, 'r) scsi_ext \<Rightarrow> scsi_cfg \<Rightarrow> mem \<Rightarrow> scsi_cqe \<Rightarrow> ('d, 'r) scsi_svc \<Rightarrow> ('d, 'r) scsi_svc" where
  "scsi_completion X cfg g_mem e s =
     (let s = s\<lparr>g_sring_wait := False\<rparr>;
          moved = min (unat (cqe_bytes e)) (g_total s - g_pos s);
          s = (if g_to_dev s then gather_write X cfg moved s
               else s\<lparr>g_rdchk := scsi_read_check g_mem (g_buf s) (g_pos s) moved (cqe_nbdp e) (g_rdchk s)\<rparr>);
          s = s\<lparr>g_pos := g_pos s + moved\<rparr>;
          s = (if g_pos s < g_total s
               then s\<lparr>g_pending_rsp := (g_pending_rsp s)\<lparr>rs_completion := SCSI_DONE_PAUSE X,
                                                         rs_scsi_status := (if g_to_dev s then 0x48 else 0x49)\<rparr>\<rparr>
               else whash_report cfg (s\<lparr>g_pending_rsp := (g_pending_rsp s)\<lparr>rs_completion := SCSI_DONE_COMPLETE X,
                                          rs_scsi_status := ST_SELECT_TRANSFER_SUCCESS X\<rparr>, g_active := False\<rparr>))
      in post_rsp (s\<lparr>g_pending_rsp := (g_pending_rsp s)\<lparr>rs_residual := 0\<rparr>\<rparr>))"

definition scsi_cycle :: "('d, 'r) scsi_ext \<Rightarrow> scsi_cfg \<Rightarrow> nat \<Rightarrow> mem \<Rightarrow> scsi_ports \<Rightarrow> ('d, 'r) scsi_svc \<Rightarrow> ('d, 'r) scsi_svc" where
  "scsi_cycle X cfg cyc g_mem p s =
     (let s = scsi_doorbell X p s
      in if g_sring_wait s \<and> cyc mod 16 = 0 then
           (case ring_poll X (g_sring_seq s) (g_sring s) of
              (None, ring) \<Rightarrow> s\<lparr>g_sring := ring\<rparr>
            | (Some e, ring) \<Rightarrow> scsi_completion X cfg g_mem e (s\<lparr>g_sring := ring\<rparr>))
         else s)"

definition g_scsi_quiescent :: "('d, 'r) scsi_svc \<Rightarrow> bool" where
  "g_scsi_quiescent s \<longleftrightarrow> \<not> g_active s \<and> \<not> g_sring_wait s"


section \<open>Doorbells, ethernet rings and the GIO window\<close>

datatype ring_db = RING_DB_TX_CONS | RING_DB_RX_PROD | RING_DB_SCSI_CQ_CONS | RING_DB_SCSI_RD_BEATS
  | RING_DB_SCSI_RD_SEQ | RING_DB_OTHER

record ring_ports =
  ring_tx_cons :: u32
  ring_rx_prod :: u32
  ring_scsi_cq_cons :: u32
  ring_scsi_rd_beats :: u32
  ring_scsi_rd_seq :: u32

definition tb_ring_doorbell :: "ring_db \<Rightarrow> u32 \<Rightarrow> ring_ports \<Rightarrow> ring_ports" where
  "tb_ring_doorbell reg v t = (case reg of
     RING_DB_TX_CONS \<Rightarrow> t\<lparr>ring_tx_cons := v\<rparr>
   | RING_DB_RX_PROD \<Rightarrow> t\<lparr>ring_rx_prod := v\<rparr>
   | RING_DB_SCSI_CQ_CONS \<Rightarrow> t\<lparr>ring_scsi_cq_cons := v\<rparr>
   | RING_DB_SCSI_RD_BEATS \<Rightarrow> t\<lparr>ring_scsi_rd_beats := v\<rparr>
   | RING_DB_SCSI_RD_SEQ \<Rightarrow> t\<lparr>ring_scsi_rd_seq := v\<rparr>
   | RING_DB_OTHER \<Rightarrow> t)"

datatype gio_db = GIO_DB_ANS_LO | GIO_DB_ANS_HI | GIO_DB_ANS_SEQ | GIO_DB_CONS | GIO_DB_IRQ | GIO_DB_OTHER

record gio_ports =
  gio_ans_lo :: u32
  gio_ans_hi :: u32
  gio_ans_seq :: u32
  gio_cons :: u32
  gio_irq :: u16

definition tb_gio_doorbell :: "gio_db \<Rightarrow> u32 \<Rightarrow> gio_ports \<Rightarrow> gio_ports" where
  "tb_gio_doorbell reg v t = (case reg of
     GIO_DB_ANS_LO \<Rightarrow> t\<lparr>gio_ans_lo := v\<rparr>
   | GIO_DB_ANS_HI \<Rightarrow> t\<lparr>gio_ans_hi := v\<rparr>
   | GIO_DB_ANS_SEQ \<Rightarrow> t\<lparr>gio_ans_seq := v\<rparr>
   | GIO_DB_CONS \<Rightarrow> t\<lparr>gio_cons := v\<rparr>
   | GIO_DB_IRQ \<Rightarrow> t\<lparr>gio_irq := ucast v\<rparr>
   | GIO_DB_OTHER \<Rightarrow> t)"

text \<open>The 8042 has its data register at byte 3 and its command register at byte 7.\<close>

definition ps2_is_command :: "u32 \<Rightarrow> bool" where
  "ps2_is_command off \<longleftrightarrow> drop_bit 2 off AND 1 \<noteq> 0"

text \<open>
  The board models behind the window (\<^verbatim>\<open>sgi_newport.hh\<close>, \<^verbatim>\<open>sgi_ps2.hh\<close>, \<^verbatim>\<open>gio_service.h\<close>),
  outside the repository: state \<open>'n\<close>, \<open>'k\<close> and \<open>'g\<close>.
\<close>

record ('n, 'k, 'g) gio_ext =
  np_write :: "u32 \<Rightarrow> u64 \<Rightarrow> u32 \<Rightarrow> 'n \<Rightarrow> 'n"
  np_read :: "u32 \<Rightarrow> u32 \<Rightarrow> 'n \<Rightarrow> u64 \<times> 'n"
  np_next_vblank_at :: "'n \<Rightarrow> nat"
  np_vblank :: "nat \<Rightarrow> 'n \<Rightarrow> 'n"
  ps2_write :: "bool \<Rightarrow> u8 \<Rightarrow> 'k \<Rightarrow> 'k"
  ps2_read :: "bool \<Rightarrow> 'k \<Rightarrow> u64 \<times> 'k"
  ps2_service :: "nat \<Rightarrow> 'k \<Rightarrow> 'k"
  gio_poll :: "'g \<times> 'n \<times> 'k \<Rightarrow> 'g \<times> 'n \<times> 'k"

definition tb_np_write :: "('n, 'k, 'g) gio_ext \<Rightarrow> bool \<Rightarrow> u32 \<Rightarrow> u64 \<Rightarrow> u32 \<Rightarrow> 'n \<times> (u32 \<times> u64 \<times> u32) list
    \<Rightarrow> 'n \<times> (u32 \<times> u64 \<times> u32) list" where
  "tb_np_write X g_giolog off v sz x = (case x of (n, log) \<Rightarrow>
     (np_write X off v sz n, if g_giolog then log @ [(off, v, sz)] else log))"

definition tb_np_read :: "('n, 'k, 'g) gio_ext \<Rightarrow> u32 \<Rightarrow> u32 \<Rightarrow> 'n \<Rightarrow> u64 \<times> 'n" where
  "tb_np_read X off sz n = np_read X off sz n"

definition tb_ps2_write :: "('n, 'k, 'g) gio_ext \<Rightarrow> u32 \<Rightarrow> u64 \<Rightarrow> 'k \<Rightarrow> 'k" where
  "tb_ps2_write X off v k = ps2_write X (ps2_is_command off) (ucast v) k"

definition tb_ps2_read :: "('n, 'k, 'g) gio_ext \<Rightarrow> u32 \<Rightarrow> 'k \<Rightarrow> u64 \<times> 'k" where
  "tb_ps2_read X off k = ps2_read X (ps2_is_command off) k"

definition gio_cycle :: "('n, 'k, 'g) gio_ext \<Rightarrow> nat \<Rightarrow> 'g \<times> 'n \<times> 'k \<Rightarrow> 'g \<times> 'n \<times> 'k" where
  "gio_cycle X cyc x = (case x of (g, n, k) \<Rightarrow>
     gio_poll X (if cyc \<ge> np_next_vblank_at X n then (g, np_vblank X cyc n, ps2_service X cyc k) else (g, n, k)))"

text \<open>
  The ethernet service: the transmit ring is polled every 64 cycles, a received frame of at
  least a header is filtered against the station address and pushed every 1024.  \<open>'e\<close> is
  the ring servicer's state, the file descriptors are those of the tap or of the loopback.
\<close>

record 'e enet_ext =
  enet_ring_tx_poll :: "int \<Rightarrow> 'e \<Rightarrow> 'e"
  enet_ring_rx_push :: "bytes \<Rightarrow> 'e \<Rightarrow> 'e"
  enet_addr_filter :: "u8 \<Rightarrow> bytes \<Rightarrow> bytes \<Rightarrow> bool"

definition enet_station_bytes :: "u64 \<Rightarrow> bytes" where
  "enet_station_bytes station = map (\<lambda>j. ucast (drop_bit (8 * (5 - j)) station)) [0..<6]"

definition enet_fd :: "bool \<Rightarrow> int \<Rightarrow> int option \<Rightarrow> int" where
  "enet_fd g_enet_lb lb tap = (if g_enet_lb then lb else case tap of Some fd \<Rightarrow> fd | None \<Rightarrow> - 1)"

definition enet_cycle :: "'e enet_ext \<Rightarrow> bool \<Rightarrow> int \<Rightarrow> int \<Rightarrow> nat \<Rightarrow> bytes option \<Rightarrow> u64 \<Rightarrow> u8 \<Rightarrow> 'e \<Rightarrow> 'e" where
  "enet_cycle X g_enet_lb tx_fd rx_fd cyc frame station rx_cmd e =
     (let e = (if cyc mod 64 = 0 then enet_ring_tx_poll X tx_fd e else e)
      in if rx_fd \<ge> 0 \<and> cyc mod 1024 = 0 then
           (case frame of
              Some fr \<Rightarrow> if length fr \<ge> 14 \<and> (g_enet_lb \<or> enet_addr_filter X rx_cmd (enet_station_bytes station) fr)
                         then enet_ring_rx_push X fr e else e
            | None \<Rightarrow> e)
         else e)"

section \<open>The read check is exact\<close>

text \<open>The reference: the guest addresses the chain sends the stream to, in stream order.\<close>

fun chain_dests :: "nat \<Rightarrow> mem \<Rightarrow> u32 \<Rightarrow> u32 list" where
  "chain_dests 0 g_mem nbdp = []"
| "chain_dests (Suc guard) g_mem nbdp =
     (if snd (fpga_map nbdp) then []
      else let d = rd_desc g_mem (unat (fst (fpga_map nbdp)));
               xs = map (\<lambda>i. d_bp d + of_nat i) [0..<unat (d_bc d AND 0x3fff)];
               ys = takeWhile (\<lambda>a. \<not> snd (fpga_map a)) xs
           in if length ys < length xs \<or> d_bc d AND 0x80000000 \<noteq> 0 \<or> d_dp d = 0 then ys
              else ys @ chain_dests guard g_mem (d_dp d))"

lemma fold_compare_off [simp]: "w_off (fold (compare_byte m buf pos) xs w) = w_off w + length xs"
  by (induction xs arbitrary: w) (auto simp: compare_byte_def)

text \<open>One descriptor compares its unfaulted destinations, as far as the stream goes.\<close>

lemma rdchk_desc_fold:
  defines "xs \<equiv> \<lambda>bp i k. map (\<lambda>j. bp + of_nat j) [i..<i + k]"
  assumes "w_off w \<le> len"
  shows "rdchk_desc m buf pos len bp i k w =
    (let ys = takeWhile (\<lambda>a. \<not> snd (fpga_map a)) (xs bp i k)
     in (length ys < k \<and> w_off w + length ys < len, fold (compare_byte m buf pos) (take (len - w_off w) ys) w))"
  using assms(2)
proof (induction k arbitrary: i w)
  case (Suc k)
  have xs: "xs bp i (Suc k) = (bp + of_nat i) # xs bp (Suc i) k"
    by (simp add: xs_def upt_rec [of i] del: upt_Suc)
  show ?case
  proof (cases "w_off w < len \<and> \<not> snd (fpga_map (bp + of_nat i))")
    case True
    let ?w = "compare_byte m buf pos (bp + of_nat i) w"
    have off: "w_off ?w = Suc (w_off w)" by (simp add: compare_byte_def)
    have "len - w_off w = Suc (len - w_off ?w)" using True unfolding off by arith
    then show ?thesis using True Suc.IH [of ?w "Suc i"] off by (simp add: xs Let_def)
  next
    case False
    then show ?thesis using Suc.prems by (auto simp: xs Let_def)
  qed
qed (simp add: xs_def)

lemma rdchk_walk_fold:
  "w_off w \<le> len \<Longrightarrow> rdchk_walk g m buf pos len nbdp w =
     fold (compare_byte m buf pos) (take (len - w_off w) (chain_dests g m nbdp)) w"
proof (induction g arbitrary: nbdp w)
  case (Suc g)
  show ?case
  proof (cases "w_off w < len \<and> \<not> snd (fpga_map nbdp)")
    case True
    define d where "d = rd_desc m (unat (fst (fpga_map nbdp)))"
    define n where "n = unat (d_bc d AND 0x3fff)"
    define ys where "ys = takeWhile (\<lambda>a. \<not> snd (fpga_map a)) (map (\<lambda>i. d_bp d + of_nat i) [0..<n])"
    define stop where "stop \<longleftrightarrow> d_bc d AND 0x80000000 \<noteq> 0 \<or> d_dp d = 0"
    define w' where "w' = fold (compare_byte m buf pos) (take (len - w_off w) ys) w"
    have off: "w_off w' = w_off w + min (len - w_off w) (length ys)" "w_off w' \<le> len"
      using True by (auto simp: w'_def)
    have ys: "length ys \<le> n" unfolding ys_def by (metis length_map length_takeWhile_le length_upt minus_nat.diff_0)
    have step: "rdchk_walk (Suc g) m buf pos len nbdp w =
        (if (length ys < n \<and> w_off w + length ys < len) \<or> stop then w' else rdchk_walk g m buf pos len (d_dp d) w')"
      using True rdchk_desc_fold [of w len m buf pos "d_bp d" 0 n]
      by (simp add: Let_def d_def [symmetric] n_def [symmetric] ys_def [symmetric] w'_def [symmetric] stop_def)
    have dests: "chain_dests (Suc g) m nbdp = (if length ys < n \<or> stop then ys else ys @ chain_dests g m (d_dp d))"
      using True by (simp add: Let_def d_def [symmetric] n_def [symmetric] ys_def [symmetric] stop_def)
    have IH: "rdchk_walk g m buf pos len (d_dp d) w' =
        fold (compare_byte m buf pos) (take (len - w_off w') (chain_dests g m (d_dp d))) w'"
      by (rule Suc.IH [OF off(2)])
    have rest: "len - w_off w' = len - w_off w - length ys" using off(1) by auto
    show ?thesis
      unfolding step dests using IH rest off(1) ys by (auto simp: w'_def)
  qed auto
qed simp

lemma fold_compare_bad:
  "w_bad (fold (compare_byte m buf pos) xs w) = w_bad w +
     length (filter (\<lambda>k. m (unat (fst (fpga_map (xs ! k)))) \<noteq> buf ! (pos + w_off w + k)) [0..<length xs])"
proof (induction xs arbitrary: w)
  case (Cons x xs)
  have upt: "[0..<length (x # xs)] = 0 # map Suc [0..<length xs]"
    by (metis length_Cons map_Suc_upt upt_conv_Cons zero_less_Suc)
  show ?case
    unfolding upt fold_Cons o_apply Cons.IH
    by (simp add: filter_map o_def) (auto simp: compare_byte_def add_ac)
qed simp

text \<open>
  C20.  The read check compares exactly the bytes the descriptor chain sends to memory: the
  byte total grows by the number of destinations reached (the transfer's length at most), and
  the check stays silent exactly when memory at those destinations holds the staged bytes.
\<close>

theorem scsi_read_check_exact:
  fixes c :: rdchk and m :: mem and nbdp :: u32 and buf :: bytes
  assumes "pos + len \<le> length buf"
  defines "dests \<equiv> take len (chain_dests 256 m nbdp)"
  shows "g_rdchk_bytes (scsi_read_check m buf pos len nbdp c) = g_rdchk_bytes c + length dests \<and>
    (g_rdchk_bad_reads (scsi_read_check m buf pos len nbdp c) = g_rdchk_bad_reads c \<longleftrightarrow>
       map (\<lambda>a. m (unat (fst (fpga_map a)))) dests = take (length dests) (drop pos buf))"
proof -
  define w0 where "w0 = \<lparr>w_off = 0, w_bad = 0, w_first = (0 :: u32, 0 :: nat)\<rparr>"
  define w where "w = rdchk_walk 256 m buf pos len nbdp w0"
  have "w = fold (compare_byte m buf pos) dests w0"
    unfolding w_def dests_def by (subst rdchk_walk_fold) (simp_all add: w0_def)
  then have off: "w_off w = length dests" and bad: "w_bad w = length (filter
      (\<lambda>k. m (unat (fst (fpga_map (dests ! k)))) \<noteq> buf ! (pos + k)) [0..<length dests])"
    by (simp_all add: fold_compare_bad, simp_all add: w0_def)
  have len: "length dests \<le> len" by (simp add: dests_def)
  have "w_bad w = 0 \<longleftrightarrow> (\<forall>k < length dests. m (unat (fst (fpga_map (dests ! k)))) = buf ! (pos + k))"
    by (auto simp: bad filter_empty_conv)
  also have "\<dots> \<longleftrightarrow> map (\<lambda>a. m (unat (fst (fpga_map a)))) dests = take (length dests) (drop pos buf)"
    using len assms(1) by (auto simp: list_eq_iff_nth_eq)
  finally have eq: "w_bad w = 0 \<longleftrightarrow> map (\<lambda>a. m (unat (fst (fpga_map a)))) dests = take (length dests) (drop pos buf)" .
  have "scsi_read_check m buf pos len nbdp c = (let c = c\<lparr>g_rdchk_reads := g_rdchk_reads c + 1,
      g_rdchk_bytes := g_rdchk_bytes c + w_off w\<rparr> in if w_bad w \<noteq> 0 then
        c\<lparr>g_rdchk_bad_reads := g_rdchk_bad_reads c + 1, g_rdchk_bad_bytes := g_rdchk_bad_bytes c + w_bad w,
          rdchk_log := (if g_rdchk_bad_reads c + 1 \<le> 20
            then rdchk_log c @ [(w_bad w, w_off w, fst (w_first w), snd (w_first w), nbdp)] else rdchk_log c)\<rparr>
      else c)"
    by (simp only: scsi_read_check_def w_def w0_def Let_def)
  then show ?thesis unfolding off eq [symmetric] by (simp add: Let_def)
qed


text \<open>A chain of one descriptor at guest address 16, sending two bytes to address 64.\<close>

definition sample_chain :: mem where
  "sample_chain = (\<lambda>a. if a = 19 then 64 else if a = 20 then 0x80 else if a = 23 then 2
                       else if a = 64 then 7 else if a = 65 then 9 else 0)"

lemma sample_chain_dests: "chain_dests 256 sample_chain 16 = [64, 65]"
proof -
  have g: "(256 :: nat) = Suc 255" by simp
  have d: "rd_desc sample_chain 16 = \<lparr>d_bp = 64, d_bc = 0x80000002, d_dp = 0\<rparr>"
    by (simp add: rd_desc_def be32_def sample_chain_def)
  show ?thesis
    unfolding g chain_dests.simps by (simp add: fpga_map_def FPGA_ADDRMASK_def d Let_def upt_rec)
qed

lemma sample_chain_bytes:
  "sample_chain (unat (fst (fpga_map 64))) = 7" "sample_chain (unat (fst (fpga_map 65))) = 9"
  by (simp_all add: sample_chain_def fpga_map_def)

theorem scsi_read_check_exact_witness:
  "(0 :: nat) + 2 \<le> length [7 :: u8, 9] \<and>
   g_rdchk_bad_reads (scsi_read_check sample_chain [7, 9] 0 2 16 \<lparr>g_rdchk_reads = 0, g_rdchk_bytes = 0,
     g_rdchk_bad_reads = 0, g_rdchk_bad_bytes = 0, rdchk_log = []\<rparr>) = 0"
  using scsi_read_check_exact [of 0 2 "[7, 9]" sample_chain 16 "\<lparr>g_rdchk_reads = 0, g_rdchk_bytes = 0,
     g_rdchk_bad_reads = 0, g_rdchk_bad_bytes = 0, rdchk_log = []\<rparr>"]
  by (simp add: sample_chain_dests sample_chain_bytes)

section \<open>Transfers\<close>

text \<open>
  The service's invariant: the position stays inside the buffer, a transfer is active only
  while bytes remain, and a chain is awaited only while a transfer is active, with the
  sequence number of the last doorbell.
\<close>

definition svc_inv :: "('d, 'r) scsi_svc \<Rightarrow> bool" where
  "svc_inv s \<longleftrightarrow> g_total s = length (g_buf s) \<and> g_pos s \<le> g_total s \<and>
     (g_active s \<longrightarrow> g_pos s < g_total s) \<and> (g_sring_wait s \<longrightarrow> g_active s \<and> g_sring_seq s = g_last_scsi_req_seq s)"

lemma svc_inv_sring [simp]: "svc_inv (s\<lparr>g_sring := r\<rparr>) = svc_inv s"
  by (simp add: svc_inv_def)

lemma svc_inv_doorbell: "svc_inv s \<Longrightarrow> svc_inv (scsi_doorbell X p s)"
  by (auto simp: svc_inv_def scsi_doorbell_def scsi_resume_def scsi_new_command_def post_rsp_def read_req_def
      Let_def split: prod.splits)

lemma gather_write_frame:
  "g_pos s + n \<le> length (g_buf s) \<Longrightarrow> length (g_buf (gather_write X cfg n s)) = length (g_buf s)"
  "g_pos (gather_write X cfg n s) = g_pos s" "g_total (gather_write X cfg n s) = g_total s"
  "g_active (gather_write X cfg n s) = g_active s" "g_sring_wait (gather_write X cfg n s) = g_sring_wait s"
  "g_to_dev (gather_write X cfg n s) = g_to_dev s" "g_wr_lba (gather_write X cfg n s) = g_wr_lba s"
  "g_pending_rsp (gather_write X cfg n s) = g_pending_rsp s"
  "g_last_scsi_req_seq (gather_write X cfg n s) = g_last_scsi_req_seq s"
  by (simp_all add: gather_write_def Let_def split: prod.splits)

lemma whash_report_frame [simp]:
  "g_buf (whash_report cfg s) = g_buf s" "g_pos (whash_report cfg s) = g_pos s"
  "g_total (whash_report cfg s) = g_total s" "g_active (whash_report cfg s) = g_active s"
  "g_sring_wait (whash_report cfg s) = g_sring_wait s" "g_to_dev (whash_report cfg s) = g_to_dev s"
  "g_wr_lba (whash_report cfg s) = g_wr_lba s" "g_pending_rsp (whash_report cfg s) = g_pending_rsp s"
  "g_scsi_disk (whash_report cfg s) = g_scsi_disk s" "g_wh (whash_report cfg s) = g_wh s"
  "g_wh_bytes (whash_report cfg s) = g_wh_bytes s"
  by (simp_all add: whash_report_def Let_def)

definition chunk_moved :: "scsi_cqe \<Rightarrow> ('d, 'r) scsi_svc \<Rightarrow> nat" where
  "chunk_moved e s = min (unat (cqe_bytes e)) (g_total s - g_pos s)"

lemma chunk_moved_wait [simp]: "chunk_moved e (s\<lparr>g_sring_wait := b\<rparr>) = chunk_moved e s"
  by (simp add: chunk_moved_def)

text \<open>What a completion leaves, in terms of the data phase \<open>s1\<close> of the chunk.\<close>

lemma completion_frame:
  fixes X :: "('d, 'r) scsi_ext" and s :: "('d, 'r) scsi_svc" and e :: scsi_cqe and cfg :: scsi_cfg and m :: mem
  assumes "svc_inv s"
  defines "n \<equiv> chunk_moved e s"
  defines "s1 \<equiv> (if g_to_dev s then gather_write X cfg n (s\<lparr>g_sring_wait := False\<rparr>) else s)"
  defines "s' \<equiv> scsi_completion X cfg m e s"
  shows "g_buf s' = g_buf s1" "g_pos s' = g_pos s + n" "g_total s' = g_total s"
    "g_active s' \<longleftrightarrow> g_active s \<and> g_pos s + n < g_total s" "\<not> g_sring_wait s'" "g_to_dev s' = g_to_dev s"
    "g_wr_lba s' = g_wr_lba s" "g_scsi_disk s' = g_scsi_disk s1" "g_wh s' = g_wh s1" "g_wh_bytes s' = g_wh_bytes s1"
    "tb_rsp s' = (0, if g_pos s + n < g_total s then (if g_to_dev s then 0x48 else 0x49) else ST_SELECT_TRANSFER_SUCCESS X,
       rs_tgt_status (g_pending_rsp s), rs_seq (g_pending_rsp s))"
  by (simp_all add: s'_def s1_def n_def scsi_completion_def chunk_moved_def [symmetric] post_rsp_def
      gather_write_frame Let_def)

lemma chunk_fits: "svc_inv s \<Longrightarrow> g_pos s + chunk_moved e s \<le> g_total s"
  by (auto simp: svc_inv_def chunk_moved_def)

lemma svc_inv_completion:
  assumes "svc_inv s"
  shows "svc_inv (scsi_completion X cfg m e s)"
proof -
  have "length (g_buf (scsi_completion X cfg m e s)) = length (g_buf s)"
    using chunk_fits [OF assms, of e] assms
    by (simp add: completion_frame(1) [OF assms] gather_write_frame(1) svc_inv_def)
  then show ?thesis
    using chunk_fits [OF assms, of e] assms by (simp add: svc_inv_def completion_frame(2-5) [OF assms])
qed

text \<open>
  C12.  The disk service keeps its transfer state consistent, whatever the shim rings and the
  rings report: the position never passes the buffer's end, and when no transfer is active
  no chain is awaited, so quiescence, which gates the checkpoint, is just the absence of an
  active transfer.
\<close>

theorem scsi_cycle_invariant:
  assumes "svc_inv s"
  shows "svc_inv (scsi_cycle X cfg cyc m p s) \<and>
    (g_scsi_quiescent (scsi_cycle X cfg cyc m p s) \<longleftrightarrow> \<not> g_active (scsi_cycle X cfg cyc m p s))"
proof -
  have "svc_inv (scsi_cycle X cfg cyc m p s)"
    using svc_inv_doorbell [OF assms, of X p]
    by (auto simp: scsi_cycle_def Let_def intro!: svc_inv_completion split: prod.splits option.splits)
  then show ?thesis by (auto simp: g_scsi_quiescent_def svc_inv_def)
qed


section \<open>A write reaches the disk\<close>

text \<open>
  One chunk of a transfer: the doorbell that resumes it (or that has just started it), the
  staging ring as the engine left it, and the chain's completion entry.
\<close>

type_synonym 'r chunk = "scsi_ports \<times> 'r \<times> scsi_cqe"

definition chunk_step :: "('d, 'r) scsi_ext \<Rightarrow> scsi_cfg \<Rightarrow> mem \<Rightarrow> 'r chunk \<Rightarrow> ('d, 'r) scsi_svc \<Rightarrow> ('d, 'r) scsi_svc" where
  "chunk_step X cfg m ev s = (case ev of (p, r, e) \<Rightarrow> scsi_completion X cfg m e ((scsi_doorbell X p s)\<lparr>g_sring := r\<rparr>))"

fun run_chunks :: "('d, 'r) scsi_ext \<Rightarrow> scsi_cfg \<Rightarrow> mem \<Rightarrow> 'r chunk list \<Rightarrow> ('d, 'r) scsi_svc \<Rightarrow> ('d, 'r) scsi_svc" where
  "run_chunks X cfg m [] s = s"
| "run_chunks X cfg m (ev # evs) s = (if g_active s then run_chunks X cfg m evs (chunk_step X cfg m ev s) else s)"

definition chunk_bytes :: "'r chunk \<Rightarrow> nat" where
  "chunk_bytes ev = unat (cqe_bytes (snd (snd ev)))"

definition chunk_data :: "('d, 'r) scsi_ext \<Rightarrow> 'r chunk \<Rightarrow> bytes" where
  "chunk_data X ev = map (fst (ring_read_wr X (chunk_bytes ev) (fst (snd ev)))) [0..<chunk_bytes ev]"

lemma length_chunk_data [simp]: "length (chunk_data X ev) = chunk_bytes ev"
  by (simp add: chunk_data_def)

lemma write_blocks_cong:
  assumes "take (pos + n) buf = take (pos + n) buf'"
  shows "write_blocks X lba buf pos n d = write_blocks X lba buf' pos n d"
  unfolding write_blocks_def
proof (rule fold_cong)
  fix b assume "b \<in> set [0..<n div 512]"
  then have "pos + b * 512 + 512 \<le> pos + n" by auto
  then have "take 512 (drop (pos + b * 512) buf) = take 512 (drop (pos + b * 512) (take (pos + n) buf))" for buf :: bytes
    by (simp add: drop_take min_def)
  then show "block_write X (lba + of_nat (pos div 512) + of_nat b) (take 512 (drop (pos + b * 512) buf)) =
      block_write X (lba + of_nat (pos div 512) + of_nat b) (take 512 (drop (pos + b * 512) buf'))"
    using assms by metis
qed simp_all

lemma write_blocks_append:
  assumes "512 dvd p"
  shows "write_blocks X lba buf p n (write_blocks X lba buf 0 p d) = write_blocks X lba buf 0 (p + n) d"
proof -
  obtain k where p: "p = 512 * k" using assms by (rule dvdE)
  have "map (\<lambda>b. k + b) [0..<n div 512] = [k..<k + n div 512]"
    using map_add_upt [of k "n div 512"] by (simp add: add.commute)
  then have upt: "[0..<k + n div 512] = [0..<k] @ map (\<lambda>b. k + b) [0..<n div 512]"
    using upt_add_eq_append [of 0 k "n div 512"] by (simp only: le0)
  show ?thesis
    by (simp add: write_blocks_def p, simp add: upt fold_map o_def add_ac distrib_left mult.commute [of _ 512])
qed

definition write_done :: "('d, 'r) scsi_ext \<Rightarrow> scsi_cfg \<Rightarrow> u64 \<Rightarrow> nat \<Rightarrow> 'd \<Rightarrow> bytes \<Rightarrow> ('d, 'r) scsi_svc \<Rightarrow> bool" where
  "write_done X cfg lba T d0 D s \<longleftrightarrow> svc_inv s \<and> g_to_dev s \<and> g_wr_lba s = lba \<and> g_total s = T \<and>
     g_pos s = length D \<and> take (length D) (g_buf s) = D \<and> 512 dvd length D \<and>
     g_scsi_disk s = write_blocks X lba D 0 (length D) d0 \<and>
     (g_scsihash cfg \<and> D \<noteq> [] \<longrightarrow> g_wh s = fnv_bytes (whash_key lba T @ D) FNV_OFFSET) \<and>
     (g_active s \<longleftrightarrow> length D < T) \<and>
     (\<not> g_active s \<longrightarrow> fst (snd (tb_rsp s)) = ST_SELECT_TRANSFER_SUCCESS X)"

text \<open>A doorbell in the middle of a transfer only resumes it.\<close>

lemma doorbell_active:
  assumes "svc_inv s" "g_active s"
  shows "g_active (scsi_doorbell X p s)" "g_pos (scsi_doorbell X p s) = g_pos s" "g_total (scsi_doorbell X p s) = g_total s"
    "g_buf (scsi_doorbell X p s) = g_buf s" "g_to_dev (scsi_doorbell X p s) = g_to_dev s"
    "g_wr_lba (scsi_doorbell X p s) = g_wr_lba s" "g_scsi_disk (scsi_doorbell X p s) = g_scsi_disk s"
    "g_wh (scsi_doorbell X p s) = g_wh s" "tb_rsp (scsi_doorbell X p s) = tb_rsp s"
  using assms by (simp_all add: svc_inv_def scsi_doorbell_def scsi_resume_def Let_def)

lemma gather_write_data:
  fixes s :: "('d, 'r) scsi_svc" and n :: nat
  assumes "take (g_pos s) (g_buf s) = D" "g_pos s = length D" "512 dvd length D"
    and "g_scsi_disk s = write_blocks X (g_wr_lba s) D 0 (length D) d0"
    and "g_scsihash cfg \<and> D \<noteq> [] \<longrightarrow> g_wh s = fnv_bytes (whash_key (g_wr_lba s) (g_total s) @ D) FNV_OFFSET"
  defines "E \<equiv> map (fst (ring_read_wr X n (g_sring s))) [0..<n]"
  shows "take (length D + n) (g_buf (gather_write X cfg n s)) = D @ E"
    "g_scsi_disk (gather_write X cfg n s) = write_blocks X (g_wr_lba s) (D @ E) 0 (length D + n) d0"
    "g_scsihash cfg \<Longrightarrow> g_wh (gather_write X cfg n s) =
       fnv_bytes (whash_key (g_wr_lba s) (g_total s) @ D @ E) FNV_OFFSET"
proof -
  define buf where "buf = D @ E @ drop (length D + n) (g_buf s)"
  have E: "length E = n" by (simp add: E_def)
  have take: "take (length D + n) buf = D @ E" "take n (drop (length D) buf) = E"
    by (simp_all add: buf_def E)
  have new: "g_buf (gather_write X cfg n s) = buf"
    "g_scsi_disk (gather_write X cfg n s) = write_blocks X (g_wr_lba s) buf (length D) n (g_scsi_disk s)"
    "g_scsihash cfg \<Longrightarrow> g_wh (gather_write X cfg n s) = fnv_bytes E
      (if D = [] then fnv_bytes (whash_key (g_wr_lba s) (g_total s)) FNV_OFFSET else g_wh s)"
    using assms(1,2) take(2) by (simp_all add: gather_write_def E_def buf_def Let_def split: prod.splits)
  show "take (length D + n) (g_buf (gather_write X cfg n s)) = D @ E" by (simp only: new take)
  have "write_blocks X (g_wr_lba s) D 0 (length D) d0 = write_blocks X (g_wr_lba s) buf 0 (length D) d0"
    by (rule write_blocks_cong) (simp add: buf_def)
  then have "g_scsi_disk (gather_write X cfg n s) = write_blocks X (g_wr_lba s) buf 0 (length D + n) d0"
    by (simp only: new assms(4) write_blocks_append [OF assms(3)])
  also have "\<dots> = write_blocks X (g_wr_lba s) (D @ E) 0 (length D + n) d0"
    by (rule write_blocks_cong) (simp add: take E)
  finally show "g_scsi_disk (gather_write X cfg n s) = write_blocks X (g_wr_lba s) (D @ E) 0 (length D + n) d0" .
  show "g_wh (gather_write X cfg n s) = fnv_bytes (whash_key (g_wr_lba s) (g_total s) @ D @ E) FNV_OFFSET" if "g_scsihash cfg"
    using new(3) [OF that] assms(5) that by (simp add: fnv_bytes_def)
qed

lemma write_done_step:
  fixes s :: "('d, 'r) scsi_svc"
  assumes J: "write_done X cfg lba T d0 D s" and act: "g_active s"
    and al: "512 dvd chunk_bytes ev" and fit: "length D + chunk_bytes ev \<le> T"
  shows "write_done X cfg lba T d0 (D @ chunk_data X ev) (chunk_step X cfg m ev s)"
proof -
  obtain p r e where ev: "ev = (p, r, e)" by (metis prod_cases3)
  define s1 where "s1 = (scsi_doorbell X p s)\<lparr>g_sring := r\<rparr>"
  note J = J [unfolded write_done_def]
  have inv: "svc_inv s1"
    using svc_inv_doorbell [of s X p] J by (simp add: s1_def)
  note s1 = doorbell_active [of s X p, OF _ act]
  have s1: "g_active s1" "g_pos s1 = length D" "g_total s1 = T" "g_buf s1 = g_buf s" "g_to_dev s1" "g_wr_lba s1 = lba"
      "g_scsi_disk s1 = g_scsi_disk s" "g_wh s1 = g_wh s" "g_sring s1 = r"
    using s1 J by (simp_all add: s1_def)
  have n: "chunk_moved e s1 = chunk_bytes ev" using fit s1 by (simp add: chunk_moved_def chunk_bytes_def ev)
  let ?g = "gather_write X cfg (chunk_bytes ev) (s1\<lparr>g_sring_wait := False\<rparr>)"
  have data: "map (fst (ring_read_wr X (chunk_bytes ev) (g_sring (s1\<lparr>g_sring_wait := False\<rparr>)))) [0..<chunk_bytes ev] = chunk_data X ev"
    by (simp add: chunk_data_def s1(9), simp add: ev)
  note g = gather_write_data [of "s1\<lparr>g_sring_wait := False\<rparr>" D X d0 cfg "chunk_bytes ev", unfolded data, simplified s1]
  have g: "take (length D + chunk_bytes ev) (g_buf ?g) = D @ chunk_data X ev"
      "g_scsi_disk ?g = write_blocks X lba (D @ chunk_data X ev) 0 (length D + chunk_bytes ev) d0"
      "g_scsihash cfg \<Longrightarrow> g_wh ?g = fnv_bytes (whash_key lba T @ D @ chunk_data X ev) FNV_OFFSET"
    using g J s1 by simp_all
  note f = completion_frame [OF inv, where X = X and e = e and cfg = cfg and m = m, unfolded n, simplified s1]
  have "chunk_step X cfg m ev s = scsi_completion X cfg m e s1" by (simp add: chunk_step_def ev s1_def)
  then show ?thesis
    using f g al J svc_inv_completion [OF inv, of X cfg m e] by (simp add: write_done_def)
qed


lemma run_chunks_write_done:
  assumes "write_done X cfg lba T d0 D s" "\<forall>ev \<in> set evs. 512 dvd chunk_bytes ev"
    and "length D + sum_list (map chunk_bytes evs) = T"
  shows "write_done X cfg lba T d0 (D @ concat (map (chunk_data X) evs)) (run_chunks X cfg m evs s)"
  using assms
proof (induction evs arbitrary: D s)
  case (Cons ev evs)
  show ?case
  proof (cases "g_active s")
    case True
    have "write_done X cfg lba T d0 (D @ chunk_data X ev) (chunk_step X cfg m ev s)"
      using Cons.prems by (intro write_done_step [OF Cons.prems(1) True]) simp_all
    from Cons.IH [OF this] Cons.prems True show ?thesis by simp
  next
    case False
    have "length D = T" using False Cons.prems(1,3) by (auto simp: write_done_def)
    then have "\<forall>ev \<in> set (ev # evs). chunk_bytes ev = 0" using Cons.prems(3) by (simp add: sum_list_eq_0_iff)
    then have "\<forall>ev \<in> set (ev # evs). chunk_data X ev = []" by (metis length_0_conv length_chunk_data)
    then have nil: "concat (map (chunk_data X) (ev # evs)) = []" by simp
    show ?thesis unfolding nil using False Cons.prems(1) by simp
  qed
qed simp

text \<open>
  C10.  A write command delivered in any number of block-multiple chunks reaches the disk
  whole and once: after the last completion the buffer is the concatenation of the gathered
  chunks, the disk has had exactly its 512-byte blocks written, in order, from the command's
  LBA, the shim sees success, and the reported hash is the FNV-1a of the key and the payload,
  whatever the chunk boundaries.
\<close>

theorem scsi_write_exact:
  fixes X :: "('d, 'r) scsi_ext" and evs :: "'r chunk list" and s :: "('d, 'r) scsi_svc"
    and cfg :: scsi_cfg and m :: mem
  assumes "svc_inv s" "g_active s" "g_to_dev s" "g_pos s = 0"
    and "\<forall>ev \<in> set evs. 512 dvd chunk_bytes ev" "sum_list (map chunk_bytes evs) = g_total s"
  defines "D \<equiv> concat (map (chunk_data X) evs)" and "s' \<equiv> run_chunks X cfg m evs s"
  shows "g_buf s' = D \<and> g_scsi_disk s' = write_blocks X (g_wr_lba s) D 0 (length D) (g_scsi_disk s) \<and>
    \<not> g_active s' \<and> fst (snd (tb_rsp s')) = ST_SELECT_TRANSFER_SUCCESS X \<and>
    (g_scsihash cfg \<longrightarrow> g_wh s' = fnv_bytes (whash_key (g_wr_lba s) (g_total s) @ D) FNV_OFFSET)"
proof -
  have "write_done X cfg (g_wr_lba s) (g_total s) (g_scsi_disk s) [] s"
    using assms(1-4) by (auto simp: write_done_def write_blocks_def svc_inv_def)
  from run_chunks_write_done [OF this assms(5)] assms(6)
  have J: "write_done X cfg (g_wr_lba s) (g_total s) (g_scsi_disk s) D s'" by (simp add: D_def s'_def)
  have len: "length D = g_total s" using assms(6) by (simp add: D_def length_concat o_def)
  moreover have "D \<noteq> []" using len assms(1,2) by (auto simp: svc_inv_def)
  moreover have "length (g_buf s') = g_total s" using J by (simp add: write_done_def svc_inv_def)
  ultimately show ?thesis using J by (simp add: write_done_def)
qed

text \<open>A concrete environment: a disk that lists its block writes, a ring that is its bytes.\<close>

definition sample_ext :: "((u64 \<times> bytes) list, bytes) scsi_ext" where
  "sample_ext = \<lparr>disk_ok = (\<lambda>_. True), block_write = (\<lambda>lba b d. d @ [(lba, b)]), service_run = (\<lambda>_ x. x),
     stage_read = (\<lambda>b _ _. b), ring_poll = (\<lambda>_ r. (None, r)), ring_read_wr = (\<lambda>_ r. ((\<lambda>i. r ! i), r)),
     ST_SELECT_TRANSFER_SUCCESS = 0x16, TGT_GOOD = 0, SCSI_DONE_PAUSE = 1, SCSI_DONE_COMPLETE = 0\<rparr>"

definition sample_svc :: "((u64 \<times> bytes) list, bytes) scsi_svc" where
  "sample_svc = \<lparr>g_scsi_disk = [], g_sring = [], g_last_scsi_req_seq = 1, g_cmd_lba = 0, g_cmd_op = 0x2a,
     g_buf = replicate 512 0, g_to_dev = True, g_wr_lba = 7,
     g_pending_rsp = \<lparr>rs_completion = 0, rs_residual = 0, rs_scsi_status = 0x16, rs_tgt_status = 0, rs_seq = 1\<rparr>,
     g_pos = 0, g_total = 512, g_active = True, g_sring_wait = True, g_sring_seq = 1,
     g_rdchk = \<lparr>g_rdchk_reads = 0, g_rdchk_bytes = 0, g_rdchk_bad_reads = 0, g_rdchk_bad_bytes = 0, rdchk_log = []\<rparr>,
     g_wh = 0, g_wh_bytes = 0, g_wdump = [], whash_log = [], wdump_files = [], tb_rsp = (0, 0, 0, 0)\<rparr>"

definition sample_chunk_of :: "u32 \<Rightarrow> bytes chunk" where
  "sample_chunk_of n = (\<lparr>p_req_seq = 1, p_nbdp = 0, p_xfer_len = 512, p_cdb = [0, 0, 0, 0], p_dest = 1, p_lun = 0, p_to_device = 1\<rparr>,
     replicate 512 9, \<lparr>cqe_seq = 1, cqe_bytes = n, cqe_flags = 0, cqe_nbdp = 0\<rparr>)"

lemma sample_svc_inv: "svc_inv sample_svc" "g_active sample_svc" "g_to_dev sample_svc" "g_pos sample_svc = 0"
    "g_total sample_svc = 512"
  by (simp_all add: svc_inv_def sample_svc_def)

lemma sample_chunk_bytes: "chunk_bytes (sample_chunk_of 512) = 512" "chunk_bytes (sample_chunk_of 256) = 256"
  by (simp_all add: chunk_bytes_def sample_chunk_of_def)

theorem scsi_write_exact_witness:
  "svc_inv sample_svc \<and> 512 dvd chunk_bytes (sample_chunk_of 512) \<and>
   g_buf (run_chunks sample_ext \<lparr>g_scsihash = True, g_scsidump = False\<rparr> (\<lambda>_. 0) [sample_chunk_of 512] sample_svc) =
     concat (map (chunk_data sample_ext) [sample_chunk_of 512])"
  using scsi_write_exact [of sample_svc "[sample_chunk_of 512]" sample_ext
      "\<lparr>g_scsihash = True, g_scsidump = False\<rparr>" "\<lambda>_. 0"] sample_svc_inv sample_chunk_bytes(1)
  by simp

lemma gather_write_short:
  "n < 512 \<Longrightarrow> g_scsi_disk (gather_write X cfg n s) = g_scsi_disk s"
  by (simp add: gather_write_def write_blocks_def Let_def split: prod.splits)

text \<open>
  Chunks shorter than a block never reach the disk: a write whose chunks are all
  below 512 bytes completes with success, and the disk is unchanged.
\<close>

theorem scsi_short_chunks_lost:
  fixes X :: "('d, 'r) scsi_ext" and s :: "('d, 'r) scsi_svc"
  assumes "svc_inv s" "g_to_dev s" "g_active s"
    and "\<forall>ev \<in> set evs. chunk_bytes ev < 512" "g_pos s + sum_list (map chunk_bytes evs) = g_total s"
  shows "\<not> g_active (run_chunks X cfg m evs s) \<and>
    fst (snd (tb_rsp (run_chunks X cfg m evs s))) = ST_SELECT_TRANSFER_SUCCESS X \<and>
    g_scsi_disk (run_chunks X cfg m evs s) = g_scsi_disk s"
proof -
  define ok where "ok t \<longleftrightarrow> g_active t \<or> fst (snd (tb_rsp t)) = ST_SELECT_TRANSFER_SUCCESS X" for t :: "('d, 'r) scsi_svc"
  have "\<not> g_active (run_chunks X cfg m evs t) \<and> ok (run_chunks X cfg m evs t) \<and>
      g_scsi_disk (run_chunks X cfg m evs t) = g_scsi_disk t"
    if "svc_inv t" "g_to_dev t" "ok t" "\<forall>ev \<in> set evs. chunk_bytes ev < 512"
      "g_pos t + sum_list (map chunk_bytes evs) = g_total t" for t
    using that
  proof (induction evs arbitrary: t)
    case (Cons ev evs)
    show ?case
    proof (cases "g_active t")
      case True
      obtain p r e where ev: "ev = (p, r, e)" by (metis prod_cases3)
      define u where "u = (scsi_doorbell X p t)\<lparr>g_sring := r\<rparr>"
      note db = doorbell_active [OF Cons.prems(1) True, of X p]
      have u: "svc_inv u" "g_active u" "g_to_dev u" "g_pos u = g_pos t" "g_total u = g_total t" "g_scsi_disk u = g_scsi_disk t"
        using db svc_inv_doorbell [OF Cons.prems(1), of X p] Cons.prems(2) by (simp_all add: u_def)
      have n: "chunk_moved e u = chunk_bytes ev" using Cons.prems(5) u by (simp add: chunk_moved_def chunk_bytes_def ev)
      note f = completion_frame [OF u(1), where X = X and e = e and cfg = cfg and m = m, unfolded n, simplified u]
      have "chunk_step X cfg m ev t = scsi_completion X cfg m e u" by (simp add: chunk_step_def ev u_def)
      moreover have "ok (scsi_completion X cfg m e u)" using f by (simp add: ok_def)
      ultimately show ?thesis
        using Cons.IH [of "scsi_completion X cfg m e u"] f True Cons.prems svc_inv_completion [OF u(1), of X cfg m e]
        by (simp add: gather_write_short u)
    qed (use Cons.prems in simp)
  qed (auto simp: svc_inv_def)
  from this [of s] assms show ?thesis by (auto simp: ok_def)
qed

theorem scsi_short_chunks_lost_witness:
  "chunk_bytes (sample_chunk_of 256) < 512 \<and> svc_inv sample_svc \<and>
   g_scsi_disk (run_chunks sample_ext \<lparr>g_scsihash = False, g_scsidump = False\<rparr> (\<lambda>_. 0)
     [sample_chunk_of 256, sample_chunk_of 256] sample_svc) = g_scsi_disk sample_svc"
  using scsi_short_chunks_lost [of sample_svc "[sample_chunk_of 256, sample_chunk_of 256]" sample_ext
      "\<lparr>g_scsihash = False, g_scsidump = False\<rparr>" "\<lambda>_. 0"] sample_svc_inv sample_chunk_bytes(2)
  by simp

theorem scsi_cycle_invariant_witness:
  "svc_inv sample_svc \<and>
   svc_inv (scsi_cycle sample_ext \<lparr>g_scsihash = False, g_scsidump = False\<rparr> 32 (\<lambda>_. 0) (fst (sample_chunk_of 512)) sample_svc)"
  using scsi_cycle_invariant [OF sample_svc_inv(1), of sample_ext "\<lparr>g_scsihash = False, g_scsidump = False\<rparr>" 32
      "\<lambda>_. 0" "fst (sample_chunk_of 512)"] sample_svc_inv(1)
  by simp

end
