(* ===== verification/Recent_Log.thy ===== *)
theory Recent_Log
  imports Henry_Prelude
begin

text \<open>
  Bounded histories.  The testbench keeps the last entries of an unbounded stream in several
  forms: a list popped at the front, a circular array, a string trimmed to its tail.  Their
  common interface is the locale \<open>recent_log\<close>, whose client lemma says that the contents are the
  last entries of the whole stream.  Searching a bounded tail of a growing stream for a
  pattern, as the console watchers do, is related to searching the stream.
\<close>

section \<open>The last entries of a list\<close>

definition last_n :: "nat \<Rightarrow> 'a list \<Rightarrow> 'a list" where
  "last_n n xs = drop (length xs - n) xs"

lemma length_last_n [simp]: "length (last_n n xs) = min (length xs) n"
  by (auto simp: last_n_def)

lemma last_n_id: "length xs \<le> n \<Longrightarrow> last_n n xs = xs"
  by (simp add: last_n_def)

lemma last_n_Nil [simp]: "last_n n [] = []"
  by (simp add: last_n_def)

lemma last_n_snoc: "last_n n (last_n n xs @ ys) = last_n n (xs @ ys)"
proof (cases "length xs \<le> n")
  case False
  then have "length xs - n + n = length xs" by simp
  then show ?thesis using False by (simp add: last_n_def add.commute)
qed (simp add: last_n_def)

lemma last_n_suffix: "xs = take (length xs - n) xs @ last_n n xs"
  by (simp add: last_n_def)

section \<open>The interface of a bounded history\<close>

locale recent_log =
  fixes push :: "'a \<Rightarrow> 's \<Rightarrow> 's" and contents :: "'s \<Rightarrow> 'a list" and cap :: nat and ok :: "'s \<Rightarrow> bool"
  assumes contents_push: "ok s \<Longrightarrow> contents (push x s) = last_n cap (contents s @ [x])"
    and ok_push: "ok s \<Longrightarrow> ok (push x s)"
begin

lemma ok_pushes: "ok s \<Longrightarrow> ok (fold push xs s)"
  by (induction xs arbitrary: s) (simp_all add: ok_push)

lemma contents_pushes:
  "ok s \<Longrightarrow> last_n cap (contents s) = contents s \<Longrightarrow> contents (fold push xs s) = last_n cap (contents s @ xs)"
proof (induction xs arbitrary: s)
  case (Cons x xs)
  have "last_n cap (contents (push x s)) = contents (push x s)"
    using Cons.prems last_n_snoc [of cap "contents s @ [x]" "[]"] by (simp add: contents_push)
  then show ?case
    using Cons.prems Cons.IH [of "push x s"] last_n_snoc [of cap "contents s @ [x]" xs] by (simp add: ok_push contents_push)
qed simp

lemma length_contents_pushes:
  "ok s \<Longrightarrow> last_n cap (contents s) = contents s \<Longrightarrow> length (contents (fold push xs s)) \<le> cap"
  by (simp add: contents_pushes)

end

section \<open>A circular array\<close>

text \<open>The entries of an array of \<open>n\<close> written round and round, \<open>i\<close> writes so far, oldest first.\<close>

definition circular :: "nat \<Rightarrow> (nat \<Rightarrow> 'a) \<Rightarrow> nat \<Rightarrow> 'a list" where
  "circular n buf i = map (\<lambda>k. buf (k mod n)) [i - n..<i]"

lemma circular_other:
  fixes n i k :: nat
  assumes "i < k + n" "k < i"
  shows "k mod n \<noteq> i mod n"
proof
  assume "k mod n = i mod n"
  then have "n dvd i - k" using assms mod_eq_dvd_iff_nat [of k i n] by simp
  then have "n \<le> i - k" using assms by (intro dvd_imp_le) simp_all
  then show False using assms by simp
qed

lemma circular_push:
  assumes "0 < n"
  shows "circular n (buf(i mod n := x)) (Suc i) = last_n n (circular n buf i @ [x])"
proof -
  have "circular n (buf(i mod n := x)) (Suc i) = map (\<lambda>k. (buf(i mod n := x)) (k mod n)) [Suc i - n..<i] @ [x]"
    unfolding circular_def using assms by (subst upt_Suc_append) simp_all
  also have "map (\<lambda>k. (buf(i mod n := x)) (k mod n)) [Suc i - n..<i] = map (\<lambda>k. buf (k mod n)) [Suc i - n..<i]"
  proof (rule map_cong [OF refl])
    fix k assume "k \<in> set [Suc i - n..<i]"
    then have "i < k + n" "k < i" by auto
    from circular_other [OF this] show "(buf(i mod n := x)) (k mod n) = buf (k mod n)" by simp
  qed
  also have "\<dots> @ [x] = last_n n (circular n buf i @ [x])"
  proof -
    have "i - n + (Suc i - (i - n + n)) = Suc i - n" using assms by arith
    then show ?thesis using assms by (auto simp: circular_def last_n_def drop_map)
  qed
  finally show ?thesis .
qed

section \<open>Searching a tail\<close>

text \<open>\<^verbatim>\<open>std::string::find(pat) != npos\<close>.\<close>

definition contains :: "'a list \<Rightarrow> 'a list \<Rightarrow> bool" where
  "contains pat s \<longleftrightarrow> (\<exists>i \<in> set [0..<Suc (length s)]. take (length pat) (drop i s) = pat)"

lemma contains_iff: "contains pat s \<longleftrightarrow> (\<exists>u v. s = u @ pat @ v)"
proof
  assume "contains pat s"
  then obtain i where "take (length pat) (drop i s) = pat" by (auto simp: contains_def)
  then have "s = take i s @ pat @ drop (length pat) (drop i s)" by (metis append_take_drop_id)
  then show "\<exists>u v. s = u @ pat @ v" by blast
next
  assume "\<exists>u v. s = u @ pat @ v"
  then obtain u v where s: "s = u @ pat @ v" by blast
  then have "take (length pat) (drop (length u) s) = pat" "length u \<in> set [0..<Suc (length s)]" by auto
  then show "contains pat s" unfolding contains_def by blast
qed

lemma contains_Nil [simp]: "pat \<noteq> [] \<Longrightarrow> \<not> contains pat []"
  by (simp add: contains_iff)

lemma contains_append: "contains pat s \<Longrightarrow> contains pat (s @ t)"
  unfolding contains_iff by (metis append_assoc)

lemma contains_prepend: "contains pat t \<Longrightarrow> contains pat (s @ t)"
  unfolding contains_iff by (metis append_assoc)

lemma contains_last_n: "contains pat (last_n n s) \<Longrightarrow> contains pat s"
  by (subst last_n_suffix [of s n]) (rule contains_prepend)

text \<open>A new occurrence ends at the new character, inside any window as long as the pattern.\<close>

lemma contains_snoc:
  assumes "contains pat (s @ [c])" "length pat \<le> n"
  shows "contains pat s \<or> contains pat (last_n n (s @ [c]))"
proof -
  obtain u v where uv: "s @ [c] = u @ pat @ v" using assms(1) by (auto simp: contains_iff)
  show ?thesis
  proof (cases v rule: rev_cases)
    case Nil
    then have "s @ [c] = u @ pat" using uv by simp
    then have "last_n n (s @ [c]) = drop (length (u @ pat) - n) u @ pat"
      using assms(2) by (simp add: last_n_def)
    then show ?thesis unfolding contains_iff by (metis append_Nil2)
  next
    case (snoc v' x)
    then have "s = u @ pat @ v'" using uv by simp
    then show ?thesis unfolding contains_iff by blast
  qed
qed

text \<open>So a watcher that searches the tail at every character sees every occurrence, and only those.\<close>

lemma tail_search:
  assumes "length pat \<le> n" "pat \<noteq> []"
  shows "(\<exists>k \<le> length s. contains pat (last_n n (take k s))) \<longleftrightarrow> contains pat s"
proof
  assume "\<exists>k \<le> length s. contains pat (last_n n (take k s))"
  then show "contains pat s" by (metis append_take_drop_id contains_append contains_last_n)
next
  assume "contains pat s"
  then show "\<exists>k \<le> length s. contains pat (last_n n (take k s))"
  proof (induction s rule: rev_induct)
    case (snoc c s)
    from contains_snoc [OF snoc.prems assms(1)] show ?case
    proof
      assume "contains pat s"
      from snoc.IH [OF this] obtain k where "k \<le> length s" "contains pat (last_n n (take k s))" by blast
      then show ?thesis by (intro exI [of _ k]) auto
    qed (intro exI [of _ "length (s @ [c])"], auto)
  qed (use assms(2) in simp)
qed

end
