(* ===== verification/Console.thy ===== *)
theory Console
  imports Recent_Log
begin

text \<open>
  The console side of the run loop (\<^verbatim>\<open>sim/henry_tb.cpp\<close>): the drip of injected receive bytes,
  the watchers that look for the guest's crash messages in the console stream, and the
  \<^verbatim>\<open>RXSCRIPT\<close> engine that waits for an expected string and types a line in reply, with the
  parser of its script.
\<close>

section \<open>The script\<close>

text \<open>\<^verbatim>\<open>RXSCRIPT\<close>: lines \<open>expect TAB type\<close>; a line without a tab is skipped.\<close>

definition newline :: char where
  "newline = char_of (10 :: nat)"

definition tab :: char where
  "tab = char_of (9 :: nat)"

definition rx_line :: "string \<Rightarrow> (string \<times> string) list" where
  "rx_line line = (if tab \<in> set line then [(takeWhile (\<lambda>c. c \<noteq> tab) line, tl (dropWhile (\<lambda>c. c \<noteq> tab) line))] else [])"

function parse_rxscript :: "string \<Rightarrow> (string \<times> string) list" where
  "parse_rxscript all =
     rx_line (takeWhile (\<lambda>c. c \<noteq> newline) all) @
     (case dropWhile (\<lambda>c. c \<noteq> newline) all of [] \<Rightarrow> [] | _ # rest \<Rightarrow> parse_rxscript rest)"
  by auto
termination
proof (relation "measure length")
  fix all rest :: string and x
  assume "dropWhile (\<lambda>c. c \<noteq> newline) all = x # rest"
  then show "(rest, all) \<in> measure length"
    using length_dropWhile_le [of "\<lambda>c. c \<noteq> newline" all] by simp
qed simp

declare parse_rxscript.simps [simp del]

text \<open>The script text a user writes for a list of steps.\<close>

definition print_rxscript :: "(string \<times> string) list \<Rightarrow> string" where
  "print_rxscript steps = concat (map (\<lambda>(e, t). e @ [tab] @ t @ [newline]) steps)"

section \<open>Console state\<close>

text \<open>
  \<open>ct\<close> is the tail the crash watchers search, \<open>g_contail\<close> the one of the script; \<open>marks\<close> are
  the reports, with the cycle they were made at.
\<close>

datatype mark = BE_SIGNAL nat | BE_CRASH nat | RX_STEP nat nat

record console =
  ct :: string
  sig_hit :: bool
  hit :: bool
  g_contail :: string
  g_rxstep :: nat
  g_rxpend :: string
  rx_idx :: nat
  marks :: "mark list"

definition console_init :: console where
  "console_init = \<lparr>ct = '''', sig_hit = False, hit = False, g_contail = '''', g_rxstep = 0, g_rxpend = '''',
     rx_idx = 0, marks = []\<rparr>"

definition push_tail :: "nat \<Rightarrow> char \<Rightarrow> string \<Rightarrow> string" where
  "push_tail n c s = (let s = s @ [c] in if length s > n then drop (length s - n) s else s)"

section \<open>Receive injection\<close>

text \<open>The byte presented to the SCC this cycle: the fixed string first, then the pending line.\<close>

definition rx_drip :: "u8 list \<Rightarrow> nat \<Rightarrow> console \<Rightarrow> u8 option \<times> console" where
  "rx_drip rx_bytes cyc s =
     (if rx_idx s < length rx_bytes \<and> cyc \<ge> 2000 \<and> cyc mod 64 = 0
      then (Some (rx_bytes ! rx_idx s), s\<lparr>rx_idx := rx_idx s + 1\<rparr>)
      else if g_rxpend s \<noteq> [] \<and> cyc mod 4096 = 0
      then (Some (of_char (hd (g_rxpend s))), s\<lparr>g_rxpend := tl (g_rxpend s)\<rparr>)
      else (None, s))"

section \<open>One console character\<close>

definition crash_watch :: "nat \<Rightarrow> char \<Rightarrow> console \<Rightarrow> console" where
  "crash_watch cyc c s =
     (let s = s\<lparr>ct := push_tail 256 c (ct s)\<rparr>;
          s = (if \<not> sig_hit s \<and> contains ''Signal: '' (ct s)
               then s\<lparr>sig_hit := True, marks := marks s @ [BE_SIGNAL cyc]\<rparr> else s)
      in if \<not> hit s \<and> (contains ''died due to signal'' (ct s) \<or> contains ''cc returned'' (ct s))
         then s\<lparr>hit := True, marks := marks s @ [BE_CRASH cyc]\<rparr> else s)"

definition rx_expect :: "(string \<times> string) list \<Rightarrow> nat \<Rightarrow> char \<Rightarrow> console \<Rightarrow> console" where
  "rx_expect g_rxsteps cyc c s =
     (if g_rxstep s < length g_rxsteps \<and> g_rxpend s = [] then
        (let s = s\<lparr>g_contail := push_tail 512 c (g_contail s)\<rparr>
         in if contains (fst (g_rxsteps ! g_rxstep s)) (g_contail s)
            then s\<lparr>g_rxpend := snd (g_rxsteps ! g_rxstep s) @ [char_of (13 :: nat)],
                   marks := marks s @ [RX_STEP (g_rxstep s) cyc],
                   g_rxstep := g_rxstep s + 1, g_contail := ''''\<rparr>
            else s)
      else s)"

definition console_char :: "(string \<times> string) list \<Rightarrow> nat \<Rightarrow> char \<Rightarrow> console \<Rightarrow> console" where
  "console_char g_rxsteps cyc c s = rx_expect g_rxsteps cyc c (crash_watch cyc c s)"

section \<open>The tails\<close>

lemma push_tail_last_n: "push_tail n c s = last_n n (s @ [c])"
  by (auto simp: push_tail_def last_n_def Let_def)

interpretation crash_tail: recent_log "push_tail 256" "\<lambda>s. s" 256 "\<lambda>_. True"
  by unfold_locales (simp_all add: push_tail_last_n)

interpretation script_tail: recent_log "push_tail 512" "\<lambda>s. s" 512 "\<lambda>_. True"
  by unfold_locales (simp_all add: push_tail_last_n)

section \<open>Script round trip\<close>

lemma rx_line_step: "tab \<notin> set e \<Longrightarrow> rx_line (e @ [tab] @ t) = [(e, t)]"
proof -
  assume "tab \<notin> set e"
  then have "\<forall>c \<in> set e. c \<noteq> tab" by auto
  then show ?thesis by (simp add: rx_line_def)
qed

lemma parse_rxscript_line:
  assumes "newline \<notin> set l"
  shows "parse_rxscript (l @ [newline] @ r) = rx_line l @ parse_rxscript r"
proof -
  have "\<forall>c \<in> set l. c \<noteq> newline" using assms by auto
  then have "takeWhile (\<lambda>c. c \<noteq> newline) (l @ [newline] @ r) = l"
    "dropWhile (\<lambda>c. c \<noteq> newline) (l @ [newline] @ r) = newline # r" by simp_all
  then show ?thesis by (subst parse_rxscript.simps) simp
qed

text \<open>
  A script reads back as it was written: printing any list of steps, whose expect
  strings hold no tab and whose strings hold no newline, and parsing the text gives the steps.
\<close>

theorem rxscript_roundtrip:
  assumes "\<forall>(e, t) \<in> set steps. tab \<notin> set e \<and> newline \<notin> set e \<and> newline \<notin> set t"
  shows "parse_rxscript (print_rxscript steps) = steps"
  using assms
proof (induction steps)
  case Nil
  then show ?case by (subst parse_rxscript.simps) (simp add: print_rxscript_def rx_line_def)
next
  case (Cons st steps)
  obtain e t where st: "st = (e, t)" by (cases st)
  have "newline \<notin> set (e @ [tab] @ t)" using Cons.prems by (simp add: st newline_def tab_def)
  from parse_rxscript_line [OF this, of "print_rxscript steps"] show ?case
    using Cons rx_line_step [of e t] by (simp add: st print_rxscript_def)
qed

theorem rxscript_roundtrip_witness:
  "tab \<notin> set ''login: '' \<and> newline \<notin> set ''root'' \<and>
   parse_rxscript (print_rxscript [(''login: '', ''root'')]) = [(''login: '', ''root'')]"
proof -
  have h: "tab \<notin> set ''login: ''" "newline \<notin> set ''login: ''" "newline \<notin> set ''root''"
    by (simp_all add: tab_def newline_def char_of_def)
  then show ?thesis using rxscript_roundtrip [of "[(''login: '', ''root'')]"] by simp
qed

section \<open>The crash watchers\<close>

lemma crash_watch_fields [simp]:
  "ct (crash_watch cyc c s) = push_tail 256 c (ct s)"
  "sig_hit (crash_watch cyc c s) \<longleftrightarrow> sig_hit s \<or> contains ''Signal: '' (push_tail 256 c (ct s))"
  "hit (crash_watch cyc c s) \<longleftrightarrow> hit s \<or> contains ''died due to signal'' (push_tail 256 c (ct s)) \<or>
     contains ''cc returned'' (push_tail 256 c (ct s))"
  "g_contail (crash_watch cyc c s) = g_contail s" "g_rxstep (crash_watch cyc c s) = g_rxstep s"
  "g_rxpend (crash_watch cyc c s) = g_rxpend s"
  by (auto simp: crash_watch_def Let_def)

lemma rx_expect_fields [simp]:
  "ct (rx_expect st cyc c s) = ct s" "sig_hit (rx_expect st cyc c s) = sig_hit s" "hit (rx_expect st cyc c s) = hit s"
  by (simp_all add: rx_expect_def Let_def)

definition feed :: "(string \<times> string) list \<Rightarrow> (nat \<times> char) list \<Rightarrow> console \<Rightarrow> console" where
  "feed st cs s = fold (\<lambda>(cyc, c). console_char st cyc c) cs s"

lemma feed_snoc: "feed st (cs @ [(cyc, c)]) s = console_char st cyc c (feed st cs s)"
  by (simp add: feed_def)

lemma feed_ct: "ct (feed st cs console_init) = last_n 256 (map snd cs)"
proof (induction cs rule: rev_induct)
  case (snoc x cs)
  obtain cyc c where x: "x = (cyc, c)" by (cases x)
  show ?case
    using snoc.IH by (simp add: x feed_snoc console_char_def push_tail_last_n last_n_snoc)
qed (simp add: feed_def console_init_def)

lemma feed_watch:
  assumes "length p \<le> 256" "p \<noteq> []"
  shows "contains p (map snd (cs @ [x])) \<longleftrightarrow>
    contains p (map snd cs) \<or> contains p (push_tail 256 (snd x) (ct (feed st cs console_init)))"
proof -
  have "push_tail 256 (snd x) (ct (feed st cs console_init)) = last_n 256 (map snd cs @ [snd x])"
    by (simp add: feed_ct push_tail_last_n last_n_snoc)
  then show ?thesis
    using contains_snoc [of p "map snd cs" "snd x" 256] assms(1) contains_append [of p "map snd cs"]
      contains_last_n [of p 256 "map snd cs @ [snd x]"] by auto
qed

text \<open>
  C21.  Crash detection misses nothing and invents nothing: although only the last 256
  characters are searched, after any console output the watchers have fired exactly when the
  whole stream holds their message, however the characters are spread over cycles.
\<close>

theorem crash_detect_exact:
  "(sig_hit (feed st cs console_init) \<longleftrightarrow> contains ''Signal: '' (map snd cs)) \<and>
   (hit (feed st cs console_init) \<longleftrightarrow>
      contains ''died due to signal'' (map snd cs) \<or> contains ''cc returned'' (map snd cs))"
proof (induction cs rule: rev_induct)
  case Nil
  show ?case by (simp add: feed_def console_init_def)
next
  case (snoc x cs)
  obtain cyc c where x: "x = (cyc, c)" by (cases x)
  note w = feed_watch [of _ cs x st, unfolded x, simplified]
  show ?case
    using snoc.IH w [of "''Signal: ''"] w [of "''died due to signal''"] w [of "''cc returned''"]
    by (auto simp: x feed_snoc console_char_def)
qed

section \<open>The script engine\<close>

lemma console_char_waiting:
  assumes "g_rxstep s < length st" "g_rxpend s = []"
  shows "console_char st cyc c s =
    (if contains (fst (st ! g_rxstep s)) (push_tail 512 c (g_contail s))
     then (crash_watch cyc c s)\<lparr>g_rxpend := snd (st ! g_rxstep s) @ [char_of (13 :: nat)],
            marks := marks (crash_watch cyc c s) @ [RX_STEP (g_rxstep s) cyc], g_rxstep := g_rxstep s + 1, g_contail := ''''\<rparr>
     else (crash_watch cyc c s)\<lparr>g_contail := push_tail 512 c (g_contail s)\<rparr>)"
  using assms by (simp add: console_char_def rx_expect_def Let_def)

lemma feed_waiting:
  assumes "g_rxstep s = k" "k < length st" "g_rxpend s = []" "g_contail s = ''''"
    and "length (fst (st ! k)) \<le> 512" "fst (st ! k) \<noteq> []" "\<not> contains (fst (st ! k)) (map snd cs)"
  shows "g_rxstep (feed st cs s) = k \<and> g_rxpend (feed st cs s) = [] \<and> g_contail (feed st cs s) = last_n 512 (map snd cs)"
  using assms(7)
proof (induction cs rule: rev_induct)
  case (snoc x cs)
  obtain cyc c where x: "x = (cyc, c)" by (cases x)
  have no: "\<not> contains (fst (st ! k)) (map snd cs)" using snoc.prems contains_append by fastforce
  have tail: "push_tail 512 c (g_contail (feed st cs s)) = last_n 512 (map snd (cs @ [x]))"
    using snoc.IH [OF no] by (simp add: push_tail_last_n last_n_snoc x)
  have "\<not> contains (fst (st ! k)) (push_tail 512 c (g_contail (feed st cs s)))"
    unfolding tail using snoc.prems contains_last_n by blast
  then show ?case
    using snoc.IH [OF no] console_char_waiting [of "feed st cs s" st cyc c] assms(2) tail
    by (simp add: x feed_snoc)
qed (use assms in \<open>simp add: feed_def\<close>)

text \<open>
  A script step is typed exactly when its prompt has appeared: from the moment step \<open>k\<close> is
  waited for, the engine stays on it as long as the output since then does not contain the
  expected string, and the character that completes the string queues the reply line with a
  carriage return and moves on.  The expected string must fit the 512-character tail.
\<close>

theorem rxscript_types_on_prompt:
  assumes "g_rxstep s = k" "k < length st" "g_rxpend s = []" "g_contail s = ''''"
    and "length (fst (st ! k)) \<le> 512" "fst (st ! k) \<noteq> []"
    and "\<not> contains (fst (st ! k)) (map snd cs)"
  shows "g_rxstep (feed st cs s) = k \<and> g_rxpend (feed st cs s) = [] \<and>
    (contains (fst (st ! k)) (map snd cs @ [c]) \<longrightarrow>
       g_rxstep (feed st (cs @ [(cyc, c)]) s) = Suc k \<and>
       g_rxpend (feed st (cs @ [(cyc, c)]) s) = snd (st ! k) @ [char_of (13 :: nat)])"
proof -
  note w = feed_waiting [OF assms]
  have "push_tail 512 c (g_contail (feed st cs s)) = last_n 512 (map snd cs @ [c])"
    using w by (simp add: push_tail_last_n last_n_snoc)
  moreover have "contains (fst (st ! k)) (last_n 512 (map snd cs @ [c]))" if "contains (fst (st ! k)) (map snd cs @ [c])"
    using contains_snoc [OF that assms(5)] assms(7) by blast
  ultimately show ?thesis
    using w console_char_waiting [of "feed st cs s" st cyc c] assms(2) by (simp add: feed_snoc)
qed

theorem rxscript_types_on_prompt_witness:
  "\<not> contains ''$'' (map snd [(5 :: nat, CHR ''o'')]) \<and>
   g_rxpend (feed [(''$'', ''ls'')] ([(5, CHR ''o'')] @ [(6, CHR ''$'')]) console_init) = ''ls'' @ [char_of (13 :: nat)]"
proof -
  have n: "\<not> contains ''$'' (map snd [(5 :: nat, CHR ''o'')])" by (simp add: contains_def upt_rec)
  have "contains ''$'' (map snd [(5 :: nat, CHR ''o'')] @ ''$'')" by (simp add: contains_def upt_rec)
  then show ?thesis
    using rxscript_types_on_prompt [of console_init 0 "[(''$'', ''ls'')]" "[(5, CHR ''o'')]" "CHR ''$''" 6] n
    by (simp add: console_init_def)
qed

end
