(* ===== verification/Retire_Probes.thy ===== *)
theory Retire_Probes
  imports Ctrace Device_Service Recent_Log
begin

text \<open>
  The probes of \<^verbatim>\<open>sim/henry_tb.cpp\<close> that follow the retire ports of the core: the register
  shadow, the userspace retire log (\<^verbatim>\<open>USRETLOG\<close>), the archive trace with its ring and stop pc
  (\<^verbatim>\<open>RETIRETRACE\<close>), the page-fault history (\<^verbatim>\<open>PRFAULT_PROBE\<close>), the bad-address probe
  (\<^verbatim>\<open>BADVA_PROBE\<close>), the retire text traces, the rolling pc hash (\<^verbatim>\<open>PCHASH\<close>), the stall
  attribution (\<^verbatim>\<open>TIP\<close>) and the exception log.
\<close>

section \<open>Retired slots\<close>

definition retired_slots :: "retire_ports \<Rightarrow> retire_slot list" where
  "retired_slots p = filter rs_valid [slot0 p, slot1 p]"

definition retired_pcs32 :: "retire_ports \<Rightarrow> u32 list" where
  "retired_pcs32 p = map (\<lambda>s. ucast (rs_pc s)) (retired_slots p)"

text \<open>\<open>g_rf\<close>, the architectural register shadow: both slots, the older first.\<close>

definition rf_slot :: "retire_slot \<Rightarrow> (nat \<Rightarrow> u64) \<Rightarrow> nat \<Rightarrow> u64" where
  "rf_slot s g_rf = (if rs_valid s \<and> rs_reg_valid s then g_rf(unat (rs_reg_ptr s) mod 32 := rs_reg_data s) else g_rf)"

definition rf_cycle :: "retire_ports \<Rightarrow> (nat \<Rightarrow> u64) \<Rightarrow> nat \<Rightarrow> u64" where
  "rf_cycle p g_rf = rf_slot (slot1 p) (rf_slot (slot0 p) g_rf)"

section \<open>The userspace retire log\<close>

record usret_log =
  g_usr_fp :: "bytes option"
  g_usr_n :: nat

text \<open>A packed \<^verbatim>\<open>usret_t\<close>: the ASID rides in the first of the seven padding bytes.\<close>

definition usret_bytes :: "u64 \<Rightarrow> u8 \<Rightarrow> u64 \<Rightarrow> nat \<Rightarrow> u8 \<Rightarrow> bytes" where
  "usret_bytes pc dst val cyc asid =
     le_bytes 4 (ucast pc :: u32) @ le_bytes 4 (of_nat cyc :: u32) @ le_bytes 8 val @ [dst, asid, 0, 0, 0, 0, 0, 0]"

definition usret_add :: "u64 \<Rightarrow> u8 \<Rightarrow> u64 \<Rightarrow> nat \<Rightarrow> u8 \<Rightarrow> usret_log \<Rightarrow> usret_log" where
  "usret_add pc dst val cyc asid u = (case g_usr_fp u of
     None \<Rightarrow> u
   | Some f \<Rightarrow> u\<lparr>g_usr_fp := Some (f @ usret_bytes pc dst val cyc asid), g_usr_n := g_usr_n u + 1\<rparr>)"

definition usret_slot :: "bool \<Rightarrow> nat \<Rightarrow> u8 \<Rightarrow> retire_slot \<Rightarrow> usret_log \<Rightarrow> usret_log" where
  "usret_slot g_usr_kernel cyc asid s u =
     (if rs_valid s \<and> (g_usr_kernel \<or> rs_pc s < 0x80000000)
      then usret_add (rs_pc s) (if rs_reg_valid s then rs_reg_ptr s else 0)
             (if rs_reg_valid s then rs_reg_data s else 0) cyc asid u
      else u)"

definition usret_cycle :: "bool \<Rightarrow> nat \<times> u8 \<times> retire_ports \<Rightarrow> usret_log \<Rightarrow> usret_log" where
  "usret_cycle g_usr_kernel c u = (case c of (cyc, asid, p) \<Rightarrow>
     usret_slot g_usr_kernel cyc asid (slot1 p) (usret_slot g_usr_kernel cyc asid (slot0 p) u))"

section \<open>The archive trace\<close>

record inst_record =
  ir_pc :: u64
  ir_vpc :: u64
  ir_inst :: u32

record rt_cfg =
  g_rt_lo :: nat
  g_rt_hi :: nat
  g_rt_cap :: nat
  g_rt_ring :: nat
  g_rt_useronly :: bool
  g_rt_trig_user :: bool
  g_rt_stop_pc :: u32

text \<open>\<open>rt_archive\<close> is what the stop has serialized, if it has.\<close>

record retire_trace =
  rt_records :: "inst_record list"
  g_rt_ifail :: nat
  g_rt_armed :: bool
  g_rt_stopped :: bool
  rt_archive :: "inst_record list option"

definition rt_inst :: "mem \<Rightarrow> u32 \<Rightarrow> u32" where
  "rt_inst g_mem vpc =
     (if vpc \<ge> 0x80000000 \<and> vpc < 0xc0000000 then be32 g_mem (unat (vpc AND 0x1fffffff)) else 0)"

definition rt_push :: "nat \<Rightarrow> 'a \<Rightarrow> 'a list \<Rightarrow> 'a list" where
  "rt_push ring r xs = (let xs = xs @ [r] in if ring \<noteq> 0 \<and> length xs > ring then tl xs else xs)"

definition rt_emit :: "rt_cfg \<Rightarrow> mem \<Rightarrow> u32 \<Rightarrow> retire_trace \<Rightarrow> retire_trace" where
  "rt_emit cfg g_mem vpc t =
     (if g_rt_useronly cfg \<and> vpc \<ge> 0x80000000 then t
      else t\<lparr>g_rt_ifail := (if rt_inst g_mem vpc = 0 then g_rt_ifail t + 1 else g_rt_ifail t),
             rt_records := rt_push (g_rt_ring cfg) \<lparr>ir_pc = ucast vpc, ir_vpc = ucast vpc, ir_inst = rt_inst g_mem vpc\<rparr>
               (rt_records t)\<rparr>)"

definition rt_window :: "rt_cfg \<Rightarrow> nat \<Rightarrow> retire_trace \<Rightarrow> bool" where
  "rt_window cfg retired t \<longleftrightarrow> retired \<ge> g_rt_lo cfg \<and> (g_rt_hi cfg = 0 \<or> retired < g_rt_hi cfg) \<and>
     (g_rt_cap cfg = 0 \<or> length (rt_records t) < g_rt_cap cfg)"

text \<open>One cycle with \<^verbatim>\<open>RETIRETRACE\<close> set: arm, emit both slots, stop.\<close>

definition rt_cycle :: "rt_cfg \<Rightarrow> mem \<times> nat \<times> retire_ports \<Rightarrow> retire_trace \<Rightarrow> retire_trace" where
  "rt_cycle cfg c t = (case c of (g_mem, retired, p) \<Rightarrow>
     if g_rt_stopped t then t else
     (let t = (if g_rt_trig_user cfg \<and> \<not> g_rt_armed t \<and> (\<exists>pc \<in> set (retired_pcs32 p). pc < 0x80000000)
               then t\<lparr>g_rt_armed := True\<rparr> else t);
          t = (if (\<not> g_rt_trig_user cfg \<or> g_rt_armed t) \<and> rt_window cfg retired t
               then fold (rt_emit cfg g_mem) (retired_pcs32 p) t else t)
      in if g_rt_stop_pc cfg \<noteq> 0 \<and> g_rt_stop_pc cfg \<in> set (retired_pcs32 p)
         then t\<lparr>rt_archive := Some (rt_records t), g_rt_stopped := True\<rparr> else t))"

section \<open>The page-fault history\<close>

definition RN :: nat where
  "RN = 400000"

record prf_entry =
  pe_pc :: u32
  pe_reg :: int
  pe_data :: u64

record prf_probe =
  r_buf :: "nat \<Rightarrow> prf_entry"
  r_i :: nat
  n_fail :: nat
  pf_dumps :: "prf_entry list list"

definition prf_entry_of :: "retire_slot \<Rightarrow> prf_entry" where
  "prf_entry_of s = \<lparr>pe_pc = ucast (rs_pc s),
     pe_reg = (if rs_reg_valid s \<and> unat (rs_reg_ptr s) mod 32 \<noteq> 0 then int (unat (rs_reg_ptr s) mod 32) else - 1),
     pe_data = rs_reg_data s\<rparr>"

definition prf_rec :: "prf_entry \<Rightarrow> prf_probe \<Rightarrow> prf_probe" where
  "prf_rec x s = s\<lparr>r_buf := (r_buf s)(r_i s mod RN := x), r_i := r_i s + 1\<rparr>"

definition prf_history :: "prf_probe \<Rightarrow> prf_entry list" where
  "prf_history s = map (\<lambda>k. r_buf s (k mod RN)) [(if r_i s > RN then r_i s - RN else 0)..<r_i s]"

definition prfault_cycle :: "(nat \<Rightarrow> u64) \<times> retire_ports \<Rightarrow> prf_probe \<Rightarrow> prf_probe" where
  "prfault_cycle c s = (case c of (g_rf, p) \<Rightarrow>
     (let s = fold prf_rec (map prf_entry_of (retired_slots p)) s
      in if 0x880f30fc \<in> set (retired_pcs32 p) \<and> g_rf 9 AND 0xffffffff \<noteq> 0
         then s\<lparr>n_fail := n_fail s + 1, pf_dumps := pf_dumps s @ [prf_history s]\<rparr> else s))"

section \<open>The bad-address probe\<close>

definition rdi :: "mem \<Rightarrow> u32 \<Rightarrow> u32 option" where
  "rdi g_mem va =
     (if va \<ge> 0x80000000 \<and> va < 0xc0000000 then
        (let (off, bad) = fpga_map (va AND 0x1fffffff) in if bad then None else Some (be32 g_mem (unat off)))
      else None)"

definition is_br :: "u32 \<Rightarrow> bool" where
  "is_br insn = (let opc = drop_bit 26 insn in
     (opc = 0 \<and> (insn AND 0x3f = 8 \<or> insn AND 0x3f = 9)) \<or> opc = 1 \<or> (opc \<ge> 2 \<and> opc \<le> 7) \<or> (opc \<ge> 0x14 \<and> opc \<le> 0x17))"

definition is_mem :: "u32 \<Rightarrow> bool" where
  "is_mem insn = (let opc = drop_bit 26 insn in
     (opc \<ge> 0x20 \<and> opc \<le> 0x2e) \<or> opc \<in> {0x30, 0x31, 0x34, 0x35, 0x37, 0x38, 0x39, 0x3c, 0x3d, 0x3f})"

text \<open>The faulting instruction: the one at the EPC, or its delay slot when that is a branch.\<close>

definition fault_insn :: "mem \<Rightarrow> u32 \<Rightarrow> (u32 \<times> u32) option" where
  "fault_insn g_mem epc = (case rdi g_mem epc of
     None \<Rightarrow> None
   | Some insn \<Rightarrow> (if is_br insn then (case rdi g_mem (epc + 4) of Some d \<Rightarrow> Some (epc + 4, d) | None \<Rightarrow> Some (epc, insn))
                  else Some (epc, insn)))"

definition badva_ea :: "(nat \<Rightarrow> u64) \<Rightarrow> u32 \<Rightarrow> u64" where
  "badva_ea g_rf insn = g_rf (unat (drop_bit 21 insn AND 31)) + scast (ucast insn :: u16)"

record badva_probe =
  bv_prev_key :: u64
  bv_log :: "(u32 \<times> u32 \<times> u64 \<times> u64) list"

definition badva_cycle :: "mem \<Rightarrow> (nat \<Rightarrow> u64) \<Rightarrow> u32 \<Rightarrow> u64 \<Rightarrow> u64 \<Rightarrow> badva_probe \<Rightarrow> badva_probe" where
  "badva_cycle g_mem g_rf cause epc badv b =
     (let key = push_bit 6 epc XOR ucast cause XOR push_bit 20 badv
      in if (cause = 2 \<or> cause = 3) \<and> key \<noteq> bv_prev_key b then
           (let b = b\<lparr>bv_prev_key := key\<rparr>
            in case fault_insn g_mem (ucast epc) of
                 Some (fpc, insn) \<Rightarrow>
                   (if is_mem insn \<and> badva_ea g_rf insn AND NOT 0x1fff \<noteq> badv AND NOT 0x1fff
                    then b\<lparr>bv_log := bv_log b @ [(fpc, insn, badva_ea g_rf insn, badv)]\<rparr> else b)
               | None \<Rightarrow> b)
         else b)"

section \<open>Text traces and the pc hash\<close>

record pc_trace =
  trace_started :: bool
  trace_lines :: "(u32 \<times> nat) list"

definition pc_trace_cycle :: "u32 \<Rightarrow> nat \<times> retire_ports \<Rightarrow> pc_trace \<Rightarrow> pc_trace" where
  "pc_trace_cycle kentry c t = (case c of (cyc, p) \<Rightarrow>
     (let t = (if rs_valid (slot0 p) then
                 (let pc = ucast (rs_pc (slot0 p));
                      t = (if \<not> trace_started t \<and> pc = kentry then t\<lparr>trace_started := True\<rparr> else t)
                  in if trace_started t then t\<lparr>trace_lines := trace_lines t @ [(pc, cyc)]\<rparr> else t)
               else t)
      in if rs_valid (slot1 p) \<and> trace_started t
         then t\<lparr>trace_lines := trace_lines t @ [(ucast (rs_pc (slot1 p)), cyc)]\<rparr> else t))"

record pchash =
  ph_h :: u64
  ph_n :: nat
  ph_log :: "(nat \<times> u64 \<times> u32) list"
  ph_dump :: "u32 list"

definition pchash_init :: pchash where
  "pchash_init = \<lparr>ph_h = FNV_OFFSET, ph_n = 0, ph_log = [], ph_dump = []\<rparr>"

definition pchash_pc :: "(nat \<times> nat) option \<Rightarrow> u32 \<Rightarrow> pchash \<Rightarrow> pchash" where
  "pchash_pc pd pc s =
     (let h = fnv (ucast pc) (ph_h s); n = ph_n s + 1
      in s\<lparr>ph_h := h, ph_n := n,
           ph_log := (if n mod 65536 = 0 then ph_log s @ [(n, h, pc)] else ph_log s),
           ph_dump := (case pd of Some (lo, hi) \<Rightarrow> if n \<ge> lo \<and> n < hi then ph_dump s @ [pc] else ph_dump s
                       | None \<Rightarrow> ph_dump s)\<rparr>)"

definition pchash_cycle :: "(nat \<times> nat) option \<Rightarrow> retire_ports \<Rightarrow> pchash \<Rightarrow> pchash" where
  "pchash_cycle pd p s =
     (let s = (if rs_valid (slot0 p) then pchash_pc pd (ucast (rs_pc (slot0 p))) s else s)
      in if rs_valid (slot1 p) then pchash_pc pd (ucast (rs_pc (slot1 p))) s else s)"

section \<open>Stall attribution and the exception log\<close>

text \<open>
  \<open>g_tip\<close>, an ordered map from pc to cycles.  The charges are 1 and 1/2, exact in the source's
  doubles; they are counted here in half cycles.
\<close>

type_synonym tip = "(u32 \<times> nat) list"

fun tip_add :: "u32 \<Rightarrow> nat \<Rightarrow> tip \<Rightarrow> tip" where
  "tip_add k v [] = [(k, v)]"
| "tip_add k v ((k', v') # xs) =
     (if k = k' then (k', v' + v) # xs else if k < k' then (k, v) # (k', v') # xs else (k', v') # tip_add k v xs)"

definition tip_cycle :: "retire_ports \<times> u32 \<Rightarrow> tip \<Rightarrow> tip" where
  "tip_cycle c t = (case c of (p, head_pc) \<Rightarrow>
     if rs_valid (slot0 p) \<or> rs_valid (slot1 p) then
       (let share = 2 div ((if rs_valid (slot0 p) then 1 else 0) + (if rs_valid (slot1 p) then 1 else 0));
            t = (if rs_valid (slot0 p) then tip_add (ucast (rs_pc (slot0 p))) share t else t)
        in if rs_valid (slot1 p) then tip_add (ucast (rs_pc (slot1 p))) share t else t)
     else tip_add head_pc 2 t)"

text \<open>The dump: total, number of pcs, and the 20 most expensive (ties in an unspecified order).\<close>

definition tip_dump :: "tip \<Rightarrow> (nat \<times> nat \<times> tip) option" where
  "tip_dump t = (if t = [] then None
     else Some (sum_list (map snd t), length t, take 20 (rev (sort_key snd t))))"

record exc_watch =
  prev_epc :: u64
  prev_badv :: u64
  prev_sr :: u32
  exc_log :: "(u8 \<times> u64 \<times> u64 \<times> bool) list"

definition exc_cycle :: "retire_ports \<Rightarrow> u32 \<Rightarrow> exc_watch \<Rightarrow> exc_watch" where
  "exc_cycle p status_reg w =
     (let w = (if (p_badvaddr p \<noteq> prev_badv w \<or> p_epc p \<noteq> prev_epc w) \<and> length (exc_log w) < 120
               then w\<lparr>exc_log := exc_log w @ [(p_cause p, p_epc p, p_badvaddr p, bit (prev_sr w) 1)],
                      prev_epc := p_epc p, prev_badv := p_badvaddr p\<rparr>
               else w)
      in w\<lparr>prev_sr := status_reg\<rparr>)"


section \<open>The retire log is a file of fixed records\<close>

definition usret_records :: "bool \<Rightarrow> nat \<times> u8 \<times> retire_ports \<Rightarrow> bytes list" where
  "usret_records g_usr_kernel c = (case c of (cyc, asid, p) \<Rightarrow>
     map (\<lambda>s. usret_bytes (rs_pc s) (if rs_reg_valid s then rs_reg_ptr s else 0)
                (if rs_reg_valid s then rs_reg_data s else 0) cyc asid)
       (filter (\<lambda>s. g_usr_kernel \<or> rs_pc s < 0x80000000) (retired_slots p)))"

lemma length_usret_bytes [simp]: "length (usret_bytes pc dst val cyc asid) = 24"
  by (simp add: usret_bytes_def)

lemma usret_cycle_records:
  "g_usr_fp u = Some f \<Longrightarrow> usret_cycle k c u =
     u\<lparr>g_usr_fp := Some (f @ concat (usret_records k c)), g_usr_n := g_usr_n u + length (usret_records k c)\<rparr>"
  by (cases c) (simp add: usret_cycle_def usret_slot_def usret_add_def usret_records_def retired_slots_def)

lemma nth_record:
  assumes "\<forall>r \<in> set rs. length r = n" "k < length rs"
  shows "take n (drop (n * k) (concat rs)) = rs ! k"
  using assms
proof (induction rs arbitrary: k)
  case (Cons r rs)
  then show ?case by (cases k) (simp_all add: drop_append)
qed simp

text \<open>
  The retire log holds one 24-byte record per logged retire, in retire order with slot 0
  before slot 1: its length is 24 times the record count, and record \<open>k\<close> is found at byte
  \<open>24 k\<close>, which is what the offline decoders index by.
\<close>

theorem usret_log_indexed:
  fixes cs :: "(nat \<times> u8 \<times> retire_ports) list" and kern :: bool
  defines "rs \<equiv> concat (map (usret_records kern) cs)"
  shows "\<exists>f. g_usr_fp (fold (usret_cycle kern) cs \<lparr>g_usr_fp = Some [], g_usr_n = 0\<rparr>) = Some f \<and>
    g_usr_n (fold (usret_cycle kern) cs \<lparr>g_usr_fp = Some [], g_usr_n = 0\<rparr>) = length rs \<and>
    length f = 24 * length rs \<and> map (\<lambda>k. take 24 (drop (24 * k) f)) [0..<length rs] = rs"
proof -
  have "fold (usret_cycle kern) cs u = u\<lparr>g_usr_fp := Some (f @ concat (concat (map (usret_records kern) cs))),
      g_usr_n := g_usr_n u + length (concat (map (usret_records kern) cs))\<rparr>" if "g_usr_fp u = Some f" for u f
    using that
  proof (induction cs arbitrary: u f)
    case (Cons c cs)
    then show ?case by (simp add: usret_cycle_records)
  qed simp
  from this [of "\<lparr>g_usr_fp = Some [], g_usr_n = 0\<rparr>" "[]"]
  have run: "fold (usret_cycle kern) cs \<lparr>g_usr_fp = Some [], g_usr_n = 0\<rparr> =
      \<lparr>g_usr_fp = Some (concat rs), g_usr_n = length rs\<rparr>" by (simp add: rs_def)
  have len: "\<forall>r \<in> set rs. length r = 24" by (auto simp: rs_def usret_records_def split: prod.splits)
  then have "length (concat rs) = 24 * length rs" by (induction rs) auto
  moreover have "map (\<lambda>k. take 24 (drop (24 * k) (concat rs))) [0..<length rs] = rs"
    by (rule nth_equalityI) (simp_all add: nth_record [OF len])
  ultimately show ?thesis by (simp add: run)
qed

section \<open>The archive holds the lead-up to the stop\<close>

lemma rt_push_last_n: "length xs \<le> Suc n \<Longrightarrow> rt_push (Suc n) x xs = last_n (Suc n) (xs @ [x])"
proof (cases "length xs = Suc n")
  case True
  then show ?thesis by (cases xs) (simp_all add: rt_push_def last_n_def)
next
  case False
  assume "length xs \<le> Suc n"
  then show ?thesis using False by (simp add: rt_push_def last_n_def)
qed

interpretation rt_ring: recent_log "rt_push (Suc n)" "\<lambda>xs. xs" "Suc n" "\<lambda>xs. length xs \<le> Suc n" for n
  by unfold_locales (simp_all add: rt_push_last_n)

definition rt_emits :: "rt_cfg \<Rightarrow> mem \<times> nat \<times> retire_ports \<Rightarrow> inst_record list" where
  "rt_emits cfg c = (case c of (g_mem, retired, p) \<Rightarrow>
     map (\<lambda>vpc. \<lparr>ir_pc = ucast vpc, ir_vpc = ucast vpc, ir_inst = rt_inst g_mem vpc\<rparr>)
       (filter (\<lambda>vpc. \<not> (g_rt_useronly cfg \<and> vpc \<ge> 0x80000000)) (retired_pcs32 p)))"

text \<open>A capture of everything: no retire window, no cap and no trigger.\<close>

definition rt_unlimited :: "rt_cfg \<Rightarrow> bool" where
  "rt_unlimited cfg \<longleftrightarrow> g_rt_lo cfg = 0 \<and> g_rt_hi cfg = 0 \<and> g_rt_cap cfg = 0 \<and> \<not> g_rt_trig_user cfg"

definition rt_stops :: "rt_cfg \<Rightarrow> mem \<times> nat \<times> retire_ports \<Rightarrow> bool" where
  "rt_stops cfg c \<longleftrightarrow> g_rt_stop_pc cfg \<noteq> 0 \<and> g_rt_stop_pc cfg \<in> set (retired_pcs32 (snd (snd c)))"

definition rt_init :: retire_trace where
  "rt_init = \<lparr>rt_records = [], g_rt_ifail = 0, g_rt_armed = False, g_rt_stopped = False, rt_archive = None\<rparr>"

lemma fold_rt_emit:
  "rt_records (fold (rt_emit cfg m) pcs t) = fold (rt_push (g_rt_ring cfg)) (rt_emits cfg (m, r, p)) (rt_records t)"
  "g_rt_stopped (fold (rt_emit cfg m) pcs t) = g_rt_stopped t" "rt_archive (fold (rt_emit cfg m) pcs t) = rt_archive t"
  if "retired_pcs32 p = pcs"
  unfolding rt_emits_def prod.case that
  by (induction pcs arbitrary: t) (auto simp: rt_emit_def)

lemma rt_cycle_records:
  assumes "rt_unlimited cfg" "\<not> g_rt_stopped t"
  shows "rt_records (rt_cycle cfg c t) = fold (rt_push (g_rt_ring cfg)) (rt_emits cfg c) (rt_records t)"
    "g_rt_stopped (rt_cycle cfg c t) \<longleftrightarrow> rt_stops cfg c"
    "rt_archive (rt_cycle cfg c t) = (if rt_stops cfg c
       then Some (fold (rt_push (g_rt_ring cfg)) (rt_emits cfg c) (rt_records t)) else rt_archive t)"
proof -
  obtain m r p where c: "c = (m, r, p)" by (metis prod_cases3)
  note e = fold_rt_emit [OF refl, where p = p and cfg = cfg and m = m and t = t]
  show "rt_records (rt_cycle cfg c t) = fold (rt_push (g_rt_ring cfg)) (rt_emits cfg c) (rt_records t)"
    "g_rt_stopped (rt_cycle cfg c t) \<longleftrightarrow> rt_stops cfg c"
    "rt_archive (rt_cycle cfg c t) = (if rt_stops cfg c
       then Some (fold (rt_push (g_rt_ring cfg)) (rt_emits cfg c) (rt_records t)) else rt_archive t)"
    using assms e by (simp_all add: rt_cycle_def rt_stops_def rt_unlimited_def rt_window_def Let_def c)
qed

lemma rt_run_records:
  assumes "rt_unlimited cfg" "g_rt_ring cfg = Suc n" "\<forall>c \<in> set cs. \<not> rt_stops cfg c"
  shows "rt_records (fold (rt_cycle cfg) cs rt_init) = last_n (Suc n) (concat (map (rt_emits cfg) cs)) \<and>
    \<not> g_rt_stopped (fold (rt_cycle cfg) cs rt_init)"
  using assms(3)
proof (induction cs rule: rev_induct)
  case (snoc c cs)
  then have IH: "rt_records (fold (rt_cycle cfg) cs rt_init) = last_n (Suc n) (concat (map (rt_emits cfg) cs))"
    "\<not> g_rt_stopped (fold (rt_cycle cfg) cs rt_init)" by simp_all
  show ?case
    using rt_cycle_records(1,2) [OF assms(1) IH(2), of c] snoc.prems
      rt_ring.contents_pushes [of "last_n (Suc n) (concat (map (rt_emits cfg) cs))" n "rt_emits cfg c"]
    by (simp add: IH(1) assms(2) last_n_snoc) (simp add: last_n_id)
qed (simp add: rt_init_def)

lemma rt_stopped_frozen: "g_rt_stopped t \<Longrightarrow> fold (rt_cycle cfg) cs t = t"
  by (induction cs) (simp_all add: rt_cycle_def split: prod.splits)

text \<open>
  The archive a stop writes is the lead-up to the stop: with a ring of \<open>N\<close> records, when
  the stop pc first retires the archive holds exactly the last \<open>N\<close> records of everything
  retired up to and including that cycle, and nothing that retires later changes it.
\<close>

theorem rt_stop_archive:
  assumes "rt_unlimited cfg" "g_rt_ring cfg = N" "0 < N"
    and "\<forall>c \<in> set cs. \<not> rt_stops cfg c" "rt_stops cfg c"
  shows "rt_archive (fold (rt_cycle cfg) (cs @ [c] @ cs') rt_init) =
    Some (last_n N (concat (map (rt_emits cfg) (cs @ [c]))))"
proof -
  obtain n where N: "N = Suc n" using assms(3) by (cases N) auto
  define t where "t = fold (rt_cycle cfg) cs rt_init"
  have t: "rt_records t = last_n (Suc n) (concat (map (rt_emits cfg) cs))" "\<not> g_rt_stopped t"
    using rt_run_records [OF assms(1) _ assms(4), of n] assms(2) N by (simp_all add: t_def)
  have "rt_archive (rt_cycle cfg c t) = Some (last_n N (concat (map (rt_emits cfg) (cs @ [c]))))"
    using rt_cycle_records(3) [OF assms(1) t(2), of c] assms(2,5)
      rt_ring.contents_pushes [of "rt_records t" n "rt_emits cfg c"]
    by (simp add: t(1) N last_n_snoc) (simp add: last_n_id)
  moreover have "g_rt_stopped (rt_cycle cfg c t)" using rt_cycle_records(2) [OF assms(1) t(2)] assms(5) by simp
  ultimately show ?thesis by (simp add: t_def rt_stopped_frozen)
qed

definition sample_ports :: "u64 \<Rightarrow> u64 \<Rightarrow> retire_ports" where
  "sample_ports pc0 pc1 = (let s = \<lparr>rs_valid = True, rs_pc = 0, rs_reg_valid = False, rs_reg_ptr = 0, rs_reg_data = 0,
       rs_fp_reg_valid = False, rs_fp_reg_ptr = 0, rs_fp_reg_data = 0, rs_fcr_reg_valid = False, rs_fcr_reg_ptr = 0,
       rs_fcr_reg_data = 0\<rparr>
     in \<lparr>slot0 = s\<lparr>rs_pc := pc0\<rparr>, slot1 = s\<lparr>rs_pc := pc1\<rparr>, took_irq = False, p_cause = 0, p_epc = 0, p_badvaddr = 0\<rparr>)"

definition sample_rt :: rt_cfg where
  "sample_rt = \<lparr>g_rt_lo = 0, g_rt_hi = 0, g_rt_cap = 0, g_rt_ring = 2, g_rt_useronly = False, g_rt_trig_user = False,
     g_rt_stop_pc = 0x100c\<rparr>"

lemma sample_retired: "retired_pcs32 (sample_ports pc0 pc1) = [ucast pc0, ucast pc1]"
  by (simp add: retired_pcs32_def retired_slots_def sample_ports_def Let_def)

theorem rt_stop_archive_witness:
  "rt_unlimited sample_rt \<and> rt_stops sample_rt ((\<lambda>_. 0), 4, sample_ports 0x1008 0x100c) \<and>
   rt_archive (fold (rt_cycle sample_rt) ([((\<lambda>_. 0), 2, sample_ports 0x1000 0x1004)] @
     [((\<lambda>_. 0), 4, sample_ports 0x1008 0x100c)] @ [((\<lambda>_. 0), 6, sample_ports 0x2000 0x2004)]) rt_init) =
   Some [\<lparr>ir_pc = 0x1008, ir_vpc = 0x1008, ir_inst = 0\<rparr>, \<lparr>ir_pc = 0x100c, ir_vpc = 0x100c, ir_inst = 0\<rparr>]"
proof -
  have h: "rt_unlimited sample_rt" "rt_stops sample_rt ((\<lambda>_. 0), 4, sample_ports 0x1008 0x100c)"
    "\<forall>c \<in> set [((\<lambda>_. 0), 2, sample_ports 0x1000 0x1004)]. \<not> rt_stops sample_rt c"
    by (simp_all add: rt_unlimited_def rt_stops_def sample_rt_def sample_retired)
  have "last_n 2 (concat (map (rt_emits sample_rt) ([((\<lambda>_. 0), 2, sample_ports 0x1000 0x1004)] @
      [((\<lambda>_. 0), 4, sample_ports 0x1008 0x100c)]))) =
    [\<lparr>ir_pc = 0x1008, ir_vpc = 0x1008, ir_inst = 0\<rparr>, \<lparr>ir_pc = 0x100c, ir_vpc = 0x100c, ir_inst = 0\<rparr>]"
    by (simp add: rt_emits_def sample_retired rt_inst_def sample_rt_def last_n_def)
  with rt_stop_archive [OF h(1) _ _ h(3,2), of 2 "[((\<lambda>_. 0), 6, sample_ports 0x2000 0x2004)]"] h(1,2)
  show ?thesis by (simp add: sample_rt_def)
qed


section \<open>The archive reads instructions past the address map\<close>

text \<open>
  The archive trace records the wrong word for code outside the identity part of the
  map: for any kseg0/kseg1 pc in the second 128 MB of memory or in the PROM shadow there is
  a DRAM content in which the core fetches one word from the mapped offset while the trace
  records another.
\<close>

theorem rt_inst_unmapped:
  assumes "0x80000000 \<le> vpc" "vpc < 0xc0000000"
    and "0x10000000 \<le> unat (vpc AND 0x1fffffff) \<and> unat (vpc AND 0x1fffffff) < 0x18000000 \<or>
         0x1f000000 \<le> unat (vpc AND 0x1fffffff)"
  shows "\<exists>g_mem. rdi g_mem vpc = Some 0x24020001 \<and> rt_inst g_mem vpc = 0"
proof -
  define pa where "pa = vpc AND 0x1fffffff"
  have lt: "unat pa < 0x20000000" by (simp add: pa_def mask_simps unat_take_bit_mod)
  have ok: "\<not> snd (fpga_map pa)" using lt by (simp add: fpga_bad_iff)
  define off where "off = unat (fst (fpga_map pa))"
  have "unat pa mod 0x10000000 + 0x10000000 \<le> unat pa" if "0x10000000 \<le> unat pa"
    using le_mod_geq [OF that] mod_less_eq_dividend [of "unat pa - 0x10000000" "0x10000000"] that by linarith
  then have "off + 4 \<le> unat pa" using assms(3) lt unfolding off_def unat_fpga_map pa_def [symmetric] by auto
  define g_mem where "g_mem = mem_copy (\<lambda>_. 0) off (be32_bytes 0x24020001)"
  have "be32 g_mem off = 0x24020001" by (simp add: g_mem_def be32_mem_copy)
  moreover have "be32 g_mem (unat pa) = 0"
    using \<open>off + 4 \<le> unat pa\<close> unfolding g_mem_def by (subst be32_mem_copy_other) (simp_all add: be32_def)
  ultimately show ?thesis
    using assms(1,2) ok by (intro exI [of _ g_mem]) (auto simp: rdi_def rt_inst_def pa_def [symmetric] off_def split: prod.splits)
qed

theorem rt_inst_unmapped_witness:
  "(0x80000000 :: u32) \<le> 0xbfc00000 \<and> (\<exists>g_mem. rdi g_mem 0xbfc00000 = Some 0x24020001 \<and> rt_inst g_mem 0xbfc00000 = 0)"
  using rt_inst_unmapped [of "0xbfc00000"] by simp

section \<open>The page-fault dump\<close>

lemma RN_pos: "0 < RN"
  by (simp add: RN_def)

lemma prf_history_circular: "prf_history s = circular RN (r_buf s) (r_i s)"
proof -
  have "(if r_i s > RN then r_i s - RN else 0) = r_i s - RN" by simp
  then show ?thesis unfolding prf_history_def circular_def by (simp only:)
qed

lemma prf_history_rec: "prf_history (prf_rec x s) = last_n RN (prf_history s @ [x])"
  unfolding prf_history_circular using circular_push [OF RN_pos, of "r_buf s" "r_i s" x] by (simp add: prf_rec_def)

interpretation prf_ring: recent_log prf_rec prf_history RN "\<lambda>_. True"
  by unfold_locales (simp_all add: prf_history_rec)

definition prf_init :: prf_probe where
  "prf_init = \<lparr>r_buf = (\<lambda>_. \<lparr>pe_pc = 0, pe_reg = 0, pe_data = 0\<rparr>), r_i = 0, n_fail = 0, pf_dumps = []\<rparr>"

lemma prf_history_dumps [simp]: "prf_history (s\<lparr>n_fail := n, pf_dumps := d\<rparr>) = prf_history s"
  by (simp add: prf_history_def)

definition prf_stream :: "((nat \<Rightarrow> u64) \<times> retire_ports) list \<Rightarrow> prf_entry list" where
  "prf_stream cs = concat (map (\<lambda>(_, p). map prf_entry_of (retired_slots p)) cs)"

text \<open>
  The page-fault probe's circular buffer loses nothing it should hold: after any run, a
  failing page fault dumps exactly the last 400000 retires before it, oldest first, its own
  cycle included.
\<close>

theorem prfault_dump_exact:
  assumes "0x880f30fc \<in> set (retired_pcs32 p)" "g_rf 9 AND 0xffffffff \<noteq> 0"
  shows "pf_dumps (fold prfault_cycle (cs @ [(g_rf, p)]) prf_init) =
    pf_dumps (fold prfault_cycle cs prf_init) @ [last_n RN (prf_stream (cs @ [(g_rf, p)]))]"
proof -
  define recs where "recs p s = fold prf_rec (map prf_entry_of (retired_slots p)) s" for p s
  have step: "prf_history (prfault_cycle c s) = prf_history (recs (snd c) s)" for c s
    by (cases c) (simp add: prfault_cycle_def recs_def Let_def)
  have rec: "prf_history (recs q s) = last_n RN (prf_history s @ map prf_entry_of (retired_slots q))"
    if "last_n RN (prf_history s) = prf_history s" for q s
    unfolding recs_def by (rule prf_ring.contents_pushes) (simp_all add: that)
  have hist: "prf_history (fold prfault_cycle cs prf_init) = last_n RN (prf_stream cs)"
  proof (induction cs rule: rev_induct)
    case (snoc c cs)
    have "last_n RN (prf_history (fold prfault_cycle cs prf_init)) = prf_history (fold prfault_cycle cs prf_init)"
      using last_n_snoc [of RN "prf_stream cs" "[]"] by (simp add: snoc.IH)
    from rec [OF this, of "snd c"] show ?case
      by (cases c) (simp add: step snoc.IH last_n_snoc prf_stream_def)
  qed (simp add: prf_history_def prf_init_def prf_stream_def)
  have dumps: "pf_dumps (recs q s) = pf_dumps s" for q s
  proof -
    have "pf_dumps (fold prf_rec xs s) = pf_dumps s" for xs
      by (induction xs arbitrary: s) (simp_all add: prf_rec_def)
    then show ?thesis by (simp add: recs_def)
  qed
  define s where "s = fold prfault_cycle cs prf_init"
  have "last_n RN (prf_history s) = prf_history s"
    using last_n_snoc [of RN "prf_stream cs" "[]"] by (simp add: s_def hist)
  from rec [OF this, of p] have "prf_history (recs p s) = last_n RN (prf_stream (cs @ [(g_rf, p)]))"
    by (simp add: s_def hist last_n_snoc prf_stream_def)
  moreover have "pf_dumps (prfault_cycle (g_rf, p) s) = pf_dumps s @ [prf_history (recs p s)]"
    using assms dumps [of p s] by (simp add: prfault_cycle_def recs_def Let_def)
  ultimately show ?thesis by (simp add: s_def)
qed

theorem prfault_dump_exact_witness:
  "0x880f30fc \<in> set (retired_pcs32 (sample_ports 0x880f30fc 0x880f3100)) \<and>
   pf_dumps (fold prfault_cycle ([] @ [((\<lambda>_. 11), sample_ports 0x880f30fc 0x880f3100)]) prf_init) =
     pf_dumps (fold prfault_cycle [] prf_init) @ [last_n RN (prf_stream ([] @ [((\<lambda>_. 11), sample_ports 0x880f30fc 0x880f3100)]))]"
proof
  show h: "0x880f30fc \<in> set (retired_pcs32 (sample_ports 0x880f30fc 0x880f3100))" by (simp add: sample_retired)
  show "pf_dumps (fold prfault_cycle ([] @ [((\<lambda>_. 11), sample_ports 0x880f30fc 0x880f3100)]) prf_init) =
     pf_dumps (fold prfault_cycle [] prf_init) @ [last_n RN (prf_stream ([] @ [((\<lambda>_. 11), sample_ports 0x880f30fc 0x880f3100)]))]"
    by (rule prfault_dump_exact [OF h]) simp
qed

section \<open>The pc hash\<close>

definition pc_fnv :: "u32 list \<Rightarrow> u64" where
  "pc_fnv pcs = fold (\<lambda>pc. fnv (ucast pc)) pcs FNV_OFFSET"

lemma pchash_cycle_pcs: "pchash_cycle pd p s = fold (pchash_pc pd) (retired_pcs32 p) s"
  by (simp add: pchash_cycle_def retired_pcs32_def retired_slots_def Let_def)

lemma div_Suc_step: "Suc n div 65536 = (if Suc n mod 65536 = 0 then Suc (n div 65536) else n div 65536)"
  by (simp add: div_Suc)

text \<open>
  The rolling hash depends on the retired pcs alone, not on how they pair up in cycles:
  after any run the log holds, for every multiple of 65536 reached, the FNV hash of exactly
  that many first pcs and the pc it was reached at, which is what the reference simulator
  prints per instruction count.
\<close>

theorem pchash_log_exact:
  fixes ps :: "retire_ports list"
  defines "pcs \<equiv> concat (map retired_pcs32 ps)"
  shows "ph_log (fold (pchash_cycle pd) ps pchash_init) =
    map (\<lambda>k. (65536 * Suc k, pc_fnv (take (65536 * Suc k) pcs), pcs ! (65536 * Suc k - 1))) [0..<length pcs div 65536]"
proof -
  have "fold (pchash_cycle pd) ps s = fold (pchash_pc pd) (concat (map retired_pcs32 ps)) s" for s
    by (induction ps arbitrary: s) (simp_all add: pchash_cycle_pcs)
  moreover have "ph_log (fold (pchash_pc pd) pcs pchash_init) =
      map (\<lambda>k. (65536 * Suc k, pc_fnv (take (65536 * Suc k) pcs), pcs ! (65536 * Suc k - 1))) [0..<length pcs div 65536] \<and>
      ph_n (fold (pchash_pc pd) pcs pchash_init) = length pcs \<and> ph_h (fold (pchash_pc pd) pcs pchash_init) = pc_fnv pcs"
    for pcs
  proof (induction pcs rule: rev_induct)
    case (snoc pc pcs)
    let ?f = "\<lambda>pcs k. (65536 * Suc k, pc_fnv (take (65536 * Suc k) pcs), pcs ! (65536 * Suc k - 1))"
    have old: "map (?f (pcs @ [pc])) [0..<length pcs div 65536] = map (?f pcs) [0..<length pcs div 65536]"
    proof (rule map_cong [OF refl])
      fix k assume "k \<in> set [0..<length pcs div 65536]"
      then have "65536 * Suc k \<le> length pcs" by auto
      then show "?f (pcs @ [pc]) k = ?f pcs k" by (simp add: nth_append)
    qed
    have hit: "65536 * Suc (length pcs div 65536) = Suc (length pcs)" if "Suc (length pcs) mod 65536 = 0"
      using that div_Suc_step [of "length pcs"] by (metis add.right_neutral mult_div_mod_eq)
    have div: "length (pcs @ [pc]) div 65536 =
        (if Suc (length pcs) mod 65536 = 0 then Suc (length pcs div 65536) else length pcs div 65536)"
      unfolding length_append_singleton by (rule div_Suc_step)
    have new: "map (?f (pcs @ [pc])) [0..<length (pcs @ [pc]) div 65536] = map (?f pcs) [0..<length pcs div 65536] @
        (if Suc (length pcs) mod 65536 = 0 then [(Suc (length pcs), pc_fnv (pcs @ [pc]), pc)] else [])"
      unfolding div using hit old by (auto simp del: mult_Suc_right)
    show ?case using snoc.IH unfolding new by (auto simp: pchash_pc_def pc_fnv_def Let_def)
  qed (simp add: pchash_init_def pc_fnv_def)
  ultimately show ?thesis by (simp add: pcs_def)
qed

section \<open>Stall attribution conserves cycles\<close>

definition tip_of :: "u32 \<Rightarrow> tip \<Rightarrow> nat" where
  "tip_of k t = sum_list (map snd (filter (\<lambda>(k', _). k' = k) t))"

definition tip_charges :: "retire_ports \<times> u32 \<Rightarrow> (u32 \<times> nat) list" where
  "tip_charges c = (case retired_pcs32 (fst c) of [] \<Rightarrow> [(snd c, 2)] | pcs \<Rightarrow> map (\<lambda>pc. (pc, 2 div length pcs)) pcs)"

lemma tip_cycle_charges: "tip_cycle c t = fold (\<lambda>(k, v). tip_add k v) (tip_charges c) t"
  by (cases c) (auto simp: tip_cycle_def tip_charges_def retired_pcs32_def retired_slots_def Let_def)

lemma tip_add_sum: "sum_list (map snd (tip_add k v t)) = sum_list (map snd t) + v"
  by (induction k v t rule: tip_add.induct) auto

lemma tip_add_of: "tip_of k' (tip_add k v t) = tip_of k' t + (if k = k' then v else 0)"
  by (induction k v t rule: tip_add.induct) (auto simp: tip_of_def)

lemma tip_add_keys: "set (map fst (tip_add k v t)) = insert k (set (map fst t))"
  by (induction k v t rule: tip_add.induct) auto

lemma tip_add_sorted: "sorted_wrt (<) (map fst t) \<Longrightarrow> sorted_wrt (<) (map fst (tip_add k v t))"
proof (induction k v t rule: tip_add.induct)
  case (2 k v k' v' xs)
  then show ?case using tip_add_keys [of k v xs] by (auto simp del: set_map)
qed simp

lemma tip_charges_sum: "sum_list (map snd (tip_charges c)) = 2"
  by (auto simp: tip_charges_def retired_pcs32_def retired_slots_def numeral_2_eq_2)

text \<open>
  Stall attribution accounts for every cycle once: after any run the map is ordered with
  one entry per pc, its charges add up to the cycles run, and the charge of each pc is the
  sum of its shares, a whole cycle for a lone retiree or a stalled head and half for each of
  a pair.
\<close>

theorem tip_conserves:
  "sorted_wrt (<) (map fst (fold tip_cycle cs [])) \<and>
   sum_list (map snd (fold tip_cycle cs [])) = 2 * length cs \<and>
   tip_of pc (fold tip_cycle cs []) = sum_list (map (\<lambda>c. tip_of pc (tip_charges c)) cs)"
proof -
  have charge: "sum_list (map snd (fold (\<lambda>(k, v). tip_add k v) xs t)) = sum_list (map snd t) + sum_list (map snd xs)"
    "tip_of pc (fold (\<lambda>(k, v). tip_add k v) xs t) = tip_of pc t + tip_of pc xs"
    "sorted_wrt (<) (map fst t) \<Longrightarrow> sorted_wrt (<) (map fst (fold (\<lambda>(k, v). tip_add k v) xs t))" for xs t
    by (induction xs arbitrary: t) (auto simp: tip_add_sum tip_add_of tip_add_sorted, auto simp: tip_of_def)
  show ?thesis
  proof (induction cs rule: rev_induct)
    case (snoc c cs)
    then show ?case by (simp add: tip_cycle_charges charge tip_charges_sum)
  qed (simp add: tip_of_def)
qed

end
