(* ===== verification/Monitor.thy ===== *)
theory Monitor
  imports Checker
begin

text \<open>
  The TCP monitor of \<^verbatim>\<open>sim/henry_tb.cpp\<close>: the line buffer and its editing (\<^verbatim>\<open>mon_poll\<close>), every
  command of \<^verbatim>\<open>mon_cmd\<close> with its argument parsing and its output, and the main loop's use of
  the halt and step state.  Sockets are the inputs of \<open>mon_poll\<close> (what \<^verbatim>\<open>accept\<close> and
  \<^verbatim>\<open>read\<close> return); what is written to the client is the field \<open>mon_out\<close>.
\<close>

section \<open>Numbers and strings of the C library\<close>

definition NUL :: char where
  "NUL = CHR 0x00"

definition digit_char :: "nat \<Rightarrow> char" where
  "digit_char d = ''0123456789abcdef'' ! d"

text \<open>\<open>%0<n>x\<close> of a value of \<open>n\<close> hex digits, and \<^verbatim>\<open>%llu\<close>.\<close>

definition hex :: "nat \<Rightarrow> nat \<Rightarrow> string" where
  "hex n x = map (\<lambda>i. digit_char (x div 16 ^ (n - 1 - i) mod 16)) [0..<n]"

fun dec :: "nat \<Rightarrow> string" where
  "dec n = (if n < 10 then [digit_char n] else dec (n div 10) @ [digit_char (n mod 10)])"

declare dec.simps [simp del]

definition digit_val :: "char \<Rightarrow> nat" where
  "digit_val c = (of_char c :: nat) - 48"

definition dec_val :: "string \<Rightarrow> nat" where
  "dec_val ds = foldl (\<lambda>v c. 10 * v + digit_val c) 0 ds"

text \<open>\<^verbatim>\<open>atoi\<close> and \<^verbatim>\<open>strtoull(p, 0, 10)\<close> at a pointer to a digit; the latter saturates.\<close>

definition atoi :: "string \<Rightarrow> nat" where
  "atoi p = dec_val (takeWhile is_digit p)"

definition strtoull10 :: "string \<Rightarrow> u64" where
  "strtoull10 p = of_nat (min (dec_val (takeWhile is_digit p)) (2 ^ 64 - 1))"

definition is_hex :: "char \<Rightarrow> bool" where
  "is_hex c \<longleftrightarrow> is_digit c \<or> (of_char c :: nat) \<in> {65..70} \<or> (of_char c :: nat) \<in> {97..102}"

definition hex_val :: "char \<Rightarrow> nat" where
  "hex_val c = (let n = (of_char c :: nat) in if is_digit c then n - 48 else if n \<ge> 97 then n - 87 else n - 55)"

text \<open>\<^verbatim>\<open>strtoul(p, 0, 16)\<close> white space, sign, optional \<open>0x\<close>, digits, saturation.\<close>

definition strip_0x :: "string \<Rightarrow> string" where
  "strip_0x p = (if length p \<ge> 3 \<and> p ! 0 = CHR ''0'' \<and> (p ! 1 = CHR ''x'' \<or> p ! 1 = CHR ''X'') \<and> is_hex (p ! 2)
                 then drop 2 p else p)"

definition is_space :: "char \<Rightarrow> bool" where
  "is_space c \<longleftrightarrow> (of_char c :: nat) \<in> {9..13} \<or> c = CHR '' ''"

definition strtoul16 :: "string \<Rightarrow> u64" where
  "strtoul16 p =
     (let p = dropWhile is_space p; neg = (p \<noteq> [] \<and> hd p = CHR ''-'');
          p = (if p \<noteq> [] \<and> (hd p = CHR ''-'' \<or> hd p = CHR ''+'') then tl p else p);
          v = foldl (\<lambda>v c. 16 * v + hex_val c) 0 (takeWhile is_hex (strip_0x p));
          w = (of_nat (min v (2 ^ 64 - 1)) :: u64)
      in if neg \<and> v < 2 ^ 64 then - w else w)"

text \<open>A pointer into the line buffer is the rest of the buffer; \<open>cstr_at\<close> is the C string there.\<close>

definition cstr_at :: "string \<Rightarrow> string" where
  "cstr_at p = takeWhile (\<lambda>c. c \<noteq> NUL) p"

definition skip_spaces :: "string \<Rightarrow> string" where
  "skip_spaces p = dropWhile (\<lambda>c. c = CHR '' '') p"

definition skip_word :: "string \<Rightarrow> string" where
  "skip_word p = dropWhile (\<lambda>c. c \<noteq> NUL \<and> c \<noteq> CHR '' '') p"

definition has_prefix :: "string \<Rightarrow> string \<Rightarrow> bool" where
  "has_prefix lit p \<longleftrightarrow> strncmp_eq (cstr_at p) lit (length lit)"

definition at_digit :: "string \<Rightarrow> bool" where
  "at_digit p \<longleftrightarrow> p \<noteq> [] \<and> is_digit (hd p)"

section \<open>Monitor state\<close>

definition MON_LINE :: nat where
  "MON_LINE = 512"

record mon =
  g_mon_listen :: bool
  g_mon_client :: bool
  g_mon_cmd_mode :: bool
  g_mon_paused :: bool
  g_mon_step_to :: u64
  g_mon_line :: string
  g_mon_len :: nat
  g_mon_cyc :: u64
  g_mon_retired :: u64
  g_mon_last_pc :: u64
  mon_out :: string

text \<open>What the commands inspect: the golden model if there is one, the DRAM, the timer log.\<close>

record mon_env =
  e_ss :: "iss option"
  e_mem :: mem
  e_timer :: "u64 list"

definition crlf :: string where
  "crlf = [CHR 0x0D, CHR 0x0A]"

definition mon_send :: "string \<Rightarrow> mon \<Rightarrow> mon" where
  "mon_send t m = (if g_mon_client m then m\<lparr>mon_out := mon_out m @ t\<rparr> else m)"

definition mon_console_out :: "char \<Rightarrow> mon \<Rightarrow> mon" where
  "mon_console_out c m = (if g_mon_client m \<and> \<not> g_mon_cmd_mode m then m\<lparr>mon_out := mon_out m @ [c]\<rparr> else m)"

definition log_timer_irq :: "u64 \<Rightarrow> u64 list \<Rightarrow> u64 list" where
  "log_timer_irq g_cur_cyc ts = ts @ [g_cur_cyc]"

section \<open>Commands\<close>

definition g_mon_help :: string where
  "g_mon_help = ''pc regs r<N> cp0 epc mem <hex> [n] state perf timer[N] halt go step[N] help   (Ctrl-] = console)'' @ crlf"

definition u64_hex :: "u64 \<Rightarrow> string" where
  "u64_hex w = hex 16 (unat w)"

definition u32_hex :: "u32 \<Rightarrow> string" where
  "u32_hex w = hex 8 (unat w)"

definition cmd_pc :: "mon_env \<Rightarrow> mon \<Rightarrow> string" where
  "cmd_pc E m = ''rtl_last_pc='' @ u64_hex (g_mon_last_pc m) @ '' iss_pc='' @
     u64_hex (case e_ss E of Some s \<Rightarrow> pc s | None \<Rightarrow> 0) @ '' cyc='' @ dec (unat (g_mon_cyc m)) @
     '' retired='' @ dec (unat (g_mon_retired m)) @ crlf"

definition cmd_state :: "mon_env \<Rightarrow> mon \<Rightarrow> string" where
  "cmd_state E m = ''cyc='' @ dec (unat (g_mon_cyc m)) @ '' retired='' @ dec (unat (g_mon_retired m)) @ '' '' @
     (if g_mon_paused m then ''[PAUSED]'' else ''[running]'') @ '' (checker='' @
     (if e_ss E = None then ''off'' else ''on'') @ '')'' @ crlf"

definition dec3 :: "nat \<Rightarrow> string" where
  "dec3 n = replicate (3 - length (dec n)) (CHR ''0'') @ dec n"

definition cmd_perf :: "mon \<Rightarrow> string" where
  "cmd_perf m = (let c = (if g_mon_cyc m \<noteq> 0 then g_mon_cyc m else 1); k = g_mon_retired m * 1000 div c in
     ''retired='' @ dec (unat (g_mon_retired m)) @ '' cycles='' @ dec (unat (g_mon_cyc m)) @
     '' ipc='' @ dec (unat (k div 1000)) @ ''.'' @ dec3 (unat (k mod 1000)) @ crlf)"

definition cmd_cp0 :: "mon_env \<Rightarrow> string" where
  "cmd_cp0 E = (case e_ss E of
     None \<Rightarrow> ''cp0: no ISS -- run with --checker'' @ crlf
   | Some s \<Rightarrow> ''epc='' @ u64_hex (cpr0_64 s 14) @ '' status='' @ u32_hex (cpr0 s 12) @ '' cause='' @ u32_hex (cpr0 s 13) @
       '' badv='' @ u64_hex (cpr0_64 s 8) @ '' index='' @ u32_hex (cpr0 s 0) @ '' entryhi='' @ u64_hex (cpr0_64 s 10) @ crlf)"

definition reg_line :: "iss \<Rightarrow> nat \<Rightarrow> string" where
  "reg_line s n = ''r'' @ dec n @ replicate (2 - length (dec n)) (CHR '' '') @ ''='' @ u64_hex (gpr s n) @
     (if n mod 2 = 1 then crlf else ''  '')"

definition cmd_regs :: "mon_env \<Rightarrow> string \<Rightarrow> string" where
  "cmd_regs E line = (case e_ss E of
     None \<Rightarrow> ''regs: no ISS -- run with --checker'' @ crlf
   | Some s \<Rightarrow> (let p = skip_spaces (tl line) in
       if at_digit p then (let n = atoi p mod 32 in ''r'' @ dec n @ ''='' @ u64_hex (gpr s n) @ crlf)
       else concat (map (reg_line s) [0..<32])))"

definition cmd_mem :: "mon_env \<Rightarrow> string \<Rightarrow> string" where
  "cmd_mem E line =
     (let p = skip_spaces (drop 3 line);
          addr = (ucast (strtoul16 p) :: u32);
          q = skip_spaces (skip_word p);
          n = min (if at_digit q then atoi q else 4) 64
      in concat (map (\<lambda>i. let a = addr + 4 * of_nat i in
           (case mon_mem_rd (e_mem E) a of
              Some v \<Rightarrow> u32_hex a @ '': '' @ u32_hex v @ crlf
            | None \<Rightarrow> u32_hex a @ '': <out of range>'' @ crlf)) [0..<n]))"

definition cmd_timer :: "mon_env \<Rightarrow> string \<Rightarrow> string" where
  "cmd_timer E line =
     (let ts = e_timer E; n = length ts in
      if n = 0 then ''timer: no timer IRQs logged yet'' @ crlf
      else (let p = skip_spaces (skip_word line); want = (if at_digit p then atoi p else 10);
                first = (if n > want then n - want else 0)
            in ''timer IRQs: '' @ dec n @ '' total  first='' @ dec (unat (ts ! 0)) @ '' last='' @ dec (unat (ts ! (n - 1))) @
               ''  (last '' @ dec want @ '', cyc:+delta)'' @ crlf @
               concat (map (\<lambda>i. ''  #'' @ dec i @ ''  cyc='' @ dec (unat (ts ! i)) @ ''  +'' @
                 dec (unat (if i > 0 then ts ! i - ts ! (i - 1) else 0)) @ crlf) [first..<n])))"

definition step_count :: "string \<Rightarrow> u64" where
  "step_count line =
     (let p = skip_spaces (drop (if line ! 0 = CHR ''s'' \<and> line ! 1 = CHR ''t'' then 4 else 1) line)
      in if at_digit p then strtoull10 p else 1)"

definition mon_cmd :: "mon_env \<Rightarrow> string \<Rightarrow> mon \<Rightarrow> mon" where
  "mon_cmd E buf m =
     (let line = skip_spaces buf; prompt = mon_send ''mon> '' in
      if line ! 0 = NUL \<or> line ! 0 = CHR ''c'' \<and> line ! 1 = NUL
      then mon_send (crlf @ ''[console -- Ctrl-] = monitor]'' @ crlf) (m\<lparr>g_mon_cmd_mode := False\<rparr>)
      else if has_prefix ''help'' line \<or> line ! 0 = CHR ''?'' then prompt (mon_send g_mon_help m)
      else if has_prefix ''pc'' line then prompt (mon_send (cmd_pc E m) m)
      else if has_prefix ''state'' line then prompt (mon_send (cmd_state E m) m)
      else if has_prefix ''perf'' line then prompt (mon_send (cmd_perf m) m)
      else if has_prefix ''cp0'' line \<or> has_prefix ''epc'' line then prompt (mon_send (cmd_cp0 E) m)
      else if has_prefix ''regs'' line \<or> line ! 0 = CHR ''r'' \<and> line ! 1 \<noteq> CHR ''e''
      then prompt (mon_send (cmd_regs E line) m)
      else if has_prefix ''mem'' line then prompt (mon_send (cmd_mem E line) m)
      else if has_prefix ''timer'' line \<or> has_prefix ''tirq'' line then prompt (mon_send (cmd_timer E line) m)
      else if has_prefix ''halt'' line \<or> line ! 0 = CHR ''h''
      then prompt (mon_send (''[halted]'' @ crlf) (m\<lparr>g_mon_paused := True, g_mon_step_to := 0\<rparr>))
      else if has_prefix ''go'' line \<or> line ! 0 = CHR ''g''
      then prompt (mon_send (''[running]'' @ crlf) (m\<lparr>g_mon_paused := False, g_mon_step_to := 0\<rparr>))
      else if has_prefix ''step'' line \<or> line ! 0 = CHR ''s'' \<or> line ! 0 = CHR ''n''
      then mon_send (''[step '' @ dec (unat (step_count line)) @ '' insns...]'' @ crlf)
             (m\<lparr>g_mon_step_to := g_mon_retired m + step_count line, g_mon_paused := False\<rparr>)
      else prompt (mon_send (''? (help)'' @ crlf) m))"

section \<open>Client input\<close>

definition mon_byte :: "mon_env \<Rightarrow> char \<Rightarrow> mon \<Rightarrow> mon" where
  "mon_byte E c m =
     (if c = CHR 0x1D then
        (let m = m\<lparr>g_mon_cmd_mode := \<not> g_mon_cmd_mode m\<rparr>
         in mon_send (if g_mon_cmd_mode m then crlf @ ''[monitor]'' @ crlf @ ''mon> '' else crlf @ ''[console]'' @ crlf) m)
      else if \<not> g_mon_cmd_mode m then m
      else if c = CHR 0x0D \<or> c = CHR 0x0A then
        (let m = mon_send crlf m; m = m\<lparr>g_mon_line := (g_mon_line m)[g_mon_len m := NUL]\<rparr>
         in (mon_cmd E (g_mon_line m) m)\<lparr>g_mon_len := 0\<rparr>)
      else if c = CHR 0x7F \<or> c = CHR 0x08 then
        (if g_mon_len m > 0 then mon_send [CHR 0x08, CHR '' '', CHR 0x08] (m\<lparr>g_mon_len := g_mon_len m - 1\<rparr>) else m)
      else if g_mon_len m < MON_LINE - 1
      then mon_send (cstr_at [c]) (m\<lparr>g_mon_line := (g_mon_line m)[g_mon_len m := c], g_mon_len := g_mon_len m + 1\<rparr>)
      else m)"

text \<open>\<open>accepted\<close>: \<^verbatim>\<open>accept\<close> gave a client.  \<open>got\<close>: what \<^verbatim>\<open>read\<close> gave, nothing, the end, or bytes.\<close>

definition mon_poll :: "mon_env \<Rightarrow> bool \<Rightarrow> string option \<Rightarrow> mon \<Rightarrow> mon" where
  "mon_poll E accepted got m =
     (if \<not> g_mon_listen m then m
      else if \<not> g_mon_client m then
        (if accepted
         then mon_send (crlf @ ''[henry_tb monitor] '' @ [CHR 0x27] @ ''help'' @ [CHR 0x27] @ ''; Ctrl-] toggles console'' @ crlf @ ''mon> '')
                (m\<lparr>g_mon_client := True, g_mon_cmd_mode := True, g_mon_len := 0\<rparr>)
         else m)
      else (case got of
              None \<Rightarrow> m
            | Some [] \<Rightarrow> m\<lparr>g_mon_client := False, g_mon_paused := False, g_mon_step_to := 0\<rparr>
            | Some bs \<Rightarrow> fold (mon_byte E) bs m))"

text \<open>The main loop after a cycle's retirement: a pending step ends here.\<close>

definition mon_step_done :: "u64 \<Rightarrow> u64 \<Rightarrow> mon \<Rightarrow> mon" where
  "mon_step_done retired rtl_pc m =
     (if g_mon_step_to m \<noteq> 0 \<and> retired \<ge> g_mon_step_to m
      then mon_send (''[stepped] retired='' @ dec (unat retired) @ '' rtl_pc='' @ u64_hex rtl_pc @ crlf @ ''mon> '')
             (m\<lparr>g_mon_paused := True, g_mon_step_to := 0\<rparr>)
      else m)"


section \<open>The line buffer is never overrun\<close>

definition mon_wf :: "mon \<Rightarrow> bool" where
  "mon_wf m \<longleftrightarrow> length (g_mon_line m) = MON_LINE \<and> g_mon_len m < MON_LINE"

lemma mon_send_frame [simp]:
  "g_mon_line (mon_send t m) = g_mon_line m" "g_mon_len (mon_send t m) = g_mon_len m"
  "g_mon_cmd_mode (mon_send t m) = g_mon_cmd_mode m" "g_mon_step_to (mon_send t m) = g_mon_step_to m"
  "g_mon_paused (mon_send t m) = g_mon_paused m" "g_mon_retired (mon_send t m) = g_mon_retired m"
  "g_mon_listen (mon_send t m) = g_mon_listen m" "g_mon_client (mon_send t m) = g_mon_client m"
  by (simp_all add: mon_send_def)

lemma mon_cmd_frame [simp]:
  "g_mon_line (mon_cmd E buf m) = g_mon_line m" "g_mon_len (mon_cmd E buf m) = g_mon_len m"
  "g_mon_retired (mon_cmd E buf m) = g_mon_retired m" "g_mon_listen (mon_cmd E buf m) = g_mon_listen m"
  "g_mon_client (mon_cmd E buf m) = g_mon_client m"
  by (simp_all add: mon_cmd_def Let_def)

lemma mon_wf_send [simp]: "mon_wf (mon_send t m) = mon_wf m"
  by (simp add: mon_wf_def)

lemma mon_byte_wf: "mon_wf m \<Longrightarrow> mon_wf (mon_byte E c m)"
  by (auto simp: mon_wf_def mon_byte_def MON_LINE_def Let_def)

lemma fold_mon_byte_wf: "mon_wf m \<Longrightarrow> mon_wf (fold (mon_byte E) cs m)"
  by (induction cs arbitrary: m) (simp_all add: mon_byte_wf)


definition mon_init_state :: mon where
  "mon_init_state = \<lparr>g_mon_listen = True, g_mon_client = True, g_mon_cmd_mode = True, g_mon_paused = False, g_mon_step_to = 0,
     g_mon_line = replicate 512 NUL, g_mon_len = 0, g_mon_cyc = 0, g_mon_retired = 0, g_mon_last_pc = 0, mon_out = []\<rparr>"

definition no_env :: mon_env where
  "no_env = \<lparr>e_ss = None, e_mem = (\<lambda>_. 0), e_timer = []\<rparr>"

lemma mon_init_wf: "mon_wf mon_init_state" "g_mon_cmd_mode mon_init_state" "g_mon_len mon_init_state = 0"
    "g_mon_retired mon_init_state = 0"
  by (simp_all add: mon_wf_def mon_init_state_def MON_LINE_def)


section \<open>Line editing\<close>

text \<open>The abstract editor: a string of at most 511 characters.\<close>

definition edit :: "char \<Rightarrow> string \<Rightarrow> string" where
  "edit c l = (if c = CHR 0x7F \<or> c = CHR 0x08 then butlast l else if length l < MON_LINE - 1 then l @ [c] else l)"

definition edit_key :: "char \<Rightarrow> bool" where
  "edit_key c \<longleftrightarrow> c \<notin> {CHR 0x1D, CHR 0x0D, CHR 0x0A, NUL}"

definition typed :: "mon \<Rightarrow> string" where
  "typed m = take (g_mon_len m) (g_mon_line m)"

lemma mon_byte_edit:
  assumes "mon_wf m" "g_mon_cmd_mode m" "edit_key c"
  shows "typed (mon_byte E c m) = edit c (typed m) \<and> g_mon_cmd_mode (mon_byte E c m)
    \<and> g_mon_retired (mon_byte E c m) = g_mon_retired m"
  using assms
  by (auto simp: mon_wf_def mon_byte_def edit_def edit_key_def typed_def MON_LINE_def Let_def
      take_Suc_conv_app_nth butlast_take)

lemma fold_mon_byte_edit:
  assumes "mon_wf m" "g_mon_cmd_mode m" "\<forall>c \<in> set ks. edit_key c"
  shows "typed (fold (mon_byte E) ks m) = fold edit ks (typed m) \<and> g_mon_cmd_mode (fold (mon_byte E) ks m)
    \<and> mon_wf (fold (mon_byte E) ks m) \<and> g_mon_retired (fold (mon_byte E) ks m) = g_mon_retired m"
  using assms by (induction ks arbitrary: m) (simp_all add: mon_byte_edit mon_byte_wf)

lemma edit_no_nul: "NUL \<notin> set l \<Longrightarrow> edit_key c \<Longrightarrow> NUL \<notin> set (edit c l)"
  by (auto simp: edit_def edit_key_def dest: in_set_butlastD)

lemma fold_edit_no_nul: "NUL \<notin> set l \<Longrightarrow> \<forall>c \<in> set ks. edit_key c \<Longrightarrow> NUL \<notin> set (fold edit ks l)"
  by (induction ks arbitrary: l) (simp_all add: edit_no_nul)

lemma fold_edit_plain:
  assumes "\<forall>c \<in> set ks. c \<noteq> CHR 0x7F \<and> c \<noteq> CHR 0x08" "length l + length ks < MON_LINE"
  shows "fold edit ks l = l @ ks"
  using assms by (induction ks arbitrary: l) (auto simp: edit_def)

text \<open>Enter: the command runs on a buffer that holds the typed text and a terminator.\<close>

lemma mon_byte_enter:
  assumes "mon_wf m" "g_mon_cmd_mode m" "c = CHR 0x0D \<or> c = CHR 0x0A"
  shows "\<exists>rest. mon_byte E c m = (mon_cmd E (typed m @ NUL # rest)
      ((mon_send crlf m)\<lparr>g_mon_line := typed m @ NUL # rest\<rparr>))\<lparr>g_mon_len := 0\<rparr> \<and>
    rest = drop (Suc (g_mon_len m)) (g_mon_line m)"
proof -
  have "(g_mon_line m)[g_mon_len m := NUL] = typed m @ NUL # drop (Suc (g_mon_len m)) (g_mon_line m)"
    using assms(1) by (simp add: mon_wf_def typed_def upd_conv_take_nth_drop)
  moreover have "c \<noteq> CHR 0x1D" using assms(3) by auto
  ultimately show ?thesis using assms(2,3) by (simp add: mon_byte_def Let_def)
qed

lemma cstr_at_append: "NUL \<notin> set l \<Longrightarrow> cstr_at (l @ NUL # r) = l"
proof -
  assume "NUL \<notin> set l"
  then have "\<forall>c \<in> set l. c \<noteq> NUL" by auto
  then show ?thesis by (simp add: cstr_at_def)
qed

lemma mon_line_runs:
  assumes "mon_wf m" "g_mon_cmd_mode m" "g_mon_len m = 0" "\<forall>c \<in> set ks. edit_key c"
  shows "\<exists>buf m'. fold (mon_byte E) (ks @ [CHR 0x0D]) m = (mon_cmd E buf m')\<lparr>g_mon_len := 0\<rparr> \<and>
    cstr_at buf = fold edit ks [] \<and> g_mon_line m' = buf \<and> length buf = MON_LINE \<and> g_mon_retired m' = g_mon_retired m \<and> g_mon_cmd_mode m'"
proof -
  define m1 where "m1 = fold (mon_byte E) ks m"
  have m1: "typed m1 = fold edit ks []" "g_mon_cmd_mode m1" "mon_wf m1" "g_mon_retired m1 = g_mon_retired m"
    using fold_mon_byte_edit [OF assms(1,2,4), of E] assms(3) by (simp_all add: m1_def typed_def)
  obtain rest where r: "mon_byte E (CHR 0x0D) m1 = (mon_cmd E (typed m1 @ NUL # rest)
      ((mon_send crlf m1)\<lparr>g_mon_line := typed m1 @ NUL # rest\<rparr>))\<lparr>g_mon_len := 0\<rparr>"
    "rest = drop (Suc (g_mon_len m1)) (g_mon_line m1)"
    using mon_byte_enter [OF m1(3,2), of "CHR 0x0D"] by auto
  have "length (typed m1 @ NUL # rest) = MON_LINE" using m1(3) by (simp add: r(2) typed_def mon_wf_def)
  moreover have "cstr_at (typed m1 @ NUL # rest) = fold edit ks []"
    using cstr_at_append [of "typed m1" rest] fold_edit_no_nul [of "[]" ks] assms(4) m1(1) by simp
  moreover have "fold (mon_byte E) (ks @ [CHR 0x0D]) m = mon_byte E (CHR 0x0D) m1" by (simp add: m1_def)
  ultimately show ?thesis
    using r(1) m1(2,4) by (intro exI [of _ "typed m1 @ NUL # rest"] exI [of _ "(mon_send crlf m1)\<lparr>g_mon_line := typed m1 @ NUL # rest\<rparr>"]) simp
qed


text \<open>
  C24.  The monitor's line editing implements the abstract editor: after any keys in command mode,
  with backspaces and over-long input, Enter runs the command on a buffer whose C string is
  the edited text, and leaves an empty line.
\<close>

theorem mon_line_refines_editor:
  assumes "mon_wf m" "g_mon_cmd_mode m" "g_mon_len m = 0" "\<forall>c \<in> set ks. edit_key c"
  shows "\<exists>buf m'. fold (mon_byte E) (ks @ [CHR 0x0D]) m = (mon_cmd E buf m')\<lparr>g_mon_len := 0\<rparr> \<and>
    cstr_at buf = fold edit ks [] \<and> g_mon_line m' = buf \<and> length buf = MON_LINE \<and> g_mon_retired m' = g_mon_retired m"
proof -
  from mon_line_runs [OF assms, of E] show ?thesis by blast
qed

theorem mon_line_refines_editor_witness:
  "edit_key (CHR ''h'') \<and> edit_key (CHR 0x08) \<and>
   (\<exists>buf m'. fold (mon_byte no_env) ([CHR ''h'', CHR 0x08, CHR ''g''] @ [CHR 0x0D]) mon_init_state =
     (mon_cmd no_env buf m')\<lparr>g_mon_len := 0\<rparr> \<and> cstr_at buf = ''g'')"
proof -
  have k: "edit_key (CHR ''h'')" "edit_key (CHR 0x08)" "edit_key (CHR ''g'')" by (simp_all add: edit_key_def NUL_def)
  have "fold edit [CHR ''h'', CHR 0x08, CHR ''g''] [] = ''g''" by (simp add: edit_def MON_LINE_def)
  with mon_line_refines_editor [OF mon_init_wf(1-3), of "[CHR ''h'', CHR 0x08, CHR ''g'']" no_env] k
  show ?thesis by fastforce
qed

section \<open>Two surprises of the command line\<close>

lemma cstr_split: "length (cstr_at p) < length p \<Longrightarrow> \<exists>r. p = cstr_at p @ NUL # r"
proof (induction p)
  case (Cons c p)
  show ?case
  proof (cases "c = NUL")
    case False
    then have "cstr_at (c # p) = c # cstr_at p" by (simp add: cstr_at_def)
    then show ?thesis using Cons by auto
  qed (simp add: cstr_at_def)
qed (simp add: cstr_at_def)

lemma mon_byte_enter_len: "g_mon_cmd_mode m \<Longrightarrow> c = CHR 0x0D \<or> c = CHR 0x0A \<Longrightarrow> g_mon_len (mon_byte E c m) = 0"
  by (auto simp: mon_byte_def Let_def)

lemma mon_cmd_empty: "buf ! 0 = NUL \<Longrightarrow> buf \<noteq> [] \<Longrightarrow> \<not> g_mon_cmd_mode (mon_cmd E buf m)"
proof -
  assume b: "buf ! 0 = NUL" "buf \<noteq> []"
  then have "skip_spaces buf = buf" by (cases buf) (simp_all add: skip_spaces_def NUL_def)
  then show ?thesis using b by (simp add: mon_cmd_def Let_def)
qed

text \<open>
  A client that ends its lines with CR and LF loses the monitor after every command: the CR
  runs the line, and the LF runs an empty one, which is the command to leave for the console.
\<close>

theorem crlf_leaves_monitor:
  assumes "mon_wf m" "g_mon_cmd_mode m"
  shows "\<not> g_mon_cmd_mode (mon_byte E (CHR 0x0A) (mon_byte E (CHR 0x0D) m))"
proof -
  define m1 where "m1 = mon_byte E (CHR 0x0D) m"
  have wf: "mon_wf m1" "g_mon_len m1 = 0"
    using mon_byte_wf [OF assms(1)] mon_byte_enter_len [OF assms(2)] by (simp_all add: m1_def)
  show ?thesis
  proof (cases "g_mon_cmd_mode m1")
    case True
    have "typed m1 = []" using wf by (simp add: typed_def)
    then obtain rest where "mon_byte E (CHR 0x0A) m1 = (mon_cmd E (NUL # rest)
        ((mon_send crlf m1)\<lparr>g_mon_line := NUL # rest\<rparr>))\<lparr>g_mon_len := 0\<rparr>"
      using mon_byte_enter [OF wf(1) True, of "CHR 0x0A" E] by auto
    then show ?thesis using mon_cmd_empty [of "NUL # rest"] by (simp add: m1_def)
  next
    case False
    then show ?thesis by (simp add: m1_def [symmetric]) (simp add: mon_byte_def)
  qed
qed

theorem crlf_leaves_monitor_witness:
  "mon_wf mon_init_state \<and> \<not> g_mon_cmd_mode (mon_byte no_env (CHR 0x0A) (mon_byte no_env (CHR 0x0D) mon_init_state))"
  using crlf_leaves_monitor [OF mon_init_wf(1,2), of no_env] mon_init_wf(1) by simp

lemma digit_not_space: "is_digit c \<Longrightarrow> c \<noteq> CHR '' '' \<and> c \<noteq> NUL \<and> edit_key c \<and> c \<noteq> CHR 0x7F \<and> c \<noteq> CHR 0x08"
  by (auto simp: is_digit_def NUL_def edit_key_def)

lemma count_at_digits:
  assumes "ds \<noteq> []" "\<forall>d \<in> set ds. is_digit d"
  shows "skip_spaces (CHR '' '' # ds @ NUL # r) = ds @ NUL # r" "at_digit (ds @ NUL # r)"
    "strtoull10 (ds @ NUL # r) = of_nat (min (dec_val ds) (2 ^ 64 - 1))"
proof -
  have nul: "\<not> is_digit NUL" by (simp add: is_digit_def NUL_def)
  obtain d es where ds: "ds = d # es" using assms(1) by (cases ds) auto
  then show "skip_spaces (CHR '' '' # ds @ NUL # r) = ds @ NUL # r" "at_digit (ds @ NUL # r)"
    using assms(2) digit_not_space [of d] by (simp_all add: skip_spaces_def at_digit_def)
  show "strtoull10 (ds @ NUL # r) = of_nat (min (dec_val ds) (2 ^ 64 - 1))"
    using assms(2) nul by (simp add: strtoull10_def)
qed

text \<open>A step command: any line that starts with \<open>st\<close> and is not \<open>state\<close>.\<close>

lemma mon_cmd_step:
  assumes "line = CHR ''s'' # CHR ''t'' # r" "\<not> has_prefix ''state'' line"
  shows "g_mon_step_to (mon_cmd E line m) = g_mon_retired m + step_count line" "g_mon_cmd_mode (mon_cmd E line m) = g_mon_cmd_mode m"
  using assms by (simp_all add: mon_cmd_def Let_def skip_spaces_def has_prefix_def strncmp_eq_def cstr_at_def NUL_def)

text \<open>
  The abbreviation \<open>st\<close> steps by a stale count: the argument is looked for at offset 4, past
  the end of the two-letter command, where the buffer still holds the previous line, so after
  \<open>step N\<close> the command \<open>st\<close> steps \<open>N\<close> instructions again instead of one.
\<close>

theorem st_reuses_stale_count:
  assumes "mon_wf m" "g_mon_cmd_mode m" "g_mon_len m = 0"
    and "ds \<noteq> []" "\<forall>d \<in> set ds. is_digit d" "length ds \<le> 500"
  shows "g_mon_step_to (fold (mon_byte E) (''step '' @ ds @ [CHR 0x0D] @ ''st'' @ [CHR 0x0D]) m) =
    g_mon_retired m + of_nat (min (dec_val ds) (2 ^ 64 - 1))"
proof -
  have keys: "\<forall>c \<in> set (''step '' @ ds). edit_key c" "\<forall>c \<in> set (''step '' @ ds). c \<noteq> CHR 0x7F \<and> c \<noteq> CHR 0x08"
    using assms(5) digit_not_space by (auto simp: edit_key_def NUL_def)
  define m1 where "m1 = fold (mon_byte E) (''step '' @ ds @ [CHR 0x0D]) m"
  obtain buf m' where b: "m1 = (mon_cmd E buf m')\<lparr>g_mon_len := 0\<rparr>" "cstr_at buf = fold edit (''step '' @ ds) []"
      "g_mon_line m' = buf" "length buf = MON_LINE" "g_mon_retired m' = g_mon_retired m" "g_mon_cmd_mode m'"
    using mon_line_runs [OF assms(1-3) keys(1), of E] by (auto simp: m1_def)
  have text_eq: "cstr_at buf = ''step '' @ ds"
    unfolding b(2) using fold_edit_plain [OF keys(2), of "[]"] assms(6) by (simp add: MON_LINE_def)
  have "length (cstr_at buf) < length buf" using text_eq b(4) assms(6) by (simp add: MON_LINE_def)
  from cstr_split [OF this] obtain r where buf: "buf = (''step '' @ ds) @ NUL # r" unfolding text_eq by blast
  have "\<not> has_prefix ''state'' buf" by (simp add: has_prefix_def strncmp_eq_def text_eq)
  then have m1: "g_mon_cmd_mode m1" "g_mon_len m1 = 0" "g_mon_line m1 = buf" "g_mon_retired m1 = g_mon_retired m"
    using mon_cmd_step(2) [of buf] buf b(3,5,6) by (simp_all add: b(1))
  define m2 where "m2 = fold (mon_byte E) ''st'' m1"
  have m2: "g_mon_cmd_mode m2" "g_mon_len m2 = 2" "g_mon_line m2 = buf" "g_mon_retired m2 = g_mon_retired m"
    using m1 by (simp_all add: m2_def mon_byte_def MON_LINE_def buf numeral_2_eq_2)
  have wf: "mon_wf m2" using m2(2,3) b(4) by (simp add: mon_wf_def MON_LINE_def)
  have "typed m2 = ''st''" by (simp add: typed_def m2(2,3) buf)
  then have run: "mon_byte E (CHR 0x0D) m2 = (mon_cmd E (''st'' @ NUL # ''p '' @ ds @ NUL # r)
      ((mon_send crlf m2)\<lparr>g_mon_line := ''st'' @ NUL # ''p '' @ ds @ NUL # r\<rparr>))\<lparr>g_mon_len := 0\<rparr>"
    using mon_byte_enter [OF wf m2(1), of "CHR 0x0D" E] by (auto simp: m2(2,3) buf)
  have "step_count (''st'' @ NUL # ''p '' @ ds @ NUL # r) = of_nat (min (dec_val ds) (2 ^ 64 - 1))"
    using count_at_digits [OF assms(4,5), of r] by (simp add: step_count_def Let_def)
  moreover have "\<not> has_prefix ''state'' (''st'' @ NUL # ''p '' @ ds @ NUL # r)"
    by (simp add: has_prefix_def strncmp_eq_def cstr_at_def NUL_def)
  ultimately have "g_mon_step_to (mon_byte E (CHR 0x0D) m2) = g_mon_retired m + of_nat (min (dec_val ds) (2 ^ 64 - 1))"
    using mon_cmd_step(1) [of "''st'' @ NUL # ''p '' @ ds @ NUL # r"] by (simp add: run m2(4))
  moreover have "fold (mon_byte E) (''step '' @ ds @ [CHR 0x0D] @ ''st'' @ [CHR 0x0D]) m = mon_byte E (CHR 0x0D) m2"
    by (simp add: m2_def m1_def)
  ultimately show ?thesis by simp
qed

theorem st_reuses_stale_count_witness:
  "is_digit (CHR ''9'') \<and>
   g_mon_step_to (fold (mon_byte no_env) (''step '' @ ''99'' @ [CHR 0x0D] @ ''st'' @ [CHR 0x0D]) mon_init_state) = 99"
proof -
  have d: "is_digit (CHR ''9'')" by (simp add: is_digit_def)
  have "dec_val ''99'' = 99" by (simp add: dec_val_def digit_val_def)
  with st_reuses_stale_count [OF mon_init_wf(1-3), of "''99''" no_env] d
  show ?thesis by (simp add: mon_init_wf(4))
qed

end
