(* ===== verification/Mipsmon.thy ===== *)
theory Mipsmon
  imports Monitor Recent_Log
begin

text \<open>
  The curses client of the monitor (\<^verbatim>\<open>sim/mipsmon.cc\<close>): the scrollback and the filter of
  received bytes, wrapping and drawing, the key handler with its line editor, history and raw
  mode, and the session loop.  Curses and the socket are inputs and outputs: a key or none, a
  read or none, a pending SIGINT; the bytes sent are the field \<open>sent\<close>.
\<close>

section \<open>Received output\<close>

definition MAX_SCROLLBACK :: nat where
  "MAX_SCROLLBACK = 20000"

definition MAX_HISTORY :: nat where
  "MAX_HISTORY = 500"

record client =
  g_lines :: "string list"
  g_partial :: string
  g_hist :: "string list"
  g_hist_idx :: int
  g_saved_input :: string
  g_input :: string
  g_scroll :: int
  g_raw :: bool
  running :: bool
  sent :: string

definition push_bounded :: "nat \<Rightarrow> 'a \<Rightarrow> 'a list \<Rightarrow> 'a list" where
  "push_bounded n x xs = drop (length xs + 1 - n) (xs @ [x])"

definition push_line :: "string \<Rightarrow> client \<Rightarrow> client" where
  "push_line s c = c\<lparr>g_lines := push_bounded MAX_SCROLLBACK s (g_lines c)\<rparr>"

text \<open>A tab appends at least one space, up to the next multiple of eight columns.\<close>

definition feed_char :: "char \<Rightarrow> client \<Rightarrow> client" where
  "feed_char ch c =
     (let n = (of_char ch :: nat) in
      if n = 13 then c
      else if n = 10 then (push_line (g_partial c) c)\<lparr>g_partial := ''''\<rparr>
      else if n = 9 then c\<lparr>g_partial := g_partial c @ replicate (8 - length (g_partial c) mod 8) (CHR '' '')\<rparr>
      else if n = 8 \<or> n = 127 then c\<lparr>g_partial := butlast (g_partial c)\<rparr>
      else if n \<ge> 32 then c\<lparr>g_partial := g_partial c @ [ch]\<rparr>
      else c)"

definition feed_output :: "string \<Rightarrow> client \<Rightarrow> client" where
  "feed_output b c = fold feed_char b c"

section \<open>Drawing\<close>

function rows_of :: "nat \<Rightarrow> string \<Rightarrow> string list" where
  "rows_of w s = (if w = 0 \<or> s = [] then [] else take w s # rows_of w (drop w s))"
  by auto
termination by (relation "measure (\<lambda>(w, s). length s)") auto

declare rows_of.simps [simp del]

definition wrap_line :: "nat \<Rightarrow> string \<Rightarrow> string list" where
  "wrap_line w s = (if s = [] \<or> w = 0 then [[]] else rows_of w s)"

text \<open>The screen: the newest lines needed, wrapped; the clamped scroll; the visible rows.\<close>

definition draw_need :: "nat \<Rightarrow> client \<Rightarrow> nat" where
  "draw_need rows c = rows + nat (g_scroll c) + 4"

definition newest_lines :: "nat \<Rightarrow> client \<Rightarrow> string list" where
  "newest_lines need c = last_n need (g_lines c @ [g_partial c])"

definition screen_of :: "nat \<Rightarrow> string list \<Rightarrow> string list" where
  "screen_of w ls = concat (map (wrap_line w) ls)"

definition visible :: "nat \<Rightarrow> nat \<Rightarrow> string list \<Rightarrow> string list" where
  "visible rows scroll screen = take rows (drop (length screen - rows - min scroll (length screen - rows)) screen)"

definition draw :: "nat \<Rightarrow> nat \<Rightarrow> client \<Rightarrow> client \<times> string list" where
  "draw nlines ncols c =
     (let rows = max 1 (nlines - 2);
          screen = screen_of ncols (newest_lines (draw_need rows c) c);
          max_scroll = length screen - rows;
          c = (if g_scroll c > int max_scroll then c\<lparr>g_scroll := int max_scroll\<rparr> else c)
      in (c, visible rows (nat (g_scroll c)) screen))"

text \<open>
  The status bar, padded to the window, and the input row with the cursor's column: the end of
  the edit line when it is longer than the window, or the raw-mode notice.
\<close>

definition draw_status :: "nat \<Rightarrow> string \<Rightarrow> string \<Rightarrow> client \<Rightarrow> string" where
  "draw_status ncols g_host g_port c =
     (let st = take 511 ('' mipsmon '' @ g_host @ '':'' @ g_port @ '' | '' @ (if g_raw c then ''RAW '' else ''LINE'') @ '' | '' @
            (if g_scroll c \<noteq> 0 then ''SCROLLED'' else ''live'') @
            '' | ^]mon ^Rmode ^Lredraw PgUp/Dn=scroll Up/Dn=hist ^'' @ [CHR 0x5C] @ ''quit '')
      in take ncols st @ replicate (ncols - length st) (CHR '' ''))"

definition draw_input :: "nat \<Rightarrow> client \<Rightarrow> string \<times> nat option" where
  "draw_input ncols c =
     (if \<not> g_raw c then
        (let prompt = ''> '' @ g_input c; from = (if length prompt \<ge> ncols then length prompt - ncols + 1 else 0)
         in (take ncols (drop from prompt), Some (length prompt - from)))
      else (take ncols ''[RAW mode -- keystrokes go straight to the core; ^R for LINE mode]'', None))"

section \<open>Keys\<close>

datatype key = KEY_PPAGE | KEY_NPAGE | KEY_ENTER | KEY_BACKSPACE | KEY_UP | KEY_DOWN | Byte char | KEY_OTHER

definition send_str :: "string \<Rightarrow> client \<Rightarrow> client" where
  "send_str b c = c\<lparr>sent := sent c @ b\<rparr>"

definition is_enter :: "key \<Rightarrow> bool" where
  "is_enter k \<longleftrightarrow> k = KEY_ENTER \<or> k = Byte (CHR 0x0A) \<or> k = Byte (CHR 0x0D)"

definition raw_key :: "key \<Rightarrow> client \<Rightarrow> client" where
  "raw_key k c =
     (if is_enter k then send_str [CHR 0x0D] c
      else if k = KEY_BACKSPACE then send_str [CHR 0x7F] c
      else (case k of Byte ch \<Rightarrow> send_str [ch] c | _ \<Rightarrow> c))"

definition hist_add :: "string \<Rightarrow> string list \<Rightarrow> string list" where
  "hist_add l h = (if l \<noteq> [] \<and> (h = [] \<or> last h \<noteq> l) then push_bounded MAX_HISTORY l h else h)"

definition enter_key :: "client \<Rightarrow> client" where
  "enter_key c =
     (let c = (if g_input c = ''quit'' \<or> g_input c = ''exit'' then c\<lparr>running := False\<rparr>
               else (send_str [CHR 0x0D] (send_str (g_input c) c))\<lparr>g_hist := hist_add (g_input c) (g_hist c)\<rparr>)
      in c\<lparr>g_hist_idx := - 1, g_input := ''''\<rparr>)"

definition up_key :: "client \<Rightarrow> client" where
  "up_key c =
     (if g_hist c \<noteq> [] then
        (let c = (if g_hist_idx c = - 1 then c\<lparr>g_saved_input := g_input c, g_hist_idx := int (length (g_hist c))\<rparr> else c)
         in if g_hist_idx c > 0
            then c\<lparr>g_hist_idx := g_hist_idx c - 1, g_input := g_hist c ! nat (g_hist_idx c - 1)\<rparr> else c)
      else c)"

definition down_key :: "client \<Rightarrow> client" where
  "down_key c =
     (if g_hist_idx c \<noteq> - 1 then
        (let i = g_hist_idx c + 1
         in if i \<ge> int (length (g_hist c)) then c\<lparr>g_hist_idx := - 1, g_input := g_saved_input c\<rparr>
            else c\<lparr>g_hist_idx := i, g_input := g_hist c ! nat i\<rparr>)
      else c)"

definition line_key :: "key \<Rightarrow> client \<Rightarrow> client" where
  "line_key k c =
     (if is_enter k then enter_key c
      else if k = KEY_BACKSPACE \<or> k = Byte (CHR 0x7F) \<or> k = Byte (CHR 0x08) then c\<lparr>g_input := butlast (g_input c)\<rparr>
      else if k = Byte (CHR 0x15) then c\<lparr>g_input := ''''\<rparr>
      else if k = KEY_UP then up_key c
      else if k = KEY_DOWN then down_key c
      else (case k of Byte ch \<Rightarrow> if (of_char ch :: nat) \<ge> 32 then c\<lparr>g_input := g_input c @ [ch]\<rparr> else c | _ \<Rightarrow> c))"

definition handle_key :: "nat \<Rightarrow> key \<Rightarrow> client \<Rightarrow> client" where
  "handle_key nlines k c =
     (let half = int ((nlines - 2) div 2) in
      if k = KEY_PPAGE then c\<lparr>g_scroll := g_scroll c + half\<rparr>
      else if k = KEY_NPAGE then c\<lparr>g_scroll := max 0 (g_scroll c - half)\<rparr>
      else (let c = c\<lparr>g_scroll := 0\<rparr> in
        if k = Byte (CHR 0x1C) then c\<lparr>running := False\<rparr>
        else if k = Byte (CHR 0x1D) then send_str [CHR 0x1D] c
        else if k = Byte (CHR 0x12) then c\<lparr>g_raw := \<not> g_raw c\<rparr>
        else if k = Byte (CHR 0x0C) then c
        else if k = Byte (CHR 0x03) then (send_str [CHR 0x03] c)\<lparr>g_input := '''', g_hist_idx := - 1\<rparr>
        else if g_raw c then raw_key k c
        else line_key k c))"

section \<open>The session loop\<close>

definition sigint_step :: "bool \<Rightarrow> client \<Rightarrow> client" where
  "sigint_step g_sigint c =
     (if g_sigint then (send_str [CHR 0x03] c)\<lparr>g_input := '''', g_hist_idx := - 1, g_scroll := 0\<rparr> else c)"

text \<open>One turn: \<open>got\<close> is what \<^verbatim>\<open>read\<close> gave, nothing, the end of the connection, or bytes.\<close>

definition client_turn :: "nat \<Rightarrow> nat \<Rightarrow> bool \<Rightarrow> key option \<Rightarrow> string option \<Rightarrow> client \<Rightarrow> client \<times> string list" where
  "client_turn nlines ncols g_sigint ch got c =
     (let c = sigint_step g_sigint c;
          c = (case ch of None \<Rightarrow> c | Some k \<Rightarrow> handle_key nlines k c);
          c = (case got of
                 None \<Rightarrow> c
               | Some [] \<Rightarrow> (fst (draw nlines ncols (push_line ''[mipsmon: disconnected]'' c)))\<lparr>running := False\<rparr>
               | Some b \<Rightarrow> feed_output b c)
      in draw nlines ncols c)"


section \<open>Bounded logs\<close>

lemma push_bounded_last_n: "push_bounded n x xs = last_n n (xs @ [x])"
  by (simp add: push_bounded_def last_n_def)

interpretation scrollback: recent_log push_line g_lines MAX_SCROLLBACK "\<lambda>_. True"
  by unfold_locales (simp_all add: push_line_def push_bounded_last_n)

interpretation history: recent_log "push_bounded MAX_HISTORY" "\<lambda>xs. xs" MAX_HISTORY "\<lambda>_. True"
  by unfold_locales (simp_all add: push_bounded_last_n)

section \<open>Wrapping\<close>

lemma concat_rows_of: "0 < w \<Longrightarrow> concat (rows_of w s) = s"
  by (induction w s rule: rows_of.induct) (subst rows_of.simps, simp)

lemma concat_wrap_line: "0 < w \<Longrightarrow> concat (wrap_line w s) = s"
  by (simp add: wrap_line_def concat_rows_of)

lemma rows_of_width: "r \<in> set (rows_of w s) \<Longrightarrow> length r \<le> w"
proof (induction w s rule: rows_of.induct)
  case (1 w s)
  then show ?case by (subst (asm) (2) rows_of.simps) (auto split: if_splits)
qed

lemma wrap_line_nonempty: "wrap_line w s \<noteq> []"
  by (simp add: wrap_line_def) (subst rows_of.simps, simp)

lemma length_screen_of: "length ls \<le> length (screen_of w ls)"
proof (induction ls)
  case (Cons l ls)
  then show ?case using wrap_line_nonempty [of w l] by (cases "wrap_line w l") (simp_all add: screen_of_def)
qed simp

lemma screen_of_append: "screen_of w (a @ b) = screen_of w a @ screen_of w b"
  by (simp add: screen_of_def)

section \<open>The drawn window\<close>

text \<open>A window that lies inside a suffix of the screen is the same window of the screen.\<close>

lemma visible_suffix:
  assumes "rows + scroll \<le> length b"
  shows "visible rows scroll (a @ b) = visible rows scroll b"
proof -
  have "min scroll (length (a @ b) - rows) = scroll" "min scroll (length b - rows) = scroll" using assms by auto
  moreover have "drop (length (a @ b) - rows - scroll) (a @ b) = drop (length b - rows - scroll) b" using assms by simp
  ultimately show ?thesis unfolding visible_def by presburger
qed

lemma visible_min: "visible rows (min scroll (length screen - rows)) screen = visible rows scroll screen"
  by (simp add: visible_def)

text \<open>
  Drawing only the newest lines shows what drawing the whole scrollback would: whatever the
  widths, the wrapping and the scroll position, the visible rows are the window of the fully
  wrapped output, scrolled back at most to its first row.
\<close>

theorem draw_view_exact:
  assumes s: "0 \<le> g_scroll c"
  shows "snd (draw nlines ncols c) =
     visible (max 1 (nlines - 2)) (nat (g_scroll c)) (screen_of ncols (g_lines c @ [g_partial c]))"
proof -
  define rows where "rows = max 1 (nlines - 2)"
  define all where "all = g_lines c @ [g_partial c]"
  define need where "need = draw_need rows c"
  define scr where "scr = screen_of ncols (last_n need all)"
  have "snd (draw nlines ncols c) = visible rows (min (nat (g_scroll c)) (length scr - rows)) scr"
    unfolding draw_def newest_lines_def Let_def rows_def [symmetric] all_def [symmetric] need_def [symmetric]
      scr_def [symmetric] using s by (auto simp: min_def nat_le_iff)
  also have "\<dots> = visible rows (nat (g_scroll c)) scr" by (rule visible_min)
  also have "\<dots> = visible rows (nat (g_scroll c)) (screen_of ncols all)"
  proof (cases "length all \<le> need")
    case True
    then show ?thesis by (simp add: scr_def last_n_id)
  next
    case False
    have "need \<le> length scr" using False length_screen_of [of "last_n need all" ncols] by (simp add: scr_def)
    then have "rows + nat (g_scroll c) \<le> length scr" by (simp add: need_def draw_need_def)
    moreover have "screen_of ncols all = screen_of ncols (take (length all - need) all) @ scr"
      unfolding scr_def screen_of_append [symmetric] by (subst last_n_suffix [of all need]) simp
    ultimately show ?thesis by (simp add: visible_suffix)
  qed
  finally show ?thesis by (simp only: rows_def all_def)
qed

definition client_init :: client where
  "client_init = \<lparr>g_lines = [], g_partial = '''', g_hist = [], g_hist_idx = - 1, g_saved_input = '''', g_input = '''',
     g_scroll = 0, g_raw = False, running = True, sent = ''''\<rparr>"

theorem draw_view_exact_witness:
  "0 \<le> g_scroll client_init \<and> snd (draw 24 80 client_init) =
     visible (max 1 (24 - 2)) (nat (g_scroll client_init)) (screen_of 80 (g_lines client_init @ [g_partial client_init]))"
proof
  show h: "0 \<le> g_scroll client_init" by (simp add: client_init_def)
  show "snd (draw 24 80 client_init) =
     visible (max 1 (24 - 2)) (nat (g_scroll client_init)) (screen_of 80 (g_lines client_init @ [g_partial client_init]))"
    by (rule draw_view_exact [OF h])
qed

lemma draw_status_width: "length (draw_status ncols g_host g_port c) = ncols"
  by (simp add: draw_status_def Let_def)

text \<open>
  The input row always shows the end of the edit line: what is drawn is a suffix of the prompt
  and the cursor stands right after it, on the row, for every window of at least one column.
\<close>

lemma draw_input_tail:
  assumes "\<not> g_raw c" "0 < ncols"
  shows "\<exists>pre shown. draw_input ncols c = (shown, Some (length shown)) \<and> ''> '' @ g_input c = pre @ shown \<and> length shown < ncols"
proof -
  define prompt where "prompt = ''> '' @ g_input c"
  define k where "k = (if length prompt \<ge> ncols then length prompt - ncols + 1 else 0)"
  have l: "length (drop k prompt) < ncols" using assms(2) by (auto simp: k_def)
  then have "take ncols (drop k prompt) = drop k prompt" by simp
  then have "draw_input ncols c = (drop k prompt, Some (length (drop k prompt)))"
    unfolding draw_input_def Let_def prompt_def [symmetric] k_def [symmetric] using assms(1) by simp
  then show ?thesis using l by (intro exI [of _ "take k prompt"] exI [of _ "drop k prompt"]) (simp add: prompt_def)
qed

section \<open>A scrolled view does not stay put\<close>

text \<open>
  New output moves a scrolled view: the scroll is counted from the newest row, so when a line
  of \<open>k\<close> rows arrives while the view is scrolled back by \<open>n\<close> rows (and the scrollback reaches
  that far), the window shown is the one that was \<open>k\<close> rows nearer the end, the rows the user
  was reading having moved up, unlike the description of the client.
\<close>

theorem scrolled_view_moves:
  assumes "rows + n + length new \<le> length screen" "length new \<le> n"
  shows "visible rows n (screen @ new) = visible rows (n - length new) screen"
proof -
  have m: "min n (length (screen @ new) - rows) = n" "min (n - length new) (length screen - rows) = n - length new"
    using assms by auto
  have "length (screen @ new) - rows - n = length screen - rows - (n - length new)" using assms by simp
  then have "visible rows n (screen @ new) = take rows (drop (length screen - rows - (n - length new)) (screen @ new))"
    unfolding visible_def m by simp
  also have "\<dots> = take rows (drop (length screen - rows - (n - length new)) screen)" using assms by simp
  finally show ?thesis unfolding visible_def m by simp
qed

theorem scrolled_view_moves_witness:
  "(1 :: nat) + 1 + length [''d''] \<le> length [''a'', ''b'', ''c''] \<and>
   visible 1 1 ([''a'', ''b'', ''c''] @ [''d'']) = visible 1 (1 - length [''d'']) [''a'', ''b'', ''c'']"
  using scrolled_view_moves [of 1 1 "[''d'']" "[''a'', ''b'', ''c'']"] by simp

section \<open>Keys keep the client consistent\<close>

text \<open>What the user can have put in the edit line: no control characters and no DEL.\<close>

definition plain :: "string \<Rightarrow> bool" where
  "plain l \<longleftrightarrow> list_all (\<lambda>ch. (of_char ch :: nat) \<ge> 32 \<and> ch \<noteq> CHR 0x7F) l"

definition client_inv :: "client \<Rightarrow> bool" where
  "client_inv c \<longleftrightarrow> - 1 \<le> g_hist_idx c \<and> g_hist_idx c < int (length (g_hist c)) \<and> length (g_hist c) \<le> MAX_HISTORY \<and>
     0 \<le> g_scroll c \<and> length (g_lines c) \<le> MAX_SCROLLBACK \<and>
     plain (g_input c) \<and> plain (g_saved_input c) \<and> list_all plain (g_hist c)"

lemma plain_simps [simp]: "plain []" "plain (a @ b) = (plain a \<and> plain b)"
  by (simp_all add: plain_def)

lemma plain_butlast: "plain l \<Longrightarrow> plain (butlast l)"
  by (auto simp: plain_def list_all_iff dest: in_set_butlastD)

lemma plain_nth: "list_all plain h \<Longrightarrow> i < length h \<Longrightarrow> plain (h ! i)"
  by (simp add: list_all_length)

lemma hist_add_ok: "list_all plain h \<Longrightarrow> plain l \<Longrightarrow> length h \<le> MAX_HISTORY \<Longrightarrow>
    list_all plain (hist_add l h) \<and> length (hist_add l h) \<le> MAX_HISTORY"
  by (auto simp: hist_add_def push_bounded_last_n last_n_def list_all_iff dest: in_set_dropD)

lemma client_inv_enter: "client_inv c \<Longrightarrow> client_inv (enter_key c)"
  using hist_add_ok [of "g_hist c" "g_input c"] by (simp add: client_inv_def enter_key_def send_str_def Let_def)

lemma client_inv_up:
  assumes "client_inv c"
  shows "client_inv (up_key c)"
proof -
  have "plain (g_hist c ! nat (int (length (g_hist c)) - 1))" if "g_hist c \<noteq> []"
    using assms that by (intro plain_nth) (auto simp: client_inv_def nat_less_iff)
  moreover have "plain (g_hist c ! nat (g_hist_idx c - 1))" if "0 < g_hist_idx c"
    using assms that by (intro plain_nth) (auto simp: client_inv_def)
  ultimately show ?thesis using assms by (auto simp: client_inv_def up_key_def Let_def)
qed

lemma client_inv_down: "client_inv c \<Longrightarrow> client_inv (down_key c)"
  by (auto simp: client_inv_def down_key_def Let_def intro!: plain_nth)

lemma client_inv_line:
  assumes "client_inv c"
  shows "client_inv (line_key k c)"
proof -
  have "client_inv (c\<lparr>g_input := butlast (g_input c)\<rparr>)" "client_inv (c\<lparr>g_input := ''''\<rparr>)"
    using assms plain_butlast by (simp_all add: client_inv_def)
  moreover have "client_inv (c\<lparr>g_input := g_input c @ [ch]\<rparr>)" if "(of_char ch :: nat) \<ge> 32" "ch \<noteq> CHR 0x7F" for ch
    using assms that by (simp add: client_inv_def plain_def)
  ultimately show ?thesis
    using assms by (auto simp: line_key_def client_inv_enter client_inv_up client_inv_down split: key.splits)
qed

lemma client_inv_frame [simp]:
  "client_inv (send_str b c) = client_inv c" "client_inv (c\<lparr>running := r\<rparr>) = client_inv c"
  "client_inv (c\<lparr>g_raw := r\<rparr>) = client_inv c"
  by (simp_all add: client_inv_def send_str_def)

lemma client_inv_raw: "client_inv c \<Longrightarrow> client_inv (raw_key k c)"
  by (auto simp: raw_key_def split: key.splits)

lemma client_inv_key:
  assumes "client_inv c"
  shows "client_inv (handle_key nlines k c)"
proof -
  have z: "client_inv (c\<lparr>g_scroll := 0\<rparr>)" using assms by (simp add: client_inv_def)
  have "client_inv (c\<lparr>g_scroll := g_scroll c + int h\<rparr>)" "client_inv (c\<lparr>g_scroll := max 0 (g_scroll c - int h)\<rparr>)" for h
    using assms by (simp_all add: client_inv_def)
  moreover have "client_inv ((send_str b (c\<lparr>g_scroll := 0\<rparr>))\<lparr>g_input := '''', g_hist_idx := - 1\<rparr>)" for b
    using assms by (simp add: client_inv_def send_str_def)
  ultimately show ?thesis using z by (simp add: handle_key_def client_inv_raw client_inv_line Let_def)
qed

lemma client_inv_push_line: "client_inv c \<Longrightarrow> client_inv (push_line l c)"
  by (simp add: client_inv_def push_line_def push_bounded_last_n)

lemma client_inv_feed: "client_inv c \<Longrightarrow> client_inv (feed_output b c)"
proof -
  have p: "client_inv (c\<lparr>g_partial := x\<rparr>) = client_inv c" for c x by (simp add: client_inv_def)
  have "client_inv (feed_char ch c)" if "client_inv c" for ch c
    using that client_inv_push_line [OF that] by (simp add: feed_char_def Let_def p)
  then show "client_inv c \<Longrightarrow> client_inv (feed_output b c)"
    unfolding feed_output_def by (induction b arbitrary: c) simp_all
qed

lemma client_inv_draw: "client_inv c \<Longrightarrow> client_inv (fst (draw nlines ncols c))"
  by (simp add: draw_def client_inv_def Let_def)

text \<open>
  C38.  The client stays consistent over any session: whatever the keys, the bytes received and the
  signals, the history index stays inside the history (so recall never reads outside it),
  history and scrollback stay within their bounds, the scroll position never goes negative,
  and the edit line holds only characters the server will take as text.
\<close>

theorem client_turn_invariant:
  assumes "client_inv c"
  shows "client_inv (fst (client_turn nlines ncols g_sigint ch got c))"
proof -
  have "client_inv (sigint_step g_sigint c)" using assms by (simp add: sigint_step_def client_inv_def send_str_def)
  then have "client_inv (case ch of None \<Rightarrow> sigint_step g_sigint c | Some k \<Rightarrow> handle_key nlines k (sigint_step g_sigint c))"
    by (auto simp: client_inv_key split: option.splits)
  then show ?thesis
    unfolding client_turn_def Let_def
    by (auto simp: client_inv_feed client_inv_push_line intro!: client_inv_draw split: option.splits list.splits)
qed

theorem client_turn_invariant_witness:
  "client_inv client_init \<and> client_inv (fst (client_turn 24 80 False (Some KEY_UP) (Some ''ok'') client_init))"
proof -
  have "client_inv client_init" by (simp add: client_inv_def client_init_def MAX_HISTORY_def MAX_SCROLLBACK_def)
  with client_turn_invariant [OF this] show ?thesis by simp
qed

section \<open>History\<close>

lemma up_key_first:
  assumes "g_hist_idx c = - 1" "g_hist c \<noteq> []"
  shows "up_key c = c\<lparr>g_saved_input := g_input c, g_hist_idx := int (length (g_hist c) - 1), g_input := g_hist c ! (length (g_hist c) - 1)\<rparr>"
proof -
  have "int (length (g_hist c) - 1) = int (length (g_hist c)) - 1" "nat (int (length (g_hist c)) - 1) = length (g_hist c) - 1"
    using assms(2) by (cases "g_hist c"; simp)+
  then show ?thesis using assms by (simp add: up_key_def)
qed

lemma up_key_older:
  assumes "g_hist_idx c = int i" "g_hist c \<noteq> []" "g_input c = g_hist c ! i"
  shows "up_key c = c\<lparr>g_hist_idx := int (i - 1), g_input := g_hist c ! (i - 1)\<rparr>"
  using assms by (cases i) (simp_all add: up_key_def)

lemma up_keys:
  assumes "g_hist_idx c = - 1" "g_hist c \<noteq> []" "0 < j"
  defines "i \<equiv> length (g_hist c) - j"
  shows "(up_key ^^ j) c = c\<lparr>g_saved_input := g_input c, g_hist_idx := int i, g_input := g_hist c ! i\<rparr>"
  unfolding i_def using assms(3)
proof (induction j rule: nat_induct_non_zero)
  case 1
  then show ?case using assms(1,2) up_key_first by simp
next
  case (Suc j)
  define i where "i = length (g_hist c) - j"
  have "length (g_hist c) - Suc j = i - 1" by (simp add: i_def)
  moreover have "(up_key ^^ Suc j) c = up_key (c\<lparr>g_saved_input := g_input c, g_hist_idx := int i, g_input := g_hist c ! i\<rparr>)"
    using Suc.IH by (simp add: i_def)
  ultimately show ?case
    using assms(2) up_key_older [of "c\<lparr>g_saved_input := g_input c, g_hist_idx := int i, g_input := g_hist c ! i\<rparr>" i] by simp
qed

lemma down_keys:
  assumes "g_hist_idx c = int i" "i + k = length (g_hist c)" "0 < k"
  shows "(down_key ^^ k) c = c\<lparr>g_hist_idx := - 1, g_input := g_saved_input c\<rparr>"
  using assms
proof (induction k arbitrary: c i)
  case (Suc k)
  show ?case
  proof (cases "k = 0")
    case True
    then show ?thesis using Suc.prems by (simp add: down_key_def Let_def)
  next
    case False
    have "down_key c = c\<lparr>g_hist_idx := int (Suc i), g_input := g_hist c ! Suc i\<rparr>"
      using Suc.prems False by (simp add: down_key_def Let_def nat_add_distrib)
    then have "(down_key ^^ k) (down_key c) = c\<lparr>g_hist_idx := - 1, g_input := g_saved_input c\<rparr>"
      using Suc.IH [of "down_key c" "Suc i"] Suc.prems False by simp
    then show ?thesis by (simp add: funpow_swap1)
  qed
qed simp

lemma down_idle: "g_hist_idx c = - 1 \<Longrightarrow> (down_key ^^ k) c = c"
  by (induction k) (simp_all add: down_key_def)

text \<open>
  Browsing the history is harmless: any number of Up keys from a line being edited, followed
  by as many Down keys, brings the edited line back and leaves browsing, even when Up ran
  past the oldest entry.
\<close>

theorem history_browse_roundtrip:
  assumes "g_hist_idx c = - 1"
  shows "g_input ((down_key ^^ j) ((up_key ^^ j) c)) = g_input c \<and> g_hist_idx ((down_key ^^ j) ((up_key ^^ j) c)) = - 1"
proof (cases "g_hist c = [] \<or> j = 0")
  case True
  have "(up_key ^^ j) c = c" if "g_hist c = []" using that by (induction j) (simp_all add: up_key_def)
  then show ?thesis using True assms down_idle by auto
next
  case False
  define i where "i = length (g_hist c) - j"
  define k where "k = length (g_hist c) - i"
  have up: "(up_key ^^ j) c = c\<lparr>g_saved_input := g_input c, g_hist_idx := int i, g_input := g_hist c ! i\<rparr>"
    using up_keys [OF assms, of j] False by (simp add: i_def)
  have k: "i + k = length (g_hist c)" "0 < k" "k \<le> j" using False by (auto simp: i_def k_def)
  then obtain d where j: "j = d + k" by (metis le_add_diff_inverse2)
  have "(down_key ^^ k) ((up_key ^^ j) c) = ((up_key ^^ j) c)\<lparr>g_hist_idx := - 1, g_input := g_input c\<rparr>"
    using down_keys [of "(up_key ^^ j) c" i k] k by (simp add: up)
  then have "(down_key ^^ j) ((up_key ^^ j) c) = ((up_key ^^ j) c)\<lparr>g_hist_idx := - 1, g_input := g_input c\<rparr>"
    by (subst j) (simp add: funpow_add down_idle)
  then show ?thesis by simp
qed

theorem history_browse_roundtrip_witness:
  "g_hist_idx client_init = - 1 \<and> g_input ((down_key ^^ 3) ((up_key ^^ 3) client_init)) = g_input client_init"
  using history_browse_roundtrip [of client_init 3] by (simp add: client_init_def)

section \<open>From the client's Enter to the server's command\<close>

lemma plain_edit_key: "plain l \<Longrightarrow> c \<in> set l \<Longrightarrow> edit_key c \<and> c \<noteq> CHR 0x7F \<and> c \<noteq> CHR 0x08"
proof -
  assume "plain l" "c \<in> set l"
  then have "32 \<le> (of_char c :: nat)" and d: "c \<noteq> CHR 0x7F" by (simp_all add: plain_def list_all_iff)
  then have "c \<noteq> k" if "(of_char k :: nat) < 32" for k using that by auto
  from this [of "CHR 0x08"] this [of "CHR 0x00"] this [of "CHR 0x0D"] this [of "CHR 0x0A"] this [of "CHR 0x03"] this [of "CHR 0x1D"] d
  show ?thesis by (simp add: edit_key_def NUL_def)
qed

text \<open>
  C23.  What the user sees in the edit line is what the server runs: when a consistent client in
  line mode sends its line with Enter (and it is not the local \<open>quit\<close>), the bytes it writes make
  a server in command mode with an empty line run the command on a buffer whose C string is
  that line, for any line the server's buffer can hold.
\<close>

theorem client_line_reaches_server:
  assumes "client_inv c" "\<not> g_raw c" "g_input c \<noteq> ''quit''" "g_input c \<noteq> ''exit''" "length (g_input c) < MON_LINE"
    and "mon_wf m" "g_mon_cmd_mode m" "g_mon_len m = 0"
  shows "\<exists>out buf m'. sent (handle_key nlines KEY_ENTER c) = sent c @ out \<and>
    fold (mon_byte E) out m = (mon_cmd E buf m')\<lparr>g_mon_len := 0\<rparr> \<and> cstr_at buf = g_input c"
proof -
  have out: "sent (handle_key nlines KEY_ENTER c) = sent c @ g_input c @ [CHR 0x0D]"
    using assms(2-4) by (simp add: handle_key_def line_key_def is_enter_def enter_key_def send_str_def Let_def)
  have keys: "\<forall>k \<in> set (g_input c). edit_key k" "\<forall>k \<in> set (g_input c). k \<noteq> CHR 0x7F \<and> k \<noteq> CHR 0x08"
    using assms(1) plain_edit_key by (auto simp: client_inv_def)
  have "fold edit (g_input c) [] = g_input c" using fold_edit_plain [OF keys(2), of "[]"] assms(5) by simp
  moreover obtain buf m' where "fold (mon_byte E) (g_input c @ [CHR 0x0D]) m = (mon_cmd E buf m')\<lparr>g_mon_len := 0\<rparr>"
      "cstr_at buf = fold edit (g_input c) []"
    using mon_line_runs [OF assms(6-8) keys(1), of E] by blast
  ultimately show ?thesis using out by (intro exI [of _ "g_input c @ [CHR 0x0D]"] exI [of _ buf] exI [of _ m']) simp
qed

theorem client_line_reaches_server_witness:
  "client_inv (client_init\<lparr>g_input := ''pc''\<rparr>) \<and>
   (\<exists>out buf m'. sent (handle_key 24 KEY_ENTER (client_init\<lparr>g_input := ''pc''\<rparr>)) = sent (client_init\<lparr>g_input := ''pc''\<rparr>) @ out \<and>
    fold (mon_byte no_env) out mon_init_state = (mon_cmd no_env buf m')\<lparr>g_mon_len := 0\<rparr> \<and>
    cstr_at buf = g_input (client_init\<lparr>g_input := ''pc''\<rparr>))"
proof
  show h: "client_inv (client_init\<lparr>g_input := ''pc''\<rparr>)"
    by (simp add: client_inv_def client_init_def MAX_HISTORY_def MAX_SCROLLBACK_def plain_def)
  show "\<exists>out buf m'. sent (handle_key 24 KEY_ENTER (client_init\<lparr>g_input := ''pc''\<rparr>)) = sent (client_init\<lparr>g_input := ''pc''\<rparr>) @ out \<and>
    fold (mon_byte no_env) out mon_init_state = (mon_cmd no_env buf m')\<lparr>g_mon_len := 0\<rparr> \<and>
    cstr_at buf = g_input (client_init\<lparr>g_input := ''pc''\<rparr>)"
    by (rule client_line_reaches_server [OF h _ _ _ _ mon_init_wf(1-3)]) (simp_all add: client_init_def MON_LINE_def)
qed

end
