(* ===== verification/Run_Loop.thy ===== *)
theory Run_Loop
  imports Mem_Bus Device_Service Console Monitor Dram_Trace Image_Loader
begin

text \<open>
  The main loop of \<^verbatim>\<open>sim/henry_tb.cpp\<close> (\<^verbatim>\<open>main\<close>, from the declarations of the run to the verdict):
  the cycle body composed of the components in the order of the source (external flush,
  checkpoint save, monitor, console, posedge, retirement and watchdog, verification, devices,
  checkpoint arming, memory bus, negedge) and the loop around it.  The Verilated model and the
  device models outside the repository are parameters.  The body is that of a run without
  \<^verbatim>\<open>--checker\<close>; the probes, which only print, are in \<open>Retire_Probes\<close> and \<open>Line_Probes\<close>.
\<close>

section \<open>External flush requests\<close>

record xf_ports =
  ext_flush_ctl :: bool
  ext_pg_push :: bool
  ext_pg_go :: bool
  ext_pg_drop :: bool
  ext_pg_ppn :: u32

record xf =
  xf_edges :: nat
  xf_done :: nat
  xf_sum :: u64
  xf_min :: u64
  xf_max :: u64
  xf_busy_since :: nat
  xf_prev_cnt :: u32
  xf_k :: u64
  xf_st :: nat

record xf_cfg =
  extflush_period :: nat
  xfpg_base :: u64
  xfpg_n :: u64
  xfpg_drop :: u64

definition xf_init :: xf where
  "xf_init = \<lparr>xf_edges = 0, xf_done = 0, xf_sum = 0, xf_min = NOT 0, xf_max = 0, xf_busy_since = 0, xf_prev_cnt = 0,
     xf_k = 0, xf_st = 0\<rparr>"

definition xf_due :: "xf_cfg \<Rightarrow> nat \<Rightarrow> bool" where
  "xf_due cfg cyc \<longleftrightarrow> cyc > 0 \<and> cyc mod extflush_period cfg = 0"

text \<open>The whole-cache edge, and the page list: one push per cycle, then go.\<close>

definition xf_edge :: "xf_cfg \<Rightarrow> nat \<Rightarrow> xf \<times> xf_ports \<Rightarrow> xf \<times> xf_ports" where
  "xf_edge cfg cyc s = (case s of (x, p) \<Rightarrow>
     (if xf_due cfg cyc then x\<lparr>xf_edges := xf_edges x + 1\<rparr> else x, p\<lparr>ext_flush_ctl := xf_due cfg cyc\<rparr>))"

definition xf_pages :: "xf_cfg \<Rightarrow> nat \<Rightarrow> bool \<Rightarrow> xf \<times> xf_ports \<Rightarrow> xf \<times> xf_ports" where
  "xf_pages cfg cyc busy s = (case s of (x, p) \<Rightarrow>
     (let p = p\<lparr>ext_pg_push := False, ext_pg_go := False\<rparr>;
          x = (if xf_st x = 0 \<and> xf_due cfg cyc \<and> \<not> busy then x\<lparr>xf_st := 1, xf_k := 0, xf_edges := xf_edges x + 1\<rparr> else x)
      in if xf_st x = 1 then
           (let p = p\<lparr>ext_pg_ppn := ucast (xfpg_base cfg + xf_k x), ext_pg_push := True\<rparr>;
                x = x\<lparr>xf_k := xf_k x + 1\<rparr>
            in (if xf_k x = xfpg_n cfg then x\<lparr>xf_st := 2\<rparr> else x, p))
         else if xf_st x = 2 then (x\<lparr>xf_st := 0\<rparr>, p\<lparr>ext_pg_drop := (xfpg_drop cfg \<noteq> 0), ext_pg_go := True\<rparr>)
         else (x, p)))"

definition xf_account :: "nat \<Rightarrow> bool \<Rightarrow> u32 \<Rightarrow> u32 \<Rightarrow> xf \<Rightarrow> xf" where
  "xf_account cyc busy cnt cycles x =
     (let x = (if busy \<and> xf_busy_since x = 0 then x\<lparr>xf_busy_since := cyc\<rparr> else x)
      in if cnt \<noteq> xf_prev_cnt x then
           (let c = (ucast (cycles AND 0x7fffffff) :: u64)
            in x\<lparr>xf_done := xf_done x + 1, xf_sum := xf_sum x + c, xf_min := min (xf_min x) c, xf_max := max (xf_max x) c,
                 xf_prev_cnt := cnt, xf_busy_since := 0\<rparr>)
         else x)"

definition extflush_cycle :: "xf_cfg \<Rightarrow> nat \<Rightarrow> u32 \<Rightarrow> u32 \<Rightarrow> xf \<times> xf_ports \<Rightarrow> xf \<times> xf_ports" where
  "extflush_cycle cfg cyc stat cycles s =
     (if extflush_period cfg \<noteq> 0 then
        (let busy = bit stat 0;
             s = (if xfpg_n cfg = 0 then xf_edge cfg cyc s else xf_pages cfg cyc busy s)
         in (xf_account cyc busy (drop_bit 16 stat) cycles (fst s), snd s))
      else s)"

section \<open>The Verilated model and the state of the run\<close>

text \<open>The input ports the loop drives; like the model's own state they are part of a save.\<close>

record tb_in =
  mem_rsp :: "bool \<times> bool \<times> u32 list"
  mem2_rsp :: "bool \<times> bool \<times> u32 list"
  scc_rx_valid :: bool
  scc_rx_byte :: u8
  putchar_fifo_pop :: bool
  in_xf :: xf_ports
  scsi_rsp :: "u32 \<times> u8 \<times> u8 \<times> u32"

text \<open>
  The model \<open>'tb\<close>: its evaluation at an edge and the outputs the loop reads (\<open>irqs_taken\<close>: the
  calls of \<^verbatim>\<open>log_timer_irq\<close> during the last evaluation; \<open>putchar_fifo\<close>: the head, if not empty).
\<close>

record 'tb rtl =
  eval :: "bool \<Rightarrow> tb_in \<Rightarrow> 'tb \<Rightarrow> 'tb"
  gotFinish :: "'tb \<Rightarrow> bool"
  mem_reqs :: "'tb \<Rightarrow> mem_req \<times> mem_req"
  retire_valid :: "'tb \<Rightarrow> bool"
  retire_pc :: "'tb \<Rightarrow> u64"
  load_slots :: "'tb \<Rightarrow> load_slot \<times> load_slot"
  putchar_fifo :: "'tb \<Rightarrow> char option"
  ext_flush_stat :: "'tb \<Rightarrow> u32"
  ext_flush_cycles :: "'tb \<Rightarrow> u32"
  scsi_out :: "'tb \<Rightarrow> scsi_ports"
  irqs_taken :: "'tb \<Rightarrow> nat"

record run_cfg =
  max_cyc :: nat
  max_icnt :: u64
  NO_RETIRE_LIMIT :: nat
  g_trace_loadval :: bool
  g_save_at :: u64
  verify_file :: "bytes option"
  PREAMBLE_PC :: u32
  rx_bytes :: "u8 list"
  g_rxsteps :: "(string \<times> string) list"
  c_bus :: bus_cfg
  c_scsi :: scsi_cfg
  c_xf :: xf_cfg

text \<open>What the code outside the repository contributes to a cycle: the devices step the model's ports and the staging memory.\<close>

record ('tb, 'h, 'd, 'r) sys =
  cfg :: run_cfg
  vl :: "'tb rtl"
  rawp :: "u64 \<Rightarrow> nat"
  dev_cycle :: "nat \<Rightarrow> 'tb \<times> mem \<times> 'h \<Rightarrow> 'tb \<times> mem \<times> 'h"
  scsix :: "('d, 'r) scsi_ext"

record ('tb, 'h, 'd, 'r) loop =
  model :: 'tb
  inp :: tb_in
  membus :: bus
  svc :: "('d, 'r) scsi_svc"
  devs :: 'h
  con :: console
  mont :: mon
  xfl :: xf
  timers :: "u64 list"
  retired :: u64
  last_pc :: u64
  last_retire_cyc :: nat
  deadlock :: bool
  g_save_armed :: bool
  ref_lv :: "lvrec list"
  g_verify_target :: u64
  preamble_hit :: bool

record 'tb ckpt =
  ck_model :: 'tb
  ck_inp :: tb_in
  ck_mem :: mem
  ck_cyc :: nat
  ck_retired :: u64
  ck_memlat :: u64

text \<open>Why the body leaves the loop: a save, a verification, a monitor that stays halted, a trap in the latency draw.\<close>

datatype 'tb stop = Saved "'tb ckpt" | Verified "page_counts option" | Frozen | Trap

section \<open>The top of a cycle\<close>

definition save_ckpt :: "nat \<Rightarrow> ('tb, 'h, 'd, 'r) loop \<Rightarrow> 'tb ckpt" where
  "save_ckpt cyc s = \<lparr>ck_model = model s, ck_inp = inp s, ck_mem = g_mem (membus s), ck_cyc = cyc,
     ck_retired = retired s, ck_memlat = memlat_state (membus s)\<rparr>"

text \<open>A poll of the monitor: whether a client connects, and what a read gives.\<close>

type_synonym poll = "bool \<times> string option"

fun mon_freeze :: "mon_env \<Rightarrow> poll list \<Rightarrow> mon \<Rightarrow> mon option" where
  "mon_freeze E [] m = (if g_mon_paused m then None else Some m)"
| "mon_freeze E (p # ps) m = (if g_mon_paused m then mon_freeze E ps (mon_poll E (fst p) (snd p) m) else Some m)"

definition mon_turn :: "mon_env \<Rightarrow> poll \<times> poll list \<Rightarrow> nat \<Rightarrow> u64 \<Rightarrow> u64 \<Rightarrow> mon \<Rightarrow> mon option" where
  "mon_turn E ps cyc nret lpc m =
     (if g_mon_listen m then
        (let m = m\<lparr>g_mon_cyc := of_nat cyc, g_mon_retired := nret, g_mon_last_pc := lpc\<rparr>;
             m = (if g_mon_paused m \<or> cyc mod 1024 = 0 then mon_poll E (fst (fst ps)) (snd (fst ps)) m else m)
         in mon_freeze E (snd ps) m)
      else Some m)"

definition mon_env_of :: "('tb, 'h, 'd, 'r) loop \<Rightarrow> mon_env" where
  "mon_env_of s = \<lparr>e_ss = None, e_mem = g_mem (membus s), e_timer = timers s\<rparr>"

definition top_of_cycle :: "('tb, 'h, 'd, 'r) sys \<Rightarrow> poll \<times> poll list \<Rightarrow> nat \<Rightarrow> ('tb, 'h, 'd, 'r) loop
    \<Rightarrow> 'tb stop + ('tb, 'h, 'd, 'r) loop" where
  "top_of_cycle S ps cyc s =
     (let (x, p) = extflush_cycle (c_xf (cfg S)) cyc (ext_flush_stat (vl S) (model s)) (ext_flush_cycles (vl S) (model s))
                     (xfl s, in_xf (inp s));
          s = s\<lparr>xfl := x, inp := (inp s)\<lparr>in_xf := p\<rparr>\<rparr>
      in if g_save_armed s then Inl (Saved (save_ckpt cyc s))
         else (case mon_turn (mon_env_of s) ps cyc (retired s) (last_pc s) (mont s) of
                 None \<Rightarrow> Inl Frozen
               | Some m \<Rightarrow> Inr (s\<lparr>mont := m\<rparr>)))"

section \<open>The posedge and what retired\<close>

definition eval_at :: "('tb, 'h, 'd, 'r) sys \<Rightarrow> bool \<Rightarrow> nat \<Rightarrow> ('tb, 'h, 'd, 'r) loop \<Rightarrow> ('tb, 'h, 'd, 'r) loop" where
  "eval_at S edge cyc s =
     (let t = eval (vl S) edge (inp s) (model s)
      in s\<lparr>model := t, timers := ((log_timer_irq (of_nat cyc)) ^^ irqs_taken (vl S) t) (timers s)\<rparr>)"

definition drain_console :: "run_cfg \<Rightarrow> nat \<Rightarrow> char option \<Rightarrow> ('tb, 'h, 'd, 'r) loop \<Rightarrow> ('tb, 'h, 'd, 'r) loop" where
  "drain_console c cyc ch s = (case ch of
     None \<Rightarrow> s
   | Some k \<Rightarrow> s\<lparr>mont := mon_console_out k (mont s), con := console_char (g_rxsteps c) cyc k (con s)\<rparr>)"

definition posedge :: "('tb, 'h, 'd, 'r) sys \<Rightarrow> nat \<Rightarrow> ('tb, 'h, 'd, 'r) loop \<Rightarrow> ('tb, 'h, 'd, 'r) loop" where
  "posedge S cyc s =
     (let (rx, c) = rx_drip (rx_bytes (cfg S)) cyc (con s);
          head = putchar_fifo (vl S) (model s);
          i = inp s;
          i = (case rx of None \<Rightarrow> i\<lparr>scc_rx_valid := False\<rparr> | Some b \<Rightarrow> i\<lparr>scc_rx_valid := True, scc_rx_byte := b\<rparr>);
          s = s\<lparr>con := c, inp := i\<lparr>putchar_fifo_pop := (head \<noteq> None)\<rparr>\<rparr>
      in drain_console (cfg S) cyc head (eval_at S True cyc s))"

definition count_retire :: "'tb rtl \<Rightarrow> nat \<Rightarrow> ('tb, 'h, 'd, 'r) loop \<Rightarrow> ('tb, 'h, 'd, 'r) loop" where
  "count_retire R cyc s =
     (if retire_valid R (model s)
      then s\<lparr>retired := retired s + 1, last_pc := retire_pc R (model s), last_retire_cyc := cyc\<rparr> else s)"

definition watchdog :: "run_cfg \<Rightarrow> 'tb rtl \<Rightarrow> nat \<Rightarrow> ('tb, 'h, 'd, 'r) loop \<Rightarrow> ('tb, 'h, 'd, 'r) loop" where
  "watchdog c R cyc s =
     (if g_trace_loadval c \<and> length (ref_lv s) < 2000000
      then s\<lparr>ref_lv := loadval_capture (fst (load_slots R (model s))) (snd (load_slots R (model s))) (ref_lv s)\<rparr>
      else if NO_RETIRE_LIMIT c \<noteq> 0 \<and> cyc - last_retire_cyc s > NO_RETIRE_LIMIT c
      then s\<lparr>deadlock := True, membus := (membus s)\<lparr>halted := True\<rparr>\<rparr>
      else s)"

definition preamble :: "run_cfg \<Rightarrow> 'tb rtl \<Rightarrow> ('tb, 'h, 'd, 'r) loop \<Rightarrow> ('tb, 'h, 'd, 'r) loop" where
  "preamble c R s =
     (if PREAMBLE_PC c \<noteq> 0 \<and> \<not> preamble_hit s \<and> retire_valid R (model s) \<and> ucast (retire_pc R (model s)) = PREAMBLE_PC c
      then s\<lparr>preamble_hit := True,
             g_verify_target := (if verify_file c \<noteq> None then g_verify_target s + retired s else g_verify_target s)\<rparr>
      else s)"

definition verify_due :: "run_cfg \<Rightarrow> ('tb, 'h, 'd, 'r) loop \<Rightarrow> bool" where
  "verify_due c s \<longleftrightarrow> verify_file c \<noteq> None \<and> retired s \<ge> g_verify_target s"

section \<open>Devices, checkpoint arming, memory\<close>

definition service_devices :: "('tb, 'h, 'd, 'r) sys \<Rightarrow> nat \<Rightarrow> ('tb, 'h, 'd, 'r) loop \<Rightarrow> ('tb, 'h, 'd, 'r) loop" where
  "service_devices S cyc s =
     (let (t, m, h) = dev_cycle S cyc (model s, g_mem (membus s), devs s);
          v = scsi_cycle (scsix S) (c_scsi (cfg S)) cyc m (scsi_out (vl S) t) (svc s)
      in s\<lparr>model := t, membus := (membus s)\<lparr>g_mem := m\<rparr>, devs := h, svc := v, inp := (inp s)\<lparr>scsi_rsp := tb_rsp v\<rparr>\<rparr>)"

definition arm_save :: "run_cfg \<Rightarrow> ('tb, 'h, 'd, 'r) loop \<Rightarrow> ('tb, 'h, 'd, 'r) loop" where
  "arm_save c s =
     (if g_save_at c \<noteq> 0 \<and> retired s \<ge> g_save_at c \<and> g_scsi_quiescent (svc s)
         \<and> reply_cyc (lane0 (membus s)) = - 1 \<and> \<not> prev_req_valid (lane0 (membus s))
         \<and> reply_cyc (lane1 (membus s)) = - 1 \<and> \<not> prev_req_valid (lane1 (membus s))
      then s\<lparr>g_save_armed := True\<rparr> else s)"

definition rsp_of :: "lane \<Rightarrow> bool \<times> bool \<times> u32 list" where
  "rsp_of l = (rsp_valid l, rsp_bad l, rsp_load_data l)"

definition service_bus :: "('tb, 'h, 'd, 'r) sys \<Rightarrow> nat \<Rightarrow> ('tb, 'h, 'd, 'r) loop \<Rightarrow> ('tb, 'h, 'd, 'r) loop option" where
  "service_bus S cyc s =
     map_option (\<lambda>b. s\<lparr>membus := b, inp := (inp s)\<lparr>mem_rsp := rsp_of (lane0 b), mem2_rsp := rsp_of (lane1 b)\<rparr>\<rparr>)
       (bus_cycle (c_bus (cfg S)) (rawp S) cyc (mem_reqs (vl S) (model s)) (membus s))"

section \<open>The cycle and the loop\<close>

definition retire_part :: "('tb, 'h, 'd, 'r) sys \<Rightarrow> nat \<Rightarrow> ('tb, 'h, 'd, 'r) loop \<Rightarrow> ('tb, 'h, 'd, 'r) loop" where
  "retire_part S cyc s = preamble (cfg S) (vl S) (watchdog (cfg S) (vl S) cyc (count_retire (vl S) cyc (posedge S cyc s)))"

definition finish_cycle :: "('tb, 'h, 'd, 'r) sys \<Rightarrow> nat \<Rightarrow> ('tb, 'h, 'd, 'r) loop
    \<Rightarrow> 'tb stop + ('tb, 'h, 'd, 'r) loop" where
  "finish_cycle S cyc s =
     (let s = s\<lparr>mont := mon_step_done (retired s) (retire_pc (vl S) (model s)) (mont s)\<rparr>;
          s = arm_save (cfg S) (service_devices S cyc s)
      in case service_bus S cyc s of None \<Rightarrow> Inl Trap | Some s \<Rightarrow> Inr (eval_at S False cyc s))"

definition body :: "('tb, 'h, 'd, 'r) sys \<Rightarrow> poll \<times> poll list \<Rightarrow> nat \<Rightarrow> ('tb, 'h, 'd, 'r) loop
    \<Rightarrow> 'tb stop + ('tb, 'h, 'd, 'r) loop" where
  "body S ps cyc s =
     bind_sum (top_of_cycle S ps cyc s) (\<lambda>s.
       let s = retire_part S cyc s in
       if verify_due (cfg S) s
       then Inl (Verified (verify_against_checkpoint (rawp S) \<lparr>dram = g_mem (membus s), gold = None\<rparr> (verify_file (cfg S))))
       else finish_cycle S cyc s)"

definition loop_cond :: "('tb, 'h, 'd, 'r) sys \<Rightarrow> nat \<Rightarrow> ('tb, 'h, 'd, 'r) loop \<Rightarrow> bool" where
  "loop_cond S cyc s \<longleftrightarrow> cyc < max_cyc (cfg S) \<and> (max_icnt (cfg S) = 0 \<or> retired s < max_icnt (cfg S))
     \<and> \<not> halted (membus s) \<and> \<not> gotFinish (vl S) (model s)"

function run_loop :: "('tb, 'h, 'd, 'r) sys \<Rightarrow> (nat \<Rightarrow> poll \<times> poll list) \<Rightarrow> nat \<Rightarrow> ('tb, 'h, 'd, 'r) loop
    \<Rightarrow> 'tb stop option \<times> nat \<times> ('tb, 'h, 'd, 'r) loop" where
  "run_loop S I cyc s =
     (if loop_cond S cyc s then
        (case body S (I cyc) cyc s of Inl e \<Rightarrow> (Some e, cyc, s) | Inr s' \<Rightarrow> run_loop S I (cyc + 1) s')
      else (None, cyc, s))"
  by pat_completeness auto
termination by (relation "measure (\<lambda>(S, I, cyc, s). max_cyc (cfg S) - cyc)") (auto simp: loop_cond_def)

declare run_loop.simps [simp del]

text \<open>\<^verbatim>\<open>--restore\<close>: what the saved file replaces in the state a fresh start has built.\<close>

definition resume_lane :: "nat \<Rightarrow> bool \<times> bool \<times> u32 list \<Rightarrow> lane" where
  "resume_lane n r = (lane_init n)\<lparr>rsp_valid := fst r, rsp_bad := fst (snd r), rsp_load_data := snd (snd r)\<rparr>"

definition restore :: "'tb ckpt \<Rightarrow> ('tb, 'h, 'd, 'r) loop \<Rightarrow> ('tb, 'h, 'd, 'r) loop" where
  "restore ck s =
     s\<lparr>model := ck_model ck, inp := ck_inp ck,
       membus := (membus s)\<lparr>g_mem := ck_mem ck, memlat_state := ck_memlat ck,
         lane0 := resume_lane 4 (mem_rsp (ck_inp ck)), lane1 := resume_lane 16 (mem2_rsp (ck_inp ck))\<rparr>,
       retired := ck_retired ck, last_retire_cyc := ck_cyc ck\<rparr>"

definition verdict :: "('tb, 'h, 'd, 'r) loop \<Rightarrow> string" where
  "verdict s = (if deadlock s then ''NO-RETIRE WATCHDOG tripped (wedged)''
                else if halted (membus s) then ''halted (magic-halt store)'' else ''reached max cycles'')"

section \<open>What the phases leave alone\<close>

lemma top_of_cycle_frame:
  assumes "top_of_cycle S ps cyc s = Inr s'"
  shows "model s' = model s" "membus s' = membus s" "svc s' = svc s" "devs s' = devs s" "con s' = con s" "timers s' = timers s"
    "retired s' = retired s" "last_pc s' = last_pc s" "last_retire_cyc s' = last_retire_cyc s" "deadlock s' = deadlock s"
    "g_save_armed s' = g_save_armed s" "\<not> g_save_armed s" "ref_lv s' = ref_lv s" "g_verify_target s' = g_verify_target s"
    "preamble_hit s' = preamble_hit s"
    "mon_turn (mon_env_of s) ps cyc (retired s) (last_pc s) (mont s) = Some (mont s')"
  using assms by (auto simp: top_of_cycle_def mon_env_of_def Let_def split: prod.splits if_splits option.splits)

lemma drain_console_frame [simp]:
  "model (drain_console c cyc k s) = model s" "membus (drain_console c cyc k s) = membus s"
  "retired (drain_console c cyc k s) = retired s" "last_retire_cyc (drain_console c cyc k s) = last_retire_cyc s"
  "deadlock (drain_console c cyc k s) = deadlock s" "ref_lv (drain_console c cyc k s) = ref_lv s"
  "g_mon_paused (mont (drain_console c cyc k s)) = g_mon_paused (mont s)"
  "g_mon_step_to (mont (drain_console c cyc k s)) = g_mon_step_to (mont s)"
  "g_mon_listen (mont (drain_console c cyc k s)) = g_mon_listen (mont s)"
  "g_mon_client (mont (drain_console c cyc k s)) = g_mon_client (mont s)"
  by (auto simp: drain_console_def mon_console_out_def mon_send_def split: option.splits)

lemma posedge_frame [simp]:
  "membus (posedge S cyc s) = membus s" "retired (posedge S cyc s) = retired s"
  "last_retire_cyc (posedge S cyc s) = last_retire_cyc s" "deadlock (posedge S cyc s) = deadlock s" "ref_lv (posedge S cyc s) = ref_lv s"
  "g_mon_paused (mont (posedge S cyc s)) = g_mon_paused (mont s)" "g_mon_step_to (mont (posedge S cyc s)) = g_mon_step_to (mont s)"
  "g_mon_listen (mont (posedge S cyc s)) = g_mon_listen (mont s)" "g_mon_client (mont (posedge S cyc s)) = g_mon_client (mont s)"
  by (simp_all add: posedge_def eval_at_def Let_def split: prod.splits)

lemma posedge_model: "\<exists>i. model (posedge S cyc s) = eval (vl S) True i (model s)"
  by (auto simp: posedge_def eval_at_def Let_def split: prod.splits)

lemma retire_part_fields:
  fixes S :: "('tb, 'h, 'd, 'r) sys" and s :: "('tb, 'h, 'd, 'r) loop" and cyc :: nat
  defines "t \<equiv> model (posedge S cyc s)"
  shows "model (retire_part S cyc s) = t"
    "retired (retire_part S cyc s) = (if retire_valid (vl S) t then retired s + 1 else retired s)"
    "last_retire_cyc (retire_part S cyc s) = (if retire_valid (vl S) t then cyc else last_retire_cyc s)"
    "mont (retire_part S cyc s) = mont (posedge S cyc s)"
    "g_trace_loadval (cfg S) \<and> length (ref_lv s) < 2000000 \<Longrightarrow>
       deadlock (retire_part S cyc s) = deadlock s \<and> membus (retire_part S cyc s) = membus s \<and>
       ref_lv (retire_part S cyc s) = loadval_capture (fst (load_slots (vl S) t)) (snd (load_slots (vl S) t)) (ref_lv s)"
    "\<not> (g_trace_loadval (cfg S) \<and> length (ref_lv s) < 2000000) \<Longrightarrow>
       (let trip = NO_RETIRE_LIMIT (cfg S) \<noteq> 0 \<and> cyc - last_retire_cyc (retire_part S cyc s) > NO_RETIRE_LIMIT (cfg S)
        in deadlock (retire_part S cyc s) = (deadlock s \<or> trip) \<and>
           membus (retire_part S cyc s) = (membus s)\<lparr>halted := halted (membus s) \<or> trip\<rparr>)"
  unfolding t_def retire_part_def preamble_def watchdog_def count_retire_def Let_def by auto

lemma service_devices_frame [simp]:
  "retired (service_devices S cyc s) = retired s" "last_retire_cyc (service_devices S cyc s) = last_retire_cyc s"
  "deadlock (service_devices S cyc s) = deadlock s" "ref_lv (service_devices S cyc s) = ref_lv s"
  "mont (service_devices S cyc s) = mont s" "halted (membus (service_devices S cyc s)) = halted (membus s)"
  "lane0 (membus (service_devices S cyc s)) = lane0 (membus s)" "lane1 (membus (service_devices S cyc s)) = lane1 (membus s)"
  by (simp_all add: service_devices_def Let_def split: prod.splits)

lemma arm_save_frame [simp]:
  "model (arm_save c s) = model s" "membus (arm_save c s) = membus s" "retired (arm_save c s) = retired s"
  "last_retire_cyc (arm_save c s) = last_retire_cyc s" "deadlock (arm_save c s) = deadlock s" "ref_lv (arm_save c s) = ref_lv s"
  "mont (arm_save c s) = mont s" "inp (arm_save c s) = inp s"
  by (simp_all add: arm_save_def)

lemma lane_reply_halted:
  "halted b \<Longrightarrow> halted (lane0_reply c rw cyc b)" "halted b \<Longrightarrow> halted (lane1_reply c rw cyc b)"
  by (simp_all add: lane0_reply_def lane0_store_def lane1_reply_def lane1_store_def Let_def)

lemma lane_cycle_halted:
  "lane0_cycle c rw cyc rq b = Some b' \<Longrightarrow> halted b \<Longrightarrow> halted b'"
  "lane1_cycle c rw cyc rq b = Some b' \<Longrightarrow> halted b \<Longrightarrow> halted b'"
  by (auto simp: lane0_cycle_def lane1_cycle_def Let_def lane_reply_halted dest!: lane0_accept_frame lane1_accept_frame)

lemma bus_cycle_halted: "bus_cycle c rw cyc rqs b = Some b' \<Longrightarrow> halted b \<Longrightarrow> halted b'"
  using lane_cycle_halted by (auto simp: bus_cycle_def bind_eq_Some_conv)

lemma finish_cycle_frame:
  assumes "finish_cycle S cyc s = Inr s'"
  shows "retired s' = retired s" "last_retire_cyc s' = last_retire_cyc s" "deadlock s' = deadlock s" "ref_lv s' = ref_lv s"
    "mont s' = mon_step_done (retired s) (retire_pc (vl S) (model s)) (mont s)"
    "halted (membus s) \<Longrightarrow> halted (membus s')"
  using assms by (auto simp: finish_cycle_def service_bus_def eval_at_def Let_def bus_cycle_halted split: option.splits)

lemma body_split:
  assumes "body S ps cyc s = Inr s'"
  obtains s1 where "top_of_cycle S ps cyc s = Inr s1" "\<not> verify_due (cfg S) (retire_part S cyc s1)"
    "finish_cycle S cyc (retire_part S cyc s1) = Inr s'"
  using assms by (auto simp: body_def bind_sum_def Let_def split: sum.splits if_splits)

section \<open>The loop ends\<close>

text \<open>The states of a run: \<open>n\<close> cycles completed, none of which left the loop.\<close>

fun steps :: "('tb, 'h, 'd, 'r) sys \<Rightarrow> (nat \<Rightarrow> poll \<times> poll list) \<Rightarrow> nat \<Rightarrow> nat \<Rightarrow> ('tb, 'h, 'd, 'r) loop \<Rightarrow> ('tb, 'h, 'd, 'r) loop option" where
  "steps S I 0 cyc s = Some s"
| "steps S I (Suc n) cyc s =
     (if loop_cond S cyc s then (case body S (I cyc) cyc s of Inl e \<Rightarrow> None | Inr s' \<Rightarrow> steps S I n (cyc + 1) s') else None)"

lemma steps_Suc_end:
  "steps S I (Suc n) cyc s = Some t \<longleftrightarrow>
     (\<exists>u. steps S I n cyc s = Some u \<and> loop_cond S (cyc + n) u \<and> body S (I (cyc + n)) (cyc + n) u = Inr t)"
proof (induction n arbitrary: cyc s)
  case 0
  then show ?case by (auto split: sum.splits)
next
  case (Suc n)
  show ?case
    unfolding steps.simps(2) [of S I "Suc n"]
    using Suc.IH by (auto split: if_splits sum.splits simp del: steps.simps(2)) (auto split: if_splits sum.splits)
qed

lemma steps_invariant:
  assumes "steps S I n cyc s = Some t" "P s"
    and "\<And>k u v. steps S I k cyc s = Some u \<Longrightarrow> P u \<Longrightarrow> body S (I (cyc + k)) (cyc + k) u = Inr v \<Longrightarrow> P v"
  shows "P t"
  using assms(1)
proof (induction n arbitrary: t)
  case 0
  then show ?case using assms(2) by simp
next
  case (Suc n)
  then show ?case using assms(3) unfolding steps_Suc_end by blast
qed

lemma run_loop_steps:
  assumes "run_loop S I cyc s = (e, c', s')"
  shows "cyc \<le> c' \<and> c' \<le> max cyc (max_cyc (cfg S)) \<and> steps S I (c' - cyc) cyc s = Some s' \<and>
    (case e of None \<Rightarrow> \<not> loop_cond S c' s' | Some x \<Rightarrow> loop_cond S c' s' \<and> body S (I c') c' s' = Inl x)"
  using assms
proof (induction S I cyc s rule: run_loop.induct)
  case (1 S I cyc s)
  show ?case
  proof (cases "loop_cond S cyc s")
    case False
    then show ?thesis using "1.prems" by (simp add: run_loop.simps)
  next
    case True
    show ?thesis
    proof (cases "body S (I cyc) cyc s")
      case (Inl x)
      then show ?thesis using True "1.prems" by (auto simp: run_loop.simps)
    next
      case (Inr u)
      then have "run_loop S I (cyc + 1) u = (e, c', s')" using True "1.prems" by (subst (asm) run_loop.simps) simp
      with "1.IH" [OF True Inr] have ih: "cyc + 1 \<le> c'" "c' \<le> max (cyc + 1) (max_cyc (cfg S))"
        "steps S I (c' - (cyc + 1)) (cyc + 1) u = Some s'"
        "case e of None \<Rightarrow> \<not> loop_cond S c' s' | Some x \<Rightarrow> loop_cond S c' s' \<and> body S (I c') c' s' = Inl x" by blast+
      have "c' - cyc = Suc (c' - (cyc + 1))" using ih(1) by simp
      then have "steps S I (c' - cyc) cyc s = Some s'" using True Inr ih(3) by simp
      moreover have "c' \<le> max cyc (max_cyc (cfg S))" using ih(2) True by (auto simp: loop_cond_def)
      ultimately show ?thesis using ih(1,4) by simp
    qed
  qed
qed


end
