(* ===== verification/Run_Safety.thy ===== *)
theory Run_Safety
  imports Run_Loop
begin

text \<open>
  What a run promises: a page list goes out complete and in order, a wedged core is reported in
  bounded time and only then, a monitor step stops on the instruction it was asked for.
\<close>

section \<open>The page list of an external flush\<close>

text \<open>The state after \<open>k\<close> cycles from \<open>c\<close>, given the status ports seen in each.\<close>

primrec xf_iter :: "xf_cfg \<Rightarrow> nat \<Rightarrow> (nat \<Rightarrow> u32 \<times> u32) \<Rightarrow> nat \<Rightarrow> xf \<times> xf_ports \<Rightarrow> xf \<times> xf_ports" where
  "xf_iter C c ob 0 s = s"
| "xf_iter C c ob (Suc k) s = extflush_cycle C (c + k) (fst (ob k)) (snd (ob k)) (xf_iter C c ob k s)"

text \<open>What the ports ask of the model in a cycle: a page, the start of the walk, or nothing.\<close>

datatype xf_cmd = Push u32 | Go bool | Idle

definition cmd_of :: "xf_ports \<Rightarrow> xf_cmd" where
  "cmd_of p = (if ext_pg_push p then Push (ext_pg_ppn p) else if ext_pg_go p then Go (ext_pg_drop p) else Idle)"

lemma xf_account_frame [simp]: "xf_st (xf_account cyc b n c x) = xf_st x" "xf_k (xf_account cyc b n c x) = xf_k x"
  by (simp_all add: xf_account_def Let_def)

lemma xf_push_step:
  assumes "extflush_period C \<noteq> 0" "xfpg_n C \<noteq> 0" "xf_st (fst s) = 1 \<or> xf_st (fst s) = 0 \<and> xf_due C cyc \<and> \<not> bit stat 0"
  defines "k \<equiv> if xf_st (fst s) = 1 then xf_k (fst s) else 0"
  shows "cmd_of (snd (extflush_cycle C cyc stat n s)) = Push (ucast (xfpg_base C + k)) \<and>
    xf_k (fst (extflush_cycle C cyc stat n s)) = k + 1 \<and>
    xf_st (fst (extflush_cycle C cyc stat n s)) = (if k + 1 = xfpg_n C then 2 else 1)"
  using assms by (cases s) (auto simp: extflush_cycle_def xf_pages_def cmd_of_def Let_def)

lemma xf_go_step:
  assumes "extflush_period C \<noteq> 0" "xfpg_n C \<noteq> 0" "xf_st (fst s) = 2"
  shows "cmd_of (snd (extflush_cycle C cyc stat n s)) = Go (xfpg_drop C \<noteq> 0) \<and> xf_st (fst (extflush_cycle C cyc stat n s)) = 0"
  using assms by (cases s) (auto simp: extflush_cycle_def xf_pages_def cmd_of_def Let_def)

lemma of_nat_u64_eq: "a < 2 ^ 64 \<Longrightarrow> b < 2 ^ 64 \<Longrightarrow> of_nat a = (of_nat b :: u64) \<longleftrightarrow> a = b"
  by (simp add: word_of_nat_eq_iff take_bit_nat_eq_self)

lemma xf_pushes:
  assumes "extflush_period C \<noteq> 0" "xfpg_n C = of_nat n" "n < 2 ^ 64" "xf_st (fst s) = 0" "xf_due C c" "\<not> bit (fst (ob 0)) 0" "i < n"
  shows "cmd_of (snd (xf_iter C c ob (Suc i) s)) = Push (ucast (xfpg_base C + of_nat i)) \<and>
    xf_k (fst (xf_iter C c ob (Suc i) s)) = of_nat (Suc i) \<and> xf_st (fst (xf_iter C c ob (Suc i) s)) = (if Suc i = n then 2 else 1)"
proof -
  have n0: "xfpg_n C \<noteq> 0" using of_nat_u64_eq [of n 0] assms(2,3,7) by simp
  have last: "(of_nat (Suc i) = xfpg_n C) = (Suc i = n)" if "i < n" for i
    using of_nat_u64_eq [of "Suc i" n] assms(2,3) that by simp
  show ?thesis using assms(7)
  proof (induction i)
    case 0
    then show ?case using xf_push_step [OF assms(1) n0, of s c "fst (ob 0)" "snd (ob 0)"] last [of 0] assms(4-6) by simp
  next
    case (Suc i)
    then have "xf_st (fst (xf_iter C c ob (Suc i) s)) = 1" "xf_k (fst (xf_iter C c ob (Suc i) s)) = of_nat (Suc i)" by simp_all
    then show ?case
      using xf_push_step [OF assms(1) n0, of "xf_iter C c ob (Suc i) s" "c + Suc i" "fst (ob (Suc i))" "snd (ob (Suc i))"]
        last [OF Suc.prems] unfolding xf_iter.simps(2) [of C c ob "Suc i"] by (simp add: add.commute)
  qed
qed

text \<open>
  A page list goes out complete, in order and once: when a period falls due on an idle list and
  an idle flusher, the following \<open>n\<close> cycles push the \<open>n\<close> page numbers from the base, one each, and
  the next starts the walk with the configured operation; the model's status in between, and
  any period falling due, change nothing of it.
\<close>

theorem xf_list_complete:
  assumes "extflush_period C \<noteq> 0" "xfpg_n C = of_nat n" "0 < n" "n < 2 ^ 64" "xf_st (fst s) = 0" "xf_due C c" "\<not> bit (fst (ob 0)) 0"
  shows "map (\<lambda>k. cmd_of (snd (xf_iter C c ob (Suc k) s))) [0..<Suc n] =
    map (\<lambda>k. Push (ucast (xfpg_base C + of_nat k))) [0..<n] @ [Go (xfpg_drop C \<noteq> 0)]"
proof -
  have n0: "xfpg_n C \<noteq> 0" using of_nat_u64_eq [of n 0] assms(2-4) by simp
  note pushes = xf_pushes [where ob = ob, OF assms(1,2,4-7)]
  have "xf_st (fst (xf_iter C c ob n s)) = 2" using pushes [of "n - 1"] assms(3) by simp
  then have "cmd_of (snd (xf_iter C c ob (Suc n) s)) = Go (xfpg_drop C \<noteq> 0)" using xf_go_step [OF assms(1) n0] by simp
  moreover have "map (\<lambda>k. cmd_of (snd (xf_iter C c ob (Suc k) s))) [0..<n] = map (\<lambda>k. Push (ucast (xfpg_base C + of_nat k))) [0..<n]"
    using pushes by (intro map_cong) simp_all
  ultimately show ?thesis by (simp del: xf_iter.simps)
qed

definition quiet_ports :: xf_ports where
  "quiet_ports = \<lparr>ext_flush_ctl = False, ext_pg_push = False, ext_pg_go = False, ext_pg_drop = False, ext_pg_ppn = 0\<rparr>"

definition two_pages :: xf_cfg where
  "two_pages = \<lparr>extflush_period = 100, xfpg_base = 5, xfpg_n = 2, xfpg_drop = 1\<rparr>"

theorem xf_list_complete_witness:
  "xf_due two_pages 100 \<and>
   map (\<lambda>k. cmd_of (snd (xf_iter two_pages 100 (\<lambda>_. (0, 0)) (Suc k) (xf_init, quiet_ports)))) [0..<Suc 2] = [Push 5, Push 6, Go True]"
proof -
  have "xf_due two_pages 100" by (simp add: xf_due_def two_pages_def)
  moreover have "extflush_period two_pages \<noteq> 0" "xfpg_n two_pages = of_nat 2" "xf_st (fst (xf_init, quiet_ports)) = 0"
    by (simp_all add: two_pages_def xf_init_def)
  ultimately show ?thesis
    using xf_list_complete [of two_pages 2 "(xf_init, quiet_ports)" 100 "\<lambda>_. (0, 0)"]
    by (simp del: xf_iter.simps add: two_pages_def upt_rec)
qed

section \<open>The watchdog\<close>

text \<open>
  A core that is stuck: a set of model states that no evaluation and no device leaves and in
  which nothing retires.
\<close>

definition wedged :: "('tb, 'h, 'd, 'r) sys \<Rightarrow> ('tb \<Rightarrow> bool) \<Rightarrow> bool" where
  "wedged S W \<longleftrightarrow> (\<forall>t. W t \<longrightarrow> \<not> retire_valid (vl S) t \<and> (\<forall>e i. W (eval (vl S) e i t)) \<and>
     (\<forall>cyc m h. W (fst (dev_cycle S cyc (t, m, h)))))"

lemma service_devices_model: "model (service_devices S cyc s) = fst (dev_cycle S cyc (model s, g_mem (membus s), devs s))"
  by (simp add: service_devices_def Let_def split: prod.splits)

lemma finish_cycle_model:
  assumes "finish_cycle S cyc s = Inr s'"
  shows "\<exists>i. model s' = eval (vl S) False i (fst (dev_cycle S cyc (model s, g_mem (membus s), devs s)))"
proof -
  define u where "u = arm_save (cfg S) (service_devices S cyc (s\<lparr>mont := mon_step_done (retired s) (retire_pc (vl S) (model s)) (mont s)\<rparr>))"
  have "\<exists>i. model s' = eval (vl S) False i (model u)"
    using assms by (auto simp: finish_cycle_def service_bus_def eval_at_def Let_def u_def [symmetric] split: option.splits)
  then show ?thesis by (simp add: u_def service_devices_model)
qed

lemma body_wedged:
  assumes "wedged S W" "W (model s)" "body S ps cyc s = Inr s'"
  shows "W (model s')" "retired s' = retired s" "last_retire_cyc s' = last_retire_cyc s"
    "\<not> g_trace_loadval (cfg S) \<Longrightarrow> NO_RETIRE_LIMIT (cfg S) \<noteq> 0 \<Longrightarrow> cyc - last_retire_cyc s > NO_RETIRE_LIMIT (cfg S) \<Longrightarrow>
       deadlock s' \<and> halted (membus s')"
proof -
  from body_split [OF assms(3)] obtain s1 where s1: "top_of_cycle S ps cyc s = Inr s1"
    and f: "finish_cycle S cyc (retire_part S cyc s1) = Inr s'" by metis
  note top = top_of_cycle_frame [OF s1]
  define t where "t = model (posedge S cyc s1)"
  have t: "W t" "\<not> retire_valid (vl S) t"
    using posedge_model [of S cyc s1] assms(1,2) by (auto simp: wedged_def t_def top(1))
  note rp = retire_part_fields [where S = S and cyc = cyc and s = s1, folded t_def]
  show "W (model s')" using finish_cycle_model [OF f] t assms(1) by (auto simp: wedged_def rp(1))
  show "retired s' = retired s" "last_retire_cyc s' = last_retire_cyc s"
    using t by (simp_all add: finish_cycle_frame [OF f] rp(2,3) top)
  assume "\<not> g_trace_loadval (cfg S)" "NO_RETIRE_LIMIT (cfg S) \<noteq> 0" "cyc - last_retire_cyc s > NO_RETIRE_LIMIT (cfg S)"
  then have "deadlock (retire_part S cyc s1)" "halted (membus (retire_part S cyc s1))"
    using rp(6) t by (simp_all add: Let_def rp(3) top)
  then show "deadlock s' \<and> halted (membus s')" using finish_cycle_frame [OF f] by simp
qed

lemma steps_wedged:
  assumes "wedged S W" "W (model s)" "steps S I n cyc s = Some t"
  shows "W (model t) \<and> retired t = retired s \<and> last_retire_cyc t = last_retire_cyc s"
proof (rule steps_invariant [OF assms(3)])
  fix k u v assume "W (model u) \<and> retired u = retired s \<and> last_retire_cyc u = last_retire_cyc s"
    and "body S (I (cyc + k)) (cyc + k) u = Inr v"
  then show "W (model v) \<and> retired v = retired s \<and> last_retire_cyc v = last_retire_cyc s"
    using body_wedged(1-3) [OF assms(1)] by metis
qed (use assms(2) in simp)


lemma steps_add: "steps S I (m + n) cyc s = Option.bind (steps S I m cyc s) (steps S I n (cyc + m))"
  by (induction m arbitrary: cyc s) (auto split: sum.splits)

lemma steps_retired:
  assumes "steps S I n cyc s = Some t"
  shows "last_retire_cyc t \<ge> cyc \<or> retired t = retired s \<and> last_retire_cyc t = last_retire_cyc s"
proof (rule steps_invariant [OF assms])
  fix k u v assume k: "last_retire_cyc u \<ge> cyc \<or> retired u = retired s \<and> last_retire_cyc u = last_retire_cyc s"
    and b: "body S (I (cyc + k)) (cyc + k) u = Inr v"
  from body_split [OF b] obtain s1 where s1: "top_of_cycle S (I (cyc + k)) (cyc + k) u = Inr s1"
    and f: "finish_cycle S (cyc + k) (retire_part S (cyc + k) s1) = Inr v" by metis
  show "last_retire_cyc v \<ge> cyc \<or> retired v = retired s \<and> last_retire_cyc v = last_retire_cyc s"
    using k by (simp add: finish_cycle_frame [OF f] retire_part_fields top_of_cycle_frame [OF s1])
qed simp

text \<open>A run reaches a wedge verdict only in the cycle that trips the limit: the loop ends there.\<close>

lemma body_deadlock:
  assumes "body S ps cyc s = Inr t" "\<not> deadlock s" "deadlock t"
  shows "NO_RETIRE_LIMIT (cfg S) \<noteq> 0 \<and> cyc - last_retire_cyc t > NO_RETIRE_LIMIT (cfg S) \<and> halted (membus t)"
proof -
  from body_split [OF assms(1)] obtain s1 where s1: "top_of_cycle S ps cyc s = Inr s1"
    and f: "finish_cycle S cyc (retire_part S cyc s1) = Inr t" by metis
  define u where "u = retire_part S cyc s1"
  note rp = retire_part_fields [where S = S and cyc = cyc and s = s1, folded u_def]
  have "\<not> deadlock s1" "deadlock u" using assms(2,3) top_of_cycle_frame [OF s1] finish_cycle_frame [OF f] by (simp_all add: u_def)
  moreover have n: "\<not> (g_trace_loadval (cfg S) \<and> length (ref_lv s1) < 2000000)" using calculation rp(5) by blast
  ultimately have trip: "NO_RETIRE_LIMIT (cfg S) \<noteq> 0 \<and> cyc - last_retire_cyc u > NO_RETIRE_LIMIT (cfg S)"
    using rp(6) [OF n] by (auto simp: Let_def)
  moreover have "halted (membus u)" using rp(6) [OF n] trip by (simp add: Let_def)
  ultimately show ?thesis using finish_cycle_frame [OF f] by (simp add: u_def)
qed

lemma steps_deadlock:
  assumes "steps S I n cyc s = Some t" "\<not> deadlock s" "deadlock t"
  shows "0 < n \<and> NO_RETIRE_LIMIT (cfg S) \<noteq> 0 \<and> cyc + n - 1 - last_retire_cyc t > NO_RETIRE_LIMIT (cfg S) \<and> halted (membus t)"
  using assms
proof (induction n arbitrary: t)
  case (Suc n)
  from Suc.prems(1) obtain u where u: "steps S I n cyc s = Some u" "loop_cond S (cyc + n) u"
    "body S (I (cyc + n)) (cyc + n) u = Inr t" unfolding steps_Suc_end by blast
  have "\<not> deadlock u" using Suc.IH [OF u(1) Suc.prems(2)] u(2) by (auto simp: loop_cond_def)
  then show ?case using body_deadlock [OF u(3)] Suc.prems(3) by simp
qed simp

text \<open>
  C28.  The watchdog is never wrong: when a run ends wedged, nothing retired in its last cycles, one
  more than the limit of them (or in the whole run, if it was shorter).
\<close>

theorem watchdog_sound:
  assumes "steps S I n cyc s = Some t" "\<not> deadlock s" "deadlock t" "j \<le> n" "j \<le> NO_RETIRE_LIMIT (cfg S) + 1"
  shows "\<exists>u. steps S I (n - j) cyc s = Some u \<and> retired u = retired t"
proof -
  have d: "cyc + n - 1 - last_retire_cyc t > NO_RETIRE_LIMIT (cfg S)" using steps_deadlock [OF assms(1-3)] by simp
  obtain i where i: "n = i + j" "n - j = i" using assms(4) by (metis le_add_diff_inverse2)
  then obtain u where u: "steps S I i cyc s = Some u" "steps S I j (cyc + i) u = Some t"
    using assms(1) steps_add [of S I i j cyc s] by (auto simp: bind_eq_Some_conv)
  then have "retired t = retired u" using steps_retired [OF u(2)] d i assms(5) by auto
  then show ?thesis using u(1) i(2) by simp
qed

section \<open>Load records switch the watchdog off\<close>

text \<open>
  With \<^verbatim>\<open>TRACE_LOADVAL\<close> the watchdog is the other branch of the capture: a wedged core is not
  noticed while the reference holds fewer than two million records, however long it is stuck.
\<close>

theorem loadval_masks_wedge:
  assumes "wedged S W" "W (model s)" "g_trace_loadval (cfg S)" "length (ref_lv s) < 2000000"
    and "\<And>t. W t \<Longrightarrow> \<not> ls_valid (fst (load_slots (vl S) t)) \<and> \<not> ls_valid (snd (load_slots (vl S) t))"
    and "run_loop S I cyc s = (e, c', t)"
  shows "deadlock t = deadlock s"
proof -
  have "steps S I (c' - cyc) cyc s = Some t" using run_loop_steps [OF assms(6)] by simp
  then have "W (model t) \<and> ref_lv t = ref_lv s \<and> deadlock t = deadlock s"
  proof (rule steps_invariant)
    fix k u v assume u: "W (model u) \<and> ref_lv u = ref_lv s \<and> deadlock u = deadlock s"
      and b: "body S (I (cyc + k)) (cyc + k) u = Inr v"
    from body_split [OF b] obtain s1 where s1: "top_of_cycle S (I (cyc + k)) (cyc + k) u = Inr s1"
      and f: "finish_cycle S (cyc + k) (retire_part S (cyc + k) s1) = Inr v" by metis
    have "W (model (posedge S (cyc + k) s1))"
      using posedge_model [of S "cyc + k" s1] u assms(1) by (auto simp: wedged_def top_of_cycle_frame [OF s1])
    then show "W (model v) \<and> ref_lv v = ref_lv s \<and> deadlock v = deadlock s"
      using body_wedged(1) [OF assms(1) _ b] u assms(3-5) retire_part_fields(5) [where S = S and cyc = "cyc + k" and s = s1]
      by (simp add: finish_cycle_frame [OF f] top_of_cycle_frame [OF s1] loadval_capture_def loadval_of_def)
  qed (use assms(2) in simp)
  then show ?thesis by simp
qed

section \<open>A monitor step\<close>

lemma unat_plus_of_nat: "unat (w :: u64) + k < 2 ^ 64 \<Longrightarrow> unat (w + of_nat k) = unat w + k"
  by (simp add: unat_word_ariths(1) unat_of_nat take_bit_eq_mod)

text \<open>A connected client that sends nothing.\<close>

definition silent :: "poll \<times> poll list" where
  "silent = ((False, None), [])"

lemma mon_turn_silent:
  assumes "mon_turn E silent cyc n lpc m = Some m'" "g_mon_client m"
  shows "g_mon_client m'" "g_mon_listen m' = g_mon_listen m" "g_mon_step_to m' = g_mon_step_to m" "g_mon_paused m' = g_mon_paused m"
    "g_mon_listen m \<Longrightarrow> \<not> g_mon_paused m"
  using assms by (auto simp: mon_turn_def silent_def mon_poll_def Let_def split: if_splits)

lemma body_step:
  assumes "body S silent cyc s = Inr t" "g_mon_listen (mont s)" "g_mon_client (mont s)"
  shows "g_mon_listen (mont t) \<and> g_mon_client (mont t) \<and> \<not> g_mon_paused (mont s) \<and>
    (retired t = retired s \<or> retired t = retired s + 1) \<and>
    (if g_mon_step_to (mont s) \<noteq> 0 \<and> retired t \<ge> g_mon_step_to (mont s)
     then g_mon_paused (mont t) \<and> g_mon_step_to (mont t) = 0
     else \<not> g_mon_paused (mont t) \<and> g_mon_step_to (mont t) = g_mon_step_to (mont s))"
proof -
  from body_split [OF assms(1)] obtain s1 where s1: "top_of_cycle S silent cyc s = Inr s1"
    and f: "finish_cycle S cyc (retire_part S cyc s1) = Inr t" by metis
  note turn = mon_turn_silent [OF top_of_cycle_frame(16) [OF s1] assms(3)]
  show ?thesis
    using turn assms(2) by (simp add: finish_cycle_frame [OF f] retire_part_fields top_of_cycle_frame(1-15) [OF s1] mon_step_done_def mon_send_def)
qed

text \<open>
  C19.  A monitor step stops on the instruction it was asked for: from a run with \<open>k\<close> instructions
  still to go, with a client that stays silent, the counter never passes the target and the
  run is halted exactly when it reaches it (the next cycle's freeze then keeps it there).
\<close>

theorem step_exact:
  assumes "g_mon_listen (mont s)" "g_mon_client (mont s)" "\<not> g_mon_paused (mont s)"
    and "g_mon_step_to (mont s) = retired s + of_nat k" "0 < k" "unat (retired s) + k < 2 ^ 64"
    and "steps S (\<lambda>_. silent) n cyc s = Some t"
  shows "unat (retired t) \<le> unat (retired s) + k \<and> (g_mon_paused (mont t) \<longleftrightarrow> unat (retired t) = unat (retired s) + k)"
proof -
  define goal where "goal = unat (retired s) + k"
  have goal: "unat (g_mon_step_to (mont s)) = goal" "g_mon_step_to (mont s) \<noteq> 0"
    using unat_plus_of_nat [OF assms(6)] assms(4,5) by (auto simp: goal_def)
  have "g_mon_listen (mont t) \<and> g_mon_client (mont t) \<and> unat (retired t) \<le> goal \<and>
    (g_mon_paused (mont t) \<longleftrightarrow> unat (retired t) = goal) \<and> (\<not> g_mon_paused (mont t) \<longrightarrow> g_mon_step_to (mont t) = g_mon_step_to (mont s))"
    using assms(7)
  proof (rule steps_invariant)
    fix i u v assume u: "g_mon_listen (mont u) \<and> g_mon_client (mont u) \<and> unat (retired u) \<le> goal \<and>
        (g_mon_paused (mont u) \<longleftrightarrow> unat (retired u) = goal) \<and> (\<not> g_mon_paused (mont u) \<longrightarrow> g_mon_step_to (mont u) = g_mon_step_to (mont s))"
      and "body S silent (cyc + i) u = Inr v"
    note b = body_step [OF this(2)]
    have lt: "unat (retired u) < goal" "g_mon_step_to (mont u) = g_mon_step_to (mont s)" using u b by auto
    then have "unat (retired u + 1) = unat (retired u) + 1"
      using unat_plus_of_nat [of "retired u" 1] assms(6) by (simp add: goal_def)
    then have "unat (retired v) \<le> goal" using b u lt(1) by auto
    moreover have "retired v \<ge> g_mon_step_to (mont s) \<longleftrightarrow> unat (retired v) \<ge> goal" by (simp add: word_le_nat_alt goal(1))
    ultimately show "g_mon_listen (mont v) \<and> g_mon_client (mont v) \<and> unat (retired v) \<le> goal \<and>
        (g_mon_paused (mont v) \<longleftrightarrow> unat (retired v) = goal) \<and> (\<not> g_mon_paused (mont v) \<longrightarrow> g_mon_step_to (mont v) = g_mon_step_to (mont s))"
      using b u lt(2) goal(2) by (auto split: if_splits)
  qed (use assms(1-3,5) in \<open>simp add: goal_def\<close>)
  then show ?thesis by (simp add: goal_def)
qed

section \<open>A small system\<close>

lemma mon_turn_idle: "\<not> g_mon_paused m \<Longrightarrow> g_mon_client m \<Longrightarrow> \<exists>m'. mon_turn E silent cyc n lpc m = Some m'"
  by (simp add: mon_turn_def silent_def mon_poll_def Let_def)

text \<open>With sound latency bounds, a cycle that neither saves nor verifies and finds its monitor running is completed.\<close>

lemma body_runs:
  assumes "\<not> g_save_armed s" "\<not> g_mon_paused (mont s)" "g_mon_client (mont s)" "verify_file (cfg S) = None" "lat_ok (c_bus (cfg S))"
  shows "\<exists>t. body S silent cyc s = Inr t"
proof -
  obtain x p where x: "extflush_cycle (c_xf (cfg S)) cyc (ext_flush_stat (vl S) (model s)) (ext_flush_cycles (vl S) (model s))
      (xfl s, in_xf (inp s)) = (x, p)" by fastforce
  define s0 where "s0 = s\<lparr>xfl := x, inp := (inp s)\<lparr>in_xf := p\<rparr>\<rparr>"
  have s0: "mont s0 = mont s" "g_save_armed s0 = g_save_armed s" by (simp_all add: s0_def)
  obtain m where m: "mon_turn (mon_env_of s0) silent cyc (retired s0) (last_pc s0) (mont s0) = Some m"
    using mon_turn_idle [OF assms(2,3)] unfolding s0 by blast
  have s1: "top_of_cycle S silent cyc s = Inr (s0\<lparr>mont := m\<rparr>)"
    unfolding top_of_cycle_def x Let_def prod.case s0_def [symmetric] using assms(1) by (simp add: s0(2) m)
  define u where "u = retire_part S cyc (s0\<lparr>mont := m\<rparr>)"
  define v where "v = arm_save (cfg S) (service_devices S cyc (u\<lparr>mont := mon_step_done (retired u) (retire_pc (vl S) (model u)) (mont u)\<rparr>))"
  obtain b where "bus_cycle (c_bus (cfg S)) (rawp S) cyc (mem_reqs (vl S) (model v)) (membus v) = Some b"
    using bus_cycle_total [OF assms(5)] by blast
  then have "\<exists>t. finish_cycle S cyc u = Inr t"
    unfolding finish_cycle_def Let_def v_def [symmetric] service_bus_def by simp
  then show ?thesis using assms(4) by (simp add: body_def bind_sum_def s1 verify_due_def Let_def u_def)
qed

text \<open>A model whose state is whether it retires, without requests or devices.\<close>

definition no_req :: mem_req where
  "no_req = \<lparr>rq_valid = False, rq_addr = 0, rq_opcode = 0, rq_mask = 0, rq_store_data = []\<rparr>"

definition no_load :: load_slot where
  "no_load = \<lparr>ls_valid = False, ls_pc = 0, ls_reg_valid = False, ls_op = 0, ls_reg_data = 0, ls_load_addr = 0\<rparr>"

definition tiny_rtl :: "bool rtl" where
  "tiny_rtl = \<lparr>eval = (\<lambda>e i t. t), gotFinish = (\<lambda>t. False), mem_reqs = (\<lambda>t. (no_req, no_req)), retire_valid = (\<lambda>t. t),
     retire_pc = (\<lambda>t. 0), load_slots = (\<lambda>t. (no_load, no_load)), putchar_fifo = (\<lambda>t. None), ext_flush_stat = (\<lambda>t. 0),
     ext_flush_cycles = (\<lambda>t. 0), scsi_out = (\<lambda>t. \<lparr>p_req_seq = 0, p_nbdp = 0, p_xfer_len = 0, p_cdb = [], p_dest = 0, p_lun = 0,
       p_to_device = 0\<rparr>), irqs_taken = (\<lambda>t. 0)\<rparr>"

definition tiny_cfg :: "bool \<Rightarrow> run_cfg" where
  "tiny_cfg lv = \<lparr>max_cyc = 100, max_icnt = 0, NO_RETIRE_LIMIT = 5, g_trace_loadval = lv, g_save_at = 0, verify_file = None,
     PREAMBLE_PC = 0, rx_bytes = [], g_rxsteps = [], c_bus = default_cfg False, c_scsi = \<lparr>g_scsihash = False, g_scsidump = False\<rparr>,
     c_xf = \<lparr>extflush_period = 0, xfpg_base = 0, xfpg_n = 0, xfpg_drop = 0\<rparr>\<rparr>"

definition tiny :: "bool \<Rightarrow> (bool, unit, (u64 \<times> bytes) list, bytes) sys" where
  "tiny lv = \<lparr>cfg = tiny_cfg lv, vl = tiny_rtl, rawp = unat, dev_cycle = (\<lambda>c x. x), scsix = sample_ext\<rparr>"

definition tiny_in :: tb_in where
  "tiny_in = \<lparr>mem_rsp = (False, False, replicate 4 0), mem2_rsp = (False, False, replicate 16 0), scc_rx_valid = False,
     scc_rx_byte = 0, putchar_fifo_pop = False, in_xf = quiet_ports, scsi_rsp = (0, 0, 0, 0)\<rparr>"

definition idle_svc :: "((u64 \<times> bytes) list, bytes) scsi_svc" where
  "idle_svc = sample_svc\<lparr>g_last_scsi_req_seq := 0, g_active := False, g_sring_wait := False\<rparr>"

definition tiny_loop :: "bool \<Rightarrow> u64 \<Rightarrow> (bool, unit, (u64 \<times> bytes) list, bytes) loop" where
  "tiny_loop retires step_to = \<lparr>model = retires, inp = tiny_in, membus = bus_init 1, svc = idle_svc, devs = (), con = console_init,
     mont = mon_init_state\<lparr>g_mon_step_to := step_to\<rparr>, xfl = xf_init, timers = [], retired = 0, last_pc = 0, last_retire_cyc = 0,
     deadlock = False, g_save_armed = False, ref_lv = [], g_verify_target = 0, preamble_hit = False\<rparr>"

lemma tiny_simps [simp]:
  "cfg (tiny lv) = tiny_cfg lv" "vl (tiny lv) = tiny_rtl" "NO_RETIRE_LIMIT (tiny_cfg lv) = 5" "g_trace_loadval (tiny_cfg lv) = lv"
  "verify_file (tiny_cfg lv) = None" "lat_ok (c_bus (tiny_cfg lv))" "max_cyc (tiny_cfg lv) = 100" "max_icnt (tiny_cfg lv) = 0"
  "gotFinish tiny_rtl t = False" "model (tiny_loop b k) = b" "g_save_armed (tiny_loop b k) = False" "deadlock (tiny_loop b k) = False"
  "retired (tiny_loop b k) = 0" "last_retire_cyc (tiny_loop b k) = 0" "ref_lv (tiny_loop b k) = []" "halted (membus (tiny_loop b k)) = False"
  "g_mon_listen (mont (tiny_loop b k))" "g_mon_client (mont (tiny_loop b k))" "g_mon_paused (mont (tiny_loop b k)) = False"
  "g_mon_step_to (mont (tiny_loop b k)) = k"
  by (simp_all add: tiny_def tiny_cfg_def tiny_rtl_def tiny_loop_def bus_init_def mon_init_state_def)

lemma tiny_wedged: "wedged (tiny lv) (\<lambda>t. \<not> t)"
  by (simp add: wedged_def tiny_def tiny_rtl_def)

lemma tiny_step:
  "\<exists>t. steps (tiny lv) (\<lambda>_. silent) 1 9 (tiny_loop b k) = Some t \<and> body (tiny lv) silent 9 (tiny_loop b k) = Inr t"
proof -
  obtain t where "body (tiny lv) silent 9 (tiny_loop b k) = Inr t" using body_runs [of "tiny_loop b k" "tiny lv" 9] by auto
  then show ?thesis by (simp add: loop_cond_def numeral_nat)
qed


theorem loadval_masks_wedge_witness:
  "wedged (tiny True) (\<lambda>t. \<not> t) \<and>
   (\<exists>e c' t. run_loop (tiny True) (\<lambda>_. silent) 0 (tiny_loop False 0) = (e, c', t) \<and> \<not> deadlock t)"
proof -
  obtain e c' t where r: "run_loop (tiny True) (\<lambda>_. silent) 0 (tiny_loop False 0) = (e, c', t)" by (metis prod_cases3)
  from loadval_masks_wedge [OF tiny_wedged _ _ _ _ r] r tiny_wedged show ?thesis by (simp add: tiny_rtl_def no_load_def)
qed

theorem watchdog_sound_witness:
  "\<exists>t. steps (tiny False) (\<lambda>_. silent) 1 9 (tiny_loop False 0) = Some t \<and> deadlock t \<and>
     (\<exists>u. steps (tiny False) (\<lambda>_. silent) (1 - 1) 9 (tiny_loop False 0) = Some u \<and> retired u = retired t)"
proof -
  obtain t where t: "steps (tiny False) (\<lambda>_. silent) 1 9 (tiny_loop False 0) = Some t"
    "body (tiny False) silent 9 (tiny_loop False 0) = Inr t" using tiny_step by blast
  have d: "deadlock t" using body_wedged(4) [OF tiny_wedged _ t(2)] by simp
  have "\<exists>u. steps (tiny False) (\<lambda>_. silent) (1 - 1) 9 (tiny_loop False 0) = Some u \<and> retired u = retired t"
    by (rule watchdog_sound [OF t(1) _ d]) simp_all
  with t(1) d show ?thesis by blast
qed

theorem step_exact_witness:
  "\<exists>t. steps (tiny False) (\<lambda>_. silent) 1 9 (tiny_loop True 1) = Some t \<and> unat (retired t) \<le> 1 \<and>
     (g_mon_paused (mont t) \<longleftrightarrow> unat (retired t) = 1)"
proof -
  obtain t where t: "steps (tiny False) (\<lambda>_. silent) 1 9 (tiny_loop True 1) = Some t" using tiny_step by blast
  from step_exact [OF _ _ _ _ _ _ t, of 1] t show ?thesis by simp
qed

end
