(* ===== verification/Save_Restore.thy ===== *)
theory Save_Restore
  imports Run_Safety
begin

text \<open>
  Checkpoints of a run (\<^verbatim>\<open>--save-at\<close>, \<^verbatim>\<open>--restore\<close>): a simulation between the run that goes on and
  the run restored from the file saved at the same cycle, and the two ways in which the file
  misses state the restored run needs.
\<close>

section \<open>Idle latches do not matter\<close>

definition live :: "lane \<Rightarrow> u64 \<times> u32 \<times> u16 \<times> u32 list \<times> bool \<times> u32" where
  "live l = (req_addr l, req_op l, req_mask l, req_sd l, req_bad l, req_phys l)"

definition lane_sim :: "bool \<Rightarrow> lane \<Rightarrow> lane \<Rightarrow> bool" where
  "lane_sim halt l l' \<longleftrightarrow> reply_cyc l = reply_cyc l' \<and> prev_req_valid l = prev_req_valid l' \<and> rsp_of l = rsp_of l' \<and>
     (reply_cyc l \<noteq> - 1 \<longrightarrow> live l = live l' \<and> (halt \<longrightarrow> req_is_halt l = req_is_halt l'))"

definition bus_sim :: "bus \<Rightarrow> bus \<Rightarrow> bool" where
  "bus_sim b b' \<longleftrightarrow> g_mem b = g_mem b' \<and> memlat_state b = memlat_state b' \<and> halted b = halted b' \<and>
     lane_sim True (lane0 b) (lane0 b') \<and> lane_sim False (lane1 b) (lane1 b')"

lemmas sim_defs = bus_sim_def lane_sim_def live_def rsp_of_def

text \<open>What an acceptance latches depends on the request alone.\<close>

lemma lane0_accept_shape:
  "\<exists>dl un hl ph ad bd op mk sd. \<forall>b. rq_valid rq \<and> \<not> prev_req_valid (lane0 b) \<and> reply_cyc (lane0 b) = - 1 \<longrightarrow>
     lane0_accept c cyc rq b = map_option (\<lambda>p. b\<lparr>memlat_state := fst p, g_unaligned_mem_req := g_unaligned_mem_req b + un,
       lane0 := (lane0 b)\<lparr>req_is_halt := hl, req_phys := ph, req_addr := ad, req_bad := bd, req_op := op, req_mask := mk, req_sd := sd,
         reply_cyc := dl (snd p)\<rparr>\<rparr>) (memlat_draw c (memlat_state b))"
  unfolding lane0_accept_def Let_def case_prod_unfold
  by (intro exI [of _ "\<lambda>lat. int cyc + (if rq_opcode rq = 4 then lat else 2 * lat)"], intro exI allI impI) (erule if_P)

lemma lane1_accept_shape:
  "\<exists>dl k ph ad bd op mk sd. \<forall>b. rq_valid rq \<and> \<not> prev_req_valid (lane1 b) \<and> reply_cyc (lane1 b) = - 1 \<longrightarrow>
     lane1_accept c cyc rq b = map_option (\<lambda>p. b\<lparr>memlat_state := fst p, lane1_ops := (lane1_ops b)(k := lane1_ops b k + 1),
       lane1 := (lane1 b)\<lparr>req_phys := ph, req_addr := ad, req_bad := bd, req_op := op, req_mask := mk, req_sd := sd,
         reply_cyc := dl (snd p)\<rparr>\<rparr>) (memlat_draw c (memlat_state b))"
  unfolding lane1_accept_def Let_def case_prod_unfold
  by (intro exI [of _ "\<lambda>lat. int cyc + (if rq_opcode rq = 4 \<or> rq_opcode rq = 5 then lat else 2 * lat) + (if is_burst (rq_opcode rq) then 3 else 0)"], intro exI allI impI) (erule if_P)

lemma lane0_accept_sim:
  assumes "bus_sim b b'" "lane0_accept c cyc rq b = Some d"
  shows "\<exists>d'. lane0_accept c cyc rq b' = Some d' \<and> bus_sim d d'"
proof (cases "rq_valid rq \<and> \<not> prev_req_valid (lane0 b) \<and> reply_cyc (lane0 b) = - 1")
  case True
  then have True': "rq_valid rq \<and> \<not> prev_req_valid (lane0 b') \<and> reply_cyc (lane0 b') = - 1" using assms(1) by (simp add: sim_defs)
  from lane0_accept_shape [of rq c cyc] obtain dl un hl ph ad bd op mk sd where
    sh: "\<forall>b. rq_valid rq \<and> \<not> prev_req_valid (lane0 b) \<and> reply_cyc (lane0 b) = - 1 \<longrightarrow>
     lane0_accept c cyc rq b = map_option (\<lambda>p. b\<lparr>memlat_state := fst p, g_unaligned_mem_req := g_unaligned_mem_req b + un,
       lane0 := (lane0 b)\<lparr>req_is_halt := hl, req_phys := ph, req_addr := ad, req_bad := bd, req_op := op, req_mask := mk, req_sd := sd,
         reply_cyc := dl (snd p)\<rparr>\<rparr>) (memlat_draw c (memlat_state b))" by (elim exE)
  define u :: "u64 \<times> int \<Rightarrow> bus \<Rightarrow> bus" where "u = (\<lambda>p b. b\<lparr>memlat_state := fst p, g_unaligned_mem_req := g_unaligned_mem_req b + un,
       lane0 := (lane0 b)\<lparr>req_is_halt := hl, req_phys := ph, req_addr := ad, req_bad := bd, req_op := op, req_mask := mk, req_sd := sd,
         reply_cyc := dl (snd p)\<rparr>\<rparr>)"
  note e = sh [rule_format, OF True] sh [rule_format, OF True']
  obtain p where p: "memlat_draw c (memlat_state b) = Some p" using assms(2) unfolding e(1) by blast
  moreover have "memlat_state b' = memlat_state b" using assms(1) by (simp add: bus_sim_def)
  ultimately have "lane0_accept c cyc rq b' = Some (u p b')" and d: "d = u p b" using assms(2) unfolding e by (simp_all add: u_def)
  moreover have "bus_sim (u p b) (u p b')" using assms(1) unfolding u_def sim_defs by simp
  ultimately show ?thesis by blast
next
  case False
  then have "lane0_accept c cyc rq b = Some b" "lane0_accept c cyc rq b' = Some b'"
    using assms(1) unfolding lane0_accept_def Let_def by (auto simp: sim_defs)
  then show ?thesis using assms by simp
qed

lemma lane1_accept_sim:
  assumes "bus_sim b b'" "lane1_accept c cyc rq b = Some d"
  shows "\<exists>d'. lane1_accept c cyc rq b' = Some d' \<and> bus_sim d d'"
proof (cases "rq_valid rq \<and> \<not> prev_req_valid (lane1 b) \<and> reply_cyc (lane1 b) = - 1")
  case True
  then have True': "rq_valid rq \<and> \<not> prev_req_valid (lane1 b') \<and> reply_cyc (lane1 b') = - 1" using assms(1) by (simp add: sim_defs)
  from lane1_accept_shape [of rq c cyc] obtain dl k ph ad bd op mk sd where
    sh: "\<forall>b. rq_valid rq \<and> \<not> prev_req_valid (lane1 b) \<and> reply_cyc (lane1 b) = - 1 \<longrightarrow>
     lane1_accept c cyc rq b = map_option (\<lambda>p. b\<lparr>memlat_state := fst p, lane1_ops := (lane1_ops b)(k := lane1_ops b k + 1),
       lane1 := (lane1 b)\<lparr>req_phys := ph, req_addr := ad, req_bad := bd, req_op := op, req_mask := mk, req_sd := sd,
         reply_cyc := dl (snd p)\<rparr>\<rparr>) (memlat_draw c (memlat_state b))" by (elim exE)
  define u :: "u64 \<times> int \<Rightarrow> bus \<Rightarrow> bus" where "u = (\<lambda>p b. b\<lparr>memlat_state := fst p, lane1_ops := (lane1_ops b)(k := lane1_ops b k + 1),
       lane1 := (lane1 b)\<lparr>req_phys := ph, req_addr := ad, req_bad := bd, req_op := op, req_mask := mk, req_sd := sd,
         reply_cyc := dl (snd p)\<rparr>\<rparr>)"
  note e = sh [rule_format, OF True] sh [rule_format, OF True']
  obtain p where p: "memlat_draw c (memlat_state b) = Some p" using assms(2) unfolding e(1) by blast
  moreover have "memlat_state b' = memlat_state b" using assms(1) by (simp add: bus_sim_def)
  ultimately have "lane1_accept c cyc rq b' = Some (u p b')" and d: "d = u p b" using assms(2) unfolding e by (simp_all add: u_def)
  moreover have "bus_sim (u p b) (u p b')" using assms(1) unfolding u_def sim_defs by simp
  ultimately show ?thesis by blast
next
  case False
  then have "lane1_accept c cyc rq b = Some b" "lane1_accept c cyc rq b' = Some b'"
    using assms(1) unfolding lane1_accept_def Let_def by (auto simp: sim_defs)
  then show ?thesis using assms by simp
qed

lemma lane0_reply_sim: "bus_sim b b' \<Longrightarrow> bus_sim (lane0_reply c rw cyc b) (lane0_reply c rw cyc b')"
  by (cases "reply_cyc (lane0 b) = int cyc")
     (simp_all add: sim_defs lane0_reply_def lane0_store_def Let_def del: upt_rec_numeral)

lemma lane1_reply_sim: "bus_sim b b' \<Longrightarrow> bus_sim (lane1_reply c rw cyc b) (lane1_reply c rw cyc b')"
  by (cases "reply_cyc (lane1 b) = int cyc")
     (simp_all add: sim_defs lane1_reply_def lane1_store_def lane1_load_def lane1_nbytes_def Let_def del: upt_rec_numeral)

lemma bus_sim_prev:
  assumes "bus_sim b b'"
  shows "bus_sim (b\<lparr>lane0 := (lane0 b)\<lparr>prev_req_valid := v\<rparr>\<rparr>) (b'\<lparr>lane0 := (lane0 b')\<lparr>prev_req_valid := v\<rparr>\<rparr>)"
    "bus_sim (b\<lparr>lane1 := (lane1 b)\<lparr>prev_req_valid := v\<rparr>\<rparr>) (b'\<lparr>lane1 := (lane1 b')\<lparr>prev_req_valid := v\<rparr>\<rparr>)"
    "bus_sim (b\<lparr>lane0 := (lane0 b)\<lparr>rsp_valid := False, rsp_bad := False\<rparr>\<rparr>) (b'\<lparr>lane0 := (lane0 b')\<lparr>rsp_valid := False, rsp_bad := False\<rparr>\<rparr>)"
    "bus_sim (b\<lparr>lane1 := (lane1 b)\<lparr>rsp_valid := False, rsp_bad := False\<rparr>\<rparr>) (b'\<lparr>lane1 := (lane1 b')\<lparr>rsp_valid := False, rsp_bad := False\<rparr>\<rparr>)"
  using assms by (simp_all add: sim_defs)

lemma lane0_cycle_sim:
  assumes "bus_sim b b'" "lane0_cycle c rw cyc rq b = Some d"
  shows "\<exists>d'. lane0_cycle c rw cyc rq b' = Some d' \<and> bus_sim d d'"
proof -
  obtain a where a: "lane0_accept c cyc rq (b\<lparr>lane0 := (lane0 b)\<lparr>rsp_valid := False, rsp_bad := False\<rparr>\<rparr>) = Some a"
    "d = (lane0_reply c rw cyc a)\<lparr>lane0 := (lane0 (lane0_reply c rw cyc a))\<lparr>prev_req_valid := rq_valid rq\<rparr>\<rparr>"
    using assms(2) by (auto simp: lane0_cycle_def Let_def)
  from lane0_accept_sim [OF bus_sim_prev(3) [OF assms(1)] a(1)] obtain a' where
    "lane0_accept c cyc rq (b'\<lparr>lane0 := (lane0 b')\<lparr>rsp_valid := False, rsp_bad := False\<rparr>\<rparr>) = Some a'" "bus_sim a a'" by blast
  then show ?thesis using bus_sim_prev(1) [OF lane0_reply_sim] by (simp add: lane0_cycle_def Let_def a(2))
qed

lemma lane1_cycle_sim:
  assumes "bus_sim b b'" "lane1_cycle c rw cyc rq b = Some d"
  shows "\<exists>d'. lane1_cycle c rw cyc rq b' = Some d' \<and> bus_sim d d'"
proof -
  obtain a where a: "lane1_accept c cyc rq (b\<lparr>lane1 := (lane1 b)\<lparr>rsp_valid := False, rsp_bad := False\<rparr>\<rparr>) = Some a"
    "d = (lane1_reply c rw cyc a)\<lparr>lane1 := (lane1 (lane1_reply c rw cyc a))\<lparr>prev_req_valid := rq_valid rq\<rparr>\<rparr>"
    using assms(2) by (auto simp: lane1_cycle_def Let_def)
  from lane1_accept_sim [OF bus_sim_prev(4) [OF assms(1)] a(1)] obtain a' where
    "lane1_accept c cyc rq (b'\<lparr>lane1 := (lane1 b')\<lparr>rsp_valid := False, rsp_bad := False\<rparr>\<rparr>) = Some a'" "bus_sim a a'" by blast
  then show ?thesis using bus_sim_prev(2) [OF lane1_reply_sim] by (simp add: lane1_cycle_def Let_def a(2))
qed

lemma bus_cycle_sim:
  assumes "bus_sim b b'" "bus_cycle c rw cyc rqs b = Some d"
  shows "\<exists>d'. bus_cycle c rw cyc rqs b' = Some d' \<and> bus_sim d d'"
  using assms lane0_cycle_sim lane1_cycle_sim unfolding bus_cycle_def bind_eq_Some_conv by blast

section \<open>The simulation\<close>

definition xf_sim :: "xf \<Rightarrow> xf \<Rightarrow> bool" where
  "xf_sim x x' \<longleftrightarrow> xf_st x = xf_st x' \<and> (xf_st x \<noteq> 0 \<longrightarrow> xf_k x = xf_k x')"

definition calm :: "mon \<Rightarrow> bool" where
  "calm m \<longleftrightarrow> \<not> g_mon_paused m \<and> g_mon_step_to m = 0"

text \<open>
  The two runs agree on the model, its ports, the memory and the transactions in flight, the
  device services and the instruction count; counters, logs and the monitor's client may differ, and
  the restored run may believe the last retirement later.
\<close>

definition rest_sim :: "('tb, 'h, 'd, 'r) loop \<Rightarrow> ('tb, 'h, 'd, 'r) loop \<Rightarrow> bool" where
  "rest_sim s s' \<longleftrightarrow> model s = model s' \<and> bus_sim (membus s) (membus s') \<and> svc s = svc s' \<and> devs s = devs s' \<and>
     retired s = retired s' \<and> g_rxpend (con s) = [] \<and> g_rxpend (con s') = [] \<and> calm (mont s) \<and> calm (mont s') \<and>
     \<not> g_save_armed s \<and> \<not> g_save_armed s' \<and> last_retire_cyc s \<le> last_retire_cyc s' \<and>
     (inp s)\<lparr>in_xf := quiet_ports\<rparr> = (inp s')\<lparr>in_xf := quiet_ports\<rparr>"

definition loop_sim :: "('tb, 'h, 'd, 'r) loop \<Rightarrow> ('tb, 'h, 'd, 'r) loop \<Rightarrow> bool" where
  "loop_sim s s' \<longleftrightarrow> rest_sim s s' \<and> inp s = inp s' \<and> xf_sim (xfl s) (xfl s')"

text \<open>A run that types nothing, records no loads, and neither saves nor verifies.\<close>

definition plain_cfg :: "run_cfg \<Rightarrow> bool" where
  "plain_cfg c \<longleftrightarrow> rx_bytes c = [] \<and> g_rxsteps c = [] \<and> \<not> g_trace_loadval c \<and> g_save_at c = 0 \<and> verify_file c = None"

lemma calm_frame [simp]:
  "calm (mon_send b m) = calm m" "calm (mon_console_out k m) = calm m" "calm m \<Longrightarrow> mon_step_done n lpc m = m"
  by (simp_all add: calm_def mon_send_def mon_console_out_def mon_step_done_def)

lemma mon_turn_calm: "calm m \<Longrightarrow> \<exists>m'. mon_turn E silent cyc n lpc m = Some m' \<and> calm m'"
  by (simp add: calm_def mon_turn_def silent_def mon_poll_def mon_send_def Let_def)

lemma extflush_sim:
  assumes "xf_sim x x'" "extflush_cycle C cyc stat n (x, p) = (y, q)" "extflush_cycle C cyc stat n (x', p) = (y', q')"
  shows "xf_sim y y' \<and> q = q'"
  using assms by (auto simp: xf_sim_def extflush_cycle_def xf_edge_def xf_pages_def Let_def split: if_splits)

text \<open>A save that falls between two page lists can repeat the flush step of its cycle.\<close>

lemma extflush_again:
  assumes "xf_st x = 0" "xf_st x' = 0" "extflush_cycle C cyc stat n (x, p) = (y, q)" "extflush_cycle C cyc stat n (x', q) = (y', q')"
  shows "xf_sim y y' \<and> q = q'"
  using assms by (auto simp: xf_sim_def extflush_cycle_def xf_edge_def xf_pages_def Let_def split: if_splits)

definition xf_turn :: "('tb, 'h, 'd, 'r) sys \<Rightarrow> nat \<Rightarrow> ('tb, 'h, 'd, 'r) loop \<Rightarrow> xf \<times> xf_ports" where
  "xf_turn S cyc s = extflush_cycle (c_xf (cfg S)) cyc (ext_flush_stat (vl S) (model s)) (ext_flush_cycles (vl S) (model s))
     (xfl s, in_xf (inp s))"

lemma top_sim:
  assumes "rest_sim s s'" "xf_sim (fst (xf_turn S cyc s)) (fst (xf_turn S cyc s'))" "snd (xf_turn S cyc s) = snd (xf_turn S cyc s')" "top_of_cycle S silent cyc s = Inr u"
  shows "\<exists>u'. top_of_cycle S silent cyc s' = Inr u' \<and> loop_sim u u'"
proof -
  obtain x q x' where x: "xf_turn S cyc s = (x, q)" "xf_turn S cyc s' = (x', q)" using assms(3) by (metis prod.collapse)
  define v where "v = s\<lparr>xfl := x, inp := (inp s)\<lparr>in_xf := q\<rparr>\<rparr>"
  define v' where "v' = s'\<lparr>xfl := x', inp := (inp s')\<lparr>in_xf := q\<rparr>\<rparr>"
  have i: "(inp s)\<lparr>in_xf := q\<rparr> = (inp s')\<lparr>in_xf := q\<rparr>"
  proof -
    have "((inp s)\<lparr>in_xf := quiet_ports\<rparr>)\<lparr>in_xf := q\<rparr> = ((inp s')\<lparr>in_xf := quiet_ports\<rparr>)\<lparr>in_xf := q\<rparr>"
      using assms(1) unfolding rest_sim_def by metis
    then show ?thesis by simp
  qed
  have "rest_sim v v'" using assms(1) i unfolding rest_sim_def v_def v'_def by simp
  then have sim: "loop_sim v v'" using assms(2) i by (simp add: loop_sim_def v_def v'_def x)
  then have calm: "calm (mont v)" "calm (mont v')" "\<not> g_save_armed v" "\<not> g_save_armed v'" by (simp_all add: loop_sim_def rest_sim_def)
  obtain m m' where m: "mon_turn (mon_env_of v) silent cyc (retired v) (last_pc v) (mont v) = Some m" "calm m"
    "mon_turn (mon_env_of v') silent cyc (retired v') (last_pc v') (mont v') = Some m'" "calm m'"
    using mon_turn_calm [OF calm(1)] mon_turn_calm [OF calm(2)] by metis
  have "top_of_cycle S silent cyc s = Inr (v\<lparr>mont := m\<rparr>)"
    unfolding top_of_cycle_def xf_turn_def [symmetric] Let_def x prod.case v_def [symmetric] using calm by (simp add: m)
  moreover have "top_of_cycle S silent cyc s' = Inr (v'\<lparr>mont := m'\<rparr>)"
    unfolding top_of_cycle_def xf_turn_def [symmetric] Let_def x prod.case v'_def [symmetric] using calm by (simp add: m)
  moreover have "loop_sim (v\<lparr>mont := m\<rparr>) (v'\<lparr>mont := m'\<rparr>)" using sim m(2,4) by (simp add: loop_sim_def rest_sim_def)
  ultimately show ?thesis using assms(4) by simp
qed

lemma posedge_sim:
  assumes "plain_cfg (cfg S)" "loop_sim s s'"
  shows "loop_sim (posedge S cyc s) (posedge S cyc s')"
proof -
  have rx: "rx_drip (rx_bytes (cfg S)) cyc c = (None, c)" if "g_rxpend c = []" for c
    using assms(1) that by (simp add: plain_cfg_def rx_drip_def)
  have "g_rxpend (console_char (g_rxsteps (cfg S)) cyc k c) = g_rxpend c" for k c
    using assms(1) by (simp add: plain_cfg_def console_char_def rx_expect_def crash_watch_def Let_def)
  then show ?thesis
    using assms(2) rx by (simp add: loop_sim_def rest_sim_def posedge_def drain_console_def eval_at_def Let_def split: option.splits)
qed

lemma count_retire_sim: "loop_sim s s' \<Longrightarrow> loop_sim (count_retire R cyc s) (count_retire R cyc s')"
  by (simp add: loop_sim_def rest_sim_def count_retire_def)

lemma watchdog_sim:
  assumes "plain_cfg c" "loop_sim s s'" "\<not> deadlock (watchdog c R cyc s)"
  shows "loop_sim (watchdog c R cyc s) (watchdog c R cyc s')"
proof -
  have "cyc - last_retire_cyc s' \<le> cyc - last_retire_cyc s" using assms(2) by (auto simp: loop_sim_def rest_sim_def)
  then show ?thesis using assms by (auto simp: watchdog_def plain_cfg_def split: if_splits)
qed

lemma preamble_sim: "loop_sim s s' \<Longrightarrow> loop_sim (preamble c R s) (preamble c R s')"
  by (auto simp: loop_sim_def rest_sim_def preamble_def)

lemma retire_part_sim:
  assumes "plain_cfg (cfg S)" "loop_sim s s'" "\<not> deadlock (retire_part S cyc s)"
  shows "loop_sim (retire_part S cyc s) (retire_part S cyc s')"
proof -
  have "\<not> deadlock (watchdog (cfg S) (vl S) cyc (count_retire (vl S) cyc (posedge S cyc s)))"
    using assms(3) by (simp add: retire_part_def preamble_def split: if_splits)
  then show ?thesis unfolding retire_part_def
    by (intro preamble_sim watchdog_sim [OF assms(1)] count_retire_sim posedge_sim [OF assms(1,2)])
qed

lemma service_devices_sim:
  assumes "loop_sim s s'"
  shows "loop_sim (service_devices S cyc s) (service_devices S cyc s')"
proof -
  have "g_mem (membus s) = g_mem (membus s')" "model s = model s'" "devs s = devs s'"
    using assms by (simp_all add: loop_sim_def rest_sim_def bus_sim_def)
  then show ?thesis
    using assms by (simp add: loop_sim_def rest_sim_def service_devices_def bus_sim_def Let_def split: prod.splits)
qed

lemma service_bus_sim:
  assumes "loop_sim s s'" "service_bus S cyc s = Some t"
  shows "\<exists>t'. service_bus S cyc s' = Some t' \<and> loop_sim t t'"
proof -
  obtain b where b: "bus_cycle (c_bus (cfg S)) (rawp S) cyc (mem_reqs (vl S) (model s)) (membus s) = Some b"
    "t = s\<lparr>membus := b, inp := (inp s)\<lparr>mem_rsp := rsp_of (lane0 b), mem2_rsp := rsp_of (lane1 b)\<rparr>\<rparr>"
    using assms(2) by (auto simp: service_bus_def)
  moreover have "bus_sim (membus s) (membus s')" "model s' = model s" using assms(1) by (simp_all add: loop_sim_def rest_sim_def)
  ultimately obtain b' where b': "bus_cycle (c_bus (cfg S)) (rawp S) cyc (mem_reqs (vl S) (model s')) (membus s') = Some b'" "bus_sim b b'"
    using bus_cycle_sim by metis
  then have "rsp_of (lane0 b') = rsp_of (lane0 b)" "rsp_of (lane1 b') = rsp_of (lane1 b)" by (simp_all add: bus_sim_def lane_sim_def)
  then show ?thesis using assms(1) b' by (simp add: service_bus_def b(2) loop_sim_def rest_sim_def)
qed

lemma finish_sim:
  assumes "plain_cfg (cfg S)" "loop_sim s s'" "finish_cycle S cyc s = Inr t"
  shows "\<exists>t'. finish_cycle S cyc s' = Inr t' \<and> loop_sim t t'"
proof -
  have arm: "arm_save (cfg S) u = u" for u :: "('a, 'b, 'c, 'd) loop" using assms(1) by (simp add: arm_save_def plain_cfg_def)
  have "s\<lparr>mont := mon_step_done (retired s) (retire_pc (vl S) (model s)) (mont s)\<rparr> = s"
    "s'\<lparr>mont := mon_step_done (retired s') (retire_pc (vl S) (model s')) (mont s')\<rparr> = s'"
    using assms(2) by (simp_all add: loop_sim_def rest_sim_def)
  note eq = this arm
  obtain u where u: "service_bus S cyc (service_devices S cyc s) = Some u" "t = eval_at S False cyc u"
    using assms(3) by (auto simp: finish_cycle_def eq Let_def split: option.splits)
  from service_bus_sim [OF service_devices_sim [OF assms(2)] u(1)] obtain u' where
    u': "service_bus S cyc (service_devices S cyc s') = Some u'" "loop_sim u u'" by blast
  then have "finish_cycle S cyc s' = Inr (eval_at S False cyc u')" by (simp add: finish_cycle_def eq Let_def)
  moreover have "loop_sim t (eval_at S False cyc u')" using u'(2) by (simp add: u(2) eval_at_def loop_sim_def rest_sim_def Let_def)
  ultimately show ?thesis by blast
qed

lemma body_from_top:
  assumes "plain_cfg (cfg S)" "top_of_cycle S silent cyc s = Inr u" "top_of_cycle S silent cyc s' = Inr u'" "loop_sim u u'"
    and "body S silent cyc s = Inr t" "\<not> deadlock t"
  shows "\<exists>t'. body S silent cyc s' = Inr t' \<and> loop_sim t t'"
proof -
  have v: "\<not> verify_due (cfg S) w" for w :: "('a, 'b, 'c, 'd) loop" using assms(1) by (simp add: verify_due_def plain_cfg_def)
  have f: "finish_cycle S cyc (retire_part S cyc u) = Inr t"
    using assms(5) by (simp add: body_def bind_sum_def assms(2) Let_def v)
  have "\<not> deadlock (retire_part S cyc u)" using finish_cycle_frame(3) [OF f] assms(6) by simp
  from finish_sim [OF assms(1) retire_part_sim [OF assms(1,4) this] f] show ?thesis
    by (simp add: body_def bind_sum_def assms(3) Let_def v)
qed

lemma body_sim:
  assumes "plain_cfg (cfg S)" "loop_sim s s'" "body S silent cyc s = Inr t" "\<not> deadlock t"
  shows "\<exists>t'. body S silent cyc s' = Inr t' \<and> loop_sim t t'"
proof -
  obtain u where u: "top_of_cycle S silent cyc s = Inr u" using body_split [OF assms(3)] by metis
  have e: "model s' = model s" "inp s' = inp s" "xf_sim (xfl s) (xfl s')" using assms(2) by (simp_all add: loop_sim_def rest_sim_def)
  have "xf_sim (fst (xf_turn S cyc s)) (fst (xf_turn S cyc s')) \<and> snd (xf_turn S cyc s) = snd (xf_turn S cyc s')"
    unfolding xf_turn_def e(1,2) by (rule extflush_sim [OF e(3)]) simp_all
  with top_sim [OF _ _ _ u, of s'] assms(2) obtain u' where "top_of_cycle S silent cyc s' = Inr u'" "loop_sim u u'"
    unfolding loop_sim_def by blast
  from body_from_top [OF assms(1) u this assms(3,4)] show ?thesis .
qed

lemma body_deadlock_mono:
  assumes "body S ps cyc s = Inr t" "deadlock s"
  shows "deadlock t"
proof -
  from body_split [OF assms(1)] obtain s1 where s1: "top_of_cycle S ps cyc s = Inr s1"
    and f: "finish_cycle S cyc (retire_part S cyc s1) = Inr t" by metis
  have "deadlock s1" using top_of_cycle_frame [OF s1] assms(2) by simp
  then show ?thesis using finish_cycle_frame(3) [OF f] retire_part_fields(5,6) [where S = S and cyc = cyc and s = s1] by (auto simp: Let_def)
qed

lemma loop_cond_sim: "loop_sim s s' \<Longrightarrow> loop_cond S cyc s \<longleftrightarrow> loop_cond S cyc s'"
  by (simp add: loop_cond_def loop_sim_def rest_sim_def bus_sim_def)

lemma steps_sim:
  assumes "plain_cfg (cfg S)" "loop_sim s s'" "steps S (\<lambda>_. silent) n cyc s = Some t" "\<not> deadlock t"
  shows "\<exists>t'. steps S (\<lambda>_. silent) n cyc s' = Some t' \<and> loop_sim t t'"
  using assms(3,4)
proof (induction n arbitrary: t)
  case 0
  then show ?case using assms(2) by simp
next
  case (Suc n)
  obtain u where u: "steps S (\<lambda>_. silent) n cyc s = Some u" "loop_cond S (cyc + n) u" "body S silent (cyc + n) u = Inr t"
    using Suc.prems(1) unfolding steps_Suc_end by blast
  have "\<not> deadlock u" using body_deadlock_mono [OF u(3)] Suc.prems(2) by blast
  then obtain u' where u': "steps S (\<lambda>_. silent) n cyc s' = Some u'" "loop_sim u u'" using Suc.IH [OF u(1)] by blast
  then show ?case
    using body_sim [OF assms(1) u'(2) u(3) Suc.prems(2)] u(2) loop_cond_sim [OF u'(2)] unfolding steps_Suc_end by blast
qed

section \<open>Restoring resumes the run\<close>

definition idle_bus :: "bus \<Rightarrow> bool" where
  "idle_bus b \<longleftrightarrow> reply_cyc (lane0 b) = - 1 \<and> \<not> prev_req_valid (lane0 b) \<and> reply_cyc (lane1 b) = - 1 \<and> \<not> prev_req_valid (lane1 b)"

text \<open>The response ports hold what the lanes last drove: every completed cycle leaves the state so.\<close>

definition ports_synced :: "('tb, 'h, 'd, 'r) loop \<Rightarrow> bool" where
  "ports_synced s \<longleftrightarrow> mem_rsp (inp s) = rsp_of (lane0 (membus s)) \<and> mem2_rsp (inp s) = rsp_of (lane1 (membus s))"

lemma ports_synced_body: "body S ps cyc s = Inr t \<Longrightarrow> ports_synced t"
  by (elim body_split) (auto simp: finish_cycle_def service_bus_def eval_at_def ports_synced_def Let_def split: option.splits)

text \<open>Nothing outside the file is on its way: no transaction, no typing, no step, no page list.\<close>

definition at_rest :: "('tb, 'h, 'd, 'r) loop \<Rightarrow> bool" where
  "at_rest s \<longleftrightarrow> idle_bus (membus s) \<and> \<not> halted (membus s) \<and> g_rxpend (con s) = [] \<and> calm (mont s) \<and> xf_st (xfl s) = 0"

lemma restore_rest_sim:
  assumes "at_rest s" "ports_synced s" "last_retire_cyc s \<le> cyc" "at_rest s0" "\<not> g_save_armed s0" "svc s0 = svc s" "devs s0 = devs s"
  shows "rest_sim (s\<lparr>g_save_armed := False\<rparr>) (restore (save_ckpt cyc (s\<lparr>xfl := x, inp := (inp s)\<lparr>in_xf := q\<rparr>\<rparr>)) s0)"
  using assms by (simp add: rest_sim_def restore_def save_ckpt_def at_rest_def ports_synced_def idle_bus_def bus_sim_def lane_sim_def
      resume_lane_def lane_init_def rsp_of_def)


section \<open>What a checkpoint misses\<close>


text \<open>
  With a disk, a restored run serves the last command again: the service's record of the last
  request is not in the file, so a restored run takes the sequence number the model still
  presents for a new request, where the run that went on would do nothing.  A command that
  moves data leaves the service waiting for a chain that has long been completed.
\<close>

theorem restore_reissues_command:
  fixes S :: "('tb, 'h, 'd, 'r) sys" and s s0 :: "('tb, 'h, 'd, 'r) loop" and cyc :: nat
  assumes "g_scsi_quiescent (svc s)" "g_last_scsi_req_seq (svc s) = p_req_seq (scsi_out (vl S) (model s))"
    and "p_req_seq (scsi_out (vl S) (model s)) \<noteq> 0"
    and "disk_ok (scsix S) (g_scsi_disk (svc s0))" "g_last_scsi_req_seq (svc s0) = 0" "g_scsi_quiescent (svc s0)"
  defines "p \<equiv> scsi_out (vl S) (model (restore (save_ckpt cyc s) s0))"
  defines "v \<equiv> scsi_doorbell (scsix S) p (svc (restore (save_ckpt cyc s) s0))"
  shows "scsi_doorbell (scsix S) p (svc s) = svc s \<and>
    (case service_run (scsix S) (read_req p) (g_pending_rsp (svc s0), g_scsi_disk (svc s0), g_buf (svc s0), g_to_dev (svc s0), g_wr_lba (svc s0)) of
       (rsp, disk, buf, to_dev, lba) \<Rightarrow> g_scsi_disk v = disk \<and> g_buf v = buf \<and>
         (g_scsi_quiescent v \<longleftrightarrow> \<not> (rs_scsi_status rsp = ST_SELECT_TRANSFER_SUCCESS (scsix S) \<and> buf \<noteq> [])))"
proof -
  have p: "p = scsi_out (vl S) (model s)" by (simp add: p_def restore_def save_ckpt_def)
  have v: "v = scsi_doorbell (scsix S) p (svc s0)" by (simp add: v_def restore_def)
  show ?thesis
    using assms(1-6) unfolding v p
    by (simp add: scsi_doorbell_def scsi_new_command_def g_scsi_quiescent_def post_rsp_def Let_def split: prod.splits)
qed

section \<open>Witnesses\<close>

lemma tiny_at_rest: "at_rest (tiny_loop b 0)" "ports_synced (tiny_loop b 0)"
  by (simp_all add: at_rest_def idle_bus_def calm_def ports_synced_def tiny_loop_def tiny_in_def bus_init_def lane_init_def
      console_init_def xf_init_def rsp_of_def mon_init_state_def)

lemma tiny_retires:
  assumes "body (tiny lv) silent 9 (tiny_loop True k) = Inr t"
  shows "\<not> deadlock t"
proof -
  from body_split [OF assms] obtain s1 where s1: "top_of_cycle (tiny lv) silent 9 (tiny_loop True k) = Inr s1"
    and f: "finish_cycle (tiny lv) 9 (retire_part (tiny lv) 9 s1) = Inr t" by metis
  have "model (posedge (tiny lv) 9 s1) = True" using posedge_model [of "tiny lv" 9 s1] top_of_cycle_frame(1) [OF s1] by (simp add: tiny_rtl_def)
  then have "last_retire_cyc t = 9" by (simp add: finish_cycle_frame(2) [OF f] retire_part_fields(3) tiny_rtl_def)
  then show ?thesis using body_deadlock [OF assms] by auto
qed


definition asking :: "(bool, unit, (u64 \<times> bytes) list, bytes) sys" where
  "asking = (tiny False)\<lparr>cfg := (tiny_cfg False)\<lparr>g_save_at := 1\<rparr>, vl := tiny_rtl\<lparr>mem_reqs := \<lambda>t. (sample_req, no_req)\<rparr>\<rparr>"

lemma asking_devices: "service_devices asking cyc ((tiny_loop b k)\<lparr>retired := n\<rparr>) = (tiny_loop b k)\<lparr>retired := n\<rparr>"
  by (simp add: service_devices_def asking_def tiny_def tiny_loop_def tiny_rtl_def scsi_cycle_def scsi_doorbell_def idle_svc_def
      sample_svc_def tiny_in_def)


definition served :: "(bool, unit, (u64 \<times> bytes) list, bytes) sys" where
  "served = (tiny False)\<lparr>vl := tiny_rtl\<lparr>scsi_out := \<lambda>t. \<lparr>p_req_seq = 1, p_nbdp = 0, p_xfer_len = 512, p_cdb = [], p_dest = 1,
     p_lun = 0, p_to_device = 1\<rparr>\<rparr>\<rparr>"

theorem restore_reissues_command_witness:
  "g_scsi_quiescent (idle_svc\<lparr>g_last_scsi_req_seq := 1\<rparr>) \<and>
   \<not> g_scsi_quiescent (scsi_doorbell (scsix served)
        (scsi_out (vl served) (model (restore (save_ckpt 9 ((tiny_loop False 0)\<lparr>svc := idle_svc\<lparr>g_last_scsi_req_seq := 1\<rparr>\<rparr>)) (tiny_loop False 0))))
        (svc (restore (save_ckpt 9 ((tiny_loop False 0)\<lparr>svc := idle_svc\<lparr>g_last_scsi_req_seq := 1\<rparr>\<rparr>)) (tiny_loop False 0))))"
proof -
  have q: "g_scsi_quiescent (idle_svc\<lparr>g_last_scsi_req_seq := 1\<rparr>)" by (simp add: g_scsi_quiescent_def idle_svc_def)
  have r: "service_run (scsix served) x y = y" "ST_SELECT_TRANSFER_SUCCESS (scsix served) = 0x16" for x y
    by (simp_all add: served_def tiny_def sample_ext_def)
  have b: "g_buf (svc (tiny_loop False 0)) \<noteq> []" "rs_scsi_status (g_pending_rsp (svc (tiny_loop False 0))) = 0x16"
    by (simp_all add: tiny_loop_def idle_svc_def sample_svc_def)
  have "p_req_seq (scsi_out (vl served) t) = 1" for t by (simp add: served_def)
  moreover have "disk_ok (scsix served) d" for d by (simp add: served_def tiny_def sample_ext_def)
  moreover have "g_last_scsi_req_seq (svc (tiny_loop False 0)) = 0" "g_scsi_quiescent (svc (tiny_loop False 0))"
    by (simp_all add: tiny_loop_def idle_svc_def g_scsi_quiescent_def)
  ultimately show ?thesis
    using restore_reissues_command [of "(tiny_loop False 0)\<lparr>svc := idle_svc\<lparr>g_last_scsi_req_seq := 1\<rparr>\<rparr>" served "tiny_loop False 0" 9] q b
    by (simp add: r)
qed

end
