(* ===== verification/Line_Probes.thy ===== *)
theory Line_Probes
  imports Henry_Prelude
begin

text \<open>
  The DPI probes of the caches and of the disk engine in \<^verbatim>\<open>sim/henry_tb.cpp\<close>: the lifecycle map of
  the first-level lines (fills and invalidates) with the load probes that report from it, the
  writeback, dirty-drop and second-level traces, the store probes, the DMA engine trace, and
  the binary log of address translations.  A probe is a function of its arguments, the cycle
  \<^verbatim>\<open>g_cur_cyc\<close>, the environment and the probes' state; what it prints is a record of the log.
\<close>

section \<open>State\<close>

record linerec =
  fill_cyc :: u64
  fill_pc :: u64
  inval_cyc :: u64
  inval_pc :: u64
  fill_lo :: u64
  fill_hi :: u64

definition linerec0 :: linerec where
  "linerec0 = \<lparr>fill_cyc = 0, fill_pc = 0, inval_cyc = 0, inval_pc = 0, fill_lo = 0, fill_hi = 0\<rparr>"

text \<open>One constructor per message; the fields are the values printed.\<close>

datatype probe_msg =
    CCSTORE u64 u32 u64 u64 | SHSTORE u64 u32 u64 u32 | SHWORD u64 u32 u64 u64
  | L1DWB_CC u64 u64 u64 u64 | L1DWB u64 u64 u64
  | FILL u64 u64 u64 u64 u64 | FILL1C0 u64 u64 u64 u64 u64
  | INVAL u64 u64 u64 bool | INVAL1C0 u64 u64 u64
  | DIRTY_DROP u64 u32 u64 bool
  | LDALL u64 u64 u64 bool | LD_WATCH u64 u32 u64 bool u64 u64 u64 u64
  | STACKRD u64 u32 u64 bool u64 linerec | BCOPYRD u64 u32 u64 bool u64 linerec
  | WATCHPA_DMA u64 u64 u64 nat u64 u64 | DMA_GO u64 u64 u64 | DMA_DESC u64 u64 u64 u64 u64
  | DMA_WR u64 u64 u64 u64 u64 | DMA_ST u64 u64 u64 u64 u64
  | WATCHPA_L2 u64 int u64 nat u64 u64 | L2LINE u64 string u64 int int u64 u64 u32 u32 u32
  | L2WR u64 u64 string int int u64 u64 | L2CHK u64 u64 string int int int int u64 u64 | L2CHK_HELD u64 u64 string int int int int u32 u32

record probe_env =
  SHSTORE_on :: bool
  DESCWATCH :: bool
  g_checker :: bool
  MEMWATCH :: u64
  FILLTRACE :: bool
  INVWATCH :: u64
  BCOPYTRACE :: bool
  DIRTYDROP :: bool
  LDWATCH :: "u64 option"
  STACKRD_LO :: u32
  STACKRD_HI :: u32
  WATCHPA :: bool
  SCSIDMADBG :: bool
  L2DBG :: bool
  L2WATCH :: "u64 option"

record probes =
  g_l1d_lines :: "u64 \<rightharpoonup> linerec"
  g_l1i_lines :: "u64 \<rightharpoonup> linerec"
  g_l1i_flush_cyc :: u64
  wb_n :: nat
  fw_n :: nat
  iw_n :: nat
  ldall_n :: nat
  lw_n :: nat
  l2wr_n :: nat
  l2chk_n :: nat
  log :: "probe_msg list"

definition say :: "probe_msg \<Rightarrow> probes \<Rightarrow> probes" where
  "say m p = p\<lparr>log := log p @ [m]\<rparr>"

definition say_if :: "bool \<Rightarrow> probe_msg \<Rightarrow> probes \<Rightarrow> probes" where
  "say_if b m p = (if b then say m p else p)"

section \<open>Stores\<close>

definition cc_pc :: "u32 \<Rightarrow> bool" where
  "cc_pc p \<longleftrightarrow> p \<ge> 0x8800f6a8 \<and> p \<le> 0x8800f6b4"

definition wr_probes :: "probe_env \<Rightarrow> u64 \<Rightarrow> u64 \<Rightarrow> u64 \<Rightarrow> u64 \<Rightarrow> probes \<Rightarrow> probes" where
  "wr_probes e cyc vpc addr data p =
     (let pp = (ucast vpc :: u32); d = (ucast data :: u32);
          p = say_if (cc_pc pp) (CCSTORE cyc pp addr data) p
      in if SHSTORE_on e \<and> cyc > 2800000000 then
           (let p = say_if (d = 0x0e07bb40 \<or> d = 0x0e07bb70 \<or> d = 0x0e07bb90 \<or> d = 0x0e07bbc0) (SHSTORE cyc pp addr d) p
            in say_if (addr AND 0xfff = 0x1c0 \<and> pp \<ge> 0x88018f00 \<and> pp \<le> 0x88019010) (SHWORD cyc pp addr data) p)
         else p)"

definition l1d_wb_log :: "probe_env \<Rightarrow> u64 \<Rightarrow> u64 \<Rightarrow> u64 \<Rightarrow> u64 \<Rightarrow> probes \<Rightarrow> probes" where
  "l1d_wb_log e cyc pa dlo dhi p =
     (let p = say_if (pa AND NOT 0xf = 0x082ec100 \<or> pa AND NOT 0xf = 0x082ec0f0) (L1DWB_CC cyc pa dlo dhi) p
      in if \<not> g_checker e \<or> \<not> DESCWATCH e then p
         else (let la = (ucast (pa AND 0x0ffffff0) :: u32)
               in if la = 0x003e4000 \<or> la = 0x083e4000 then say (L1DWB pa dlo dhi) p
                  else say_if (wb_n p < 12) (L1DWB pa dlo dhi) (p\<lparr>wb_n := wb_n p + 1\<rparr>)))"

section \<open>The life of a line\<close>

definition crashword :: "u64 \<Rightarrow> bool" where
  "crashword pa \<longleftrightarrow> pa AND 0xfff = 0x1c0"

definition line32 :: "u64 \<Rightarrow> u64" where
  "line32 pa = pa AND NOT 0x1f"

definition same64 :: "u64 \<Rightarrow> u64 \<Rightarrow> bool" where
  "same64 a w \<longleftrightarrow> a AND NOT 63 = w AND NOT 63"

text \<open>\<^verbatim>\<open>map[line]\<close>: the record, created with zeros when absent.\<close>

definition line_at :: "(u64 \<rightharpoonup> linerec) \<Rightarrow> u64 \<Rightarrow> linerec" where
  "line_at m l = (case m l of None \<Rightarrow> linerec0 | Some r \<Rightarrow> r)"

definition l1d_fill :: "probe_env \<Rightarrow> u64 \<Rightarrow> u64 \<Rightarrow> u64 \<Rightarrow> u64 \<Rightarrow> u64 \<Rightarrow> u64 \<Rightarrow> probes \<Rightarrow> probes" where
  "l1d_fill e g_cur_cyc cyc vpc pa dlo dhi p =
     (let r = (line_at (g_l1d_lines p) (line32 pa))\<lparr>fill_cyc := g_cur_cyc, fill_pc := vpc, fill_lo := dlo, fill_hi := dhi\<rparr>;
          p = p\<lparr>g_l1d_lines := (g_l1d_lines p)(line32 pa \<mapsto> r)\<rparr>;
          p = (if MEMWATCH e \<noteq> 0 \<and> same64 pa (MEMWATCH e)
               then say_if (fw_n p + 1 \<le> 2000) (FILL g_cur_cyc vpc pa dlo dhi) (p\<lparr>fw_n := fw_n p + 1\<rparr>) else p)
      in say_if (FILLTRACE e \<and> crashword pa) (FILL1C0 cyc vpc pa dlo dhi) p)"

definition l1d_cacheop :: "probe_env \<Rightarrow> u64 \<Rightarrow> u64 \<Rightarrow> u64 \<Rightarrow> u64 \<Rightarrow> bool \<Rightarrow> probes \<Rightarrow> probes" where
  "l1d_cacheop e g_cur_cyc cyc vpc pa inval p =
     (let p = (if INVWATCH e \<noteq> 0 \<and> same64 pa (INVWATCH e)
               then say_if (iw_n p + 1 \<le> 500) (INVAL cyc vpc pa inval) (p\<lparr>iw_n := iw_n p + 1\<rparr>) else p)
      in if \<not> inval then p
         else (let r = (line_at (g_l1d_lines p) (line32 pa))\<lparr>inval_cyc := g_cur_cyc, inval_pc := vpc\<rparr>;
                   p = p\<lparr>g_l1d_lines := (g_l1d_lines p)(line32 pa \<mapsto> r)\<rparr>
               in say_if (BCOPYTRACE e \<and> crashword pa) (INVAL1C0 cyc vpc pa) p))"

definition l1i_fill :: "u64 \<Rightarrow> u64 \<Rightarrow> probes \<Rightarrow> probes" where
  "l1i_fill cyc pa p =
     p\<lparr>g_l1i_lines := (g_l1i_lines p)(line32 pa \<mapsto> (line_at (g_l1i_lines p) (line32 pa))\<lparr>fill_cyc := cyc, fill_pc := pa\<rparr>)\<rparr>"

definition l1i_flush :: "u64 \<Rightarrow> probes \<Rightarrow> probes" where
  "l1i_flush cyc p =
     p\<lparr>g_l1i_flush_cyc := cyc,
       g_l1i_lines := (\<lambda>l. map_option (\<lambda>r. r\<lparr>inval_cyc := cyc, inval_pc := 0\<rparr>) (g_l1i_lines p l))\<rparr>"

definition dirtydrop :: "probe_env \<Rightarrow> u64 \<Rightarrow> u64 \<Rightarrow> u64 \<Rightarrow> bool \<Rightarrow> probes \<Rightarrow> probes" where
  "dirtydrop e cyc vpc pa by_refill p = say_if (cc_pc (ucast vpc) \<or> DIRTYDROP e) (DIRTY_DROP cyc (ucast vpc) pa by_refill) p"

text \<open>The load probe: the address watch, then the stack window, then the copy source.\<close>

definition rd_log :: "probe_env \<Rightarrow> u64 \<Rightarrow> u64 \<Rightarrow> u64 \<Rightarrow> u64 \<Rightarrow> bool \<Rightarrow> probes \<Rightarrow> probes" where
  "rd_log e g_cur_cyc vpc addr data hit p =
     (let p = (if LDWATCH e = Some 0xffffffff \<and> ldall_n p < 20 then say (LDALL vpc addr data hit) (p\<lparr>ldall_n := ldall_n p + 1\<rparr>) else p);
          q = (ucast vpc :: u32);
          r = line_at (g_l1d_lines p) (line32 addr);
          p = (case LDWATCH e of
                 None \<Rightarrow> p
               | Some lw \<Rightarrow> if lw \<noteq> 0 \<and> lw \<noteq> 0xffffffff \<and> same64 addr lw
                   then say_if (lw_n p + 1 \<le> 2000) (LD_WATCH g_cur_cyc q addr hit data (fill_cyc r) (fill_pc r) (inval_cyc r))
                          (p\<lparr>lw_n := lw_n p + 1\<rparr>)
                   else p)
      in if q \<ge> STACKRD_LO e \<and> q \<le> STACKRD_HI e then say (STACKRD g_cur_cyc q addr hit data r) p
         else say_if (BCOPYTRACE e \<and> crashword addr) (BCOPYRD g_cur_cyc q addr hit data r) p)"

section \<open>The DMA engine and the second-level cache\<close>

definition bswap32 :: "u32 \<Rightarrow> u32" where
  "bswap32 w = push_bit 24 w OR (push_bit 8 w AND 0xff0000) OR (drop_bit 8 w AND 0xff00) OR drop_bit 24 w"

text \<open>The words of a 16-byte line, and the watched pointer in either byte order.\<close>

definition line_words :: "u64 \<Rightarrow> u64 \<Rightarrow> u32 list" where
  "line_words d0 d1 = [ucast d0, ucast (drop_bit 32 d0), ucast d1, ucast (drop_bit 32 d1)]"

definition watched :: "u32 \<Rightarrow> bool" where
  "watched w \<longleftrightarrow> w = 0x0e07bbc0 \<or> w = 0xc0bb070e"

definition say_watched :: "(nat \<Rightarrow> probe_msg) \<Rightarrow> u32 list \<Rightarrow> probes \<Rightarrow> probes" where
  "say_watched f ws p = fold (\<lambda>i. say_if (watched (ws ! i)) (f i)) [0..<length ws] p"

definition scsi_dma_log :: "probe_env \<Rightarrow> u64 \<Rightarrow> int \<Rightarrow> u64 \<Rightarrow> u64 \<Rightarrow> u64 \<Rightarrow> u64 \<Rightarrow> probes \<Rightarrow> probes" where
  "scsi_dma_log e cyc kind a b c d p =
     (let p = (if WATCHPA e \<and> kind = 1 then say_watched (\<lambda>i. WATCHPA_DMA cyc a b i d c) (line_words c d) p else p)
      in if \<not> g_checker e \<or> \<not> SCSIDMADBG e then p
         else if kind = 2 then say (DMA_GO cyc a b) p
         else if kind = 0 then say (DMA_DESC cyc a b c d) p
         else if kind = 1 then say (DMA_WR cyc a b d c) p
         else say (DMA_ST cyc a b c d) p)"

definition side_name :: "int \<Rightarrow> string" where
  "side_name side = (if side = 0 then ''L1->L2 '' else if side = 1 then ''L2->DRAM'' else ''fill    '')"

definition l2_line_log :: "probe_env \<Rightarrow> u64 \<Rightarrow> int \<Rightarrow> u64 \<Rightarrow> u64 \<Rightarrow> u64 \<Rightarrow> int \<Rightarrow> int \<Rightarrow> probes \<Rightarrow> probes" where
  "l2_line_log e cyc side pa d0 d1 op mk p =
     (let p = (if WATCHPA e then say_watched (\<lambda>i. WATCHPA_L2 cyc side pa i d0 d1) (line_words d0 d1) p else p)
      in say_if (L2DBG e) (L2LINE cyc (side_name side) pa op mk d0 d1
           (bswap32 (ucast d0)) (bswap32 (ucast (drop_bit 32 d0))) (bswap32 (ucast d1))) p)"

definition chk_opn :: "int \<Rightarrow> string" where
  "chk_opn op = (if op = 4 then ''LW'' else if op = 7 then ''SW'' else if op = 15 then ''SD'' else if op = 24 then ''INVL''
     else if op = 26 then ''WB'' else if op = 27 then ''CHWB'' else if op = 28 then ''CHWBINV'' else if op = 29 then ''CHINV'' else ''?'')"

definition wr_opn :: "int \<Rightarrow> string" where
  "wr_opn op = (if op = 30 then ''SNOOPINV'' else chk_opn op)"

definition l2_wr_log :: "probe_env \<Rightarrow> u64 \<Rightarrow> u64 \<Rightarrow> u64 \<Rightarrow> u64 \<Rightarrow> int \<Rightarrow> int \<Rightarrow> probes \<Rightarrow> probes" where
  "l2_wr_log e cyc pa d0 d1 op state p =
     (if L2WATCH e = None then p
      else say_if (l2wr_n p + 1 \<le> 4000) (L2WR cyc pa (wr_opn op) op state d0 d1) (p\<lparr>l2wr_n := l2wr_n p + 1\<rparr>))"

definition l2_chk_log :: "probe_env \<Rightarrow> u64 \<Rightarrow> u64 \<Rightarrow> int \<Rightarrow> int \<Rightarrow> int \<Rightarrow> int \<Rightarrow> u64 \<Rightarrow> u64 \<Rightarrow> probes \<Rightarrow> probes" where
  "l2_chk_log e cyc pa whit wvalid wdirty op d0lo d0hi p =
     (if \<not> L2DBG e \<and> L2WATCH e = None then p
      else
        (let every = (L2WATCH e = Some 0xffffffff);
             p = (if every then p\<lparr>l2chk_n := l2chk_n p + 1\<rparr> else p)
         in if every \<and> l2chk_n p > 25 then p
            else if L2WATCH e \<noteq> None then say (L2CHK cyc pa (chk_opn op) op whit wvalid wdirty d0lo d0hi) p
            else say (L2CHK_HELD cyc pa (chk_opn op) op whit wvalid wdirty
                   (bswap32 (ucast d0lo)) (bswap32 (ucast (drop_bit 32 d0lo)))) p))"

section \<open>The translation log\<close>

record vapa_rec =
  v_cyc :: u64
  v_pc :: u64
  v_va :: u64
  v_pa :: u64
  v_is_store :: u32
  v_mapped :: u32
  v_hit :: u32
  v_tlb_hit :: u32
  v_tlb_valid :: u32

definition vapa_bytes :: "vapa_rec \<Rightarrow> bytes" where
  "vapa_bytes r = le_bytes 8 (v_cyc r) @ le_bytes 8 (v_pc r) @ le_bytes 8 (v_va r) @ le_bytes 8 (v_pa r) @
     le_bytes 4 (v_is_store r) @ le_bytes 4 (v_mapped r) @ le_bytes 4 (v_hit r) @ le_bytes 4 (v_tlb_hit r) @
     le_bytes 4 (v_tlb_valid r) @ replicate 12 0"

text \<open>\<open>VAPALOG\<close>: whether a file is named and can be opened.  \<open>g_vapa_fp\<close>: the file's contents once open.\<close>

record vapa =
  g_vapa_fp :: "bytes option"
  g_vapa_n :: nat
  flushed :: nat

record vapa_env =
  VAPA_FROM_CYC :: u64
  VAPA_MAX :: nat
  VAPALOG :: bool

definition vapa_log :: "vapa_env \<Rightarrow> vapa_rec \<Rightarrow> vapa \<Rightarrow> vapa" where
  "vapa_log e r v =
     (if v_cyc r < VAPA_FROM_CYC e \<or> g_vapa_n v \<ge> VAPA_MAX e then v
      else
        (let v = (if g_vapa_fp v = None \<and> VAPALOG e then v\<lparr>g_vapa_fp := Some []\<rparr> else v)
         in case g_vapa_fp v of
              None \<Rightarrow> v
            | Some f \<Rightarrow>
                (let v = v\<lparr>g_vapa_fp := Some (f @ vapa_bytes r), g_vapa_n := g_vapa_n v + 1\<rparr>
                 in if g_vapa_n v mod 4096 = 0 then v\<lparr>flushed := length (f @ vapa_bytes r)\<rparr> else v)))"

section \<open>The lifecycle map is the history\<close>

text \<open>The calls that reach the map: the testbench's cycle, the model's cycle, and the arguments.\<close>

datatype line_ev = Fill (now: u64) u64 (ev_pc: u64) (ev_pa: u64) (ev_lo: u64) (ev_hi: u64)
  | Cacheop (now: u64) u64 (ev_pc: u64) (ev_pa: u64) bool

fun line_ev_step :: "probe_env \<Rightarrow> line_ev \<Rightarrow> probes \<Rightarrow> probes" where
  "line_ev_step e (Fill n c vpc pa dlo dhi) p = l1d_fill e n c vpc pa dlo dhi p"
| "line_ev_step e (Cacheop n c vpc pa inval) p = l1d_cacheop e n c vpc pa inval p"

fun fills :: "u64 \<Rightarrow> line_ev \<Rightarrow> bool" where
  "fills l (Fill n c vpc pa dlo dhi) = (line32 pa = l)"
| "fills l (Cacheop n c vpc pa inval) = False"

fun kills :: "u64 \<Rightarrow> line_ev \<Rightarrow> bool" where
  "kills l (Fill n c vpc pa dlo dhi) = False"
| "kills l (Cacheop n c vpc pa inval) = (inval \<and> line32 pa = l)"

text \<open>The record a history calls for: the last fill and the last invalidate of the line.\<close>

definition last_of :: "('a \<Rightarrow> bool) \<Rightarrow> 'a list \<Rightarrow> 'a option" where
  "last_of P xs = (let ys = filter P xs in if ys = [] then None else Some (last ys))"

definition history :: "u64 \<Rightarrow> line_ev list \<Rightarrow> linerec option" where
  "history l evs =
     (let f = last_of (fills l) evs; k = last_of (kills l) evs in
      if f = None \<and> k = None then None
      else Some \<lparr>fill_cyc = (case f of None \<Rightarrow> 0 | Some v \<Rightarrow> now v), fill_pc = (case f of None \<Rightarrow> 0 | Some v \<Rightarrow> ev_pc v),
        inval_cyc = (case k of None \<Rightarrow> 0 | Some v \<Rightarrow> now v), inval_pc = (case k of None \<Rightarrow> 0 | Some v \<Rightarrow> ev_pc v),
        fill_lo = (case f of None \<Rightarrow> 0 | Some v \<Rightarrow> ev_lo v), fill_hi = (case f of None \<Rightarrow> 0 | Some v \<Rightarrow> ev_hi v)\<rparr>)"

lemma last_of_snoc: "last_of P (xs @ [x]) = (if P x then Some x else last_of P xs)"
  by (simp add: last_of_def Let_def)

lemma last_of_Nil [simp]: "last_of P [] = None"
  by (simp add: last_of_def)

lemma say_frame [simp]: "g_l1d_lines (say m p) = g_l1d_lines p" "g_l1d_lines (say_if b m p) = g_l1d_lines p"
  by (simp_all add: say_def say_if_def)

lemma lines_after_fill:
  "g_l1d_lines (l1d_fill e n c vpc pa dlo dhi p) =
     (g_l1d_lines p)(line32 pa \<mapsto> (line_at (g_l1d_lines p) (line32 pa))\<lparr>fill_cyc := n, fill_pc := vpc, fill_lo := dlo, fill_hi := dhi\<rparr>)"
  by (simp add: l1d_fill_def Let_def)

lemma lines_after_cacheop:
  "g_l1d_lines (l1d_cacheop e n c vpc pa inval p) =
     (if inval then (g_l1d_lines p)(line32 pa \<mapsto> (line_at (g_l1d_lines p) (line32 pa))\<lparr>inval_cyc := n, inval_pc := vpc\<rparr>)
      else g_l1d_lines p)"
  by (simp add: l1d_cacheop_def Let_def)

lemma lines_history:
  assumes "g_l1d_lines p = Map.empty"
  shows "g_l1d_lines (fold (line_ev_step e) evs p) l = history l evs"
proof (induction evs arbitrary: l rule: rev_induct)
  case Nil
  then show ?case using assms by (simp add: history_def)
next
  case (snoc ev evs)
  show ?case
    by (cases ev) (auto simp: lines_after_fill lines_after_cacheop line_at_def snoc.IH history_def last_of_snoc linerec0_def Let_def
      split: option.splits if_splits)
qed


definition probes0 :: probes where
  "probes0 = \<lparr>g_l1d_lines = Map.empty, g_l1i_lines = Map.empty, g_l1i_flush_cyc = 0, wb_n = 0, fw_n = 0, iw_n = 0, ldall_n = 0,
     lw_n = 0, l2wr_n = 0, l2chk_n = 0, log = []\<rparr>"

definition silent_env :: probe_env where
  "silent_env = \<lparr>SHSTORE_on = False, DESCWATCH = False, g_checker = False, MEMWATCH = 0, FILLTRACE = False, INVWATCH = 0,
     BCOPYTRACE = False, DIRTYDROP = False, LDWATCH = None, STACKRD_LO = 0x8800f89c, STACKRD_HI = 0x8800f8a8, WATCHPA = False,
     SCSIDMADBG = False, L2DBG = False, L2WATCH = None\<rparr>"


section \<open>The stale-refill verdict\<close>

lemma last_of_SomeD:
  "last_of P xs = Some x \<Longrightarrow> \<exists>pre post. xs = pre @ x # post \<and> P x \<and> list_all (\<lambda>y. \<not> P y) post"
proof (induction xs rule: rev_induct)
  case (snoc y xs)
  show ?case
  proof (cases "P y")
    case True
    then show ?thesis using snoc.prems by (intro exI [of _ xs] exI [of _ "[]"]) (simp add: last_of_snoc)
  next
    case False
    with snoc obtain pre post where "xs = pre @ x # post" "P x" "list_all (\<lambda>y. \<not> P y) post" by (auto simp: last_of_snoc)
    then show ?thesis using False by (intro exI [of _ pre] exI [of _ "post @ [y]"]) simp
  qed
qed simp

lemma last_of_defined: "x \<in> set xs \<Longrightarrow> P x \<Longrightarrow> \<exists>y. last_of P xs = Some y"
  by (auto simp: last_of_def Let_def filter_empty_conv)

lemma last_of_ge:
  assumes "last_of P xs = Some x" "y \<in> set xs" "P y" "sorted (map f xs)"
  shows "f y \<le> f x"
  using assms
proof (induction xs rule: rev_induct)
  case (snoc z xs)
  then show ?case by (auto simp: last_of_snoc sorted_append split: if_splits)
qed simp

text \<open>
  The verdict the probes are read for is sound: when a load's report shows the line filled later
  than it was invalidated, the history holds that fill with no invalidate and no other fill of
  the line after it, provided the calls come in the order of the clock they are stamped with.
\<close>

theorem stale_refill_sound:
  assumes "g_l1d_lines p = Map.empty" "sorted (map now evs)"
    and "line_at (g_l1d_lines (fold (line_ev_step e) evs p)) l = r" "inval_cyc r < fill_cyc r"
  shows "\<exists>pre f post. evs = pre @ f # post \<and> fills l f \<and> now f = fill_cyc r \<and> ev_pc f = fill_pc r \<and>
    list_all (\<lambda>v. \<not> fills l v \<and> \<not> kills l v) post"
proof -
  have "r = (case history l evs of None \<Rightarrow> linerec0 | Some r \<Rightarrow> r)" using lines_history [OF assms(1)] assms(3) by (simp add: line_at_def)
  then have r: "fill_cyc r = (case last_of (fills l) evs of None \<Rightarrow> 0 | Some v \<Rightarrow> now v)"
    "fill_pc r = (case last_of (fills l) evs of None \<Rightarrow> 0 | Some v \<Rightarrow> ev_pc v)"
    "inval_cyc r = (case last_of (kills l) evs of None \<Rightarrow> 0 | Some v \<Rightarrow> now v)"
    by (simp_all add: history_def linerec0_def Let_def)
  obtain f where f: "last_of (fills l) evs = Some f" "now f = fill_cyc r" "ev_pc f = fill_pc r"
    using assms(4) r(1,2) by (cases "last_of (fills l) evs") simp_all
  from last_of_SomeD [OF f(1)] obtain pre post where evs: "evs = pre @ f # post" "fills l f" "list_all (\<lambda>v. \<not> fills l v) post" by blast
  have "\<not> kills l v" if v: "v \<in> set post" for v
  proof
    assume k: "kills l v"
    have "v \<in> set evs" using v by (simp add: evs(1))
    then obtain w where w: "last_of (kills l) evs = Some w" using last_of_defined [of v evs "kills l"] k by blast
    have "now f \<le> now v" using assms(2) v by (auto simp: evs(1) sorted_append)
    also have "now v \<le> now w" using last_of_ge [OF w _ k assms(2)] v evs(1) by simp
    also have "now w = inval_cyc r" by (simp add: r(3) w)
    finally show False using f(2) assms(4) by simp
  qed
  then have "list_all (\<lambda>v. \<not> fills l v \<and> \<not> kills l v) post" using evs(3) by (simp add: list_all_iff)
  with evs f show ?thesis by blast
qed

theorem stale_refill_sound_witness:
  "sorted (map now [Cacheop 10 10 0x100 0x1c0 True, Fill 20 86568 0x200 0x1c8 7 8]) \<and>
   (\<exists>pre f post. [Cacheop 10 10 0x100 0x1c0 True, Fill 20 86568 0x200 0x1c8 7 8] = pre @ f # post \<and> fills 0x1c0 f \<and> now f = 20 \<and>
     ev_pc f = 0x200 \<and> list_all (\<lambda>v. \<not> fills 0x1c0 v \<and> \<not> kills 0x1c0 v) post)"
proof -
  let ?evs = "[Cacheop 10 10 0x100 0x1c0 True, Fill 20 86568 0x200 0x1c8 7 8]"
  have r: "line_at (g_l1d_lines (fold (line_ev_step silent_env) ?evs probes0)) 0x1c0 =
      \<lparr>fill_cyc = 20, fill_pc = 0x200, inval_cyc = 10, inval_pc = 0x100, fill_lo = 7, fill_hi = 8\<rparr>"
    by (simp add: line_at_def lines_after_fill lines_after_cacheop line32_def probes0_def linerec0_def)
  have "sorted (map now ?evs)" "g_l1d_lines probes0 = Map.empty" by (simp_all add: probes0_def)
  with stale_refill_sound [OF this(2,1) r] show ?thesis by simp
qed

section \<open>Half lines\<close>

text \<open>
  The map keys 32 bytes where the cache's line, by the probe's own description, has 16: an
  invalidate of one half followed by a fill of the other is reported, for a load of the first
  half, as a line filled after its invalidate, which it was not.
\<close>

theorem half_line_conflated:
  assumes "line32 a = line32 b" "STACKRD_LO e \<le> ucast vpc" "(ucast vpc :: u32) \<le> STACKRD_HI e"
  shows "\<exists>r. last (log (rd_log e n3 vpc a data hit (l1d_fill e n2 c2 pc2 b dlo dhi (l1d_cacheop e n1 c1 pc1 a True p)))) =
      STACKRD n3 (ucast vpc) a hit data r \<and> fill_cyc r = n2 \<and> inval_cyc r = n1"
proof -
  define p1 where "p1 = l1d_fill e n2 c2 pc2 b dlo dhi (l1d_cacheop e n1 c1 pc1 a True p)"
  have "fill_cyc (line_at (g_l1d_lines p1) (line32 a)) = n2" "inval_cyc (line_at (g_l1d_lines p1) (line32 a)) = n1"
    using assms(1) by (simp_all add: p1_def lines_after_fill lines_after_cacheop line_at_def)
  then show ?thesis using assms(2,3) unfolding p1_def [symmetric] by (auto simp: rd_log_def say_def say_if_def Let_def split: option.splits)
qed

theorem half_line_conflated_witness:
  "line32 0x1c0 = line32 0x1d0 \<and>
   (\<exists>r. last (log (rd_log silent_env 30 0x8800f8a0 0x1c0 5 True (l1d_fill silent_env 20 20 0 0x1d0 7 8
      (l1d_cacheop silent_env 10 10 0 0x1c0 True probes0)))) = STACKRD 30 (ucast (0x8800f8a0 :: u64)) 0x1c0 True 5 r \<and>
      fill_cyc r = 20 \<and> inval_cyc r = 10)"
proof -
  have "line32 0x1c0 = line32 0x1d0" by (simp add: line32_def)
  moreover have "STACKRD_LO silent_env \<le> ucast (0x8800f8a0 :: u64)" "(ucast (0x8800f8a0 :: u64) :: u32) \<le> STACKRD_HI silent_env"
    by (simp_all add: silent_env_def)
  ultimately show ?thesis using half_line_conflated by metis
qed

section \<open>The translation log is a file of records\<close>

definition vapa_kept :: "vapa_env \<Rightarrow> vapa_rec list \<Rightarrow> vapa_rec list" where
  "vapa_kept e rs = take (VAPA_MAX e) (filter (\<lambda>r. VAPA_FROM_CYC e \<le> v_cyc r) rs)"

lemma vapa_kept_snoc:
  "vapa_kept e (rs @ [r]) = (if v_cyc r < VAPA_FROM_CYC e \<or> length (vapa_kept e rs) \<ge> VAPA_MAX e then vapa_kept e rs
     else vapa_kept e rs @ [r])"
  by (auto simp: vapa_kept_def min_def not_le)

lemma length_vapa_bytes [simp]: "length (vapa_bytes r) = 64"
  by (simp add: vapa_bytes_def)

lemma length_vapa_file: "length (concat (map vapa_bytes rs)) = 64 * length rs"
  by (induction rs) simp_all

text \<open>
  The translation log holds, in the order of the calls, the 64-byte records of those at or after
  the first cycle asked for, up to the maximum, so record \<open>k\<close> is at offset 64\<open>k\<close>; and what has been
  flushed is all of it but the last \<open>n mod 4096\<close> records, so a killed run loses fewer than 4096.
\<close>

theorem vapa_file_exact:
  fixes rs :: "vapa_rec list"
  assumes "VAPALOG e" "g_vapa_fp v = None" "g_vapa_n v = 0" "flushed v = 0"
  defines "kept \<equiv> vapa_kept e rs"
  shows "g_vapa_fp (fold (vapa_log e) rs v) = (if kept = [] then None else Some (concat (map vapa_bytes kept))) \<and>
    g_vapa_n (fold (vapa_log e) rs v) = length kept \<and> flushed (fold (vapa_log e) rs v) = 64 * (length kept - length kept mod 4096)"
  unfolding kept_def
proof (induction rs rule: rev_induct)
  case Nil
  then show ?case using assms(2-4) by (simp add: vapa_kept_def)
next
  case (snoc r rs)
  define u where "u = fold (vapa_log e) rs v"
  define k where "k = vapa_kept e rs"
  have u: "g_vapa_fp u = (if k = [] then None else Some (concat (map vapa_bytes k)))" "g_vapa_n u = length k"
    "flushed u = 64 * (length k - length k mod 4096)" using snoc.IH by (simp_all add: u_def k_def)
  show ?case
  proof (cases "v_cyc r < VAPA_FROM_CYC e \<or> length k \<ge> VAPA_MAX e")
    case True
    then have "vapa_log e r u = u" by (simp add: vapa_log_def u(2))
    then show ?thesis using True snoc.IH by (auto simp: vapa_kept_snoc k_def [symmetric] u_def)
  next
    case False
    have m: "Suc n - Suc n mod 4096 = n - n mod 4096" if "Suc n mod 4096 \<noteq> 0" for n :: nat
      using that by (metis Suc_diff_diff diff_Suc_Suc mod_Suc)
    have "vapa_kept e (rs @ [r]) = k @ [r]" using False by (simp add: vapa_kept_snoc k_def)
    moreover have "g_vapa_fp (vapa_log e r u) = Some (concat (map vapa_bytes k) @ vapa_bytes r) \<and> g_vapa_n (vapa_log e r u) = length k + 1 \<and>
        flushed (vapa_log e r u) = 64 * (Suc (length k) - Suc (length k) mod 4096)"
      using False assms(1) u m [of "length k"] by (auto simp: vapa_log_def Let_def length_vapa_file simp del: length_concat)
    ultimately show ?thesis by (simp add: u_def)
  qed
qed

theorem vapa_file_exact_witness:
  "vapa_kept \<lparr>VAPA_FROM_CYC = 5, VAPA_MAX = 1, VAPALOG = True\<rparr>
      [\<lparr>v_cyc = 9, v_pc = 1, v_va = 2, v_pa = 3, v_is_store = 0, v_mapped = 1, v_hit = 1, v_tlb_hit = 1, v_tlb_valid = 1\<rparr>] \<noteq> [] \<and>
   g_vapa_n (fold (vapa_log \<lparr>VAPA_FROM_CYC = 5, VAPA_MAX = 1, VAPALOG = True\<rparr>)
      [\<lparr>v_cyc = 9, v_pc = 1, v_va = 2, v_pa = 3, v_is_store = 0, v_mapped = 1, v_hit = 1, v_tlb_hit = 1, v_tlb_valid = 1\<rparr>]
      \<lparr>g_vapa_fp = None, g_vapa_n = 0, flushed = 0\<rparr>) = 1"
  using vapa_file_exact [of "\<lparr>VAPA_FROM_CYC = 5, VAPA_MAX = 1, VAPALOG = True\<rparr>" "\<lparr>g_vapa_fp = None, g_vapa_n = 0, flushed = 0\<rparr>"
      "[\<lparr>v_cyc = 9, v_pc = 1, v_va = 2, v_pa = 3, v_is_store = 0, v_mapped = 1, v_hit = 1, v_tlb_hit = 1, v_tlb_valid = 1\<rparr>]"]
  by (simp add: vapa_kept_def)

end
