(* ===== verification/Debug_Probes.thy ===== *)
theory Debug_Probes
  imports Run_Loop Retire_Probes
begin

text \<open>
  The diagnostic probes of the main loop that only print (\<^verbatim>\<open>sim/henry_tb.cpp\<close>): the FP and FCR
  trace, the shell-loop trace, the per-retire text trace, the poll-loop trace, the register
  snapshot at a near-null store and the a0 trace of the GO_DEBUG build, the calibration and
  save-wait messages, and the statistics of the final report.  A printed line is a value of a
  \<open>line\<close> type; what a probe printed is the list of its lines.  Each probe is modelled as it runs
  when its environment variable arms it.
\<close>

section \<open>FPTRACE\<close>

datatype fp_line = Fp_line nat nat u8 u64 | Fcr_line nat nat u8 u64 | Exc_line nat u8 u8 u64 u64

record fp_probe =
  nfp :: nat
  nfcr :: nat
  nexc :: nat
  fp_lines :: "fp_line list"

definition fp_slot :: "nat \<Rightarrow> nat \<Rightarrow> retire_slot \<Rightarrow> fp_probe \<Rightarrow> fp_probe" where
  "fp_slot cyc k s t = (if rs_fp_reg_valid s then
     t\<lparr>nfp := nfp t + 1, fp_lines := fp_lines t @ (if nfp t < 24 then [Fp_line cyc k (rs_fp_reg_ptr s) (rs_fp_reg_data s)] else [])\<rparr> else t)"

definition fcr_slot :: "nat \<Rightarrow> nat \<Rightarrow> retire_slot \<Rightarrow> fp_probe \<Rightarrow> fp_probe" where
  "fcr_slot cyc k s t = (if rs_fcr_reg_valid s then
     t\<lparr>nfcr := nfcr t + 1, fp_lines := fp_lines t @ (if nfcr t < 12 then [Fcr_line cyc k (rs_fcr_reg_ptr s) (rs_fcr_reg_data s)] else [])\<rparr> else t)"

definition fptrace_cycle :: "nat \<Rightarrow> u8 \<Rightarrow> retire_ports \<Rightarrow> fp_probe \<Rightarrow> fp_probe" where
  "fptrace_cycle cyc cause_ip p t =
     (let t = fp_slot cyc 1 (slot1 p) (fp_slot cyc 0 (slot0 p) t);
          t = fcr_slot cyc 1 (slot1 p) (fcr_slot cyc 0 (slot0 p) t)
      in if took_irq p then
           t\<lparr>nexc := nexc t + 1, fp_lines := fp_lines t @ (if nexc t < 12 then [Exc_line cyc (p_cause p) cause_ip (p_epc p) (p_badvaddr p)] else [])\<rparr>
         else t)"

section \<open>SHLOOP\<close>

datatype sh_line = Shloop nat u32 "u32 list" | Shdiv nat u32 "u32 list"

definition shloop_pc :: "nat \<Rightarrow> (nat \<Rightarrow> u64) \<Rightarrow> u32 \<Rightarrow> sh_line list" where
  "shloop_pc cyc g_rf rpc =
     (if rpc \<in> {0x0e005974, 0x0e005978, 0x0e00598c, 0x0e005990, 0x0e005998}
      then [Shloop cyc rpc (map (\<lambda>r. ucast (g_rf r)) [2, 3, 4, 5])] else []) @
     (if rpc \<in> {0x0e03ab50, 0x0e03ab64, 0x0e03ab68} then [Shdiv cyc rpc (map (\<lambda>r. ucast (g_rf r)) [16, 2, 17, 5])] else [])"

definition shloop_cycle :: "nat \<Rightarrow> (nat \<Rightarrow> u64) \<Rightarrow> retire_ports \<Rightarrow> sh_line list" where
  "shloop_cycle cyc g_rf p = (if cyc > 2800000000 then
     concat (map (\<lambda>s. shloop_pc cyc g_rf (if rs_valid s then ucast (rs_pc s) else 0)) [slot0 p, slot1 p]) else [])"

section \<open>RTLTRACE\<close>

record rtl_cfg =
  rl_startpc :: u32
  rl_cap :: nat
  rl_useronly :: bool
  rl_ktlb :: bool

record rtl_trace =
  rl_armed :: bool
  rl_lines :: "(u32 \<times> int \<times> u64) list"

definition khandler :: "u32 \<Rightarrow> bool" where
  "khandler a \<longleftrightarrow> (a \<ge> 0x80000000 \<and> a < 0x80000240) \<or> (a \<ge> 0x88002000 \<and> a < 0x88015000)"

definition rtl_skips :: "rtl_cfg \<Rightarrow> u32 \<Rightarrow> bool" where
  "rtl_skips cf a \<longleftrightarrow> rl_useronly cf \<and> a \<ge> 0x80000000 \<and> \<not> (rl_ktlb cf \<and> khandler a)"

definition rtl_line :: "retire_slot \<Rightarrow> u32 \<times> int \<times> u64" where
  "rtl_line s = (let w = rs_reg_valid s \<and> unat (rs_reg_ptr s) mod 32 \<noteq> 0
     in (ucast (rs_pc s), if w then int (unat (rs_reg_ptr s) mod 32) else - 1, if w then rs_reg_data s else 0))"

definition rtl_emit1 :: "rtl_cfg \<Rightarrow> retire_slot \<Rightarrow> rtl_trace \<Rightarrow> rtl_trace" where
  "rtl_emit1 cf s t = (if rtl_skips cf (ucast (rs_pc s)) then t else t\<lparr>rl_lines := rl_lines t @ [rtl_line s]\<rparr>)"

definition rtl_slot0 :: "rtl_cfg \<Rightarrow> retire_slot \<Rightarrow> rtl_trace \<Rightarrow> rtl_trace" where
  "rtl_slot0 cf s t = (if rs_valid s then
     (let t = (if \<not> rl_armed t \<and> ucast (rs_pc s) = rl_startpc cf then t\<lparr>rl_armed := True\<rparr> else t)
      in if rl_armed t then rtl_emit1 cf s t else t) else t)"

definition rtl_slot1 :: "rtl_cfg \<Rightarrow> retire_slot \<Rightarrow> rtl_trace \<Rightarrow> rtl_trace" where
  "rtl_slot1 cf s t = (if rs_valid s \<and> rl_armed t \<and> length (rl_lines t) < rl_cap cf then rtl_emit1 cf s t else t)"

definition rtltrace_cycle :: "rtl_cfg \<Rightarrow> retire_ports \<Rightarrow> rtl_trace \<Rightarrow> rtl_trace" where
  "rtltrace_cycle cf p t = (if length (rl_lines t) < rl_cap cf then rtl_slot1 cf (slot1 p) (rtl_slot0 cf (slot0 p) t) else t)"

definition rtltrace_init :: "rtl_cfg \<Rightarrow> rtl_trace" where
  "rtltrace_init cf = \<lparr>rl_armed = (rl_startpc cf = 0), rl_lines = []\<rparr>"

section \<open>SPINDBG and the calibration probe\<close>

definition spin_rd :: "mem \<Rightarrow> u32 \<Rightarrow> u32" where
  "spin_rd gm va = (let (off, bad) = fpga_map (kseg_phys va) in if bad then 0xbadf00d else be32 gm (unat off))"

text \<open>The count of polls, and the line at every 16384th.\<close>

definition spin_cycle :: "mem \<Rightarrow> (nat \<Rightarrow> u64) \<Rightarrow> nat \<Rightarrow> retire_ports \<Rightarrow> nat \<Rightarrow> nat \<times> (nat \<times> u32 list) option" where
  "spin_cycle gm g_rf cyc p sn =
     (if rs_valid (slot0 p) \<and> (ucast (rs_pc (slot0 p)) :: u32) = 0x880e1b40 then
        (let a2 = ucast (g_rf 6)
         in (sn + 1, if sn mod 16384 = 0 then Some (cyc, [a2, spin_rd gm a2, spin_rd gm (a2 + 16), spin_rd gm (a2 + 128),
               ucast (g_rf 28), ucast (g_rf 31)]) else None))
      else (sn, None))"

definition calib_cycle :: "nat \<Rightarrow> retire_ports \<Rightarrow> (nat \<times> nat \<times> u8 \<times> u32) list" where
  "calib_cycle cyc p = concat (map (\<lambda>(k, s). if rs_valid s \<and> (ucast (rs_pc s) :: u32) = 0x88019648
     then [(k, cyc, rs_reg_ptr s, ucast (rs_reg_data s))] else []) [(0, slot0 p), (1, slot1 p)])"

section \<open>The GO_DEBUG build\<close>

text \<open>The committed registers with their last writers, and the ring of retirements.\<close>

record go_probe =
  go_gpr :: "nat \<Rightarrow> u64"
  go_gpr_pc :: "nat \<Rightarrow> u64"
  go_ring :: "nat \<Rightarrow> u64 \<times> int \<times> u64"
  go_ri :: nat
  go_fault_seen :: bool
  go_dumps :: "(nat \<times> u64 \<times> (u64 \<times> u64) list \<times> (u64 \<times> int \<times> u64) list) list"

definition go_init :: go_probe where
  "go_init = \<lparr>go_gpr = (\<lambda>_. 0), go_gpr_pc = (\<lambda>_. 0), go_ring = (\<lambda>_. (0, 0, 0)), go_ri = 0, go_fault_seen = False, go_dumps = []\<rparr>"

definition go_write :: "retire_slot \<Rightarrow> go_probe \<Rightarrow> go_probe" where
  "go_write s t = (if rs_valid s \<and> rs_reg_valid s then
     t\<lparr>go_gpr := (go_gpr t)(unat (rs_reg_ptr s) := rs_reg_data s), go_gpr_pc := (go_gpr_pc t)(unat (rs_reg_ptr s) := rs_pc s)\<rparr> else t)"

definition go_entry :: "retire_slot \<Rightarrow> u64 \<times> int \<times> u64" where
  "go_entry s = (rs_pc s, if rs_reg_valid s then int (unat (rs_reg_ptr s)) else - 1, rs_reg_data s)"

definition go_push :: "u64 \<times> int \<times> u64 \<Rightarrow> go_probe \<Rightarrow> go_probe" where
  "go_push e t = t\<lparr>go_ring := (go_ring t)(go_ri t mod 256 := e), go_ri := go_ri t + 1\<rparr>"

definition go_hit :: "retire_ports \<Rightarrow> bool" where
  "go_hit p \<longleftrightarrow> p_epc p AND 0xffffffffff = 0x120024dd0 \<and> p_cause p = 3 \<and> p_badvaddr p \<le> 0x1000"

text \<open>The last 200 entries, oldest first; an entry with pc 0 is skipped.  \<^verbatim>\<open>(g_ri - k) & 255\<close>.\<close>

definition go_recent :: "go_probe \<Rightarrow> (u64 \<times> int \<times> u64) list" where
  "go_recent t = filter (\<lambda>e. fst e \<noteq> 0) (map (\<lambda>k. go_ring t ((go_ri t + 256 - k) mod 256)) (rev [1..<201]))"

definition go_cycle :: "nat \<Rightarrow> retire_ports \<Rightarrow> go_probe \<Rightarrow> go_probe" where
  "go_cycle cyc p t =
     (let t = go_write (slot1 p) (go_write (slot0 p) t);
          t = fold go_push (map go_entry (retired_slots p)) t;
          t = (if go_hit p \<and> \<not> go_fault_seen t
               then t\<lparr>go_dumps := go_dumps t @ [(cyc, p_badvaddr p, map (\<lambda>r. (go_gpr t r, go_gpr_pc t r)) [0..<32], go_recent t)]\<rparr> else t)
      in t\<lparr>go_fault_seen := go_hit p\<rparr>)"

text \<open>The a0 trace, by pc and by cycle window.\<close>

datatype a0_line = Go_line nat nat u32 bool u8 u64 | A0_line nat nat u64 u64 | Irq_line nat u64 u8 u32 u64 | Rt_line nat nat u32 bool u8 u64

definition near_crash :: "u32 \<Rightarrow> bool" where
  "near_crash a \<longleftrightarrow> a = 0x880119e0 \<or> (a \<ge> 0x20001460 \<and> a \<le> 0x20001494)"

definition a0_near :: "nat \<Rightarrow> retire_ports \<Rightarrow> nat \<Rightarrow> nat \<times> a0_line list" where
  "a0_near cyc p go_lines =
     (let near = (\<lambda>s. near_crash (ucast (rs_pc s)))
      in if go_lines < 4000 \<and> (near (slot0 p) \<or> near (slot1 p)) then
           (go_lines + 1, concat (map (\<lambda>(k, s). if rs_valid s \<and> near s
              then [Go_line cyc k (ucast (rs_pc s)) (rs_reg_valid s) (rs_reg_ptr s) (rs_reg_data s)] else []) [(0, slot0 p), (1, slot1 p)]))
         else (go_lines, []))"

definition a0_window :: "nat \<Rightarrow> u32 \<Rightarrow> retire_ports \<Rightarrow> a0_line list" where
  "a0_window cyc status_reg p =
     (if cyc > 21073000 \<and> cyc < 21130000 then
        concat (map (\<lambda>(k, s). if rs_valid s \<and> rs_reg_valid s \<and> rs_reg_ptr s = 4
          then [A0_line cyc k (rs_pc s) (rs_reg_data s)] else []) [(0, slot0 p), (1, slot1 p)]) @
        (if took_irq p then [Irq_line cyc (p_epc p) (p_cause p) status_reg (p_badvaddr p)] else []) @
        concat (map (\<lambda>(k, s). if rs_valid s
          then [Rt_line cyc k (ucast (rs_pc s)) (rs_reg_valid s) (rs_reg_ptr s) (rs_reg_data s)] else []) [(0, slot0 p), (1, slot1 p)])
      else [])"

definition a0_cycle :: "nat \<Rightarrow> u32 \<Rightarrow> retire_ports \<Rightarrow> nat \<Rightarrow> nat \<times> a0_line list" where
  "a0_cycle cyc status_reg p go_lines = (let (n, ls) = a0_near cyc p go_lines in (n, ls @ a0_window cyc status_reg p))"

text \<open>The DPI probes: a write of the register file, and what the DRAM holds at a physical address.\<close>

definition dpi_a0_probe :: "nat \<Rightarrow> u32 \<Rightarrow> nat \<Rightarrow> u32 \<Rightarrow> u64 \<Rightarrow> (nat \<times> u32 \<times> string \<times> u32 \<times> u64) option" where
  "dpi_a0_probe g_probe_cyc vpc kind phys val =
     (if kind = 2 \<and> \<not> (g_probe_cyc \<ge> 21123000 \<and> g_probe_cyc \<le> 21124300) then None
      else Some (g_probe_cyc, vpc,
        (if kind = 1 then ''STORE-srcA(Ps)'' else if kind = 0 then ''LOAD-dst(Pd)  '' else ''PRF-WB        ''), phys, val))"

datatype mem_line = Save_store nat u64 u32 u64 u64 bool | Restore_load nat u64 u32 u64 bool

definition dpi_mem_at :: "mem \<Rightarrow> nat \<Rightarrow> u64 \<Rightarrow> u64 \<Rightarrow> u64 \<Rightarrow> bool \<Rightarrow> mem_line" where
  "dpi_mem_at gm g_probe_cyc vaddr pa stdata is_store =
     (let phys = ucast (pa AND 0x1fffffff);
          (off, bad) = (if FPGA_ADDRESS_MAP then fpga_map phys else (phys AND ucast MEM_MASK, False));
          v = (if \<not> bad \<and> unat off + 8 \<le> MEM_SIZE then fold (\<lambda>i v. push_bit 8 v OR ucast (gm (unat off + i))) [0..<8] 0 else 0)
      in if is_store then Save_store g_probe_cyc vaddr phys stdata v bad else Restore_load g_probe_cyc vaddr phys v bad)"

section \<open>Messages of the save, the periodic status and the final report\<close>

definition save_wait :: "u64 \<Rightarrow> u64 \<Rightarrow> bool \<Rightarrow> u64 \<Rightarrow> u64 \<times> bool" where
  "save_wait save_at ret armed warn_at =
     (if save_at \<noteq> 0 \<and> ret \<ge> save_at \<and> \<not> armed \<and> ret > save_at + 5000000 \<and> ret \<ge> warn_at
      then (ret + 5000000, True) else (warn_at, False))"

definition status_due :: "nat \<Rightarrow> bool" where
  "status_due cyc \<longleftrightarrow> cyc \<noteq> 0 \<and> cyc mod 2 ^ 24 = 0"

definition usret_mark :: "string \<Rightarrow> nat \<Rightarrow> usret_log \<Rightarrow> (string \<times> nat \<times> nat) option" where
  "usret_mark why cyc u = map_option (\<lambda>_. (why, g_usr_n u, cyc)) (g_usr_fp u)"

record xf_report =
  xr_edges :: nat
  xr_done :: nat
  xr_min :: u64
  xr_avg :: u64
  xr_max :: u64
  xr_running :: "nat option"
  xr_dirty :: "u32 option"

definition extflush_report :: "xf_cfg \<Rightarrow> u32 \<Rightarrow> xf \<Rightarrow> xf_report option" where
  "extflush_report cf stat x = (if extflush_period cf = 0 then None else
     Some \<lparr>xr_edges = xf_edges x, xr_done = xf_done x, xr_min = (if xf_done x \<noteq> 0 then xf_min x else 0),
       xr_avg = (if xf_done x \<noteq> 0 then xf_sum x div of_nat (xf_done x) else 0), xr_max = xf_max x,
       xr_running = (if xf_busy_since x \<noteq> 0 then Some (xf_busy_since x) else None),
       xr_dirty = (if xfpg_n cf \<noteq> 0 then Some (drop_bit 2 stat AND 0x3fff) else None)\<rparr>)"

section \<open>What the text trace holds\<close>

definition rtl_from :: "rtl_cfg \<Rightarrow> retire_ports list \<Rightarrow> retire_ports list" where
  "rtl_from cf ps = (if rl_startpc cf = 0 then ps
     else dropWhile (\<lambda>p. \<not> (rs_valid (slot0 p) \<and> ucast (rs_pc (slot0 p)) = rl_startpc cf)) ps)"

definition rtl_stream :: "rtl_cfg \<Rightarrow> retire_ports list \<Rightarrow> (u32 \<times> int \<times> u64) list" where
  "rtl_stream cf ps = map rtl_line (filter (\<lambda>s. \<not> rtl_skips cf (ucast (rs_pc s))) (concat (map retired_slots ps)))"

lemma rtltrace_armed_cycle:
  assumes "rl_armed t" "length (rl_lines t) \<le> rl_cap cf"
  shows "rl_armed (rtltrace_cycle cf p t) \<and> rl_lines (rtltrace_cycle cf p t) = take (rl_cap cf) (rl_lines t @ rtl_stream cf [p])"
proof -
  obtain d where d: "rl_cap cf = length (rl_lines t) + d" using assms(2) le_Suc_ex by blast
  consider "d = 0" | "d = 1" | e where "d = Suc (Suc e)" by (metis One_nat_def nat.exhaust)
  then show ?thesis
    by cases (use assms(1) in \<open>auto simp: d rtltrace_cycle_def rtl_slot0_def rtl_slot1_def rtl_emit1_def rtl_stream_def retired_slots_def Let_def\<close>)
qed

lemma take_take_append: "take n (take n xs @ ys) = take n (xs @ ys)"
  by (cases "length xs \<le> n") simp_all

lemma rtltrace_armed:
  assumes "rl_armed t" "length (rl_lines t) \<le> rl_cap cf"
  shows "rl_lines (fold (rtltrace_cycle cf) ps t) = take (rl_cap cf) (rl_lines t @ rtl_stream cf ps)"
  using assms
proof (induction ps arbitrary: t)
  case (Cons p ps)
  note c = rtltrace_armed_cycle [OF Cons.prems, of p]
  have "rtl_stream cf (p # ps) = rtl_stream cf [p] @ rtl_stream cf ps" by (simp add: rtl_stream_def)
  then show ?case using Cons.IH [of "rtltrace_cycle cf p t"] c using take_take_append [of "rl_cap cf" "rl_lines t @ rtl_stream cf [p]" "rtl_stream cf ps"] by (simp del: take_append)
qed (simp add: rtl_stream_def)

lemma rtltrace_waits:
  assumes "\<not> rl_armed t" "\<not> (rs_valid (slot0 p) \<and> ucast (rs_pc (slot0 p)) = rl_startpc cf)"
  shows "rtltrace_cycle cf p t = t"
  using assms by (auto simp: rtltrace_cycle_def rtl_slot0_def rtl_slot1_def Let_def)

lemma rtltrace_arms:
  assumes "\<not> rl_armed t" "rs_valid (slot0 p)" "ucast (rs_pc (slot0 p)) = rl_startpc cf" "rl_lines t = []"
  shows "rl_lines (fold (rtltrace_cycle cf) (p # ps) t) = take (rl_cap cf) (rtl_stream cf (p # ps))"
proof (cases "rl_cap cf = 0")
  case True
  have "rl_lines (fold (rtltrace_cycle cf) qs u) = rl_lines u" for qs u
    by (induction qs arbitrary: u) (simp_all add: rtltrace_cycle_def True)
  from this [of "p # ps" t] show ?thesis using assms(4) True by (simp only: take_0)
next
  case False
  have "rtltrace_cycle cf p t = rtltrace_cycle cf p (t\<lparr>rl_armed := True\<rparr>)"
    using assms False by (simp add: rtltrace_cycle_def rtl_slot0_def)
  then show ?thesis using rtltrace_armed [of "t\<lparr>rl_armed := True\<rparr>" cf "p # ps"] assms(4) by simp
qed

text \<open>
  The text trace is the retired instructions from the first cycle whose older slot retires the
  start address on (or from the beginning, with none given), both slots in program order,
  without the filtered ones, and cut at the limit.
\<close>

theorem rtltrace_exact:
  "rl_lines (fold (rtltrace_cycle cf) ps (rtltrace_init cf)) = take (rl_cap cf) (rtl_stream cf (rtl_from cf ps))"
proof (cases "rl_startpc cf = 0")
  case True
  then show ?thesis using rtltrace_armed [of "rtltrace_init cf" cf ps] by (simp add: rtl_from_def rtltrace_init_def)
next
  case False
  have "rl_lines (fold (rtltrace_cycle cf) ps t) = take (rl_cap cf) (rtl_stream cf (rtl_from cf ps))"
    if "\<not> rl_armed t" "rl_lines t = []" for t
    using that
  proof (induction ps arbitrary: t)
    case (Cons p ps)
    show ?case
    proof (cases "rs_valid (slot0 p) \<and> ucast (rs_pc (slot0 p)) = rl_startpc cf")
      case True
      then show ?thesis using rtltrace_arms [OF Cons.prems(1) _ _ Cons.prems(2)] False by (simp add: rtl_from_def del: fold_simps)
    next
      case not: False
      then show ?thesis using Cons rtltrace_waits [OF Cons.prems(1) not] False by (simp add: rtl_from_def)
    qed
  qed (simp add: rtl_from_def rtl_stream_def)
  then show ?thesis using False by (simp add: rtltrace_init_def)
qed

text \<open>A start address that only ever retires in the younger slot never starts the trace.\<close>

lemma rtltrace_misses_slot1:
  assumes "rl_startpc cf \<noteq> 0" "list_all (\<lambda>p. \<not> (rs_valid (slot0 p) \<and> ucast (rs_pc (slot0 p)) = rl_startpc cf)) ps"
  shows "rl_lines (fold (rtltrace_cycle cf) ps (rtltrace_init cf)) = []"
proof -
  have "fold (rtltrace_cycle cf) ps t = t" if "\<not> rl_armed t" for t
    using assms(2) that by (induction ps arbitrary: t) (simp_all add: rtltrace_waits)
  then show ?thesis using assms(1) by (simp add: rtltrace_init_def)
qed

section \<open>The statistics of the external flush\<close>

fun xf_counts :: "u32 \<Rightarrow> (nat \<times> u32 \<times> u32) list \<Rightarrow> u64 list \<times> u32" where
  "xf_counts prev [] = ([], prev)"
| "xf_counts prev ((cyc, stat, cycles) # obs) =
     (if drop_bit 16 stat \<noteq> prev then (let (cs, l) = xf_counts (drop_bit 16 stat) obs in (ucast (cycles AND 0x7fffffff) # cs, l))
      else xf_counts prev obs)"

definition xf_stats :: "xf \<Rightarrow> u64 list \<Rightarrow> bool" where
  "xf_stats x cs \<longleftrightarrow> xf_done x = length cs \<and> xf_sum x = sum_list cs \<and> xf_min x = foldl min (- 1) cs \<and> xf_max x = foldl max 0 cs"

definition xf_run :: "xf_cfg \<Rightarrow> (nat \<times> u32 \<times> u32) list \<Rightarrow> xf \<times> xf_ports \<Rightarrow> xf \<times> xf_ports" where
  "xf_run cf obs s = fold (\<lambda>(cyc, stat, cycles). extflush_cycle cf cyc stat cycles) obs s"

lemma xf_stats_frame:
  "xf_stats (fst (xf_edge cf cyc s)) cs = xf_stats (fst s) cs" "xf_stats (fst (xf_pages cf cyc busy s)) cs = xf_stats (fst s) cs"
  "xf_prev_cnt (fst (xf_edge cf cyc s)) = xf_prev_cnt (fst s)" "xf_prev_cnt (fst (xf_pages cf cyc busy s)) = xf_prev_cnt (fst s)"
  by (auto simp: xf_edge_def xf_pages_def xf_stats_def Let_def split: prod.splits if_splits)

lemma xf_account_stats:
  assumes "xf_stats x cs"
  shows "xf_stats (xf_account cyc busy n c x) (cs @ (if n \<noteq> xf_prev_cnt x then [ucast (c AND 0x7fffffff)] else [])) \<and>
    xf_prev_cnt (xf_account cyc busy n c x) = n"
  using assms by (simp add: xf_account_def xf_stats_def Let_def)

lemma xf_run_stats:
  assumes "extflush_period cf \<noteq> 0" "xf_stats (fst s) cs"
  shows "xf_stats (fst (xf_run cf obs s)) (cs @ fst (xf_counts (xf_prev_cnt (fst s)) obs))"
  using assms(2)
proof (induction obs arbitrary: s cs)
  case (Cons ob obs)
  obtain cyc stat cycles where ob: "ob = (cyc, stat, cycles)" by (metis prod_cases3)
  define u where "u = (if xfpg_n cf = 0 then xf_edge cf cyc s else xf_pages cf cyc (bit stat 0) s)"
  have u: "xf_stats (fst u) cs" "xf_prev_cnt (fst u) = xf_prev_cnt (fst s)" using Cons.prems by (simp_all add: u_def xf_stats_frame)
  define v where "v = (xf_account cyc (bit stat 0) (drop_bit 16 stat) cycles (fst u), snd u)"
  have e: "extflush_cycle cf cyc stat cycles s = v" using assms(1) by (simp add: extflush_cycle_def u_def v_def Let_def)
  note a = xf_account_stats [OF u(1), of cyc "bit stat 0" "drop_bit 16 stat" cycles]
  have "xf_run cf (ob # obs) s = xf_run cf obs v" by (simp add: xf_run_def ob e)
  then show ?case using Cons.IH [of v "cs @ (if drop_bit 16 stat \<noteq> xf_prev_cnt (fst u) then [ucast (cycles AND 0x7fffffff)] else [])"] a u(2)
    by (auto simp: ob v_def Let_def split: prod.splits if_splits)
qed (simp add: xf_run_def)

lemma foldl_min_Min: "cs \<noteq> [] \<Longrightarrow> foldl min (- 1) cs = Min (set (cs :: u64 list))"
proof (induction cs rule: rev_induct)
  case (snoc c cs)
  have "min (- 1) c = (c :: u64)" by (simp add: min_def word_order.extremum_unique)
  then show ?case using snoc by (cases "cs = []") (simp_all add: min.commute)
qed simp

lemma foldl_max_Max: "cs \<noteq> [] \<Longrightarrow> foldl max 0 cs = Max (set (cs :: u64 list))"
proof (induction cs rule: rev_induct)
  case (snoc c cs)
  then show ?case by (cases "cs = []") (simp_all add: max.commute)
qed simp

lemma xf_counts_small: "list_all (\<lambda>c. unat c < 2 ^ 31) (fst (xf_counts prev obs))"
proof (induction prev obs rule: xf_counts.induct)
  case (2 prev cyc stat cycles obs)
  have "unat (cycles AND 0x7fffffff) \<le> unat (0x7fffffff :: u32)" unfolding word_le_nat_alt [symmetric] by (rule word_and_le1)
  then have "unat (ucast (cycles AND 0x7fffffff) :: u64) < 2 ^ 31" by (simp add: unsigned_ucast_eq take_bit_nat_eq_self)
  then show ?case using 2 by (auto simp: Let_def split: prod.splits)
qed simp

lemma unat_sum_list:
  assumes "list_all (\<lambda>c. unat c < 2 ^ 31) cs" "length cs < 2 ^ 32"
  shows "unat (sum_list cs :: u64) = sum_list (map unat cs)"
proof -
  have "unat (sum_list cs) = sum_list (map unat cs) \<and> sum_list (map unat cs) \<le> length cs * 2 ^ 31" using assms
  proof (induction cs)
    case (Cons c cs)
    have "length cs * 2 ^ 31 \<le> 2 ^ 32 * (2 ^ 31 :: nat)" using Cons.prems(2) by (intro mult_right_mono) simp_all
    then have "unat c + sum_list (map unat cs) < 2 ^ 64" using Cons by simp
    then show ?case using Cons by (simp add: unat_word_ariths)
  qed simp
  then show ?thesis ..
qed

text \<open>
  The final report on external flushes tells what happened: the number of completed flushes is
  the number of changes of the completion counter, and the minimum, average and maximum it
  prints are those of the cycle counts read at these changes, in any run of fewer than \<open>2 ^ 32\<close>
  flushes, whatever the requests in between.
\<close>

theorem extflush_report_exact:
  assumes "extflush_period cf \<noteq> 0" "length (fst (xf_counts 0 obs)) < 2 ^ 32" "fst (xf_counts 0 obs) \<noteq> []"
  defines "cs \<equiv> fst (xf_counts 0 obs)"
  shows "\<exists>r. extflush_report cf stat (fst (xf_run cf obs (xf_init, q))) = Some r \<and> xr_done r = length cs \<and>
    xr_min r = Min (set cs) \<and> xr_max r = Max (set cs) \<and> unat (xr_avg r) = sum_list (map unat cs) div length cs"
proof -
  let ?x = "fst (xf_run cf obs (xf_init, q))"
  have "xf_stats (fst (xf_init, q)) []" by (simp add: xf_init_def xf_stats_def)
  from xf_run_stats [OF assms(1) this, of obs] have st: "xf_stats ?x cs" by (simp add: cs_def xf_init_def)
  have n: "unat (of_nat (length cs) :: u64) = length cs" using assms(2) by (simp add: cs_def unat_of_nat)
  have s: "unat (xf_sum ?x) = sum_list (map unat cs)"
    using st unat_sum_list [OF xf_counts_small, of 0 obs] assms(2) by (simp add: xf_stats_def cs_def)
  show ?thesis using st assms(1,3) foldl_min_Min [of cs] foldl_max_Max [of cs] n s
    by (simp add: extflush_report_def xf_stats_def cs_def [symmetric] unat_div)
qed

theorem extflush_report_exact_witness:
  "\<exists>r. extflush_report \<lparr>extflush_period = 100, xfpg_base = 0, xfpg_n = 0, xfpg_drop = 0\<rparr> 0
     (fst (xf_run \<lparr>extflush_period = 100, xfpg_base = 0, xfpg_n = 0, xfpg_drop = 0\<rparr> [(1, 0x10000, 5), (2, 0x10000, 5), (3, 0x20000, 8)]
        (xf_init, \<lparr>ext_flush_ctl = False, ext_pg_push = False, ext_pg_go = False, ext_pg_drop = False, ext_pg_ppn = 0\<rparr>))) = Some r \<and>
     xr_done r = 2 \<and> xr_min r = 5 \<and> xr_max r = 8 \<and> unat (xr_avg r) = 6"
proof -
  have c: "fst (xf_counts 0 [(1, 0x10000, 5), (2, 0x10000, 5), (3, 0x20000, 8)]) = [5, 8]" by simp
  show ?thesis
    using extflush_report_exact [of "\<lparr>extflush_period = 100, xfpg_base = 0, xfpg_n = 0, xfpg_drop = 0\<rparr>"
        "[(1, 0x10000, 5), (2, 0x10000, 5), (3, 0x20000, 8)]" 0
        "\<lparr>ext_flush_ctl = False, ext_pg_push = False, ext_pg_go = False, ext_pg_drop = False, ext_pg_ppn = 0\<rparr>"]
    unfolding c by (simp add: numeral_2_eq_2 [symmetric])
qed

section \<open>The register snapshot\<close>

definition go_slots :: "(nat \<times> retire_ports) list \<Rightarrow> retire_slot list" where
  "go_slots cs = concat (map (\<lambda>(_, p). retired_slots p) cs)"

definition last_write :: "nat \<Rightarrow> retire_slot list \<Rightarrow> u64 \<times> u64" where
  "last_write r sl = (case find (\<lambda>s. rs_reg_valid s \<and> unat (rs_reg_ptr s) = r) (rev sl) of
     Some s \<Rightarrow> (rs_reg_data s, rs_pc s) | None \<Rightarrow> (0, 0))"

definition go_contents :: "go_probe \<Rightarrow> (u64 \<times> int \<times> u64) list" where
  "go_contents t = circular 256 (go_ring t) (go_ri t)"

interpretation go_log: recent_log go_push go_contents 256 "\<lambda>_. True"
  by unfold_locales (simp_all add: go_contents_def go_push_def circular_push)

lemma last_n_last_n:
  assumes "m \<le> n"
  shows "last_n m (last_n n xs) = last_n m xs"
proof -
  have "length xs - (length xs - n + m) + (length xs - n) = length xs - m" using assms by arith
  then show ?thesis by (simp add: last_n_def)
qed

text \<open>Slots of the ring that were never written are empty.\<close>

definition go_fresh :: "go_probe \<Rightarrow> bool" where
  "go_fresh t \<longleftrightarrow> (\<forall>j. go_ri t \<le> j \<longrightarrow> j < 256 \<longrightarrow> fst (go_ring t j) = 0)"

lemma go_push_fresh: "go_fresh t \<Longrightarrow> go_fresh (go_push e t)"
  by (auto simp: go_fresh_def go_push_def)

lemma go_pushes_fresh: "go_fresh t \<Longrightarrow> go_fresh (fold go_push es t)"
  by (induction es arbitrary: t) (simp_all add: go_push_fresh)

lemma go_recent_last:
  assumes "go_fresh t"
  shows "go_recent t = filter (\<lambda>e. fst e \<noteq> 0) (last_n 200 (go_contents t))"
proof -
  let ?f = "\<lambda>j. go_ring t (j mod 256)" and ?i = "go_ri t"
  have "rev [1..<201] = map (\<lambda>j. 256 - j) [56..<256]" by (rule nth_equalityI) (simp_all add: rev_nth del: upt_rec_numeral)
  then have "map (\<lambda>k. go_ring t ((?i + 256 - k) mod 256)) (rev [1..<201]) = map (\<lambda>j. ?f (?i + j)) [56..<256]"
    by (auto simp del: upt_rec_numeral)
  also have "\<dots> = map ?f [?i + 56..<?i + 256]"
    using map_add_upt [of ?i 200] by (intro nth_equalityI) (simp_all add: add.assoc del: upt_rec_numeral)
  finally have r: "go_recent t = filter (\<lambda>e. fst e \<noteq> 0) (map ?f [?i + 56..<?i + 256])" by (simp only: go_recent_def)
  show ?thesis
  proof (cases "200 \<le> ?i")
    case True
    have "map ?f [?i + 56..<?i + 256] = map ?f [?i - 200..<?i]"
    proof (rule nth_equalityI)
      fix k assume "k < length (map ?f [?i + 56..<?i + 256])"
      then have "k < 200" by simp
      moreover have "?i + 56 + k = ?i - 200 + k + 256" using True by simp
      then have "(?i + 56 + k) mod 256 = (?i - 200 + k) mod 256" by (metis mod_add_self2)
      ultimately show "map ?f [?i + 56..<?i + 256] ! k = map ?f [?i - 200..<?i] ! k" using True by simp
    qed (use True in simp)
    moreover have "last_n 200 (go_contents t) = map ?f [?i - 200..<?i]"
      using True by (simp add: go_contents_def circular_def last_n_def drop_map)
    ultimately show ?thesis by (simp only: r)
  next
    case False
    have "[?i + 56..<?i + 256] = [?i + 56..<256] @ [256..<256 + ?i]" using False upt_add_eq_append [of "?i + 56" 256 ?i] by (simp add: add.commute)
    moreover have "filter (\<lambda>e. fst e \<noteq> 0) (map ?f [?i + 56..<256]) = []"
      using assms by (auto simp: filter_empty_conv go_fresh_def)
    moreover have "map ?f [256..<256 + ?i] = map ?f [0..<?i]" by (rule nth_equalityI) simp_all
    moreover have "last_n 200 (go_contents t) = map ?f [0..<?i]" using False by (simp add: go_contents_def circular_def last_n_def)
    ultimately show ?thesis by (simp only: r map_append filter_append append_Nil)
  qed
qed

lemma last_write_snoc: "last_write r (sl @ [s]) = (if rs_reg_valid s \<and> unat (rs_reg_ptr s) = r then (rs_reg_data s, rs_pc s) else last_write r sl)"
  by (simp add: last_write_def)

text \<open>What the probe knows after a run.\<close>

definition go_knows :: "(nat \<times> retire_ports) list \<Rightarrow> go_probe \<Rightarrow> bool" where
  "go_knows cs t \<longleftrightarrow> go_fresh t \<and> go_contents t = last_n 256 (map go_entry (go_slots cs)) \<and>
     (\<forall>r. (go_gpr t r, go_gpr_pc t r) = last_write r (go_slots cs)) \<and> go_fault_seen t = (cs \<noteq> [] \<and> go_hit (snd (last cs)))"

lemma go_knows_init: "go_knows [] go_init"
  by (simp add: go_knows_def go_init_def go_fresh_def go_contents_def circular_def go_slots_def last_write_def)

lemma go_pushes_frame [simp]:
  "go_gpr (fold go_push es t) = go_gpr t" "go_gpr_pc (fold go_push es t) = go_gpr_pc t"
  "go_fault_seen (fold go_push es t) = go_fault_seen t" "go_dumps (fold go_push es t) = go_dumps t"
  by (induction es arbitrary: t) (simp_all add: go_push_def)

lemma go_write_frame [simp]:
  "go_contents (go_write s t) = go_contents t" "go_fresh (go_write s t) = go_fresh t" "go_fault_seen (go_write s t) = go_fault_seen t"
  "go_dumps (go_write s t) = go_dumps t"
  by (simp_all add: go_write_def go_contents_def go_fresh_def)

lemma go_write_last:
  assumes "\<And>r. (go_gpr t r, go_gpr_pc t r) = last_write r sl"
  shows "(go_gpr (go_write s t) r, go_gpr_pc (go_write s t) r) = last_write r (sl @ filter rs_valid [s])"
  using assms [of r] by (auto simp: go_write_def last_write_snoc)

text \<open>The state after the recording part of a cycle, before a dump is decided.\<close>

definition go_record :: "retire_ports \<Rightarrow> go_probe \<Rightarrow> go_probe" where
  "go_record p t = fold go_push (map go_entry (retired_slots p)) (go_write (slot1 p) (go_write (slot0 p) t))"

lemma go_record_knows:
  assumes "go_knows cs t"
  shows "go_fresh (go_record p t)" "go_contents (go_record p t) = last_n 256 (map go_entry (go_slots (cs @ [(cyc, p)])))"
    "(go_gpr (go_record p t) r, go_gpr_pc (go_record p t) r) = last_write r (go_slots (cs @ [(cyc, p)]))"
    "go_fault_seen (go_record p t) = go_fault_seen t" "go_dumps (go_record p t) = go_dumps t"
proof -
  let ?t = "go_write (slot1 p) (go_write (slot0 p) t)"
  have k: "go_fresh t" "go_contents t = last_n 256 (map go_entry (go_slots cs))" "\<And>r. (go_gpr t r, go_gpr_pc t r) = last_write r (go_slots cs)"
    using assms by (simp_all add: go_knows_def)
  show "go_fresh (go_record p t)" using k(1) by (simp add: go_record_def go_pushes_fresh)
  have "last_n 256 (go_contents ?t) = go_contents ?t" using last_n_snoc [of 256 "map go_entry (go_slots cs)" "[]"] by (simp add: k(2))
  from go_log.contents_pushes [OF TrueI this] show "go_contents (go_record p t) = last_n 256 (map go_entry (go_slots (cs @ [(cyc, p)])))"
    unfolding go_record_def using last_n_snoc [of 256 "map go_entry (go_slots cs)"] by (simp add: k(2) go_slots_def)
  have "filter rs_valid [slot0 p] @ filter rs_valid [slot1 p] = retired_slots p" by (simp add: retired_slots_def)
  then show "(go_gpr (go_record p t) r, go_gpr_pc (go_record p t) r) = last_write r (go_slots (cs @ [(cyc, p)]))"
    unfolding go_record_def using go_write_last [OF go_write_last [OF k(3)], of "slot1 p" "slot0 p" r] by (simp add: go_slots_def)
qed (simp_all add: go_record_def)

lemma go_cycle_record:
  "go_cycle cyc p t = (let u = go_record p t
     in u\<lparr>go_dumps := go_dumps u @ (if go_hit p \<and> \<not> go_fault_seen u
            then [(cyc, p_badvaddr p, map (\<lambda>r. (go_gpr u r, go_gpr_pc u r)) [0..<32], go_recent u)] else []), go_fault_seen := go_hit p\<rparr>)"
  by (simp add: go_cycle_def go_record_def Let_def)

lemma go_cycle_knows: "go_knows cs t \<Longrightarrow> go_knows (cs @ [(cyc, p)]) (go_cycle cyc p t)"
  using go_record_knows(1) [of cs t p] go_record_knows(2) [of cs t p cyc] go_record_knows(3) [of cs t p _ cyc] go_record_knows(4,5) [of cs t p]
  by (simp add: go_knows_def go_cycle_record Let_def go_fresh_def go_contents_def)

definition go_run :: "(nat \<times> retire_ports) list \<Rightarrow> go_probe" where
  "go_run cs = fold (\<lambda>(cyc, p). go_cycle cyc p) cs go_init"

lemma go_run_knows: "go_knows cs (go_run cs)"
proof (induction cs rule: rev_induct)
  case (snoc c cs)
  then show ?case using go_cycle_knows [OF snoc] by (cases c) (simp add: go_run_def)
qed (simp add: go_run_def go_knows_init)

text \<open>
  The snapshot at a near-null store tells the truth: it is taken exactly at the first cycle of each
  stretch of cycles that show the fault, with each register's last retired value and its
  writer (0 for one never written) and the last 200 retirements, oldest first, without those at
  address 0.
\<close>

theorem go_snapshot_exact:
  "go_dumps (go_run (cs @ [(cyc, p)])) = go_dumps (go_run cs) @
     (if go_hit p \<and> \<not> (cs \<noteq> [] \<and> go_hit (snd (last cs)))
      then [(cyc, p_badvaddr p, map (\<lambda>r. last_write r (go_slots (cs @ [(cyc, p)]))) [0..<32],
             filter (\<lambda>e. fst e \<noteq> 0) (last_n 200 (map go_entry (go_slots (cs @ [(cyc, p)])))))] else [])"
proof -
  let ?t = "go_run cs" and ?sl = "map go_entry (go_slots (cs @ [(cyc, p)]))"
  note k = go_record_knows(1) [OF go_run_knows, of p cs] go_record_knows(2,3) [OF go_run_knows, where cyc = cyc and p = p and cs = cs]
    go_record_knows(4,5) [OF go_run_knows, of p cs]
  have rec: "go_recent (go_record p ?t) = filter (\<lambda>e. fst e \<noteq> 0) (last_n 200 ?sl)" by (simp add: go_recent_last [OF k(1)] k(2) last_n_last_n)
  have seen: "go_fault_seen ?t = (cs \<noteq> [] \<and> go_hit (snd (last cs)))" using go_run_knows [of cs] by (simp add: go_knows_def)
  have "go_run (cs @ [(cyc, p)]) = go_cycle cyc p ?t" by (simp add: go_run_def)
  then show ?thesis by (simp add: go_cycle_record Let_def rec k(3-5) seen del: upt_rec_numeral)
qed

end
