(* ===== verification/Options.thy ===== *)
theory Options
  imports Monitor Retire_Probes
begin

text \<open>
  The command line and the environment of the simulator (\<^verbatim>\<open>main\<close> of \<^verbatim>\<open>sim/henry_tb.cpp\<close>): the
  conversions of the C library it uses, the argument loop, and the trace settings read from
  the environment.  An argument vector is the list of its strings after the program name;
  \<open>env\<close> is \<^verbatim>\<open>getenv\<close>.
\<close>

section \<open>Numbers\<close>

text \<open>The digits of a base, and the value of a digit string.\<close>

definition is_oct :: "char \<Rightarrow> bool" where
  "is_oct c \<longleftrightarrow> (of_char c :: nat) \<in> {48..55}"

definition base_val :: "nat \<Rightarrow> string \<Rightarrow> nat" where
  "base_val b ds = foldl (\<lambda>v c. b * v + hex_val c) 0 ds"

text \<open>White space and a sign.\<close>

definition sign_of :: "string \<Rightarrow> bool \<times> string" where
  "sign_of p = (case dropWhile is_space p of
     [] \<Rightarrow> (False, [])
   | c # q \<Rightarrow> if c = CHR ''-'' then (True, q) else if c = CHR ''+'' then (False, q) else (False, c # q))"

text \<open>The prefix that chooses the base when it is given as 0: base, digits, rest.\<close>

definition base0 :: "string \<Rightarrow> nat \<times> string \<times> string" where
  "base0 p = (if strip_0x p \<noteq> p then (16, takeWhile is_hex (strip_0x p), dropWhile is_hex (strip_0x p))
     else if p \<noteq> [] \<and> hd p = CHR ''0'' then (8, takeWhile is_oct p, dropWhile is_oct p)
     else (10, takeWhile is_digit p, dropWhile is_digit p))"

text \<open>\<^verbatim>\<open>strtoull(p, 0, 0)\<close>: a value out of range saturates, a negative one is negated in 64 bits.\<close>

definition clamp_u64 :: "bool \<Rightarrow> nat \<Rightarrow> u64" where
  "clamp_u64 neg v = (if v \<ge> 2 ^ 64 then - 1 else if neg then - of_nat v else of_nat v)"

definition strtoull0 :: "string \<Rightarrow> u64" where
  "strtoull0 p = (let (neg, q) = sign_of p; (b, ds, r) = base0 q in clamp_u64 neg (base_val b ds))"

text \<open>
  \<^verbatim>\<open>sscanf(p, "%lli,%llu,%llu", ...)\<close> when all three conversions succeed: a signed number in any
  base (it saturates at the ends of the signed range), then two unsigned decimal ones.  \<open>0x\<close>
  with no digit is no number for a scan.
\<close>

definition clamp_i64 :: "bool \<Rightarrow> nat \<Rightarrow> u64" where
  "clamp_i64 neg v = (if neg then - of_nat (min v (2 ^ 63)) else of_nat (min v (2 ^ 63 - 1)))"

definition scan_lli :: "string \<Rightarrow> (u64 \<times> string) option" where
  "scan_lli p = (let (neg, q) = sign_of p; (b, ds, r) = base0 q
     in if ds = [] \<or> (ds = ''0'' \<and> r \<noteq> [] \<and> (hd r = CHR ''x'' \<or> hd r = CHR ''X'')) then None
        else Some (clamp_i64 neg (base_val b ds), r))"

definition scan_llu :: "string \<Rightarrow> (u64 \<times> string) option" where
  "scan_llu p = (let (neg, q) = sign_of p; ds = takeWhile is_digit q
     in if ds = [] then None else Some (clamp_u64 neg (base_val 10 ds), dropWhile is_digit q))"

definition scan_comma :: "string \<Rightarrow> string option" where
  "scan_comma p = (if p \<noteq> [] \<and> hd p = CHR '','' then Some (tl p) else None)"

definition scan_xfpages :: "string \<Rightarrow> (u64 \<times> u64 \<times> u64) option" where
  "scan_xfpages p = Option.bind (scan_lli p) (\<lambda>(x, p). Option.bind (scan_comma p) (\<lambda>p. Option.bind (scan_llu p) (\<lambda>(y, p).
     Option.bind (scan_comma p) (\<lambda>p. map_option (\<lambda>(z, _). (x, y, z)) (scan_llu p)))))"

section \<open>The argument loop\<close>

text \<open>The locals of \<^verbatim>\<open>main\<close> and the globals an argument sets; \<open>o_taps\<close> are the names given to \<^verbatim>\<open>open_tap\<close>.\<close>

record opts =
  o_kernel :: string
  o_arcs :: string
  o_prom :: string
  o_ckpt :: string
  o_cimg :: string
  o_iss_seed :: string
  o_disk :: string
  o_disk_rw :: bool
  o_max_cyc :: u64
  o_max_icnt :: u64
  o_start_pc :: u32
  o_dumps :: "u64 list"
  o_trace :: string
  o_rx :: string
  o_arcs_addr :: u64
  o_extflush :: u64
  o_xfpg :: "u64 \<times> u64 \<times> u64"
  o_save_at :: u64
  o_save_file :: string
  o_restore :: string
  o_taps :: "string list"
  o_verify :: "string option"
  o_checker :: bool

definition opts0 :: opts where
  "opts0 = \<lparr>o_kernel = [], o_arcs = [], o_prom = [], o_ckpt = [], o_cimg = [], o_iss_seed = [], o_disk = [], o_disk_rw = False,
     o_max_cyc = 120000000, o_max_icnt = 0, o_start_pc = 0, o_dumps = [], o_trace = [], o_rx = [], o_arcs_addr = 0x1fc00000,
     o_extflush = 0, o_xfpg = (0, 0, 0), o_save_at = 0, o_save_file = [], o_restore = [], o_taps = [], o_verify = None,
     o_checker = False\<rparr>"

text \<open>The options that take a value; \<open>None\<close> in the inner option is the return of 1.\<close>

definition value_option :: "string \<Rightarrow> (string \<Rightarrow> opts \<Rightarrow> opts option) option" where
  "value_option a =
     (if a = ''--kernel'' then Some (\<lambda>v c. Some (c\<lparr>o_kernel := v\<rparr>))
      else if a = ''--arcs'' then Some (\<lambda>v c. Some (c\<lparr>o_arcs := v\<rparr>))
      else if a = ''--prom'' then Some (\<lambda>v c. Some (c\<lparr>o_prom := v\<rparr>))
      else if a = ''--arcs-addr'' then Some (\<lambda>v c. Some (c\<lparr>o_arcs_addr := strtoull0 v\<rparr>))
      else if a = ''--maxcyc'' then Some (\<lambda>v c. Some (c\<lparr>o_max_cyc := strtoull0 v\<rparr>))
      else if a = ''--extflush'' then Some (\<lambda>v c. Some (c\<lparr>o_extflush := strtoull0 v\<rparr>))
      else if a = ''--xfpages'' then Some (\<lambda>v c. map_option (\<lambda>x. c\<lparr>o_xfpg := x\<rparr>) (scan_xfpages v))
      else if a = ''--maxicnt'' then Some (\<lambda>v c. Some (c\<lparr>o_max_icnt := strtoull0 v\<rparr>))
      else if a = ''--start-pc'' then Some (\<lambda>v c. Some (c\<lparr>o_start_pc := ucast (strtoull0 v)\<rparr>))
      else if a = ''--dump'' then Some (\<lambda>v c. Some (c\<lparr>o_dumps := o_dumps c @ [strtoull0 v]\<rparr>))
      else if a = ''--trace'' then Some (\<lambda>v c. Some (c\<lparr>o_trace := v\<rparr>))
      else if a = ''--rx'' then Some (\<lambda>v c. Some (c\<lparr>o_rx := v\<rparr>))
      else if a = ''--disk'' then Some (\<lambda>v c. Some (c\<lparr>o_disk := v\<rparr>))
      else if a = ''--save-at'' then Some (\<lambda>v c. Some (c\<lparr>o_save_at := strtoull0 v\<rparr>))
      else if a = ''--save-file'' then Some (\<lambda>v c. Some (c\<lparr>o_save_file := v\<rparr>))
      else if a = ''--restore'' then Some (\<lambda>v c. Some (c\<lparr>o_restore := v\<rparr>))
      else if a = ''--enet-tap'' then Some (\<lambda>v c. Some (c\<lparr>o_taps := o_taps c @ [v]\<rparr>))
      else if a = ''--checkpoint'' then Some (\<lambda>v c. Some (c\<lparr>o_ckpt := v\<rparr>))
      else if a = ''--cimg'' then Some (\<lambda>v c. Some (c\<lparr>o_cimg := v\<rparr>))
      else if a = ''--verify-ckpt'' then Some (\<lambda>v c. Some (c\<lparr>o_verify := Some v\<rparr>))
      else if a = ''--iss-seed'' then Some (\<lambda>v c. Some (c\<lparr>o_iss_seed := v\<rparr>))
      else None)"

text \<open>The flags; any other argument is skipped.\<close>

definition flag_option :: "string \<Rightarrow> opts \<Rightarrow> opts" where
  "flag_option a c = (if a = ''--disk-write'' then c\<lparr>o_disk_rw := True\<rparr>
     else if a = ''--checker'' then c\<lparr>o_checker := True\<rparr> else c)"

text \<open>The loop: an option that takes a value and is the last argument is skipped like an unknown one.\<close>

fun parse_args :: "string list \<Rightarrow> opts \<Rightarrow> opts option" where
  "parse_args [] c = Some c"
| "parse_args [a] c = Some (flag_option a c)"
| "parse_args (a # v # rest) c = (case value_option a of
     Some f \<Rightarrow> Option.bind (f v c) (parse_args rest)
   | None \<Rightarrow> parse_args (v # rest) (flag_option a c))"

definition usage_ok :: "opts \<Rightarrow> bool" where
  "usage_ok c \<longleftrightarrow> \<not> (o_kernel c = [] \<and> o_prom c = [] \<and> o_ckpt c = [] \<and> o_cimg c = [])"

section \<open>The environment\<close>

type_synonym env = "string \<Rightarrow> string option"

definition env_num :: "env \<Rightarrow> string \<Rightarrow> u64 \<Rightarrow> u64" where
  "env_num env k d = (case env k of None \<Rightarrow> d | Some v \<Rightarrow> strtoull0 v)"

text \<open>\<^verbatim>\<open>atoi\<close>: white space, sign, decimal digits; a saturated long cut to an int.\<close>

definition atoi_env :: "string \<Rightarrow> u32" where
  "atoi_env p = (let (neg, q) = sign_of p; v = base_val 10 (takeWhile is_digit q)
     in ucast (clamp_i64 neg v))"

text \<open>\<^verbatim>\<open>CTRACE\<close>: path, records to a chunk, level, raw sidecar.\<close>

definition ctrace_env :: "env \<Rightarrow> (string \<times> u32 \<times> u32 \<times> string option) option" where
  "ctrace_env env = map_option (\<lambda>p. (p, ucast (env_num env ''CTRACE_CHUNK'' 1000000),
     (case env ''CTRACE_LEVEL'' of None \<Rightarrow> 3 | Some v \<Rightarrow> atoi_env v), env ''CTRACE_RAW'')) (env ''CTRACE'')"

text \<open>\<^verbatim>\<open>RETIRETRACE\<close>: the retire trace's window, filters, limits and stop.\<close>

definition rt_env :: "env \<Rightarrow> rt_cfg" where
  "rt_env env = \<lparr>g_rt_lo = unat (env_num env ''RETIRETRACE_LO'' 0), g_rt_hi = unat (env_num env ''RETIRETRACE_HI'' 0),
     g_rt_cap = unat (env_num env ''RETIRETRACE_N'' 0), g_rt_ring = unat (env_num env ''RETIRETRACE_RING'' 0),
     g_rt_useronly = (env ''RETIRETRACE_USERONLY'' \<noteq> None), g_rt_trig_user = (env ''RETIRETRACE_TRIG_USER'' \<noteq> None),
     g_rt_stop_pc = ucast (env_num env ''RETIRETRACE_STOP'' 0)\<rparr>"

section \<open>Printed numbers are read back\<close>

lemma digit_char_facts:
  assumes "d < 16"
  shows "hex_val (digit_char d) = d" "is_hex (digit_char d)" "is_digit (digit_char d) \<longleftrightarrow> d < 10" "\<not> is_space (digit_char d)"
    "digit_char d \<noteq> CHR ''-''" "digit_char d \<noteq> CHR ''+''" "digit_char d = CHR ''0'' \<longleftrightarrow> d = 0"
proof -
  have "d \<in> {0, 1, 2, 3, 4, 5, 6, 7, 8, 9, 10, 11, 12, 13, 14, 15}" using assms by (simp add: less_Suc_eq eval_nat_numeral)
  then have "hex_val (digit_char d) = d \<and> is_hex (digit_char d) \<and> (is_digit (digit_char d) \<longleftrightarrow> d < 10) \<and> \<not> is_space (digit_char d) \<and>
    digit_char d \<noteq> CHR ''-'' \<and> digit_char d \<noteq> CHR ''+'' \<and> (digit_char d = CHR ''0'' \<longleftrightarrow> d = 0)"
    by (elim insertE emptyE) (simp_all add: digit_char_def hex_val_def is_hex_def is_digit_def is_space_def)
  then show "hex_val (digit_char d) = d" "is_hex (digit_char d)" "is_digit (digit_char d) \<longleftrightarrow> d < 10" "\<not> is_space (digit_char d)"
    "digit_char d \<noteq> CHR ''-''" "digit_char d \<noteq> CHR ''+''" "digit_char d = CHR ''0'' \<longleftrightarrow> d = 0" by blast+
qed

lemma base_val_snoc: "base_val b (ds @ [c]) = b * base_val b ds + hex_val c"
  by (simp add: base_val_def)

lemma base_val_Cons: "base_val b (c # ds) = hex_val c * b ^ length ds + base_val b ds"
proof (induction ds rule: rev_induct)
  case (snoc x ds)
  have "base_val b ((c # ds) @ [x]) = b * base_val b (c # ds) + hex_val x" by (rule base_val_snoc)
  then show ?case using snoc by (simp add: base_val_snoc algebra_simps)
qed (simp add: base_val_def)

lemma hex_Suc: "hex (Suc k) n = digit_char (n div 16 ^ k mod 16) # hex k n"
proof -
  have "[0..<Suc k] = 0 # map Suc [0..<k]" by (simp add: map_Suc_upt upt_conv_Cons del: upt_Suc)
  then show ?thesis by (simp add: hex_def comp_def del: upt_Suc)
qed

lemma length_hex [simp]: "length (hex k n) = k"
  by (simp add: hex_def)

lemma base_val_hex: "base_val 16 (hex k n) = n mod 16 ^ k"
proof (induction k)
  case (Suc k)
  have "n mod 16 ^ Suc k = n div 16 ^ k mod 16 * 16 ^ k + n mod 16 ^ k" using mod_mult2_eq [of n "16 ^ k" 16] by (simp add: mult.commute)
  then show ?case using Suc by (simp add: hex_Suc base_val_Cons digit_char_facts)
qed (simp add: hex_def base_val_def)

lemma hex_digits: "list_all is_hex (hex k n)"
  by (simp add: hex_def list_all_iff digit_char_facts)

lemma dec_digits: "list_all is_digit (dec n) \<and> base_val 10 (dec n) = n \<and> (hd (dec n) = CHR ''0'' \<longrightarrow> n = 0) \<and> dec n \<noteq> []"
proof (induction n rule: dec.induct)
  case (1 n)
  show ?case
  proof (cases "n < 10")
    case True
    then show ?thesis by (simp add: dec.simps [of n] digit_char_facts base_val_def)
  next
    case False
    then have "list_all is_digit (dec (n div 10)) \<and> base_val 10 (dec (n div 10)) = n div 10 \<and>
      (hd (dec (n div 10)) = CHR ''0'' \<longrightarrow> n div 10 = 0) \<and> dec (n div 10) \<noteq> []" using 1 by blast
    moreover have "n mod 10 < 16" by (rule less_trans [of _ 10]) simp_all
    moreover have "n div 10 \<noteq> 0" using False by (simp add: div_eq_0_iff)
    ultimately show ?thesis using False by (simp add: dec.simps [of n] digit_char_facts base_val_snoc)
  qed
qed

lemma takeWhile_all: "list_all P xs \<Longrightarrow> takeWhile P xs = xs \<and> dropWhile P xs = []"
  by (simp add: list_all_iff)

lemma sign_of_digit: "xs \<noteq> [] \<Longrightarrow> \<not> is_space (hd xs) \<Longrightarrow> hd xs \<noteq> CHR ''-'' \<Longrightarrow> hd xs \<noteq> CHR ''+'' \<Longrightarrow> sign_of xs = (False, xs)"
  by (cases xs) (simp_all add: sign_of_def)

lemma digit_plain: "is_digit c \<Longrightarrow> \<not> is_space c \<and> c \<noteq> CHR ''-'' \<and> c \<noteq> CHR ''+'' \<and> c \<noteq> CHR ''x'' \<and> c \<noteq> CHR ''X''"
  by (auto simp: is_digit_def is_space_def)

lemma strip_0x_dec: "list_all is_digit xs \<Longrightarrow> strip_0x xs = xs"
proof -
  assume d: "list_all is_digit xs"
  have "xs ! 1 \<noteq> CHR ''x'' \<and> xs ! 1 \<noteq> CHR ''X''" if "3 \<le> length xs"
    using d that digit_plain [of "xs ! 1"] by (simp add: list_all_length)
  then show ?thesis by (auto simp: strip_0x_def)
qed

lemma strtoull0_dec: "strtoull0 (dec n) = clamp_u64 False n"
proof -
  have d: "list_all is_digit (dec n)" "base_val 10 (dec n) = n" "hd (dec n) = CHR ''0'' \<longrightarrow> n = 0" "dec n \<noteq> []" using dec_digits by blast+
  have h: "is_digit (hd (dec n))" using d(1,4) by (cases "dec n") simp_all
  have s: "sign_of (dec n) = (False, dec n)" using sign_of_digit [OF d(4)] digit_plain [OF h] by blast
  show ?thesis
  proof (cases "n = 0")
    case True
    then show ?thesis by (simp add: dec.simps [of 0] digit_char_def strtoull0_def sign_of_def is_space_def base0_def strip_0x_def is_oct_def base_val_def hex_val_def is_digit_def)
  next
    case False
    then show ?thesis using d by (simp add: strtoull0_def s base0_def strip_0x_dec takeWhile_all)
  qed
qed

lemma strtoull0_hex:
  assumes "0 < k"
  shows "strtoull0 (''0x'' @ hex k n) = clamp_u64 False (n mod 16 ^ k)"
proof -
  obtain c cs where c: "hex k n = c # cs" using assms by (cases "hex k n") (simp_all flip: length_0_conv)
  then have h: "is_hex c" using hex_digits [of k n] by simp
  have x: "strip_0x (''0x'' @ hex k n) = hex k n" "hex k n \<noteq> ''0x'' @ hex k n" using h by (simp_all add: c strip_0x_def)
  have s: "sign_of (''0x'' @ hex k n) = (False, ''0x'' @ hex k n)" by (rule sign_of_digit) (simp_all add: is_space_def)
  show ?thesis unfolding strtoull0_def s Let_def prod.case base0_def x(1)
    using x(2) takeWhile_all [OF hex_digits [of k n]] by (simp only: base_val_hex if_True not_False_eq_True simp_thms fst_conv prod.case)
qed

text \<open>
  A number given to an option as the program prints it is read back: in decimal and in
  hexadecimal with its prefix every 64-bit value is itself, and a larger decimal is the
  largest 64-bit value.
\<close>

theorem strtoull0_roundtrip:
  "strtoull0 (dec (unat w)) = w \<and> strtoull0 (''0x'' @ hex 16 (unat w)) = w \<and> strtoull0 (dec (2 ^ 64 + n)) = - 1"
proof -
  have "unat w < 2 ^ LENGTH(64)" by (rule unsigned_less)
  then have "unat w < 18446744073709551616" by simp
  then show ?thesis using strtoull0_hex [of 16 "unat w"] by (simp add: strtoull0_dec clamp_u64_def)
qed

section \<open>The arguments in order\<close>

datatype arg_item = Val string string | Flag string

fun item_ok :: "arg_item \<Rightarrow> bool" where
  "item_ok (Val a v) \<longleftrightarrow> value_option a \<noteq> None"
| "item_ok (Flag a) \<longleftrightarrow> value_option a = None"

fun item_args :: "arg_item \<Rightarrow> string list" where
  "item_args (Val a v) = [a, v]"
| "item_args (Flag a) = [a]"

fun item_apply :: "opts \<Rightarrow> arg_item \<Rightarrow> opts option" where
  "item_apply c (Val a v) = (case value_option a of Some f \<Rightarrow> f v c | None \<Rightarrow> Some c)"
| "item_apply c (Flag a) = Some (flag_option a c)"

lemma flag_of_value: "value_option a \<noteq> None \<Longrightarrow> flag_option a c = c"
proof -
  have "value_option ''--disk-write'' = None" "value_option ''--checker'' = None" by (simp_all add: value_option_def)
  moreover assume "value_option a \<noteq> None"
  ultimately have "a \<noteq> ''--disk-write''" "a \<noteq> ''--checker''" by metis+
  then show ?thesis unfolding flag_option_def by (simp only: if_False)
qed

text \<open>
  C30.  The argument loop applies the arguments from left to right: for any sequence of options
  with values and single arguments, and possibly an option whose value is missing at the end,
  the result is what the items give one after the other, a value is never taken for an option,
  the unfinished option changes nothing, and an option that rejects its value ends the parse.
\<close>

theorem parse_args_exact:
  assumes "list_all item_ok is" "lst = [] \<or> (\<exists>a. lst = [a] \<and> value_option a \<noteq> None)"
  shows "parse_args (concat (map item_args is) @ lst) c = foldl (\<lambda>c i. Option.bind c (\<lambda>c. item_apply c i)) (Some c) is"
  using assms(1)
proof (induction "is" arbitrary: c)
  case Nil
  then show ?case using assms(2) by (auto simp: flag_of_value)
next
  case (Cons i "is")
  have none: "foldl (\<lambda>c i. Option.bind c (\<lambda>c. item_apply c i)) None js = None" for js by (induction js) simp_all
  show ?case
  proof (cases i)
    case (Val a v)
    then obtain f where f: "value_option a = Some f" using Cons.prems by auto
    show ?thesis
    proof (cases "f v c")
      case None
      then show ?thesis by (simp add: Val f none)
    next
      case (Some c')
      then show ?thesis using Cons by (simp add: Val f)
    qed
  next
    case (Flag a)
    then have a: "value_option a = None" using Cons.prems by simp
    have "parse_args (a # xs) c = parse_args xs (flag_option a c)" for xs by (cases xs) (simp_all add: a)
    then show ?thesis using Cons by (simp add: Flag)
  qed
qed

theorem parse_args_exact_witness:
  "parse_args [''--checker'', ''--maxcyc'', ''0x10'', ''--rx'', ''--checker'', ''--kernel''] opts0 =
     Some (opts0\<lparr>o_checker := True, o_max_cyc := 16, o_rx := ''--checker''\<rparr>)"
proof -
  have n: "strtoull0 ''0x10'' = 16"
    by (simp add: strtoull0_def sign_of_def is_space_def base0_def strip_0x_def is_hex_def is_digit_def base_val_def hex_val_def clamp_u64_def Let_def)
  have "parse_args (concat (map item_args [Flag ''--checker'', Val ''--maxcyc'' ''0x10'', Val ''--rx'' ''--checker'']) @ [''--kernel'']) opts0 =
    foldl (\<lambda>c i. Option.bind c (\<lambda>c. item_apply c i)) (Some opts0) [Flag ''--checker'', Val ''--maxcyc'' ''0x10'', Val ''--rx'' ''--checker'']"
    by (rule parse_args_exact) (simp_all add: value_option_def)
  then show ?thesis by (simp add: value_option_def flag_option_def n del: parse_args.simps)
qed

end
