(* ===== verification/Boot.thy ===== *)
theory Boot
  imports Image_Loader Options
begin

text \<open>
  From the options to a running core (\<^verbatim>\<open>main\<close> of \<^verbatim>\<open>sim/henry_tb.cpp\<close>): which image is booted, what
  it leaves in the two memories, the registers and the golden model, the resume address, and
  the reset and launch handshake.  The file system is a function from paths to contents
  (\<open>None\<close>: cannot be opened), and the pages of the golden model's memory are at \<open>rawp\<close>.
\<close>

section \<open>The boot paths\<close>

datatype boot_error = Usage | Load load_error | NeedsArcs

definition lift_load :: "load_error + 'a \<Rightarrow> boot_error + 'a" where
  "lift_load x = (case x of Inl e \<Rightarrow> Inl (Load e) | Inr a \<Rightarrow> Inr a)"

text \<open>\<open>b_ckpt\<close> is \<^verbatim>\<open>g_ckpt\<close> when \<^verbatim>\<open>g_have_ckpt\<close> is set, \<open>b_icnt\<close> its instruction count, which is also set without it.\<close>

record boot =
  b_mems :: mems
  b_entry :: u32
  b_kentry :: u32
  b_ckpt :: "cp_header option"
  b_icnt :: u64
  b_verify :: "(u64 \<times> u64) option"
  b_rf :: "nat \<Rightarrow> u64"
  b_iss :: "iss option"
  b_gate_pc :: u32
  b_active_gate :: bool

definition boot0 :: "opts \<Rightarrow> mem \<Rightarrow> iss \<Rightarrow> boot" where
  "boot0 c gmem iss0 = \<lparr>b_mems = \<lparr>dram = (\<lambda>_. 0), gold = (if o_checker c then Some gmem else None)\<rparr>, b_entry = 0, b_kentry = 0,
     b_ckpt = None, b_icnt = 0, b_verify = None, b_rf = (\<lambda>_. 0), b_iss = (if o_checker c then Some iss0 else None),
     b_gate_pc = 0, b_active_gate = True\<rparr>"

type_synonym files = "string \<Rightarrow> bytes option"

definition open_file :: "files \<Rightarrow> string \<Rightarrow> load_error + bytes" where
  "open_file fs p = (case fs p of None \<Rightarrow> Inl CannotOpen | Some f \<Rightarrow> Inr f)"

definition boot_verify :: "files \<Rightarrow> opts \<Rightarrow> boot \<Rightarrow> boot" where
  "boot_verify fs c b = b\<lparr>b_verify := Option.bind (o_verify c) (\<lambda>p. setup_verify (b_icnt b) (fs p))\<rparr>"

definition boot_checkpoint :: "(u64 \<Rightarrow> nat) \<Rightarrow> files \<Rightarrow> opts \<Rightarrow> boot \<Rightarrow> boot_error + boot" where
  "boot_checkpoint rawp fs c b = bind_sum (lift_load (load_checkpoint rawp (fs (o_ckpt c)) (b_mems b))) (\<lambda>(h, m).
     let b = b\<lparr>b_mems := m, b_ckpt := Some h, b_icnt := cp_icnt h, b_entry := ucast (cp_pc h), b_kentry := ucast (cp_pc h),
           b_rf := (\<lambda>i. if i < 32 then cp_gpr h ! i else b_rf b i), b_iss := map_option (seed_checker (Some h)) (b_iss b)\<rparr>
     in Inr (boot_verify fs c b))"

text \<open>
  The seed of the golden model beside a compact image.  \<^verbatim>\<open>fread\<close> fills \<^verbatim>\<open>g_ckpt\<close> as far as the file
  goes, before the header is checked; of it only the count is used when the check fails.
\<close>

definition icnt_after_read :: "bytes \<Rightarrow> u64 \<Rightarrow> u64" where
  "icnt_after_read f icnt = le_word (map (\<lambda>i. if 2484 + i < length f then f ! (2484 + i) else le_bytes 8 icnt ! i) [0..<8])"

definition iss_seed :: "files \<Rightarrow> opts \<Rightarrow> boot \<Rightarrow> boot" where
  "iss_seed fs c b =
     (if o_checker c \<and> o_iss_seed c \<noteq> [] then
        (case fs (o_iss_seed c) of None \<Rightarrow> b
         | Some f \<Rightarrow>
           (case rd_header f of
              None \<Rightarrow> b\<lparr>b_icnt := icnt_after_read f (b_icnt b)\<rparr>
            | Some (h, _) \<Rightarrow> b\<lparr>b_ckpt := Some h, b_icnt := cp_icnt h, b_iss := map_option (seed_checker (Some h)) (b_iss b),
                b_gate_pc := ucast (cp_pc h), b_active_gate := False\<rparr>))
      else b)"

definition boot_blob :: "(u64 \<Rightarrow> nat) \<Rightarrow> files \<Rightarrow> string \<Rightarrow> u64 \<Rightarrow> mems \<Rightarrow> boot_error + mems" where
  "boot_blob rawp fs p pa m = lift_load (bind_sum (open_file fs p) (\<lambda>f. load_blob rawp f pa m))"

definition boot_cimg :: "(u64 \<Rightarrow> nat) \<Rightarrow> files \<Rightarrow> opts \<Rightarrow> boot \<Rightarrow> boot_error + boot" where
  "boot_cimg rawp fs c b = bind_sum (lift_load (load_cimg rawp (fs (o_cimg c)) (b_mems b))) (\<lambda>(icnt, m, _).
     let b = iss_seed fs c (b\<lparr>b_mems := m, b_icnt := icnt\<rparr>);
         pc = (if o_start_pc c \<noteq> 0 then o_start_pc c else 0xbfc00000)
     in if o_arcs c = [] then Inl NeedsArcs
        else bind_sum (boot_blob rawp fs (o_arcs c) (o_arcs_addr c) (b_mems b)) (\<lambda>m.
          Inr (boot_verify fs c (b\<lparr>b_mems := m, b_entry := pc, b_kentry := pc\<rparr>))))"

definition boot_prom :: "(u64 \<Rightarrow> nat) \<Rightarrow> files \<Rightarrow> opts \<Rightarrow> boot \<Rightarrow> boot_error + boot" where
  "boot_prom rawp fs c b = bind_sum (boot_blob rawp fs (o_prom c) 0x1fc00000 (b_mems b)) (\<lambda>m.
     Inr (b\<lparr>b_mems := m\<lparr>dram := seed_bbram_mac (dram m)\<rparr>, b_entry := 0xbfc00000, b_kentry := 0xbfc00000\<rparr>))"

text \<open>The kernel-entry slot of the firmware, in both memories.\<close>

definition patch_kentry :: "(u64 \<Rightarrow> nat) \<Rightarrow> u32 \<Rightarrow> mems \<Rightarrow> mems" where
  "patch_kentry rawp kentry m = m\<lparr>dram := put_be32 (dram m) (ucast (fst (fpga_map 0x1fc00008))) kentry,
     gold := map_option (\<lambda>g. mem_copy g (rawp 0x1fc00008) (be32_bytes kentry)) (gold m)\<rparr>"

definition boot_arcs :: "(u64 \<Rightarrow> nat) \<Rightarrow> files \<Rightarrow> opts \<Rightarrow> u32 \<Rightarrow> mems \<Rightarrow> boot_error + u32 \<times> mems" where
  "boot_arcs rawp fs c kentry m =
     (if o_arcs c = [] then Inr (kentry, m)
      else bind_sum (boot_blob rawp fs (o_arcs c) (o_arcs_addr c) m) (\<lambda>m.
        let m = (if o_arcs_addr c = 0x1fc00000 then patch_kentry rawp kentry m else m)
        in if o_start_pc c \<noteq> 0 then Inr (o_start_pc c, m)
           else let (d, pc) = install_arcs_handoff kentry (dram m) in Inr (pc, m\<lparr>dram := d\<rparr>)))"

definition boot_kernel :: "(u64 \<Rightarrow> nat) \<Rightarrow> files \<Rightarrow> opts \<Rightarrow> boot \<Rightarrow> boot_error + boot" where
  "boot_kernel rawp fs c b =
     (let m = (b_mems b)\<lparr>dram := seed_bbram_mac (dram (b_mems b))\<rparr>
      in bind_sum (lift_load (bind_sum (open_file fs (o_kernel c)) (\<lambda>f. load_elf_be32 rawp f m))) (\<lambda>(kentry, m).
         bind_sum (boot_arcs rawp fs c kentry m) (\<lambda>(pc, m). Inr (b\<lparr>b_mems := m, b_entry := pc, b_kentry := kentry\<rparr>))))"

text \<open>The choice of the image, and the resume address; a fresh golden model starts there too.\<close>

definition boot_image :: "(u64 \<Rightarrow> nat) \<Rightarrow> files \<Rightarrow> opts \<Rightarrow> boot \<Rightarrow> boot_error + boot" where
  "boot_image rawp fs c b =
     (if o_ckpt c \<noteq> [] then boot_checkpoint rawp fs c b
      else if o_cimg c \<noteq> [] then boot_cimg rawp fs c b
      else if o_prom c \<noteq> [] then boot_prom rawp fs c b
      else boot_kernel rawp fs c b)"

definition resume_pc64 :: "opts \<Rightarrow> boot \<Rightarrow> u64" where
  "resume_pc64 c b = (if o_ckpt c = [] then scast (b_entry b)
     else ckpt_pc_sext (case b_ckpt b of None \<Rightarrow> 0 | Some h \<Rightarrow> cp_pc h))"

definition boot_main :: "(u64 \<Rightarrow> nat) \<Rightarrow> files \<Rightarrow> opts \<Rightarrow> mem \<Rightarrow> iss \<Rightarrow> boot_error + boot \<times> u64" where
  "boot_main rawp fs c gmem iss0 =
     (if \<not> usage_ok c then Inl Usage
      else bind_sum (boot_image rawp fs c (boot0 c gmem iss0)) (\<lambda>b.
        let pc64 = resume_pc64 c b
        in Inr (if o_ckpt c = [] then b\<lparr>b_iss := map_option (\<lambda>s. s\<lparr>iss.pc := pc64\<rparr>) (b_iss b)\<rparr> else b, pc64)))"

section \<open>The launch\<close>

text \<open>The pins the launch drives; the others keep their reset values.\<close>

record launch_in =
  l_reset :: bool
  l_resume :: bool
  l_resume_pc :: u64

record 'tb launch_ops =
  l_eval :: "bool \<Rightarrow> launch_in \<Rightarrow> 'tb \<Rightarrow> 'tb"
  ready_for_resume :: "'tb \<Rightarrow> bool"

definition l_tick :: "'tb launch_ops \<Rightarrow> launch_in \<Rightarrow> 'tb \<Rightarrow> 'tb" where
  "l_tick E i tb = l_eval E False i (l_eval E True i tb)"

text \<open>The wait for the core; a core that is never ready makes it run for ever.\<close>

partial_function (option) wait_ready :: "'tb launch_ops \<Rightarrow> launch_in \<Rightarrow> 'tb \<Rightarrow> 'tb option" where
  "wait_ready E i tb = (if ready_for_resume E tb then Some tb else wait_ready E i (l_tick E i tb))"

definition pulse :: "'tb launch_ops \<Rightarrow> u64 \<Rightarrow> 'tb \<Rightarrow> 'tb" where
  "pulse E pc64 tb = l_tick E \<lparr>l_reset = False, l_resume = False, l_resume_pc = pc64\<rparr>
     (l_tick E \<lparr>l_reset = False, l_resume = True, l_resume_pc = pc64\<rparr> tb)"

definition launch :: "'tb launch_ops \<Rightarrow> u64 \<Rightarrow> 'tb \<Rightarrow> 'tb option" where
  "launch E pc64 tb =
     (let tb = (l_tick E \<lparr>l_reset = True, l_resume = False, l_resume_pc = 0\<rparr> ^^ 4) tb;
          idle = \<lparr>l_reset = False, l_resume = False, l_resume_pc = pc64\<rparr>;
          tb = l_tick E idle tb
      in map_option (\<lambda>tb. pulse E pc64 (pulse E pc64 tb)) (wait_ready E idle tb))"

section \<open>The launch returns when the core gets ready\<close>

lemma wait_ready_first:
  assumes "ready_for_resume E ((l_tick E i ^^ n) tb)" "\<And>k. k < n \<Longrightarrow> \<not> ready_for_resume E ((l_tick E i ^^ k) tb)"
  shows "wait_ready E i tb = Some ((l_tick E i ^^ n) tb)"
  using assms
proof (induction n arbitrary: tb)
  case 0
  then show ?case by (simp add: wait_ready.simps)
next
  case (Suc n)
  have "\<not> ready_for_resume E tb" using Suc.prems(2) [of 0] by simp
  moreover have "wait_ready E i (l_tick E i tb) = Some ((l_tick E i ^^ n) (l_tick E i tb))"
  proof (rule Suc.IH)
    show "ready_for_resume E ((l_tick E i ^^ n) (l_tick E i tb))" using Suc.prems(1) by (simp only: funpow_Suc_right comp_apply)
    show "\<not> ready_for_resume E ((l_tick E i ^^ k) (l_tick E i tb))" if "k < n" for k
      using Suc.prems(2) [of "Suc k"] that by (simp only: funpow_Suc_right comp_apply Suc_less_eq not_False_eq_True)
  qed
  ultimately show ?case by (subst wait_ready.simps) (simp only: if_False funpow_Suc_right comp_apply)
qed

text \<open>The pin values of a launch whose wait takes \<open>n\<close> cycles.\<close>

definition launch_pins :: "u64 \<Rightarrow> nat \<Rightarrow> launch_in list" where
  "launch_pins pc64 n = replicate 4 \<lparr>l_reset = True, l_resume = False, l_resume_pc = 0\<rparr> @
     replicate (Suc n) \<lparr>l_reset = False, l_resume = False, l_resume_pc = pc64\<rparr> @
     concat (replicate 2 [\<lparr>l_reset = False, l_resume = True, l_resume_pc = pc64\<rparr>, \<lparr>l_reset = False, l_resume = False, l_resume_pc = pc64\<rparr>])"

lemma fold_replicate: "fold (l_tick E) (replicate n i) tb = (l_tick E i ^^ n) tb"
  by (induction n arbitrary: tb) (simp_all add: funpow_swap1)

text \<open>
  C16.  The launch reaches the running core: if the core raises its ready flag after \<open>n\<close> idle cycles
  from the release of reset, and not before, the launch returns, and the core has then seen exactly four
  cycles of reset, those idle cycles with the resume address on its pins, and two one-cycle
  resume pulses at that address.
\<close>

theorem launch_exact:
  fixes E :: "'tb launch_ops" and pc64 n tb
  defines "seen \<equiv> \<lambda>k. fold (l_tick E) (replicate 4 \<lparr>l_reset = True, l_resume = False, l_resume_pc = 0\<rparr> @
    replicate (Suc k) \<lparr>l_reset = False, l_resume = False, l_resume_pc = pc64\<rparr>) tb"
  assumes "ready_for_resume E (seen n)" "\<And>k. k < n \<Longrightarrow> \<not> ready_for_resume E (seen k)"
  shows "launch E pc64 tb = Some (fold (l_tick E) (launch_pins pc64 n) tb)"
proof -
  let ?r = "\<lparr>l_reset = True, l_resume = False, l_resume_pc = 0\<rparr>" and ?i = "\<lparr>l_reset = False, l_resume = False, l_resume_pc = pc64\<rparr>"
  define t where "t = l_tick E ?i ((l_tick E ?r ^^ 4) tb)"
  have s: "seen k = (l_tick E ?i ^^ k) t" for k
    unfolding seen_def t_def by (simp only: fold_append comp_apply fold_replicate funpow_Suc_right)
  have "wait_ready E ?i t = Some ((l_tick E ?i ^^ n) t)" using assms(2,3) unfolding s by (rule wait_ready_first)
  then have "launch E pc64 tb = Some (pulse E pc64 (pulse E pc64 (seen n)))" unfolding launch_def Let_def t_def [symmetric] s by simp
  then show ?thesis unfolding launch_pins_def seen_def pulse_def by (simp add: numeral_2_eq_2)
qed

text \<open>A core that counts its cycles out of reset and is ready after three.\<close>

definition count_core :: "nat launch_ops" where
  "count_core = \<lparr>l_eval = (\<lambda>clk i n. if clk then (if l_reset i then 0 else n + 1) else n), ready_for_resume = (\<lambda>n. n \<ge> 3)\<rparr>"

theorem launch_exact_witness: "launch count_core 0xffffffffbfc00000 7 = Some 7"
proof -
  have "launch count_core 0xffffffffbfc00000 7 = Some (fold (l_tick count_core) (launch_pins 0xffffffffbfc00000 2) 7)"
    by (rule launch_exact) (auto simp: count_core_def l_tick_def less_Suc_eq numeral_eq_Suc)
  then show ?thesis by (simp add: launch_pins_def count_core_def l_tick_def numeral_eq_Suc)
qed

section \<open>A kernel behind the firmware\<close>

lemma slot_offset: "fst (fpga_map 0x1fc00008) = 0x10c00008" "fst (fpga_map (sysmem_alias 0x1fc00000)) = 0x10c00000"
  "snd (fpga_map 0x1fc00008) = False"
  by (simp_all add: fpga_map_def sysmem_alias_def Let_def FPGA_ADDRMASK_def)

lemma lift_load_Inr: "lift_load x = Inr a \<longleftrightarrow> x = Inr a"
  by (cases x) (simp_all add: lift_load_def)

lemma load_blob_prom:
  assumes "load_blob rawp a 0x1fc00000 m = Inr m'"
  shows "dram m' = mem_copy (dram m) 0x10c00000 a" "gold m' = map_option (\<lambda>g. mem_copy g (rawp 0x1fc00000) a) (gold m)"
  using assms by (auto simp: load_blob_def slot_offset bind_sum_Inr copy_dram_def copy_gold_def split: if_splits)

lemma patch_kentry_dram: "dram (patch_kentry rawp k m) = mem_copy (dram m) 0x10c00008 (be32_bytes k)"
  by (simp add: patch_kentry_def slot_offset put_be32_def MEM_MASK_def)

text \<open>What such a boot leaves in the memories.\<close>

lemma fsbl_boot_memory:
  assumes "boot_main rawp fs c gmem iss0 = Inr (b, pc64)" "o_ckpt c = []" "o_cimg c = []" "o_prom c = []"
    and "fs (o_kernel c) = Some f" "o_arcs c \<noteq> []" "fs (o_arcs c) = Some a" "o_arcs_addr c = 0x1fc00000" "o_start_pc c \<noteq> 0"
  obtains m where "load_elf_be32 rawp f \<lparr>dram = seed_bbram_mac (\<lambda>_. 0), gold = if o_checker c then Some gmem else None\<rparr> = Inr (b_kentry b, m)"
    "dram (b_mems b) = mem_copy (mem_copy (dram m) 0x10c00000 a) 0x10c00008 (be32_bytes (b_kentry b))"
    "gold (b_mems b) = map_option (\<lambda>g. mem_copy (mem_copy g (rawp 0x1fc00000) a) (rawp 0x1fc00008) (be32_bytes (b_kentry b))) (gold m)"
    "pc64 = scast (o_start_pc c)"
proof -
  have "\<exists>b0. boot_kernel rawp fs c (boot0 c gmem iss0) = Inr b0 \<and> pc64 = scast (b_entry b0) \<and> b_mems b = b_mems b0 \<and> b_kentry b = b_kentry b0"
    using assms(1-4) by (auto simp: boot_main_def bind_sum_Inr boot_image_def resume_pc64_def Let_def split: if_splits)
  then obtain b0 where b0: "boot_kernel rawp fs c (boot0 c gmem iss0) = Inr b0" "pc64 = scast (b_entry b0)"
    "b_mems b = b_mems b0" "b_kentry b = b_kentry b0" by blast
  from b0(1) assms(5) obtain m ent m1 where
    k: "load_elf_be32 rawp f \<lparr>dram = seed_bbram_mac (\<lambda>_. 0), gold = if o_checker c then Some gmem else None\<rparr> = Inr (b_kentry b, m)"
    "boot_arcs rawp fs c (b_kentry b) m = Inr (ent, m1)" "b_mems b0 = m1" "b_entry b0 = ent"
    by (auto simp: b0(4) boot_kernel_def boot0_def bind_sum_Inr lift_load_Inr open_file_def Let_def)
  from k(2) assms(6-9) obtain m2 where m2: "load_blob rawp a 0x1fc00000 m = Inr m2" "m1 = patch_kentry rawp (b_kentry b) m2" "ent = o_start_pc c"
    by (auto simp: boot_arcs_def boot_blob_def bind_sum_Inr lift_load_Inr open_file_def Let_def)
  note d = load_blob_prom [OF m2(1)]
  show ?thesis
  proof (rule that [OF k(1)])
    show "dram (b_mems b) = mem_copy (mem_copy (dram m) 0x10c00000 a) 0x10c00008 (be32_bytes (b_kentry b))"
      by (simp add: b0(3) k(3) m2(2) patch_kentry_dram d(1))
    show "gold (b_mems b) = map_option (\<lambda>g. mem_copy (mem_copy g (rawp 0x1fc00000) a) (rawp 0x1fc00008) (be32_bytes (b_kentry b))) (gold m)"
      by (simp add: b0(3) k(3) m2(2) patch_kentry_def d(2) option.map_comp comp_def)
    show "pc64 = scast (o_start_pc c)" by (simp add: b0(2) k(4) m2(3))
  qed
qed

lemma fsbl_bytes:
  assumes "i < length a"
  shows "mem_copy (mem_copy m 0x10c00000 a) 0x10c00008 (be32_bytes k) (0x10c00000 + i) = (if i \<in> {8..<12} then be32_bytes k ! (i - 8) else a ! i)"
proof (cases "i \<in> {8..<12}")
  case True
  then have "0x10c00000 + i = 0x10c00008 + (i - 8)" "i - 8 < length (be32_bytes k)" by auto
  then show ?thesis using True by (simp only: mem_copy_same if_True)
next
  case False
  then show ?thesis using mem_copy_same [OF assms, of m "0x10c00000"] by (subst mem_copy_other) auto
qed

text \<open>
  C17.  Booting a kernel behind the firmware at the reset vector: the core starts at the given
  address, sign-extended; the word it reads from the entry slot at \<^verbatim>\<open>0xbfc00008\<close> is the entry of
  the kernel that was loaded; the rest of the firmware is untouched by the patch; outside the
  firmware the DRAM is what the kernel load left; and the golden model's memory got the same
  firmware and the same patch.
\<close>

theorem fsbl_boot_exact:
  assumes "boot_main rawp fs c gmem iss0 = Inr (b, pc64)" "o_ckpt c = []" "o_cimg c = []" "o_prom c = []"
    and "fs (o_kernel c) = Some f" "o_arcs c \<noteq> []" "fs (o_arcs c) = Some a" "o_arcs_addr c = 0x1fc00000" "o_start_pc c \<noteq> 0"
  defines "m0 \<equiv> \<lparr>dram = seed_bbram_mac (\<lambda>_. 0), gold = if o_checker c then Some gmem else None\<rparr>"
  shows "pc64 = scast (o_start_pc c) \<and> (\<exists>m. load_elf_be32 rawp f m0 = Inr (b_kentry b, m) \<and>
    mon_mem_rd (dram (b_mems b)) 0xbfc00008 = Some (b_kentry b) \<and>
    (\<forall>i < length a. i \<notin> {8..<12} \<longrightarrow> dram (b_mems b) (0x10c00000 + i) = a ! i) \<and>
    (\<forall>x. x \<notin> {0x10c00000 ..< 0x10c00000 + max 12 (length a)} \<longrightarrow> dram (b_mems b) x = dram m x) \<and>
    gold (b_mems b) = map_option (\<lambda>g. mem_copy (mem_copy g (rawp 0x1fc00000) a) (rawp 0x1fc00008) (be32_bytes (b_kentry b))) (gold m))"
proof -
  obtain m where m: "load_elf_be32 rawp f m0 = Inr (b_kentry b, m)"
    and dr: "dram (b_mems b) = mem_copy (mem_copy (dram m) 0x10c00000 a) 0x10c00008 (be32_bytes (b_kentry b))"
    and g: "gold (b_mems b) = map_option (\<lambda>g. mem_copy (mem_copy g (rawp 0x1fc00000) a) (rawp 0x1fc00008) (be32_bytes (b_kentry b))) (gold m)"
    and pc64: "pc64 = scast (o_start_pc c)"
    unfolding m0_def by (rule fsbl_boot_memory [OF assms(1-9)])
  have "kseg_phys 0xbfc00008 = 0x1fc00008" by (simp add: kseg_phys_def)
  then have slot: "mon_mem_rd (dram (b_mems b)) 0xbfc00008 = Some (b_kentry b)"
    using be32_mem_copy [of "mem_copy (dram m) 0x10c00000 a" "0x10c00008" "b_kentry b"] slot_offset
    by (cases "fpga_map 0x1fc00008") (simp add: mon_mem_rd_def dr MEM_SIZE_def)
  have keep: "dram (b_mems b) (0x10c00000 + i) = a ! i" if "i < length a" "i \<notin> {8..<12}" for i
    unfolding dr fsbl_bytes [OF that(1)] using that(2) by (simp only: if_False)
  have frame: "dram (b_mems b) x = dram m x" if "x \<notin> {0x10c00000 ..< 0x10c00000 + max 12 (length a)}" for x
  proof -
    have "x < 0x10c00000 \<or> 0x10c00000 + length a \<le> x" "x < 0x10c00008 \<or> 0x10c00008 + length (be32_bytes (b_kentry b)) \<le> x"
      using that by auto
    then show ?thesis unfolding dr by (simp only: mem_copy_other)
  qed
  show ?thesis using pc64 m slot keep frame g by blast
qed

text \<open>The handoff of a boot with no start address is built in the DRAM only.\<close>

lemma handoff_not_in_golden:
  assumes "boot_arcs rawp fs c kentry m = Inr (ent, m')" "o_arcs c \<noteq> []" "fs (o_arcs c) = Some a" "o_start_pc c = 0" "o_arcs_addr c \<noteq> 0x1fc00000"
  shows "ent = KSEG0 OR STUB_PA \<and> gold m' = map_option (\<lambda>g. mem_copy g (rawp (ucast (ucast (o_arcs_addr c) :: u32))) a) (gold m)"
  using assms by (auto simp: boot_arcs_def boot_blob_def bind_sum_Inr lift_load_Inr open_file_def load_blob_def copy_dram_def copy_gold_def
      install_arcs_handoff_def Let_def split: if_splits prod.splits)

text \<open>A seed file that is refused has still replaced the instruction count the verify window is computed from.\<close>

lemma refused_seed_moves_window:
  assumes "o_checker c" "o_iss_seed c \<noteq> []" "fs (o_iss_seed c) = Some f" "length f \<ge> 2492" "rd_header f = None"
  shows "b_icnt (iss_seed fs c b) = u64_at f 2484"
proof -
  have "map (\<lambda>i. if 2484 + i < length f then f ! (2484 + i) else le_bytes 8 (b_icnt b) ! i) [0..<8] = take 8 (drop 2484 f)"
    by (rule nth_equalityI) (use assms(4) in \<open>auto simp del: upt_rec_numeral\<close>)
  then show ?thesis using assms by (simp add: iss_seed_def icnt_after_read_def u64_at_def del: upt_rec_numeral)
qed

text \<open>The sample kernel behind a firmware of 16 bytes.\<close>

definition sample_fs :: files where
  "sample_fs p = (if p = ''k'' then Some sample_elf else if p = ''a'' then Some (replicate 16 0xaa) else None)"

definition sample_opts :: opts where
  "sample_opts = opts0\<lparr>o_kernel := ''k'', o_arcs := ''a'', o_start_pc := 0xbfc00000\<rparr>"

lemma sample_boots: "\<exists>b pc64. boot_main unat sample_fs sample_opts (\<lambda>_. 0) iss0 = Inr (b, pc64)"
proof -
  obtain m where m: "load_elf_be32 unat sample_elf \<lparr>dram = seed_bbram_mac (\<lambda>_. 0), gold = None\<rparr> = Inr (0x88002000, m)"
    using sample_elf_loads by blast
  obtain m' where "load_blob unat (replicate 16 0xaa) 0x1fc00000 m = Inr m'"
    by (simp add: load_blob_def slot_offset copy_dram_def MEM_SIZE_def bind_sum_def)
  then show ?thesis
    by (simp add: boot_main_def usage_ok_def sample_opts_def opts0_def boot_image_def boot_kernel_def boot0_def sample_fs_def open_file_def
        bind_sum_def lift_load_def m boot_arcs_def boot_blob_def Let_def)
qed

theorem fsbl_boot_exact_witness:
  "\<exists>b pc64. boot_main unat sample_fs sample_opts (\<lambda>_. 0) undefined = Inr (b, pc64) \<and> pc64 = 0xffffffffbfc00000 \<and>
     mon_mem_rd (dram (b_mems b)) 0xbfc00008 = Some (b_kentry b) \<and> dram (b_mems b) 0x10c0000c = 0xaa"
proof -
  obtain b pc64 where b: "boot_main unat sample_fs sample_opts (\<lambda>_. 0) undefined = Inr (b, pc64)" using sample_boots by blast
  have "sample_fs (o_kernel sample_opts) = Some sample_elf" "sample_fs (o_arcs sample_opts) = Some (replicate 16 0xaa)"
    "o_arcs sample_opts \<noteq> []" "o_arcs_addr sample_opts = 0x1fc00000" "o_start_pc sample_opts = 0xbfc00000"
    "o_ckpt sample_opts = []" "o_cimg sample_opts = []" "o_prom sample_opts = []"
    by (simp_all add: sample_fs_def sample_opts_def opts0_def)
  from fsbl_boot_exact [OF b this(6-8) this(1) this(3) this(2) this(4)] this(5) have
    e: "pc64 = scast (0xbfc00000 :: u32)" "mon_mem_rd (dram (b_mems b)) 0xbfc00008 = Some (b_kentry b)" and
    r: "\<forall>i < 16. i \<notin> {8..<12} \<longrightarrow> dram (b_mems b) (0x10c00000 + i) = replicate 16 0xaa ! i"
    by auto
  have "dram (b_mems b) (0x10c00000 + 12) = 0xaa" using r [rule_format, of 12] by simp
  then show ?thesis using b e by simp
qed

end
