(* ===== verification/Vdma_Ref.thy ===== *)
theory Vdma_Ref
  imports Mem_Bus
begin

text \<open>
  The unit test of the memory-controller DMA (\<^verbatim>\<open>sim/vdma_test/tb_vdma.cpp\<close>): the reference it
  checks the engine against, translation and transfer loops, and the model memory port that
  answers the engine's line loads.  The engine itself is Verilog: its outputs are the inputs of
  a step, with the draws of \<^verbatim>\<open>rand\<close>.
\<close>

section \<open>Translation\<close>

definition MEMSZ :: u32 where
  "MEMSZ = 0x1000000"

definition get_be32 :: "mem \<Rightarrow> u32 \<Rightarrow> u32" where
  "get_be32 m pa = push_bit 24 (ucast (m (unat pa))) OR push_bit 16 (ucast (m (unat (pa + 1))))
     OR push_bit 8 (ucast (m (unat (pa + 2)))) OR ucast (m (unat (pa + 3)))"

definition put_be32 :: "u32 \<Rightarrow> u32 \<Rightarrow> mem \<Rightarrow> mem" where
  "put_be32 pa v m = m(unat pa := ucast (drop_bit 24 v), unat (pa + 1) := ucast (drop_bit 16 v),
     unat (pa + 2) := ucast (drop_bit 8 v), unat (pa + 3) := ucast v)"

text \<open>The entries as pairs \<^verbatim>\<open>(tlb_hi[e], tlb_lo[e])\<close>, in order: the first match wins.\<close>

fun ref_translate :: "mem \<Rightarrow> (u32 \<times> u32) list \<Rightarrow> u32 \<Rightarrow> u32" where
  "ref_translate m [] va = va"
| "ref_translate m ((thi, tlo) # tlb) va =
     (if va AND 0xffc00000 = thi AND 0xffc00000 then
        (let pte_pa = push_bit 6 (tlo AND 0x03ffffc0) + push_bit 2 (drop_bit 12 (va AND 0x003ff000));
             pte = get_be32 m pte_pa
         in push_bit 6 (pte AND 0x03ffffc0) + (va AND 0xfff))
      else ref_translate m tlb va)"

section \<open>The transfer\<close>

definition ref_byte :: "mem \<Rightarrow> (u32 \<times> u32) list \<Rightarrow> u32 \<Rightarrow> u8" where
  "ref_byte m tlb a = m (unat (ref_translate m tlb a AND (MEMSZ - 1)))"

definition bswap64 :: "u64 \<Rightarrow> u64" where
  "bswap64 w = le_word (rev (le_bytes 8 w))"

definition ref_dword :: "mem \<Rightarrow> (u32 \<times> u32) list \<Rightarrow> u32 \<Rightarrow> nat \<Rightarrow> u64" where
  "ref_dword m tlb a len =
     bswap64 (fold (\<lambda>i d. d OR push_bit (56 - 8 * i) (ucast (ref_byte m tlb (a + of_nat i)))) [0..<len] 0)"

text \<open>The loop over the bytes of a line; the repetitions of a line; the lines.\<close>

function ref_bytes :: "mem \<Rightarrow> (u32 \<times> u32) list \<Rightarrow> nat \<Rightarrow> u32 \<times> u64 list \<Rightarrow> u32 \<times> u64 list" where
  "ref_bytes m tlb n s =
     (if n > 0 then
        (let len = (if n < 8 then n else 8)
         in ref_bytes m tlb (n - len) (fst s + of_nat len, snd s @ [ref_dword m tlb (fst s) len]))
      else s)"
  by auto
termination by (relation "measure (\<lambda>(m, tlb, n, s). n)") auto

declare ref_bytes.simps [simp del]

fun ref_zoom :: "mem \<Rightarrow> (u32 \<times> u32) list \<Rightarrow> nat \<Rightarrow> nat \<Rightarrow> nat \<Rightarrow> u32 \<times> u64 list \<Rightarrow> nat \<times> u32 \<times> u64 list" where
  "ref_zoom m tlb width 0 nbytes s = (nbytes, s)"
| "ref_zoom m tlb width (Suc z) nbytes s =
     (let (a, out) = ref_bytes m tlb nbytes s
      in ref_zoom m tlb width z width (if z > 0 then a - of_nat width else a, out))"

fun ref_lines :: "mem \<Rightarrow> (u32 \<times> u32) list \<Rightarrow> nat \<Rightarrow> nat \<Rightarrow> u32 \<Rightarrow> nat \<Rightarrow> nat \<Rightarrow> nat \<Rightarrow> u32 \<times> u64 list \<Rightarrow> u32 \<times> u64 list" where
  "ref_lines m tlb width line_zoom stride 0 zoom nbytes s = s"
| "ref_lines m tlb width line_zoom stride (Suc n) zoom nbytes s =
     (let (nbytes, a, out) = ref_zoom m tlb width zoom nbytes s
      in ref_lines m tlb width line_zoom stride n line_zoom nbytes (a + stride, out))"

definition ref_perform :: "mem \<Rightarrow> (u32 \<times> u32) list \<Rightarrow> u32 \<Rightarrow> u32 \<Rightarrow> u32 \<Rightarrow> u32 \<Rightarrow> u32 \<times> u64 list" where
  "ref_perform m tlb memadr size_r stride_r count_r =
     ref_lines m tlb (unat (size_r AND 0xffff)) (unat (drop_bit 16 stride_r AND 0x3ff)) (scast (ucast stride_r :: u16))
       (unat (drop_bit 16 size_r)) (unat (drop_bit 16 count_r AND 0x3ff)) (unat (count_r AND 0xffff)) (memadr, [])"

section \<open>The memory port\<close>

record vd_port =
  vd_mem :: mem
  vd_reply :: int
  vd_req_addr :: u32
  vd_req_op :: u32
  vd_n_loads :: nat
  vd_n_bursts :: nat
  vd_got :: "u64 list"
  vd_got_gio :: u32
  dn_rsp_valid :: bool
  dn_rsp_load_data :: "u32 list"

text \<open>What the engine shows after the low edge, and the draws: its record, its request, the latency, the ready.\<close>

record vd_out =
  v_rec_valid :: bool
  v_rec_lanes :: u64
  v_rec_addr :: u32
  dn_req_valid :: bool
  dn_req_addr :: u64
  dn_req_opcode :: u32
  rnd_lat :: nat
  rnd_ready :: bool

definition vd_line_word :: "mem \<Rightarrow> nat \<Rightarrow> nat \<Rightarrow> nat \<Rightarrow> u32" where
  "vd_line_word m line nb i = (if 4 * i \<ge> nb then 0xdeadbeef else le32 m (line + 4 * i))"

text \<open>The reply: a bad access ends the test.\<close>

definition vd_answer :: "nat \<Rightarrow> vd_port \<Rightarrow> vd_port option" where
  "vd_answer cyc s =
     (let s = s\<lparr>dn_rsp_valid := False\<rparr> in
      if vd_reply s = int cyc then
        (let nb = (if vd_req_op s = 5 then 64 else 16 :: u32);
             line = vd_req_addr s AND NOT (nb - 1)
         in if (vd_req_op s \<noteq> 4 \<and> vd_req_op s \<noteq> 5) \<or> line + nb > MEMSZ \<or> vd_req_addr s AND (nb - 1) \<noteq> 0 then None
            else Some (s\<lparr>dn_rsp_load_data := map (vd_line_word (vd_mem s) (unat line) (unat nb)) [0..<16],
                   vd_n_bursts := vd_n_bursts s + (if vd_req_op s = 5 then 1 else 0),
                   dn_rsp_valid := True, vd_reply := - 1, vd_n_loads := vd_n_loads s + 1\<rparr>))
      else Some s)"

definition vd_accept :: "nat \<Rightarrow> vd_out \<Rightarrow> vd_port \<Rightarrow> vd_port" where
  "vd_accept cyc r s =
     (let s = (if v_rec_valid r \<and> rnd_ready r then s\<lparr>vd_got := vd_got s @ [v_rec_lanes r], vd_got_gio := v_rec_addr r\<rparr> else s)
      in if dn_req_valid r \<and> vd_reply s < 0 \<and> \<not> dn_rsp_valid s
         then s\<lparr>vd_req_addr := ucast (dn_req_addr r), vd_req_op := dn_req_opcode r, vd_reply := int (cyc + 1 + rnd_lat r mod 6)\<rparr>
         else s)"

definition vd_step :: "nat \<Rightarrow> vd_out \<Rightarrow> vd_port \<Rightarrow> vd_port option" where
  "vd_step cyc r s = map_option (vd_accept cyc r) (vd_answer cyc s)"

section \<open>The lanes of a doubleword\<close>

lemma bit_dword_fold:
  assumes "len \<le> 8" "k < 64"
  shows "bit (fold (\<lambda>i d. d OR push_bit (56 - 8 * i) (ucast (f i :: u8))) [0..<len] (0 :: u64)) k \<longleftrightarrow>
    7 - k div 8 < len \<and> bit (f (7 - k div 8)) (k mod 8)"
  using assms(1)
proof (induction len)
  case (Suc n)
  have n: "n \<le> 7" using Suc.prems by simp
  have b: "bit (push_bit (56 - 8 * n) (ucast (f n) :: u64)) k \<longleftrightarrow> 7 - k div 8 = n \<and> bit (f n) (k mod 8)"
  proof (cases "7 - k div 8 = n")
    case True
    moreover have "k div 8 \<le> 7" using assms(2) by simp
    ultimately have d: "k div 8 = 7 - n" using n by linarith
    have "k = 8 * (k div 8) + k mod 8" by simp
    then have k: "k = 56 - 8 * n + k mod 8" unfolding d using n by (simp add: diff_mult_distrib2)
    then have "k - (56 - 8 * n) = k mod 8" "56 - 8 * n \<le> k" by linarith+
    moreover have "k mod 8 < 64" by (rule less_trans [of _ 8]) simp_all
    ultimately show ?thesis using True assms(2) by (simp add: bit_push_bit_iff bit_ucast_iff)
  next
    case False
    then have "k < 56 - 8 * n \<or> 8 \<le> k - (56 - 8 * n)" using assms(2) n by linarith
    then show ?thesis using False by (auto simp: bit_push_bit_iff bit_ucast_iff bit_word_ge)
  qed
  then show ?case using Suc by (auto simp: bit_or_iff less_Suc_eq)
qed simp

lemma bswap64_dword:
  assumes "len \<le> 8"
  shows "bswap64 (fold (\<lambda>i d. d OR push_bit (56 - 8 * i) (ucast (f i :: u8))) [0..<len] 0) = le_word (map f [0..<len])"
    (is "bswap64 ?d = _")
proof (rule bit_word_eqI)
  fix k assume "k < LENGTH(64)"
  then have k: "k < 64" "k div 8 < 8" by simp_all
  define j where "j = 8 * (7 - k div 8) + k mod 8"
  have j: "j < 64" "j div 8 = 7 - k div 8" "j mod 8 = k mod 8" using k by (auto simp: j_def)
  have "bit (bswap64 ?d) k \<longleftrightarrow> bit (le_bytes 8 ?d ! (7 - k div 8)) (k mod 8)"
    using k by (simp add: bswap64_def bit_le_word rev_nth)
  also have "\<dots> \<longleftrightarrow> bit ?d j" using k j(1) mod_less_divisor [of 8 k]
    by (simp add: le_bytes_def bit_ucast_iff bit_drop_bit_eq j_def add.commute del: mod_less_divisor)
  also have "\<dots> \<longleftrightarrow> 7 - j div 8 < len \<and> bit (f (7 - j div 8)) (j mod 8)" by (rule bit_dword_fold [OF assms j(1)])
  also have "\<dots> \<longleftrightarrow> k div 8 < len \<and> bit (f (k div 8)) (k mod 8)" using k by (simp add: j(2,3))
  also have "\<dots> \<longleftrightarrow> bit (le_word (map f [0..<len]) :: u64) k" using k by (auto simp: bit_le_word)
  finally show "bit (bswap64 ?d) k \<longleftrightarrow> bit (le_word (map f [0..<len]) :: u64) k" .
qed

text \<open>The bytes of a region, and the doublewords they are packed into, lane 0 first, the last one padded.\<close>

definition region :: "mem \<Rightarrow> (u32 \<times> u32) list \<Rightarrow> u32 \<Rightarrow> nat \<Rightarrow> bytes" where
  "region m tlb a n = map (\<lambda>i. ref_byte m tlb (a + of_nat i)) [0..<n]"

function pack8 :: "bytes \<Rightarrow> u64 list" where
  "pack8 bs = (if bs = [] then [] else le_word (take 8 bs) # pack8 (drop 8 bs))"
  by auto
termination by (relation "measure length") auto

declare pack8.simps [simp del]

lemma ref_dword_region: "len \<le> 8 \<Longrightarrow> ref_dword m tlb a len = le_word (region m tlb a len)"
  unfolding ref_dword_def region_def by (rule bswap64_dword)

lemma region_split: "k \<le> n \<Longrightarrow> region m tlb a n = region m tlb a k @ region m tlb (a + of_nat k) (n - k)"
  by (rule nth_equalityI) (auto simp: region_def nth_append add.assoc simp flip: of_nat_add)

lemma ref_bytes_pack: "ref_bytes m tlb n s = (fst s + of_nat n, snd s @ pack8 (region m tlb (fst s) n))"
proof (induction n arbitrary: s rule: less_induct)
  case (less n)
  show ?case
  proof (cases "n = 0")
    case True
    then show ?thesis by (simp add: ref_bytes.simps [of _ _ 0] pack8.simps [of "[]"] region_def)
  next
    case False
    define len where "len = (if n < 8 then n else 8)"
    have len: "len \<le> 8" "len \<le> n" "0 < len" "n - len < n" using False by (auto simp: len_def)
    have t: "take 8 (region m tlb (fst s) n) = region m tlb (fst s) len" "drop 8 (region m tlb (fst s) n) = region m tlb (fst s + of_nat len) (n - len)"
      using region_split [OF len(2), of m tlb "fst s"] by (auto simp: len_def region_def split: if_splits)
    have "region m tlb (fst s) n \<noteq> []" using False by (simp add: region_def)
    then have "pack8 (region m tlb (fst s) n) = ref_dword m tlb (fst s) len # pack8 (region m tlb (fst s + of_nat len) (n - len))"
      by (subst pack8.simps) (simp add: t ref_dword_region [OF len(1)])
    then show ?thesis
      using less [OF len(4)] False len(2) by (subst ref_bytes.simps) (simp add: len_def [symmetric] Let_def add.assoc flip: of_nat_add)
  qed
qed

lemma ref_zoom_repeat:
  "ref_zoom m tlb w (Suc z) w s = (w, fst s + of_nat w, snd s @ concat (replicate (Suc z) (pack8 (region m tlb (fst s) w))))"
proof (induction z arbitrary: s)
  case 0
  then show ?case by (simp add: ref_bytes_pack)
next
  case (Suc z)
  show ?case
    by (subst ref_zoom.simps(2), subst ref_bytes_pack) (simp add: Suc del: ref_zoom.simps(2))
qed

lemma ref_lines_rect:
  "ref_lines m tlb w (Suc z) stride n (Suc z) w s =
     (fst s + of_nat n * (of_nat w + stride),
      snd s @ concat (map (\<lambda>l. concat (replicate (Suc z) (pack8 (region m tlb (fst s + of_nat l * (of_nat w + stride)) w)))) [0..<n]))"
proof (induction n arbitrary: s)
  case (Suc n)
  define d where "d = (of_nat w + stride :: u32)"
  define f where "f a = concat (replicate (Suc z) (pack8 (region m tlb a w)))" for a
  have "ref_lines m tlb w (Suc z) stride (Suc n) (Suc z) w s = ref_lines m tlb w (Suc z) stride n (Suc z) w (fst s + d, snd s @ f (fst s))"
    by (simp only: ref_lines.simps ref_zoom_repeat Let_def prod.case add.assoc d_def f_def)
  also have "\<dots> = (fst s + d + of_nat n * d, (snd s @ f (fst s)) @ concat (map (\<lambda>l. f (fst s + d + of_nat l * d)) [0..<n]))"
    using Suc [of "(fst s + d, snd s @ f (fst s))"] by (simp only: fst_conv snd_conv d_def [symmetric] f_def [symmetric])
  also have "map (\<lambda>l. f (fst s + d + of_nat l * d)) [0..<n] = map (\<lambda>l. f (fst s + of_nat l * d)) [1..<Suc n]"
    by (simp add: map_Suc_upt [symmetric] comp_def algebra_simps del: upt_Suc)
  also have "(fst s + d + of_nat n * d, (snd s @ f (fst s)) @ concat (map (\<lambda>l. f (fst s + of_nat l * d)) [1..<Suc n])) =
      (fst s + of_nat (Suc n) * d, snd s @ concat (map (\<lambda>l. f (fst s + of_nat l * d)) [0..<Suc n]))"
    by (simp add: upt_conv_Cons algebra_simps del: upt_Suc)
  finally show ?case unfolding d_def f_def .
qed simp


definition ramp_mem :: mem where
  "ramp_mem a = of_nat a"


end
