(* ===== verification/Vdma_Test.thy ===== *)
theory Vdma_Test
  imports Vdma_Ref "HOL-Library.State_Monad"
begin

text \<open>
  The random scenario of the memory-controller DMA test (\<^verbatim>\<open>main\<close> of
  \<^verbatim>\<open>sim/vdma_test/tb_vdma.cpp\<close>): the drawn page tables and transfers, the clocked harness around
  the engine, the wait for the end of a transfer with its limit, and the comparisons with the
  reference of \<^verbatim>\<open>Vdma_Ref\<close>.  The engine (Verilog) and \<^verbatim>\<open>rand\<close> are parameters.  Where C++ leaves the
  order of two draws in an expression open, the model takes the left one first; nothing proved
  here depends on the values drawn.
\<close>

section \<open>The draws\<close>

type_synonym 'r rand = "'r \<Rightarrow> nat \<times> 'r"

definition rnd :: "'r rand \<Rightarrow> ('r, u32) state" where
  "rnd rand = do { a \<leftarrow> State rand; b \<leftarrow> State rand;
     State_Monad.return (push_bit 16 (of_nat a) XOR of_nat b) }"

text \<open>\<^verbatim>\<open>rand() % n\<close>.\<close>

definition below :: "'r rand \<Rightarrow> nat \<Rightarrow> ('r, nat) state" where
  "below rand n = do { a \<leftarrow> State rand; State_Monad.return (a mod n) }"

text \<open>One page-table entry after the other; an entry of the test's TLB with its table; the four entries.\<close>

definition pte_of :: "u32 \<Rightarrow> u32 \<Rightarrow> u32" where
  "pte_of x y = (let frame = 0x00010000 + (x mod 4000) * 0x1000
     in (drop_bit 6 frame AND 0x03ffffc0) OR (y AND 0x3f))"

fun fill_ptes :: "'r rand \<Rightarrow> u32 \<Rightarrow> nat list \<Rightarrow> mem \<Rightarrow> ('r, mem) state" where
  "fill_ptes rand ptpage [] m = State_Monad.return m"
| "fill_ptes rand ptpage (k # ks) m = do { x \<leftarrow> rnd rand; y \<leftarrow> rnd rand;
     fill_ptes rand ptpage ks (put_be32 (ptpage + 4 * of_nat k) (pte_of x y) m) }"

definition pt_page :: "u32 \<Rightarrow> u32" where
  "pt_page x = (0x00100000 + (x mod 3800) * 0x1000) AND (MEMSZ - 1)"

definition tlb_hi_of :: "nat \<Rightarrow> nat \<Rightarrow> u32 \<Rightarrow> u32" where
  "tlb_hi_of t e x = (0x40000000 + of_nat (e * 7 + 1 + t mod 5) * 0x00400000) OR (x AND 0x003fffff)"

definition tlb_lo_of :: "u32 \<Rightarrow> u32 \<Rightarrow> u32 \<Rightarrow> u32" where
  "tlb_lo_of ptpage y z = (drop_bit 6 ptpage AND 0x03ffffc0) OR (y AND 0x3f) OR (z AND 0xfc000000)"

fun draw_entries :: "'r rand \<Rightarrow> nat \<Rightarrow> nat list \<Rightarrow> mem \<Rightarrow> ('r, (u32 \<times> u32) list \<times> mem) state" where
  "draw_entries rand t [] m = State_Monad.return ([], m)"
| "draw_entries rand t (e # es) m = do { w \<leftarrow> rnd rand; x \<leftarrow> rnd rand; y \<leftarrow> rnd rand; z \<leftarrow> rnd rand;
     m \<leftarrow> fill_ptes rand (pt_page x) [0..<1024] m;
     (tlb, m) \<leftarrow> draw_entries rand t es m;
     State_Monad.return ((tlb_hi_of t e w, tlb_lo_of (pt_page x) y z) # tlb, m) }"

text \<open>Every seventh transfer has a stale duplicate: entry 2 gets the region of entry 1.\<close>

definition shadow :: "nat \<Rightarrow> (u32 \<times> u32) list \<Rightarrow> (u32 \<times> u32) list" where
  "shadow t tlb = (if t mod 7 = 3 then tlb[2 := (fst (tlb ! 1), snd (tlb ! 2))] else tlb)"

text \<open>The transfer.\<close>

record vd_job =
  jb_lines :: u32
  jb_width :: u32
  jb_lzoom :: u32
  jb_stride :: u16
  jb_cbytes :: u32
  jb_czoom :: u32
  jb_memadr :: u32
  jb_phys :: bool
  jb_gio :: u32
  jb_ready_pct :: nat

definition draw_memadr :: "'r rand \<Rightarrow> (u32 \<times> u32) list \<Rightarrow> ('r, bool \<times> u32) state" where
  "draw_memadr rand tlb = do { p \<leftarrow> below rand 4;
     if p = 0 then do { x \<leftarrow> rnd rand; State_Monad.return (True, 0x00100000 + x mod 0x00e00000) }
     else do { e \<leftarrow> below rand 4; x \<leftarrow> rnd rand;
       State_Monad.return (False, (fst (tlb ! e) AND 0xffc00000) + 0x00010000 + x mod 0x003e0000) } }"

definition draw_or :: "'r rand \<Rightarrow> nat \<Rightarrow> u32 \<Rightarrow> ('r, u32) state" where
  "draw_or rand n dflt = do { p \<leftarrow> below rand 4;
     if p = 0 then do { x \<leftarrow> below rand n; State_Monad.return (of_nat x) } else State_Monad.return dflt }"

definition draw_job :: "'r rand \<Rightarrow> nat \<Rightarrow> (u32 \<times> u32) list \<Rightarrow> ('r, vd_job) state" where
  "draw_job rand t tlb = do {
     lines \<leftarrow> below rand 7;
     width \<leftarrow> below rand 40;
     lzoom \<leftarrow> draw_or rand 4 1;
     stride \<leftarrow> below rand 130;
     cbytes \<leftarrow> draw_or rand 41 (1 + of_nat width);
     czoom \<leftarrow> draw_or rand 4 lzoom;
     (phys, memadr) \<leftarrow> draw_memadr rand tlb;
     x \<leftarrow> rnd rand;
     pct \<leftarrow> (if t mod 3 = 0 then State_Monad.return 100 else do { y \<leftarrow> below rand 70; State_Monad.return (20 + y) });
     State_Monad.return \<lparr>jb_lines = of_nat lines, jb_width = 1 + of_nat width, jb_lzoom = lzoom,
       jb_stride = of_int (int stride - 64), jb_cbytes = cbytes, jb_czoom = czoom, jb_memadr = memadr, jb_phys = phys,
       jb_gio = 0x1f0f0000 + push_bit 3 (x mod 0x400), jb_ready_pct = pct\<rparr> }"

definition jb_size :: "vd_job \<Rightarrow> u32" where
  "jb_size j = push_bit 16 (jb_lines j) OR jb_width j"

definition jb_stride_r :: "vd_job \<Rightarrow> u32" where
  "jb_stride_r j = push_bit 16 (jb_lzoom j) OR ucast (jb_stride j)"

definition jb_count :: "vd_job \<Rightarrow> u32" where
  "jb_count j = push_bit 16 (jb_czoom j) OR jb_cbytes j"

section \<open>The harness\<close>

text \<open>The pins of the engine that the test drives; \<^verbatim>\<open>go\<close>, \<^verbatim>\<open>tx_go\<close> and \<^verbatim>\<open>rx_armed\<close> are 0 throughout.\<close>

record vd_in =
  vi_reset :: bool
  vi_go :: bool
  vi_memadr :: u32
  vi_size :: u32
  vi_stride :: u32
  vi_count :: u32
  vi_gio :: u32
  vi_tlb :: "(u32 \<times> u32) list"
  vi_rsp_valid :: bool
  vi_rsp_data :: "u32 list"
  vi_rec_ready :: bool

text \<open>The engine: one evaluation at a clock level, and what it shows.  The draw fields of the output are set by the harness.\<close>

record 'd vd_dut =
  vd_eval :: "bool \<Rightarrow> vd_in \<Rightarrow> 'd \<Rightarrow> 'd"
  vd_shows :: "'d \<Rightarrow> vd_out"
  vd_done :: "'d \<Rightarrow> bool"
  vd_memadr_end :: "'d \<Rightarrow> u32"

record 'd vd_tb =
  vt_cyc :: nat
  vt_port :: vd_port
  vt_ready_pct :: nat
  vt_pins :: vd_in
  vt_dut :: 'd
  vt_total :: nat
  vt_phys :: nat
  vt_zoom :: nat
  vt_neg :: nat

definition vt_takes :: "vd_out \<Rightarrow> vd_port \<Rightarrow> bool" where
  "vt_takes v p \<longleftrightarrow> dn_req_valid v \<and> vd_reply p < 0 \<and> \<not> dn_rsp_valid p"

text \<open>
  \<^verbatim>\<open>step\<close>: the reply that is due, the ready draw, the low edge, the record and the request it
  shows (a latency is drawn only for a request that is taken), the high edge.  \<open>None\<close> is the
  exit on a bad access.
\<close>

definition vt_step :: "'d vd_dut \<Rightarrow> 'r rand \<Rightarrow> 'd vd_tb \<times> 'r \<Rightarrow> ('d vd_tb \<times> 'r) option" where
  "vt_step E rand = (\<lambda>(s, g).
     (case vd_answer (vt_cyc s) (vt_port s) of None \<Rightarrow> None
      | Some p \<Rightarrow>
        (let (x, g) = rand g;
             ready = x mod 100 < vt_ready_pct s;
             i = (vt_pins s)\<lparr>vi_rsp_valid := dn_rsp_valid p, vi_rsp_data := dn_rsp_load_data p, vi_rec_ready := ready\<rparr>;
             d = vd_eval E False i (vt_dut s);
             v = (vd_shows E d)\<lparr>rnd_ready := ready\<rparr>;
             (y, g) = (if vt_takes v p then rand g else (0, g));
             p = vd_accept (vt_cyc s) (v\<lparr>rnd_lat := y\<rparr>) p
         in Some (s\<lparr>vt_cyc := vt_cyc s + 1, vt_port := p, vt_pins := i\<lparr>vi_go := False\<rparr>, vt_dut := vd_eval E True i d\<rparr>, g))))"

fun vt_steps :: "'d vd_dut \<Rightarrow> 'r rand \<Rightarrow> nat \<Rightarrow> 'd vd_tb \<times> 'r \<Rightarrow> ('d vd_tb \<times> 'r) option" where
  "vt_steps E rand 0 sg = Some sg"
| "vt_steps E rand (Suc n) sg = Option.bind (vt_step E rand sg) (vt_steps E rand n)"

datatype vd_fail = Bad_access | No_done | Wrong_count | Wrong_dword nat | Wrong_gio | Wrong_end

text \<open>
  The wait: after \<open>n\<close> more steps without the done flag, the next step passes the limit and fails,
  even if the engine is done in it.
\<close>

fun vt_wait :: "'d vd_dut \<Rightarrow> 'r rand \<Rightarrow> nat \<Rightarrow> 'd vd_tb \<times> 'r \<Rightarrow> vd_fail + 'd vd_tb \<times> 'r" where
  "vt_wait E rand 0 sg = (case vt_step E rand sg of None \<Rightarrow> Inl Bad_access | Some _ \<Rightarrow> Inl No_done)"
| "vt_wait E rand (Suc n) sg = (case vt_step E rand sg of None \<Rightarrow> Inl Bad_access
     | Some sg \<Rightarrow> if vd_done E (vt_dut (fst sg)) then Inr sg else vt_wait E rand n sg)"

text \<open>The comparisons, in the order of the source; the first differing doubleword is reported.\<close>

definition vt_compare :: "u64 list \<Rightarrow> u64 list \<Rightarrow> u32 \<Rightarrow> u32 \<Rightarrow> u32 \<Rightarrow> u32 \<Rightarrow> vd_fail option" where
  "vt_compare got expect got_gio gio end_adr exp_end =
     (if length got \<noteq> length expect then Some Wrong_count
      else case find (\<lambda>i. got ! i \<noteq> expect ! i) [0..<length expect] of Some i \<Rightarrow> Some (Wrong_dword i)
      | None \<Rightarrow> if expect \<noteq> [] \<and> got_gio \<noteq> gio then Some Wrong_gio
          else if end_adr \<noteq> exp_end then Some Wrong_end else None)"

text \<open>The set-up of transfer \<open>t\<close>: tables, job, counters, pins, with the reference run on the memory as it then is.\<close>

definition vt_arm :: "'r rand \<Rightarrow> nat \<Rightarrow> 'd vd_tb \<times> 'r \<Rightarrow> vd_job \<times> (u32 \<times> u32) list \<times> 'd vd_tb \<times> 'r" where
  "vt_arm rand t = (\<lambda>(s, g).
     (let ((tlb, m), g) = run_state (draw_entries rand t [0..<4] (vd_mem (vt_port s))) g;
          tlb = shadow t tlb;
          (j, g) = run_state (draw_job rand t tlb) g
      in (j, tlb, s\<lparr>vt_port := (vt_port s)\<lparr>vd_mem := m, vd_got := []\<rparr>, vt_ready_pct := jb_ready_pct j,
             vt_phys := vt_phys s + (if jb_phys j then 1 else 0),
             vt_zoom := vt_zoom s + (if jb_lzoom j \<noteq> 1 \<or> jb_czoom j \<noteq> 1 then 1 else 0),
             vt_neg := vt_neg s + (if sint (jb_stride j) < 0 then 1 else 0),
             vt_pins := (vt_pins s)\<lparr>vi_memadr := jb_memadr j, vi_size := jb_size j, vi_stride := jb_stride_r j,
               vi_count := jb_count j, vi_gio := jb_gio j, vi_tlb := tlb, vi_go := True\<rparr>\<rparr>, g)))"

definition vt_expect :: "vd_job \<Rightarrow> (u32 \<times> u32) list \<Rightarrow> 'd vd_tb \<Rightarrow> u32 \<times> u64 list" where
  "vt_expect j tlb s = ref_perform (vd_mem (vt_port s)) tlb (jb_memadr j) (jb_size j) (jb_stride_r j) (jb_count j)"

definition vt_transfer :: "'d vd_dut \<Rightarrow> 'r rand \<Rightarrow> nat \<Rightarrow> 'd vd_tb \<times> 'r \<Rightarrow> vd_fail + 'd vd_tb \<times> 'r" where
  "vt_transfer E rand t sg =
     (let (j, tlb, sg) = vt_arm rand t sg;
          (exp_end, expect) = vt_expect j tlb (fst sg)
      in case vt_wait E rand 2000000 sg of Inl f \<Rightarrow> Inl f
         | Inr (s, g) \<Rightarrow>
           (case vt_compare (vd_got (vt_port s)) expect (vd_got_gio (vt_port s)) (jb_gio j) (vd_memadr_end E (vt_dut s)) exp_end of
              Some f \<Rightarrow> Inl f
            | None \<Rightarrow> (case vt_steps E rand 3 (s\<lparr>vt_total := vt_total s + length expect\<rparr>, g) of
                None \<Rightarrow> Inl Bad_access | Some sg \<Rightarrow> Inr sg)))"

fun vt_transfers :: "'d vd_dut \<Rightarrow> 'r rand \<Rightarrow> nat list \<Rightarrow> 'd vd_tb \<times> 'r \<Rightarrow> vd_fail + 'd vd_tb \<times> 'r" where
  "vt_transfers E rand [] sg = Inr sg"
| "vt_transfers E rand (t # ts) sg = (case vt_transfer E rand t sg of Inl f \<Rightarrow> Inl f | Inr sg \<Rightarrow> vt_transfers E rand ts sg)"

text \<open>Memory is filled with draws, the engine reset for five cycles, and the transfers run; \<open>Inr\<close> is \<^verbatim>\<open>PASS\<close>.\<close>

fun fill_mem :: "'r rand \<Rightarrow> nat list \<Rightarrow> mem \<Rightarrow> ('r, mem) state" where
  "fill_mem rand [] m = State_Monad.return m"
| "fill_mem rand (i # is) m = do { x \<leftarrow> State rand; fill_mem rand is (m(i := of_nat x)) }"

definition vt_init :: "mem \<Rightarrow> 'd \<Rightarrow> 'd vd_tb" where
  "vt_init m d = \<lparr>vt_cyc = 0,
     vt_port = \<lparr>vd_mem = m, vd_reply = - 1, vd_req_addr = 0, vd_req_op = 0, vd_n_loads = 0, vd_n_bursts = 0,
       vd_got = [], vd_got_gio = 0, dn_rsp_valid = False, dn_rsp_load_data = replicate 16 0\<rparr>,
     vt_ready_pct = 70,
     vt_pins = \<lparr>vi_reset = True, vi_go = False, vi_memadr = 0, vi_size = 0, vi_stride = 0, vi_count = 0, vi_gio = 0,
       vi_tlb = replicate 4 (0, 0), vi_rsp_valid = False, vi_rsp_data = replicate 16 0, vi_rec_ready = False\<rparr>,
     vt_dut = d, vt_total = 0, vt_phys = 0, vt_zoom = 0, vt_neg = 0\<rparr>"

definition vt_boot :: "'d vd_dut \<Rightarrow> 'r rand \<Rightarrow> 'd \<Rightarrow> 'r \<Rightarrow> ('d vd_tb \<times> 'r) option" where
  "vt_boot E rand d g =
     (let (m, g) = run_state (fill_mem rand [0..<unat MEMSZ] (\<lambda>_. 0)) g
      in map_option (\<lambda>(s, g). (s\<lparr>vt_pins := (vt_pins s)\<lparr>vi_reset := False\<rparr>\<rparr>, g)) (vt_steps E rand 5 (vt_init m d, g)))"

definition vdma_main :: "'d vd_dut \<Rightarrow> 'r rand \<Rightarrow> 'd \<Rightarrow> 'r \<Rightarrow> vd_fail + 'd vd_tb \<times> 'r" where
  "vdma_main E rand d g = (case vt_boot E rand d g of None \<Rightarrow> Inl Bad_access | Some sg \<Rightarrow> vt_transfers E rand [0..<3000] sg)"

section \<open>The drawn scenario stays in memory\<close>

lemma pred_state_all: "(\<And>x. P x) \<Longrightarrow> pred_state P M"
  by blast

lemma pred_state_return [simp]: "pred_state P (State_Monad.return x) \<longleftrightarrow> P x"
  by (auto simp: State_Monad.return_def dest: pred_stateD intro!: pred_stateI)

lemma pred_state_weaken: "pred_state P M \<Longrightarrow> (\<And>x. P x \<Longrightarrow> Q x) \<Longrightarrow> pred_state Q M"
  by blast

lemma below_less: "0 < n \<Longrightarrow> pred_state (\<lambda>x. x < n) (below rand n)"
  unfolding below_def by (rule bind_predI, rule pred_state_all) simp

text \<open>Reading back an aligned word.\<close>

lemma aligned_plus:
  fixes a :: u32
  assumes "unat a mod 4 = 0" "k < 4"
  shows "unat (a + of_nat k) = unat a + k"
proof -
  have "unat a < 4294967296" using unsigned_less [of a] by simp
  moreover obtain q where "unat a = 4 * q" using assms(1) by (metis mod_0_imp_dvd dvdE)
  ultimately have "unat a + 3 < 4294967296" by presburger
  then have "unat a + k < 2 ^ LENGTH(32)" using assms(2) by simp
  then show ?thesis using assms(2) by (simp add: unat_word_ariths unat_of_nat)
qed

lemma get_put_be32:
  assumes "unat a mod 4 = 0" "unat b mod 4 = 0"
  shows "get_be32 (put_be32 a v m) b = (if a = b then v else get_be32 m b)"
proof -
  have a: "unat (a + 1) = unat a + 1" "unat (a + 2) = unat a + 2" "unat (a + 3) = unat a + 3"
    using aligned_plus [OF assms(1), of 1] aligned_plus [OF assms(1), of 2] aligned_plus [OF assms(1), of 3] by simp_all
  have b: "unat (b + 1) = unat b + 1" "unat (b + 2) = unat b + 2" "unat (b + 3) = unat b + 3"
    using aligned_plus [OF assms(2), of 1] aligned_plus [OF assms(2), of 2] aligned_plus [OF assms(2), of 3] by simp_all
  have v: "push_bit 24 (ucast (ucast (drop_bit 24 v) :: u8)) OR push_bit 16 (ucast (ucast (drop_bit 16 v) :: u8))
      OR push_bit 8 (ucast (ucast (drop_bit 8 v) :: u8)) OR ucast (ucast v :: u8) = v"
  proof (rule bit_word_eqI)
    fix n assume "n < LENGTH(32)"
    then consider "n < 8" | "8 \<le> n" "n < 16" | "16 \<le> n" "n < 24" | "24 \<le> n" "n < 32" by fastforce
    then show "bit (push_bit 24 (ucast (ucast (drop_bit 24 v) :: u8)) OR push_bit 16 (ucast (ucast (drop_bit 16 v) :: u8))
      OR push_bit 8 (ucast (ucast (drop_bit 8 v) :: u8)) OR ucast (ucast v :: u8) :: u32) n = bit v n"
      by cases (auto simp: bit_simps)
  qed
  show ?thesis
  proof (cases "a = b")
    case True
    then show ?thesis using v by (simp add: get_be32_def put_be32_def b)
  next
    case False
    then have "unat a \<noteq> unat b" by (simp add: word_unat_eq_iff)
    then have "unat a + i \<noteq> unat b + j" if "i < 4" "j < 4" for i j
      using assms that by presburger
    from this [of 0 0] this [of 0 1] this [of 0 2] this [of 0 3] this [of 1 0] this [of 1 1] this [of 1 2] this [of 1 3]
      this [of 2 0] this [of 2 1] this [of 2 2] this [of 2 3] this [of 3 0] this [of 3 1] this [of 3 2] this [of 3 3]
    show ?thesis using False by (simp add: get_be32_def put_be32_def a b)
  qed
qed

text \<open>An entry whose frame lies in memory.\<close>

definition good_pte :: "u32 \<Rightarrow> bool" where
  "good_pte w \<longleftrightarrow> push_bit 6 (w AND 0x03ffffc0) \<le> 0xfff000"

lemma frame_bits:
  fixes f y :: u32
  shows "push_bit 6 (((drop_bit 6 f AND 0x03ffffc0) OR (y AND 0x3f)) AND 0x03ffffc0) = f AND 0xfffff000"
    and "push_bit 6 (((drop_bit 6 f AND 0x03ffffc0) OR (y AND 0x3f) OR (z AND 0xfc000000)) AND 0x03ffffc0) = f AND 0xfffff000"
proof -
  have m: "(0x03ffffc0 :: u32) = push_bit 6 (mask 20)" "(0x3f :: u32) = mask 6" "(0xfffff000 :: u32) = push_bit 12 (mask 20)"
    "(0xfc000000 :: u32) = push_bit 26 (mask 6)" by (simp_all add: mask_eq_exp_minus_1)
  show "push_bit 6 (((drop_bit 6 f AND 0x03ffffc0) OR (y AND 0x3f)) AND 0x03ffffc0) = f AND 0xfffff000"
    unfolding m by (rule bit_word_eqI) (auto simp: bit_simps)
  show "push_bit 6 (((drop_bit 6 f AND 0x03ffffc0) OR (y AND 0x3f) OR (z AND 0xfc000000)) AND 0x03ffffc0) = f AND 0xfffff000"
    unfolding m by (rule bit_word_eqI) (auto simp: bit_simps)
qed

lemma scaled_less:
  fixes x :: u32
  assumes "0 < n" "c + n * 4096 < 2 ^ 32"
  shows "\<exists>q < n. of_nat c + (x mod of_nat n) * 0x1000 = (of_nat (c + q * 4096) :: u32)"
proof -
  have n: "unat (of_nat n :: u32) = n" using assms by (simp add: unat_of_nat)
  then have "unat (x mod of_nat n) < n" using assms(1) by (simp add: unat_mod)
  moreover have "of_nat c + (x mod of_nat n) * 0x1000 = (of_nat (c + unat (x mod of_nat n) * 4096) :: u32)" by simp
  ultimately show ?thesis by blast
qed

lemma good_pte_of: "good_pte (pte_of x y)"
proof -
  obtain q where q: "q < 4000" "0x00010000 + (x mod 4000) * 0x1000 = (of_nat (0x10000 + q * 4096) :: u32)"
    using scaled_less [of 4000 "0x10000" x] by auto
  have "(of_nat (0x10000 + q * 4096) :: u32) AND 0xfffff000 \<le> of_nat (0x10000 + q * 4096)" by (rule word_and_le2)
  also have "(of_nat (0x10000 + q * 4096) :: u32) \<le> 0xfff000"
    using q(1) by (simp add: word_le_nat_alt unat_of_nat del: of_nat_add of_nat_mult)
  finally show ?thesis unfolding good_pte_def pte_of_def Let_def frame_bits q(2) .
qed

text \<open>A page of the test: aligned, inside memory.\<close>

definition page_of :: "u32 \<Rightarrow> bool" where
  "page_of p \<longleftrightarrow> p AND 0xfffff000 = p \<and> (\<exists>q < 4096. unat p = 4096 * q)"

lemma pt_page_ok: "page_of (pt_page x)"
proof -
  obtain q where q: "q < 3800" "0x00100000 + (x mod 3800) * 0x1000 = (of_nat (0x100000 + q * 4096) :: u32)"
    using scaled_less [of 3800 "0x100000" x] by auto
  define p where "p = 256 + q"
  have p: "p < 4096" "0x100000 + q * 4096 = 4096 * p" using q(1) by (simp_all add: p_def)
  have s: "(of_nat (4096 * p) :: u32) = push_bit 12 (of_nat p)" by (simp add: push_bit_eq_mult)
  have lt: "(of_nat p :: u32) = take_bit 12 (of_nat p)" using p(1)
    by (simp add: take_bit_of_nat take_bit_nat_eq_self)
  have m: "MEMSZ - 1 = mask 24" "(0xfffff000 :: u32) = push_bit 12 (mask 20)" by (simp_all add: MEMSZ_def mask_eq_exp_minus_1)
  have a: "pt_page x = of_nat (4096 * p)"
    unfolding pt_page_def q(2) p(2) s m by (subst (1 2) lt, rule bit_word_eqI) (auto simp: bit_simps)
  have b: "pt_page x AND 0xfffff000 = pt_page x"
    unfolding a s m by (rule bit_word_eqI) (auto simp: bit_simps)
  have "unat (pt_page x) = 4096 * p" unfolding a using p(1) by (simp add: unat_of_nat del: of_nat_mult)
  with b p(1) show ?thesis by (auto simp: page_of_def)
qed

lemma page_word:
  assumes "page_of p" "k < 1024"
  shows "unat (p + 4 * of_nat k) = unat p + 4 * k" "unat (p + 4 * of_nat k) mod 4 = 0"
proof -
  obtain q where q: "q < 4096" "unat p = 4096 * q" using assms(1) by (auto simp: page_of_def)
  have k: "(4 * of_nat k :: u32) = of_nat (4 * k)" by simp
  have "4096 * q + 4 * k < 2 ^ LENGTH(32)" using q(1) assms(2) by simp
  then show w: "unat (p + 4 * of_nat k) = unat p + 4 * k"
    unfolding k using q(2) assms(2) by (simp add: unat_word_ariths unat_of_nat del: of_nat_mult)
  have "4096 * q + 4 * k = 4 * (1024 * q + k)" by simp
  then show "unat (p + 4 * of_nat k) mod 4 = 0" unfolding w q(2) by (metis mod_mult_self1_is_0)
qed

definition table_good :: "mem \<Rightarrow> u32 \<Rightarrow> bool" where
  "table_good m p \<longleftrightarrow> (\<forall>k < 1024. good_pte (get_be32 m (p + 4 * of_nat k)))"

text \<open>Good words stay good when a table is filled, whatever the draws: the tables of the test can share a page.\<close>

definition keeps_good :: "mem \<Rightarrow> mem \<Rightarrow> bool" where
  "keeps_good m m' \<longleftrightarrow> (\<forall>b. unat b mod 4 = 0 \<longrightarrow> good_pte (get_be32 m b) \<longrightarrow> good_pte (get_be32 m' b))"

lemma keeps_good_trans: "keeps_good m m' \<Longrightarrow> keeps_good m' m'' \<Longrightarrow> keeps_good m m''"
  by (simp add: keeps_good_def)

lemma keeps_good_put: "unat a mod 4 = 0 \<Longrightarrow> good_pte v \<Longrightarrow> keeps_good m (put_be32 a v m)"
  by (simp add: keeps_good_def get_put_be32)

lemma keeps_table: "keeps_good m m' \<Longrightarrow> page_of p \<Longrightarrow> table_good m p \<Longrightarrow> table_good m' p"
  unfolding keeps_good_def table_good_def by (metis page_word(2))

lemma fill_ptes_good:
  assumes "page_of p" "list_all (\<lambda>k. k < 1024) ks"
  shows "pred_state (\<lambda>m'. keeps_good m m' \<and> list_all (\<lambda>k. good_pte (get_be32 m' (p + 4 * of_nat k))) ks) (fill_ptes rand p ks m)"
  using assms(2)
proof (induction ks arbitrary: m)
  case Nil
  then show ?case by (simp add: keeps_good_def)
next
  case (Cons k ks)
  have k: "unat (p + 4 * of_nat k) mod 4 = 0" using Cons.prems by (simp add: page_word(2) [OF assms(1)])
  have "pred_state (\<lambda>m'. keeps_good m m' \<and> list_all (\<lambda>k. good_pte (get_be32 m' (p + 4 * of_nat k))) (k # ks))
      (fill_ptes rand p ks (put_be32 (p + 4 * of_nat k) (pte_of x y) m))" for x y
  proof (rule pred_state_weaken [OF Cons.IH])
    let ?m = "put_be32 (p + 4 * of_nat k) (pte_of x y) m"
    have g: "good_pte (get_be32 ?m (p + 4 * of_nat k))" by (simp add: get_put_be32 k good_pte_of)
    fix m' assume a: "keeps_good ?m m' \<and> list_all (\<lambda>k. good_pte (get_be32 m' (p + 4 * of_nat k))) ks"
    have "keeps_good m m'" by (rule keeps_good_trans [OF keeps_good_put [OF k good_pte_of] conjunct1 [OF a]])
    moreover have "good_pte (get_be32 m' (p + 4 * of_nat k))" using a g k by (simp add: keeps_good_def)
    ultimately show "keeps_good m m' \<and> list_all (\<lambda>k. good_pte (get_be32 m' (p + 4 * of_nat k))) (k # ks)"
      using a by simp
  qed (use Cons.prems in simp)
  then show ?case unfolding fill_ptes.simps by (intro bind_predI pred_state_all [where M = "rnd rand"])
qed

lemma fill_table_good:
  assumes "page_of p"
  shows "pred_state (\<lambda>m'. keeps_good m m' \<and> table_good m' p) (fill_ptes rand p [0..<1024] m)"
  by (rule pred_state_weaken [OF fill_ptes_good [OF assms]]) (auto simp: list_all_iff table_good_def simp del: upt_rec_numeral)

text \<open>The four entries: each has its region above 1 GB and a good table in memory.\<close>

definition entry_good :: "mem \<Rightarrow> u32 \<times> u32 \<Rightarrow> bool" where
  "entry_good m e \<longleftrightarrow> (\<exists>b < 64. fst e AND 0xffc00000 = 0x40000000 + of_nat b * 0x00400000) \<and>
     table_good m (push_bit 6 (snd e AND 0x03ffffc0)) \<and> page_of (push_bit 6 (snd e AND 0x03ffffc0))"

lemma entry_good_keeps: "keeps_good m m' \<Longrightarrow> entry_good m e \<Longrightarrow> entry_good m' e"
  unfolding entry_good_def using keeps_table by blast

lemma tlb_hi_region:
  assumes "e < 4"
  shows "\<exists>b < 64. tlb_hi_of t e w AND 0xffc00000 = 0x40000000 + of_nat b * 0x00400000"
proof (intro exI conjI)
  define b where "b = e * 7 + 1 + t mod 5"
  show "b < 64" using assms mod_less_divisor [of 5 t] by (simp add: b_def del: mod_less_divisor)
  then have b: "(of_nat b :: u32) = take_bit 6 (of_nat b)" by (simp add: take_bit_of_nat take_bit_nat_eq_self)
  have c: "(0x40000000 + of_nat b * 0x00400000 :: u32) = push_bit 22 (of_nat (256 + b))"
    by (simp add: push_bit_eq_mult algebra_simps)
  have m: "(0xffc00000 :: u32) = push_bit 22 (mask 10)" "(0x003fffff :: u32) = mask 22" by (simp_all add: mask_eq_exp_minus_1)
  show "tlb_hi_of t e w AND 0xffc00000 = 0x40000000 + of_nat b * 0x00400000"
    unfolding tlb_hi_of_def b_def [symmetric] c m by (rule bit_word_eqI) (auto simp: bit_simps)
qed

lemma entry_good_drawn:
  assumes "e < 4" "table_good m (pt_page x)"
  shows "entry_good m (tlb_hi_of t e w, tlb_lo_of (pt_page x) y z)"
proof -
  have "pt_page x AND 0xfffff000 = pt_page x" using pt_page_ok by (simp add: page_of_def)
  then have "push_bit 6 (tlb_lo_of (pt_page x) y z AND 0x03ffffc0) = pt_page x"
    unfolding tlb_lo_of_def frame_bits .
  then show ?thesis using tlb_hi_region [OF assms(1)] assms(2) pt_page_ok by (simp add: entry_good_def)
qed

lemma draw_entries_good:
  assumes "list_all (\<lambda>e. e < 4) es"
  shows "pred_state (\<lambda>(tlb, m'). keeps_good m m' \<and> length tlb = length es \<and> list_all (entry_good m') tlb) (draw_entries rand t es m)"
  using assms
proof (induction es arbitrary: m)
  case Nil
  then show ?case by (simp add: keeps_good_def)
next
  case (Cons e es)
  have "pred_state (\<lambda>m1. pred_state (\<lambda>(tlb, m'). keeps_good m m' \<and> length tlb = length (e # es) \<and> list_all (entry_good m') tlb)
      (draw_entries rand t es m1 \<bind> (\<lambda>(tlb, m'). State_Monad.return ((tlb_hi_of t e w, tlb_lo_of (pt_page x) y z) # tlb, m'))))
      (fill_ptes rand (pt_page x) [0..<1024] m)" for w x y z
  proof (rule pred_state_weaken [OF fill_table_good [OF pt_page_ok]])
    fix m1 assume m1: "keeps_good m m1 \<and> table_good m1 (pt_page x)"
    show "pred_state (\<lambda>(tlb, m'). keeps_good m m' \<and> length tlb = length (e # es) \<and> list_all (entry_good m') tlb)
      (draw_entries rand t es m1 \<bind> (\<lambda>(tlb, m'). State_Monad.return ((tlb_hi_of t e w, tlb_lo_of (pt_page x) y z) # tlb, m')))"
    proof (rule bind_predI, rule pred_state_weaken [OF Cons.IH])
      fix tm :: "(u32 \<times> u32) list \<times> mem"
      assume a: "case tm of (tlb, m') \<Rightarrow> keeps_good m1 m' \<and> length tlb = length es \<and> list_all (entry_good m') tlb"
      obtain tlb m' where tm: "tm = (tlb, m')" by (cases tm)
      have "entry_good m' (tlb_hi_of t e w, tlb_lo_of (pt_page x) y z)"
        using a m1 Cons.prems by (auto simp: tm intro: entry_good_keeps [OF _ entry_good_drawn])
      then show "pred_state (\<lambda>(tlb, m'). keeps_good m m' \<and> length tlb = length (e # es) \<and> list_all (entry_good m') tlb)
          (case tm of (tlb, m') \<Rightarrow> State_Monad.return ((tlb_hi_of t e w, tlb_lo_of (pt_page x) y z) # tlb, m'))"
        using a m1 keeps_good_trans by (auto simp: tm)
    qed (use Cons.prems in simp)
  qed
  then show ?case unfolding draw_entries.simps by (intro bind_predI pred_state_all [where M = "rnd rand"])
qed

lemma shadow_good:
  assumes "list_all (entry_good m) tlb" "length tlb = 4"
  shows "list_all (entry_good m) (shadow t tlb)" "length (shadow t tlb) = 4"
proof -
  have "entry_good m (fst (tlb ! 1), snd (tlb ! 2))" using assms by (simp add: list_all_length entry_good_def)
  then show "list_all (entry_good m) (shadow t tlb)" using assms by (auto simp: shadow_def list_all_length nth_list_update)
qed (simp add: shadow_def assms(2))

text \<open>Translation through good tables ends in memory.\<close>

lemma translate_in_memory:
  assumes "list_all (entry_good m) tlb" "list_ex (\<lambda>e. va AND 0xffc00000 = fst e AND 0xffc00000) tlb \<or> va < MEMSZ"
  shows "ref_translate m tlb va < MEMSZ"
  using assms
proof (induction tlb)
  case (Cons e tlb)
  show ?case
  proof (cases "va AND 0xffc00000 = fst e AND 0xffc00000")
    case True
    define k where "k = unat (drop_bit 12 (va AND 0x003ff000))"
    have m: "(0x003ff000 :: u32) = push_bit 12 (mask 10)" by (simp add: mask_eq_exp_minus_1)
    have "drop_bit 12 (va AND 0x003ff000) = take_bit 10 (drop_bit 12 va)"
      unfolding m by (rule bit_word_eqI) (auto simp: bit_simps)
    then have k: "k < 1024" unfolding k_def using take_bit_nat_less_exp [of 10 "unat (drop_bit 12 va)"] by (simp add: unsigned_take_bit_eq)
    have a: "push_bit 2 (drop_bit 12 (va AND 0x003ff000)) = 4 * (of_nat k :: u32)" by (simp add: k_def push_bit_eq_mult)
    define f where "f = push_bit 6 (get_be32 m (push_bit 6 (snd e AND 0x03ffffc0) + 4 * of_nat k) AND 0x03ffffc0)"
    have "f \<le> 0xfff000" using Cons.prems(1) k by (simp add: f_def entry_good_def table_good_def good_pte_def)
    then have f: "unat f \<le> 0xfff000" by (simp add: word_le_nat_alt)
    have "va AND 0xfff \<le> 0xfff" by (rule word_and_le1)
    then have v: "unat (va AND 0xfff) \<le> 0xfff" by (simp add: word_le_nat_alt)
    have "unat (f + (va AND 0xfff)) = unat f + unat (va AND 0xfff)" using f v by (simp add: unat_word_ariths)
    then have "f + (va AND 0xfff) < MEMSZ" using f v by (simp add: word_less_nat_alt MEMSZ_def)
    moreover have "ref_translate m (e # tlb) va = f + (va AND 0xfff)"
      using True unfolding f_def a [symmetric] by (cases e) (simp only: ref_translate.simps fst_conv snd_conv Let_def refl if_True)
    ultimately show ?thesis by simp
  next
    case False
    then show ?thesis using Cons by (cases e) (auto simp: Let_def)
  qed
qed simp

text \<open>The drawn transfer: its shape, and where it starts.\<close>

definition starts_in :: "(u32 \<times> u32) list \<Rightarrow> u32 \<Rightarrow> bool" where
  "starts_in tlb a \<longleftrightarrow> 0x100000 \<le> unat a \<and> unat a < 0xf00000 \<or>
     (\<exists>e < 4. \<exists>off. 0x10000 \<le> off \<and> off < 0x3f0000 \<and> a = (fst (tlb ! e) AND 0xffc00000) + of_nat off)"

lemma mod_range:
  fixes x :: u32
  assumes "0 < n" "c + n < 2 ^ 32"
  shows "\<exists>q < n. of_nat c + x mod of_nat n = (of_nat (c + q) :: u32) \<and> unat (of_nat (c + q) :: u32) = c + q"
proof -
  have n: "unat (of_nat n :: u32) = n" using assms by (simp add: unat_of_nat)
  then have q: "unat (x mod of_nat n) < n" using assms(1) by (simp add: unat_mod)
  moreover have "of_nat c + x mod of_nat n = (of_nat (c + unat (x mod of_nat n)) :: u32)" by simp
  moreover have "unat (of_nat (c + unat (x mod of_nat n)) :: u32) = c + unat (x mod of_nat n)"
    using q assms(2) by (simp add: unat_of_nat del: of_nat_add)
  ultimately show ?thesis by blast
qed

lemma draw_memadr_starts: "pred_state (\<lambda>(phys, a). starts_in tlb a) (draw_memadr rand tlb)"
proof -
  have p: "starts_in tlb (0x00100000 + x mod 0x00e00000)" for x
    using mod_range [of "0xe00000" "0x100000" x] by (auto simp: starts_in_def)
  have v: "starts_in tlb ((fst (tlb ! e) AND 0xffc00000) + 0x00010000 + x mod 0x003e0000)" if "e < 4" for e x
  proof -
    obtain q where "q < 0x3e0000" "0x00010000 + x mod 0x003e0000 = (of_nat (0x10000 + q) :: u32)"
      using mod_range [of "0x3e0000" "0x10000" x] by auto
    then have "0x10000 + q < 0x3f0000"
      "(fst (tlb ! e) AND 0xffc00000) + 0x00010000 + x mod 0x003e0000 = (fst (tlb ! e) AND 0xffc00000) + of_nat (0x10000 + q)"
      by (simp_all only: add.assoc)
    then show ?thesis unfolding starts_in_def using that by (intro disjI2 exI [of _ e] exI [of _ "0x10000 + q"] conjI) simp_all
  qed
  have "pred_state (\<lambda>(phys, a). starts_in tlb a) (below rand 4 \<bind>
      (\<lambda>e. rnd rand \<bind> (\<lambda>x. State_Monad.return (False, (fst (tlb ! e) AND 0xffc00000) + 0x00010000 + x mod 0x003e0000))))"
    by (rule bind_predI, rule pred_state_weaken [OF below_less]) (auto intro!: bind_predI pred_state_all [where M = "rnd rand"] v)
  moreover have "pred_state (\<lambda>(phys, a). starts_in tlb a) (rnd rand \<bind> (\<lambda>x. State_Monad.return (True, 0x00100000 + x mod 0x00e00000)))"
    by (auto intro!: bind_predI pred_state_all [where M = "rnd rand"] p)
  ultimately show ?thesis unfolding draw_memadr_def by (intro bind_predI pred_state_all [where M = "below rand 4"]) simp
qed

lemma draw_or_le:
  assumes "0 < n" "n \<le> c + 1" "unat dflt \<le> c" "n < 2 ^ 32"
  shows "pred_state (\<lambda>x. unat x \<le> c) (draw_or rand n dflt)"
proof -
  have "pred_state (\<lambda>x. unat x \<le> c) (below rand n \<bind> (\<lambda>x. State_Monad.return (of_nat x :: u32)))"
    by (rule bind_predI, rule pred_state_weaken [OF below_less [OF assms(1)]]) (use assms in \<open>simp add: unat_of_nat\<close>)
  then show ?thesis unfolding draw_or_def using assms(3) by (intro bind_predI pred_state_all [where M = "below rand 4"]) simp
qed

definition job_ok :: "(u32 \<times> u32) list \<Rightarrow> vd_job \<Rightarrow> bool" where
  "job_ok tlb j \<longleftrightarrow> unat (jb_lines j) \<le> 6 \<and> unat (jb_width j) \<le> 40 \<and> unat (jb_lzoom j) \<le> 3 \<and> \<bar>sint (jb_stride j)\<bar> \<le> 65 \<and>
     unat (jb_cbytes j) \<le> 40 \<and> unat (jb_czoom j) \<le> 3 \<and> starts_in tlb (jb_memadr j)"

lemma stride_range: "n < 130 \<Longrightarrow> \<bar>sint (of_int (int n - 64) :: u16)\<bar> \<le> 65"
  by (simp add: signed_of_int signed_take_bit_int_eq_self del: of_int_diff)

lemma draw_job_ok: "pred_state (job_ok tlb) (draw_job rand t tlb)"
proof -
  note B = bind_predI [OF pred_state_weaken]
  have w: "unat (1 + of_nat n :: u32) = 1 + n" if "n < 40" for n
    using that by (simp add: unat_word_ariths unat_of_nat)
  have z: "pred_state (\<lambda>x. unat x \<le> 3) (draw_or rand 4 d)" if "unat d \<le> 3" for d
    using draw_or_le [of 4 3 d] that by simp
  have c: "pred_state (\<lambda>x. unat x \<le> 40) (draw_or rand 41 (1 + of_nat n))" if "n < 40" for n
    using draw_or_le [of 41 40 "1 + of_nat n"] that by (simp add: w)
  have one: "unat (1 :: u32) \<le> 3" by simp
  show ?thesis
    unfolding draw_job_def
    apply (rule B [OF below_less [of 7]], rule zero_less_numeral)
    apply (rule B [OF below_less [of 40]], rule zero_less_numeral)
    apply (rule B [OF z [OF one]])
    apply (rule B [OF below_less [of 130]], rule zero_less_numeral)
    apply (rule B [OF c], assumption)
    apply (rule B [OF z], assumption)
    apply (rule B [OF draw_memadr_starts [of tlb]], clarify)
    apply (rule bind_predI, rule pred_state_all, rule bind_predI, rule pred_state_all)
    apply (simp add: job_ok_def w stride_range unat_of_nat del: of_int_diff)
    done
qed

lemma region_add:
  assumes "k < 0x400000" "fst e AND 0xffc00000 = (0x40000000 + of_nat b * 0x00400000 :: u32)"
  shows "((fst e AND 0xffc00000) + of_nat k) AND 0xffc00000 = fst e AND 0xffc00000"
proof -
  have c: "(0x40000000 + of_nat b * 0x00400000 :: u32) = push_bit 22 (of_nat (256 + b))"
    by (simp add: push_bit_eq_mult algebra_simps)
  have k: "(of_nat k :: u32) = take_bit 22 (of_nat k)" using assms(1) by (simp add: take_bit_of_nat take_bit_nat_eq_self)
  have m: "(0xffc00000 :: u32) = push_bit 22 (mask 10)" by (simp add: mask_eq_exp_minus_1)
  have s: "push_bit 22 x + take_bit 22 y = push_bit 22 x OR take_bit 22 y" for x y :: u32
    by (rule disjunctive_add_eq_or) (rule bit_word_eqI, simp add: bit_simps)
  show ?thesis unfolding assms(2) c
    by (subst k, subst s, unfold m) (rule bit_word_eqI, auto simp: bit_simps)
qed

lemma near_in_memory:
  assumes "starts_in tlb a" "length tlb = 4" "list_all (entry_good m) tlb" "\<bar>d\<bar> \<le> 2048"
  shows "ref_translate m tlb (a + of_int d) < MEMSZ"
proof (rule translate_in_memory [OF assms(3)])
  show "list_ex (\<lambda>e. a + of_int d AND 0xffc00000 = fst e AND 0xffc00000) tlb \<or> a + of_int d < MEMSZ"
    using assms(1) unfolding starts_in_def
  proof (elim disjE exE conjE)
    assume a: "0x100000 \<le> unat a" "unat a < 0xf00000"
    define n where "n = nat (int (unat a) + d)"
    have "int n = int (unat a) + d" "n < 0x1000000" using a assms(4) unfolding n_def by linarith+
    then have "of_int (int n) = of_int (int (unat a)) + (of_int d :: u32)" by simp
    then have "a + of_int d = of_nat n" by simp
    then show ?thesis using \<open>n < 0x1000000\<close> by (simp add: MEMSZ_def word_less_nat_alt unat_of_nat)
  next
    fix e off assume e: "e < 4" and f: "0x10000 \<le> off" "off < 0x3f0000" and a: "a = (fst (tlb ! e) AND 0xffc00000) + of_nat off"
    define n where "n = nat (int off + d)"
    have n: "int n = int off + d" "n < 0x400000" using f assms(4) by (simp_all add: n_def)
    then have "(of_nat off :: u32) + of_int d = of_nat n" by (metis of_int_add of_int_of_nat_eq)
    then have s: "a + of_int d = (fst (tlb ! e) AND 0xffc00000) + of_nat n" by (simp add: a add.assoc)
    have g: "tlb ! e \<in> set tlb" "entry_good m (tlb ! e)" using e assms(2,3) by (simp_all add: list_all_length)
    then obtain b where b: "fst (tlb ! e) AND 0xffc00000 = 0x40000000 + of_nat b * 0x00400000" by (auto simp: entry_good_def)
    have "a + of_int d AND 0xffc00000 = fst (tlb ! e) AND 0xffc00000" unfolding s by (rule region_add [OF n(2) b])
    then show ?thesis using g(1) by (auto simp: list_ex_iff)
  qed
qed

text \<open>The addresses the reference reads, in order: the bytes of a line, its repetitions, the lines.\<close>

fun reads_zoom :: "nat \<Rightarrow> nat \<Rightarrow> nat \<Rightarrow> u32 \<Rightarrow> nat \<times> u32 \<times> u32 list" where
  "reads_zoom width 0 nbytes a = (nbytes, a, [])"
| "reads_zoom width (Suc z) nbytes a =
     (let (n, b, rs) = reads_zoom width z width (if z > 0 then a + of_nat nbytes - of_nat width else a + of_nat nbytes)
      in (n, b, map (\<lambda>i. a + of_nat i) [0..<nbytes] @ rs))"

fun reads_lines :: "nat \<Rightarrow> nat \<Rightarrow> u32 \<Rightarrow> nat \<Rightarrow> nat \<Rightarrow> nat \<Rightarrow> u32 \<Rightarrow> u32 list" where
  "reads_lines width line_zoom stride 0 zoom nbytes a = []"
| "reads_lines width line_zoom stride (Suc n) zoom nbytes a =
     (let (nbytes, a, rs) = reads_zoom width zoom nbytes a
      in rs @ reads_lines width line_zoom stride n line_zoom nbytes (a + stride))"

definition ref_reads :: "u32 \<Rightarrow> u32 \<Rightarrow> u32 \<Rightarrow> u32 \<Rightarrow> u32 list" where
  "ref_reads memadr size_r stride_r count_r =
     reads_lines (unat (size_r AND 0xffff)) (unat (drop_bit 16 stride_r AND 0x3ff)) (scast (ucast stride_r :: u16))
       (unat (drop_bit 16 size_r)) (unat (drop_bit 16 count_r AND 0x3ff)) (unat (count_r AND 0xffff)) memadr"

lemma region_cong:
  "(\<And>i. i < n \<Longrightarrow> ref_byte m tlb (a + of_nat i) = ref_byte m' tlb' (a + of_nat i)) \<Longrightarrow> region m tlb a n = region m' tlb' a n"
  by (simp add: region_def)

lemma ref_zoom_reads:
  assumes "reads_zoom width z nbytes a = (n, b, rs)" "\<And>x. x \<in> set rs \<Longrightarrow> ref_byte m tlb x = ref_byte m' tlb' x"
  shows "\<exists>out'. ref_zoom m tlb width z nbytes (a, out) = (n, b, out') \<and> ref_zoom m' tlb' width z nbytes (a, out) = (n, b, out')"
  using assms
proof (induction z arbitrary: nbytes a rs out)
  case (Suc z)
  let ?a = "if z > 0 then a + of_nat nbytes - of_nat width else a + of_nat nbytes"
  obtain rs' where rs': "reads_zoom width z width ?a = (n, b, rs')" "rs = map (\<lambda>i. a + of_nat i) [0..<nbytes] @ rs'"
    using Suc.prems(1) by (auto simp: Let_def split: prod.splits)
  have "region m tlb a nbytes = region m' tlb' a nbytes" by (rule region_cong) (simp add: Suc.prems(2) rs'(2))
  moreover have "x \<in> set rs' \<Longrightarrow> ref_byte m tlb x = ref_byte m' tlb' x" for x using Suc.prems(2) rs'(2) by simp
  ultimately show ?case
    using Suc.IH [OF rs'(1), of "out @ pack8 (region m tlb a nbytes)"]
    by (simp only: ref_zoom.simps ref_bytes_pack Let_def prod.case fst_conv snd_conv)
qed simp

text \<open>Memories and entries that give the same bytes at these addresses give the same transfer.\<close>

lemma ref_lines_reads:
  assumes "\<And>x. x \<in> set (reads_lines width lz stride n zoom nbytes a) \<Longrightarrow> ref_byte m tlb x = ref_byte m' tlb' x"
  shows "ref_lines m tlb width lz stride n zoom nbytes (a, out) = ref_lines m' tlb' width lz stride n zoom nbytes (a, out)"
  using assms
proof (induction n arbitrary: zoom nbytes a out)
  case (Suc n)
  obtain k b rs where rz: "reads_zoom width zoom nbytes a = (k, b, rs)" by (metis prod_cases3)
  then have "x \<in> set rs \<Longrightarrow> ref_byte m tlb x = ref_byte m' tlb' x" for x using Suc.prems by simp
  from ref_zoom_reads [OF rz this, of out] obtain out' where
    "ref_zoom m tlb width zoom nbytes (a, out) = (k, b, out')" "ref_zoom m' tlb' width zoom nbytes (a, out) = (k, b, out')" by blast
  moreover have "x \<in> set (reads_lines width lz stride n lz k (b + stride)) \<Longrightarrow> ref_byte m tlb x = ref_byte m' tlb' x" for x
    using Suc.prems rz by simp
  ultimately show ?case using Suc.IH by simp
qed simp

lemma ref_perform_reads:
  assumes "\<And>x. x \<in> set (ref_reads memadr size_r stride_r count_r) \<Longrightarrow> ref_byte m tlb x = ref_byte m' tlb' x"
  shows "ref_perform m tlb memadr size_r stride_r count_r = ref_perform m' tlb' memadr size_r stride_r count_r"
  unfolding ref_perform_def by (rule ref_lines_reads) (use assms in \<open>simp add: ref_reads_def\<close>)

text \<open>How far from its start a transfer of the test can get.\<close>

definition within :: "int \<Rightarrow> u32 \<Rightarrow> u32 \<Rightarrow> bool" where
  "within B a x \<longleftrightarrow> (\<exists>d. \<bar>d\<bar> \<le> B \<and> x = a + of_int d)"

lemma within_trans: "within B a x \<Longrightarrow> within C x y \<Longrightarrow> B + C \<le> D \<Longrightarrow> within D a y"
  unfolding within_def
  by (elim exE conjE) (rule exI [of _ "_ + _"], auto simp: add.assoc intro!: exI)

lemma within_refl: "0 \<le> B \<Longrightarrow> within B a a"
  by (auto simp: within_def intro: exI [of _ 0])

lemma within_add: "\<bar>d\<bar> \<le> B \<Longrightarrow> within B a (a + of_int d)"
  by (auto simp: within_def)

lemma reads_zoom_within:
  assumes "reads_zoom width z nbytes a = (n, b, rs)" "nbytes \<le> 40" "width \<le> 40"
  shows "n \<le> 40 \<and> within (40 * int z) a b \<and> list_all (within (40 * int z) a) rs"
  using assms(1,2)
proof (induction z arbitrary: nbytes a rs)
  case 0
  then show ?case by (auto intro: within_refl)
next
  case (Suc z)
  define c where "c = (if z > 0 then int nbytes - int width else int nbytes)"
  have c: "\<bar>c\<bar> \<le> 40" "(if z > 0 then a + of_nat nbytes - of_nat width else a + of_nat nbytes) = a + of_int c"
    using Suc.prems(2) assms(3) by (auto simp: c_def)
  obtain rs' where rs': "reads_zoom width z width (a + of_int c) = (n, b, rs')" "rs = map (\<lambda>i. a + of_nat i) [0..<nbytes] @ rs'"
    using Suc.prems(1) unfolding reads_zoom.simps c(2) by (auto simp: Let_def split: prod.splits)
  have t: "within (40 * int z) (a + of_int c) x \<Longrightarrow> within (40 * int (Suc z)) a x" for x
    by (rule within_trans [OF within_add [OF c(1)]], assumption) simp
  have "within (40 * int (Suc z)) a (a + of_nat i)" if "i < nbytes" for i
    using within_add [of "int i" "40 * int (Suc z)" a] that Suc.prems(2) by simp
  then show ?case using Suc.IH [OF rs'(1) assms(3)] t by (auto simp: rs'(2) list_all_iff)
qed

lemma reads_lines_within:
  assumes "zoom \<le> 3" "lz \<le> 3" "nbytes \<le> 40" "width \<le> 40" "\<bar>sd\<bar> \<le> 65"
  shows "list_all (within (185 * int n) a) (reads_lines width lz (of_int sd) n zoom nbytes a)"
  using assms(1,3)
proof (induction n arbitrary: zoom nbytes a)
  case (Suc n)
  obtain k b rs where rz: "reads_zoom width zoom nbytes a = (k, b, rs)" by (metis prod_cases3)
  from reads_zoom_within [OF rz Suc.prems(2) assms(4)] have z: "k \<le> 40" "within (40 * int zoom) a b" "list_all (within (40 * int zoom) a) rs"
    by auto
  have s: "within 185 a (b + of_int sd)"
    by (rule within_trans [OF z(2) within_add [OF assms(5)]]) (use Suc.prems(1) in simp)
  have "list_all (within (185 * int n) (b + of_int sd)) (reads_lines width lz (of_int sd) n lz k (b + of_int sd))"
    by (rule Suc.IH [OF assms(2) z(1)])
  then have "list_all (within (185 * int (Suc n)) a) (reads_lines width lz (of_int sd) n lz k (b + of_int sd))"
    by (rule list.pred_mono_strong) (auto intro: within_trans [OF s])
  moreover have "list_all (within (185 * int (Suc n)) a) rs"
    using z(3) by (rule list.pred_mono_strong) (rule within_trans [OF _ within_refl [of 0]], use Suc.prems(1) in auto)
  ultimately show ?case by (simp add: rz)
qed simp

lemma packed_fields:
  fixes h l :: u32
  assumes "unat h < 1024" "unat l < 65536"
  shows "(push_bit 16 h OR l) AND 0xffff = l" "drop_bit 16 (push_bit 16 h OR l) = h" "drop_bit 16 (push_bit 16 h OR l) AND 0x3ff = h"
    "ucast (push_bit 16 h OR l) = (ucast l :: u16)"
proof -
  have h: "h = take_bit 10 h" using assms(1) by (simp add: word_unat_eq_iff unsigned_take_bit_eq take_bit_nat_eq_self)
  have l: "l = take_bit 16 l" using assms(2) by (simp add: word_unat_eq_iff unsigned_take_bit_eq take_bit_nat_eq_self)
  have m: "(0xffff :: u32) = mask 16" "(0x3ff :: u32) = mask 10" by (simp_all add: mask_eq_exp_minus_1)
  have b: "bit h n \<Longrightarrow> n < 10" "bit l n \<Longrightarrow> n < 16" for n
    by (subst (asm) h, simp add: bit_simps) (subst (asm) l, simp add: bit_simps)
  show "(push_bit 16 h OR l) AND 0xffff = l" "drop_bit 16 (push_bit 16 h OR l) = h" "drop_bit 16 (push_bit 16 h OR l) AND 0x3ff = h"
    unfolding m by (rule bit_word_eqI; auto simp: bit_simps dest: b)+
  show "ucast (push_bit 16 h OR l) = (ucast l :: u16)" by (rule bit_word_eqI) (auto simp: bit_simps)
qed

lemma job_reads:
  assumes "job_ok tlb j"
  shows "list_all (within 2048 (jb_memadr j)) (ref_reads (jb_memadr j) (jb_size j) (jb_stride_r j) (jb_count j))"
proof -
  have j: "unat (jb_lines j) \<le> 6" "unat (jb_width j) \<le> 40" "unat (jb_lzoom j) \<le> 3" "\<bar>sint (jb_stride j)\<bar> \<le> 65"
    "unat (jb_cbytes j) \<le> 40" "unat (jb_czoom j) \<le> 3" using assms by (simp_all add: job_ok_def)
  have st: "unat (ucast (jb_stride j) :: u32) < 65536" 
  proof -
    have "unat (jb_stride j) < 2 ^ LENGTH(16)" by (rule unsigned_less)
    then show ?thesis by (simp add: unsigned_ucast_eq take_bit_nat_eq_self)
  qed
  have "ref_reads (jb_memadr j) (jb_size j) (jb_stride_r j) (jb_count j) =
      reads_lines (unat (jb_width j)) (unat (jb_lzoom j)) (of_int (sint (jb_stride j))) (unat (jb_lines j)) (unat (jb_czoom j)) (unat (jb_cbytes j)) (jb_memadr j)"
  proof -
    note size = packed_fields [of "jb_lines j" "jb_width j"] and count = packed_fields [of "jb_czoom j" "jb_cbytes j"]
      and stride = packed_fields [of "jb_lzoom j" "ucast (jb_stride j)"]
    have u: "ucast (ucast (jb_stride j) :: u32) = jb_stride j" by (rule bit_word_eqI) (simp add: bit_simps)
    have c: "scast (jb_stride j) = (of_int (sint (jb_stride j)) :: u32)" by simp
    show ?thesis
      unfolding ref_reads_def jb_size_def jb_stride_r_def jb_count_def
      using size(1,2) count(1,3) stride(3,4) j st by (simp only: u c le_less_trans [of _ 6 1024] le_less_trans [of _ 3 1024] le_less_trans [of _ 40 65536])
  qed
  moreover have "list_all (within (185 * int (unat (jb_lines j))) (jb_memadr j)) \<dots>"
    by (rule reads_lines_within) (use j in auto)
  moreover have "185 * int (unat (jb_lines j)) + 0 \<le> 2048" using j(1) by linarith
  ultimately show ?thesis
    by (simp only:) (erule list.pred_mono_strong, erule within_trans [OF _ within_refl [OF order_refl]], assumption)
qed

text \<open>
  C32.  Every scenario the test draws stays inside its memory: whatever \<^verbatim>\<open>rand\<close> returns, each byte the
  reference reads for the transfer is translated, through the tables set up for it or physically,
  to an address below \<^verbatim>\<open>MEMSZ\<close>, so the mask of the reference never bites and a correct engine
  makes no access that ends the test.
\<close>

theorem vdma_scenario_bounds:
  "case vt_arm rand t sg of (j, tlb, s', g') \<Rightarrow>
     list_all (\<lambda>a. ref_translate (vd_mem (vt_port s')) tlb a < MEMSZ)
       (ref_reads (jb_memadr j) (jb_size j) (jb_stride_r j) (jb_count j))"
proof -
  obtain s g where sg: "sg = (s, g)" by (cases sg)
  obtain tlb m g1 where e: "run_state (draw_entries rand t [0..<4] (vd_mem (vt_port s))) g = ((tlb, m), g1)" by (metis prod.exhaust)
  obtain j g2 where j: "run_state (draw_job rand t (shadow t tlb)) g1 = (j, g2)" by (metis prod.exhaust)
  have "list_all (\<lambda>e. e < 4) [0..<4]" by (simp add: list_all_iff del: upt_rec_numeral)
  from pred_stateD [OF draw_entries_good [OF this] e] have t: "list_all (entry_good m) tlb" "length tlb = 4" by auto
  have ok: "job_ok (shadow t tlb) j" by (rule pred_stateD [OF draw_job_ok j])
  then have st: "starts_in (shadow t tlb) (jb_memadr j)" by (simp add: job_ok_def)
  have "list_all (\<lambda>a. ref_translate m (shadow t tlb) a < MEMSZ) (ref_reads (jb_memadr j) (jb_size j) (jb_stride_r j) (jb_count j))"
    using job_reads [OF ok] by (rule list.pred_mono_strong) (auto simp: within_def intro: near_in_memory [OF st shadow_good(2,1) [OF t]])
  then show ?thesis by (simp add: sg vt_arm_def e j Let_def del: upt_rec_numeral)
qed

section \<open>What a pass means\<close>

text \<open>The record handed over in a cycle, with its address, and those of \<open>n\<close> cycles.\<close>

definition vt_hands :: "'d vd_dut \<Rightarrow> 'r rand \<Rightarrow> 'd vd_tb \<times> 'r \<Rightarrow> (u64 \<times> u32) list" where
  "vt_hands E rand = (\<lambda>(s, g).
     (case vd_answer (vt_cyc s) (vt_port s) of None \<Rightarrow> []
      | Some p \<Rightarrow>
        (let ready = fst (rand g) mod 100 < vt_ready_pct s;
             v = vd_shows E (vd_eval E False ((vt_pins s)\<lparr>vi_rsp_valid := dn_rsp_valid p, vi_rsp_data := dn_rsp_load_data p,
               vi_rec_ready := ready\<rparr>) (vt_dut s))
         in if v_rec_valid v \<and> ready then [(v_rec_lanes v, v_rec_addr v)] else [])))"

fun vt_records :: "'d vd_dut \<Rightarrow> 'r rand \<Rightarrow> nat \<Rightarrow> 'd vd_tb \<times> 'r \<Rightarrow> (u64 \<times> u32) list" where
  "vt_records E rand 0 sg = []"
| "vt_records E rand (Suc n) sg = vt_hands E rand sg @
     (case vt_step E rand sg of None \<Rightarrow> [] | Some sg \<Rightarrow> vt_records E rand n sg)"

definition last_gio :: "(u64 \<times> u32) list \<Rightarrow> u32 \<Rightarrow> u32" where
  "last_gio rs x = (if rs = [] then x else snd (last rs))"

lemma vd_answer_got: "vd_answer c p = Some q \<Longrightarrow> vd_got q = vd_got p \<and> vd_got_gio q = vd_got_gio p \<and> vd_mem q = vd_mem p"
  by (auto simp: vd_answer_def Let_def split: if_splits)

lemma vd_accept_got:
  "vd_got (vd_accept c v p) = vd_got p @ (if v_rec_valid v \<and> rnd_ready v then [v_rec_lanes v] else [])"
  "vd_got_gio (vd_accept c v p) = (if v_rec_valid v \<and> rnd_ready v then v_rec_addr v else vd_got_gio p)"
  "vd_mem (vd_accept c v p) = vd_mem p"
  by (auto simp: vd_accept_def Let_def)

lemma vt_step_records:
  assumes "vt_step E rand sg = Some sg'"
  shows "vd_got (vt_port (fst sg')) = vd_got (vt_port (fst sg)) @ map fst (vt_hands E rand sg) \<and>
    vd_got_gio (vt_port (fst sg')) = last_gio (vt_hands E rand sg) (vd_got_gio (vt_port (fst sg))) \<and>
    vd_mem (vt_port (fst sg')) = vd_mem (vt_port (fst sg)) \<and> vt_total (fst sg') = vt_total (fst sg)"
proof -
  obtain s g where sg: "sg = (s, g)" by (cases sg)
  obtain p where p: "vd_answer (vt_cyc s) (vt_port s) = Some p" using assms by (auto simp: sg vt_step_def split: option.splits)
  show ?thesis using assms vd_answer_got [OF p]
    by (auto simp: sg vt_step_def p Let_def vt_hands_def last_gio_def vd_accept_got split: prod.splits)
qed

lemma vt_steps_records:
  assumes "vt_steps E rand n sg = Some sg'"
  shows "vd_got (vt_port (fst sg')) = vd_got (vt_port (fst sg)) @ map fst (vt_records E rand n sg) \<and>
    vd_got_gio (vt_port (fst sg')) = last_gio (vt_records E rand n sg) (vd_got_gio (vt_port (fst sg))) \<and>
    vd_mem (vt_port (fst sg')) = vd_mem (vt_port (fst sg)) \<and> vt_total (fst sg') = vt_total (fst sg)"
  using assms
proof (induction n arbitrary: sg)
  case (Suc n)
  then obtain t where t: "vt_step E rand sg = Some t" "vt_steps E rand n t = Some sg'" by (auto simp: bind_eq_Some_conv)
  from vt_step_records [OF t(1)] Suc.IH [OF t(2)] show ?case by (auto simp: t(1) last_gio_def)
qed (simp add: last_gio_def)

text \<open>The wait ends at the first cycle in which the engine is done.\<close>

definition vt_done_at :: "'d vd_dut \<Rightarrow> 'r rand \<Rightarrow> 'd vd_tb \<times> 'r \<Rightarrow> nat \<Rightarrow> bool" where
  "vt_done_at E rand sg n \<longleftrightarrow> (case vt_steps E rand n sg of None \<Rightarrow> False | Some sg \<Rightarrow> vd_done E (vt_dut (fst sg)))"

lemma vt_wait_first:
  "vt_wait E rand lim sg = Inr sg' \<longleftrightarrow>
     (\<exists>n. 0 < n \<and> n \<le> lim \<and> vt_steps E rand n sg = Some sg' \<and> vt_done_at E rand sg n \<and> (\<forall>k. 0 < k \<longrightarrow> k < n \<longrightarrow> \<not> vt_done_at E rand sg k))"
    (is "_ \<longleftrightarrow> (\<exists>n. ?P lim sg n)")
proof (induction lim arbitrary: sg)
  case 0
  then show ?case by (auto split: option.splits)
next
  case (Suc lim)
  show ?case
  proof (cases "vt_step E rand sg")
    case None
    then have "vt_steps E rand n sg = None" if "0 < n" for n using that by (cases n) simp_all
    then show ?thesis using None by auto
  next
    case (Some t)
    have d: "vt_done_at E rand sg (Suc k) \<longleftrightarrow> vt_done_at E rand t k" for k by (simp add: vt_done_at_def Some)
    show ?thesis
    proof (cases "vt_done_at E rand sg 1")
      case True
      then have "?P (Suc lim) sg n \<longleftrightarrow> n = 1 \<and> sg' = t" for n
        by (cases "n = 1") (auto simp: Some)
      moreover have "vd_done E (vt_dut (fst t))" using True by (simp add: vt_done_at_def Some)
      ultimately show ?thesis by (auto simp: Some)
    next
      case False
      then have n1: "\<not> vd_done E (vt_dut (fst t))" by (simp add: vt_done_at_def Some)
      have "?P (Suc lim) sg n \<longleftrightarrow> (\<exists>k. n = Suc k \<and> ?P lim t k)" for n
      proof (cases n)
        case (Suc k)
        have "(\<forall>i. 0 < i \<longrightarrow> i < Suc k \<longrightarrow> \<not> vt_done_at E rand sg i) \<longleftrightarrow> (\<forall>i. 0 < i \<longrightarrow> i < k \<longrightarrow> \<not> vt_done_at E rand t i)"
        proof (intro iffI allI impI)
          fix i assume "\<forall>i. 0 < i \<longrightarrow> i < Suc k \<longrightarrow> \<not> vt_done_at E rand sg i" "0 < i" "i < k"
          then show "\<not> vt_done_at E rand t i" using d [of i] by auto
        next
          fix i assume "\<forall>i. 0 < i \<longrightarrow> i < k \<longrightarrow> \<not> vt_done_at E rand t i" "0 < i" "i < Suc k"
          then show "\<not> vt_done_at E rand sg i" using False d [of "i - 1"] by (cases "i = 1") auto
        qed
        moreover have "vt_done_at E rand sg n \<Longrightarrow> 0 < k" using False Suc by (cases k) auto
        ultimately show ?thesis using Suc d [of k] by (auto simp: Some)
      qed simp
      then show ?thesis using Suc.IH [of t] n1 by (auto simp: Some)
    qed
  qed
qed

lemma vt_compare_None:
  "vt_compare got expect gg gio en ee = None \<longleftrightarrow> got = expect \<and> (expect \<noteq> [] \<longrightarrow> gg = gio) \<and> en = ee"
proof (cases "length got = length expect")
  case True
  then have "find (\<lambda>i. got ! i \<noteq> expect ! i) [0..<length expect] = None \<longleftrightarrow> got = expect"
    unfolding find_None_iff by (metis atLeastLessThan_iff nth_equalityI set_upt zero_le)
  then show ?thesis using True by (cases "find (\<lambda>i. got ! i \<noteq> expect ! i) [0..<length expect]") (simp_all add: vt_compare_def)
qed (auto simp: vt_compare_def)

text \<open>A transfer that passed: the engine was done in time, and handed over exactly the reference.\<close>

definition passes :: "'d vd_dut \<Rightarrow> 'r rand \<Rightarrow> nat \<Rightarrow> 'd vd_tb \<times> 'r \<Rightarrow> bool" where
  "passes E rand t sg = (let (j, tlb, sg0) = vt_arm rand t sg; (exp_end, expect) = vt_expect j tlb (fst sg0)
     in \<exists>n s g. 0 < n \<and> n \<le> 2000000 \<and> vt_steps E rand n sg0 = Some (s, g) \<and> vd_done E (vt_dut s) \<and>
          map fst (vt_records E rand n sg0) = expect \<and> (expect \<noteq> [] \<longrightarrow> snd (last (vt_records E rand n sg0)) = jb_gio j) \<and>
          vd_memadr_end E (vt_dut s) = exp_end)"

definition vt_count :: "'r rand \<Rightarrow> nat \<Rightarrow> 'd vd_tb \<times> 'r \<Rightarrow> nat" where
  "vt_count rand t sg = (let (j, tlb, sg0) = vt_arm rand t sg in length (snd (vt_expect j tlb (fst sg0))))"

lemma vt_arm_fresh: "vt_arm rand t sg = (j, tlb, sg0) \<Longrightarrow> vd_got (vt_port (fst sg0)) = [] \<and> vt_total (fst sg0) = vt_total (fst sg)"
  by (cases sg) (auto simp: vt_arm_def Let_def simp del: upt_rec_numeral split: prod.splits)

lemma vt_transfer_passes:
  assumes "vt_transfer E rand t sg = Inr sg'"
  shows "passes E rand t sg \<and> vt_total (fst sg') = vt_total (fst sg) + vt_count rand t sg"
proof -
  obtain j tlb sg0 where a: "vt_arm rand t sg = (j, tlb, sg0)" by (metis prod_cases3)
  obtain ee expect where e: "vt_expect j tlb (fst sg0) = (ee, expect)" by (metis prod.exhaust)
  obtain s g where w: "vt_wait E rand 2000000 sg0 = Inr (s, g)"
    using assms by (auto simp: vt_transfer_def a e split: sum.splits prod.splits)
  then have c: "vt_compare (vd_got (vt_port s)) expect (vd_got_gio (vt_port s)) (jb_gio j) (vd_memadr_end E (vt_dut s)) ee = None"
    and l: "vt_steps E rand 3 (s\<lparr>vt_total := vt_total s + length expect\<rparr>, g) = Some sg'"
    using assms by (auto simp: vt_transfer_def a e split: option.splits simp del: vt_steps.simps)
  from w obtain n where n: "0 < n" "n \<le> 2000000" "vt_steps E rand n sg0 = Some (s, g)" "vt_done_at E rand sg0 n"
    unfolding vt_wait_first by blast
  have r: "vd_got (vt_port s) = map fst (vt_records E rand n sg0)" "vt_total s = vt_total (fst sg)"
    "vd_got_gio (vt_port s) = last_gio (vt_records E rand n sg0) (vd_got_gio (vt_port (fst sg0)))"
    using vt_steps_records [OF n(3)] vt_arm_fresh [OF a] by simp_all
  have d: "vd_done E (vt_dut s)" using n(3,4) by (simp add: vt_done_at_def)
  have "passes E rand t sg"
    unfolding passes_def a e Let_def prod.case
    using n(1-3) d c r(1,3) unfolding vt_compare_None last_gio_def by (intro exI [of _ n] exI [of _ s] exI [of _ g]) (auto split: if_splits)
  moreover have "vt_total (fst sg') = vt_total (fst sg) + vt_count rand t sg"
    using vt_steps_records [OF l] r(2) by (simp add: vt_count_def a e)
  ultimately show ?thesis ..
qed

lemma vt_transfers_passes:
  assumes "vt_transfers E rand ts sg = Inr sg'"
  shows "\<exists>ss. length ss = length ts \<and> hd (ss @ [sg']) = sg \<and> list_all2 (passes E rand) ts ss \<and>
    (\<forall>i < length ts. vt_transfer E rand (ts ! i) (ss ! i) = Inr ((ss @ [sg']) ! Suc i)) \<and>
    vt_total (fst sg') = vt_total (fst sg) + sum_list (map2 (vt_count rand) ts ss)"
  using assms
proof (induction ts arbitrary: sg)
  case (Cons t ts)
  then obtain s1 where s1: "vt_transfer E rand t sg = Inr s1" "vt_transfers E rand ts s1 = Inr sg'" by (auto split: sum.splits)
  from Cons.IH [OF s1(2)] obtain ss where ss: "length ss = length ts" "hd (ss @ [sg']) = s1" "list_all2 (passes E rand) ts ss"
    "\<forall>i < length ts. vt_transfer E rand (ts ! i) (ss ! i) = Inr ((ss @ [sg']) ! Suc i)"
    "vt_total (fst sg') = vt_total (fst s1) + sum_list (map2 (vt_count rand) ts ss)" by blast
  have "(ss @ [sg']) ! 0 = s1" using ss(2) by (cases ss) simp_all
  then show ?case using ss s1(1) vt_transfer_passes [OF s1(1)]
    by (intro exI [of _ "sg # ss"]) (auto simp: nth_Cons split: nat.splits)
qed simp

text \<open>
  C14.  A pass of the DMA test means what it should: each of its 3000 transfers was done within 2000000
  cycles, the doublewords handed over between its start and its end are those of the reference,
  none missing and none more, in order, the last of them at the transfer's GIO address, and the
  end address is the reference's.  The transfers follow one another from the state after reset,
  and the number printed counts every doubleword.
\<close>

theorem vdma_pass_exact:
  assumes "vdma_main E rand d g = Inr sg'"
  shows "\<exists>sg ss. vt_boot E rand d g = Some sg \<and> length ss = 3000 \<and> hd (ss @ [sg']) = sg \<and>
    list_all2 (passes E rand) [0..<3000] ss \<and>
    (\<forall>i < 3000. vt_transfer E rand i (ss ! i) = Inr ((ss @ [sg']) ! Suc i)) \<and>
    vt_total (fst sg') = vt_total (fst sg) + sum_list (map2 (vt_count rand) [0..<3000] ss)"
proof -
  obtain sg where b: "vt_boot E rand d g = Some sg" "vt_transfers E rand [0..<3000] sg = Inr sg'"
    using assms by (auto simp: vdma_main_def simp del: upt_rec_numeral split: option.splits)
  show ?thesis using vt_transfers_passes [OF b(2)] b(1) by (auto simp del: upt_rec_numeral)
qed

text \<open>An engine that is done at once, on draws of 0: every transfer has no line.\<close>

definition idle_vdma :: "u32 vd_dut" where
  "idle_vdma = \<lparr>vd_eval = (\<lambda>_ i _. vi_memadr i), vd_shows = (\<lambda>_. \<lparr>v_rec_valid = False, v_rec_lanes = 0, v_rec_addr = 0,
     dn_req_valid = False, dn_req_addr = 0, dn_req_opcode = 0, rnd_lat = 0, rnd_ready = False\<rparr>),
     vd_done = (\<lambda>_. True), vd_memadr_end = (\<lambda>d. d)\<rparr>"

definition zeros :: "unit rand" where
  "zeros g = (0, g)"

lemma idle_step:
  assumes "vd_reply (vt_port s) = - 1"
  shows "\<exists>s'. vt_step idle_vdma zeros (s, g) = Some (s', ()) \<and> vd_reply (vt_port s') = - 1 \<and> vt_dut s' = vi_memadr (vt_pins s) \<and>
    vd_got (vt_port s') = vd_got (vt_port s)"
  using assms by (simp add: vt_step_def vd_answer_def vd_accept_def idle_vdma_def zeros_def vt_takes_def Let_def)

lemma idle_steps:
  assumes "vd_reply (vt_port s) = - 1"
  shows "\<exists>s'. vt_steps idle_vdma zeros n (s, g) = Some (s', ()) \<and> vd_reply (vt_port s') = - 1"
  using assms
proof (induction n arbitrary: s g)
  case (Suc n)
  from idle_step [OF Suc.prems, of g] obtain t where "vt_step idle_vdma zeros (s, g) = Some (t, ())" "vd_reply (vt_port t) = - 1" by blast
  with Suc.IH [of t "()"] show ?case by simp
qed simp

lemma idle_transfer:
  assumes "vd_reply (vt_port s) = - 1"
  shows "\<exists>s'. vt_transfer idle_vdma zeros t (s, g) = Inr (s', ()) \<and> vd_reply (vt_port s') = - 1"
proof -
  obtain j tlb s0 where a: "vt_arm zeros t (s, g) = (j, tlb, s0, ())" by (metis prod_cases4 old.unit.exhaust)
  then have j: "jb_lines j = 0" "jb_width j = 1" "vd_reply (vt_port s0) = - 1" "vi_memadr (vt_pins s0) = jb_memadr j" "vd_got (vt_port s0) = []"
    using assms by (auto simp: vt_arm_def draw_job_def below_def zeros_def Let_def simp del: upt_rec_numeral split: prod.splits)
  have e: "vt_expect j tlb s0 = (jb_memadr j, [])"
    by (simp add: vt_expect_def ref_perform_def jb_size_def j drop_bit_eq_div)
  from idle_step [OF j(3), of "()"] obtain s1 where s1: "vt_step idle_vdma zeros (s0, ()) = Some (s1, ())" "vd_reply (vt_port s1) = - 1"
    "vt_dut s1 = jb_memadr j" "vd_got (vt_port s1) = []" using j(4,5) by auto
  have dn: "vd_done idle_vdma x" "vd_memadr_end idle_vdma x = x" for x by (simp_all add: idle_vdma_def)
  have k: "(2000000 :: nat) = Suc 1999999" by simp
  have w: "vt_wait idle_vdma zeros 2000000 (s0, ()) = Inr (s1, ())" unfolding k by (simp only: vt_wait.simps s1(1) option.case dn if_True)
  have c: "vt_compare (vd_got (vt_port s1)) [] (vd_got_gio (vt_port s1)) (jb_gio j) (vd_memadr_end idle_vdma (vt_dut s1)) (jb_memadr j) = None"
    by (simp add: vt_compare_None s1 dn)
  have "vd_reply (vt_port (s1\<lparr>vt_total := vt_total s1 + length ([] :: u64 list)\<rparr>)) = - 1" using s1(2) by simp
  from idle_steps [OF this, of 3 "()"] obtain s2 where
    "vt_steps idle_vdma zeros 3 (s1\<lparr>vt_total := vt_total s1 + length ([] :: u64 list)\<rparr>, ()) = Some (s2, ())" "vd_reply (vt_port s2) = - 1" by blast
  then show ?thesis using w
    by (simp only: vt_transfer_def a prod.case fst_conv e Let_def sum.case c option.case) blast
qed

lemma idle_transfers:
  assumes "vd_reply (vt_port s) = - 1"
  shows "\<exists>s'. vt_transfers idle_vdma zeros ts (s, ()) = Inr (s', ())"
  using assms
proof (induction ts arbitrary: s)
  case (Cons t ts)
  from idle_transfer [OF Cons.prems] obtain s1 where
    s1: "vt_transfer idle_vdma zeros t (s, ()) = Inr (s1, ())" "vd_reply (vt_port s1) = - 1" by blast
  with Cons.IH [OF s1(2)] show ?case by simp
qed simp

lemma idle_main: "\<exists>sg. vdma_main idle_vdma zeros 0 () = Inr sg"
proof -
  obtain m where m: "run_state (fill_mem zeros [0..<unat MEMSZ] (\<lambda>_. 0)) () = (m, ())" by (metis prod.exhaust old.unit.exhaust)
  obtain s where s: "vt_steps idle_vdma zeros 5 (vt_init m 0, ()) = Some (s, ())" "vd_reply (vt_port s) = - 1"
    using idle_steps [of "vt_init m 0" 5 "()"] by (auto simp: vt_init_def)
  have b: "vt_boot idle_vdma zeros 0 () = Some (s\<lparr>vt_pins := (vt_pins s)\<lparr>vi_reset := False\<rparr>\<rparr>, ())"
    unfolding vt_boot_def m Let_def prod.case s(1) by simp
  show ?thesis unfolding vdma_main_def b option.case using idle_transfers [of "s\<lparr>vt_pins := (vt_pins s)\<lparr>vi_reset := False\<rparr>\<rparr>"] s(2) by auto
qed

theorem vdma_pass_exact_witness:
  "\<exists>sg ss sg'. vdma_main idle_vdma zeros 0 () = Inr sg' \<and> vt_boot idle_vdma zeros 0 () = Some sg \<and> length ss = 3000 \<and>
    list_all2 (passes idle_vdma zeros) [0..<3000] ss"
proof -
  obtain sg' where "vdma_main idle_vdma zeros 0 () = Inr sg'" using idle_main by blast
  with vdma_pass_exact [OF this] show ?thesis by blast
qed

end
