(* ===== verification/Dma_Tests.thy ===== *)
theory Dma_Tests
  imports Mem_Bus
begin

text \<open>
  The unit tests of the two beat-streaming engines, \<^verbatim>\<open>sim/enet_dma_test/tb_enet_dma.cpp\<close> and
  \<^verbatim>\<open>sim/scsi_dma_test/tb_scsi_dma.cpp\<close>: the model memory port of each, the host FIFOs of the
  ethernet test, the disk side of the SCSI test, and the loops that wait for an engine.  The
  engines are Verilog: their evaluation and their outputs are parameters.  Accesses outside an
  array, a pop of an empty deque and a zero divisor are the value \<open>None\<close>.
\<close>

section \<open>The memory of the tests\<close>

definition MEMSZ :: u32 where
  "MEMSZ = 0x40000"

definition mem_le32 :: "mem \<Rightarrow> u32 \<Rightarrow> u32 option" where
  "mem_le32 m a = (if unat a + 3 < unat MEMSZ then Some (le32 m (unat a)) else None)"

text \<open>The end flag of a descriptor chain.\<close>

definition BC_EOX :: u32 where
  "BC_EOX = 0x80000000"

definition tb_off :: "u32 \<Rightarrow> nat \<Rightarrow> u32" where
  "tb_off a i = (a + of_nat i) AND (MEMSZ - 1)"

definition tb_load :: "mem \<Rightarrow> u32 \<Rightarrow> u32 list option" where
  "tb_load m a = those (map (\<lambda>i. mem_le32 m (tb_off a (4 * i))) [0..<4])"

definition tb_store :: "mem \<Rightarrow> u32 \<Rightarrow> u32 \<Rightarrow> u32 list \<Rightarrow> mem" where
  "tb_store m a msk sd = store_bytes (\<lambda>i. bit msk i) sd (\<lambda>i. unat (tb_off a i)) 16 m"

definition line16 :: "u32 \<Rightarrow> u32" where
  "line16 a = a AND NOT 15"

section \<open>The memory port\<close>

text \<open>The registers of a port, its response lines and the memory behind it; the request an engine shows.\<close>

record dma_port =
  dp_mem :: mem
  dp_reply :: int
  dp_resp_cyc :: int
  dp_addr :: u32
  dp_op :: u32
  dp_mask :: u32
  dp_sd :: "u32 list"
  dp_last_addr :: u32
  dp_last_op :: u32
  dp_rsp_valid :: bool
  dp_rsp_data :: "u32 list"

record dma_req =
  q_valid :: bool
  q_addr :: u64
  q_op :: u32
  q_mask :: u32
  q_sd :: "u32 list"

definition LAT :: int where
  "LAT = 4"

text \<open>
  The ethernet test addresses the aligned line; the SCSI test the bytes from the requested
  address on.  The rest of the answer is the same code in both files.
\<close>

definition enet_answer :: "int \<Rightarrow> dma_port \<Rightarrow> dma_port option" where
  "enet_answer cyc p =
     (let p = p\<lparr>dp_rsp_valid := False\<rparr> in
      if dp_reply p = cyc then
        (let line = line16 (dp_addr p) in
         map_option (\<lambda>p. p\<lparr>dp_rsp_valid := True, dp_reply := -1, dp_resp_cyc := cyc\<rparr>)
           (if dp_op p = 4 then map_option (\<lambda>d. p\<lparr>dp_rsp_data := d\<rparr>) (tb_load (dp_mem p) line)
            else if dp_op p = 7 then Some (p\<lparr>dp_mem := tb_store (dp_mem p) line (dp_mask p) (dp_sd p)\<rparr>)
            else Some p))
      else Some p)"

definition scsi_answer :: "int \<Rightarrow> dma_port \<Rightarrow> dma_port option" where
  "scsi_answer cyc p =
     (let p = p\<lparr>dp_rsp_valid := False\<rparr> in
      if dp_reply p = cyc then
        map_option (\<lambda>p. p\<lparr>dp_rsp_valid := True, dp_reply := -1, dp_resp_cyc := cyc\<rparr>)
          (if dp_op p = 4 then map_option (\<lambda>d. p\<lparr>dp_rsp_data := d\<rparr>) (tb_load (dp_mem p) (dp_addr p))
           else if dp_op p = 7 then Some (p\<lparr>dp_mem := tb_store (dp_mem p) (dp_addr p) (dp_mask p) (dp_sd p)\<rparr>)
           else Some p)
      else Some p)"

text \<open>
  The ethernet test compares the address at the width of the port with the 32 bits it kept,
  the SCSI test both at 32 bits.
\<close>

definition enet_accept :: "int \<Rightarrow> dma_req \<Rightarrow> dma_port \<Rightarrow> dma_port" where
  "enet_accept cyc r p =
     (if q_valid r \<and> dp_reply p < 0 \<and> cyc > dp_resp_cyc p \<and>
         (q_addr r \<noteq> ucast (dp_last_addr p) \<or> q_op r \<noteq> dp_last_op p)
      then p\<lparr>dp_addr := ucast (q_addr r), dp_op := q_op r, dp_mask := q_mask r, dp_sd := map (\<lambda>i. q_sd r ! i) [0..<4],
             dp_reply := cyc + LAT, dp_last_addr := ucast (q_addr r), dp_last_op := q_op r\<rparr>
      else p)"

definition scsi_accept :: "int \<Rightarrow> dma_req \<Rightarrow> dma_port \<Rightarrow> dma_port" where
  "scsi_accept cyc r p =
     (let addr = (ucast (q_addr r) :: u32) in
      if q_valid r \<and> dp_reply p < 0 \<and> cyc > dp_resp_cyc p \<and> (addr \<noteq> dp_last_addr p \<or> q_op r \<noteq> dp_last_op p)
      then p\<lparr>dp_addr := addr, dp_op := q_op r, dp_mask := q_mask r, dp_sd := map (\<lambda>i. q_sd r ! i) [0..<4],
             dp_reply := cyc + LAT, dp_last_addr := addr, dp_last_op := q_op r\<rparr>
      else p)"

section \<open>The ethernet test\<close>

type_synonym beat = "u32 list"

definition pack :: "bytes \<Rightarrow> beat" where
  "pack b = map (\<lambda>i. ucast (b ! (4 * i)) OR push_bit 8 (ucast (b ! (4 * i + 1)))
     OR push_bit 16 (ucast (b ! (4 * i + 2))) OR push_bit 24 (ucast (b ! (4 * i + 3)))) [0..<4]"

definition beat_bytes :: "beat \<Rightarrow> bytes" where
  "beat_bytes w = map (sd_byte w) [0..<16]"

text \<open>The engine's inputs apart from the memory response, its outputs, and the engine.\<close>

record enet_in =
  rx_go :: bool
  rx_nbdp :: u32
  rx_len :: u32
  tx_go :: bool
  tx_nbdp :: u32
  rx_rd_valid :: bool
  rx_rd_data :: beat
  tx_wr_full :: bool

record enet_out =
  e_req :: dma_req
  rx_rd_en :: bool
  tx_wr_en :: bool
  tx_wr_data :: beat
  rx_done :: bool
  rx_dropped :: bool
  tx_done :: bool
  tx_len :: u32

record 'd enet_dut =
  e_eval :: "bool \<Rightarrow> enet_in \<Rightarrow> bool \<times> u32 list \<Rightarrow> 'd \<Rightarrow> 'd"
  e_out :: "'d \<Rightarrow> enet_out"

record 'd enet_tb =
  ed :: 'd
  ein :: enet_in
  eport :: dma_port
  ecyc :: int
  rx_src :: "beat list"
  rx_fifo :: "beat list"
  tx_fifo :: "beat list"
  tx_pop_period :: int
  tx_out :: bytes
  n_rx_done :: int
  n_rx_drop :: int
  n_tx_done :: int

text \<open>The arguments of \<^verbatim>\<open>step\<close>: go, chain and length for RX, go and chain for TX.\<close>

type_synonym enet_arg = "bool \<times> u32 \<times> u32 \<times> bool \<times> u32"

definition enet_inputs :: "enet_arg \<Rightarrow> 'd enet_tb \<Rightarrow> enet_in" where
  "enet_inputs a s = (case a of (g, n, l, tg, tn) \<Rightarrow>
     (ein s)\<lparr>rx_go := g, rx_nbdp := n, rx_len := l, tx_go := tg, tx_nbdp := tn,
       rx_rd_valid := (rx_fifo s \<noteq> []), rx_rd_data := (if rx_fifo s \<noteq> [] then hd (rx_fifo s) else rx_rd_data (ein s)),
       tx_wr_full := (length (tx_fifo s) \<ge> 16)\<rparr>)"

text \<open>The engine after the low evaluation of a step, with the port as it answered.\<close>

definition enet_low :: "'d enet_dut \<Rightarrow> enet_arg \<Rightarrow> dma_port \<Rightarrow> 'd enet_tb \<Rightarrow> 'd" where
  "enet_low E a p s = e_eval E False (enet_inputs a s) (dp_rsp_valid p, dp_rsp_data p) (ed s)"

text \<open>The FIFOs after the clock edge, in the order of the source.\<close>

definition rx_fifo_edge :: "bool \<Rightarrow> 'd enet_tb \<Rightarrow> 'd enet_tb" where
  "rx_fifo_edge en s =
     (let s = (if en then s\<lparr>rx_fifo := tl (rx_fifo s)\<rparr> else s)
      in if rx_src s \<noteq> [] \<and> length (rx_fifo s) < 16
         then s\<lparr>rx_fifo := rx_fifo s @ [hd (rx_src s)], rx_src := tl (rx_src s)\<rparr> else s)"

definition tx_fifo_push :: "bool \<Rightarrow> beat \<Rightarrow> 'd enet_tb \<Rightarrow> 'd enet_tb" where
  "tx_fifo_push wr wb s = (if wr \<and> length (tx_fifo s) < 16 then s\<lparr>tx_fifo := tx_fifo s @ [wb]\<rparr> else s)"

definition tx_fifo_pop :: "'d enet_tb \<Rightarrow> 'd enet_tb option" where
  "tx_fifo_pop s =
     (if tx_fifo s = [] then Some s
      else if tx_pop_period s = 0 then None
      else if ecyc s mod tx_pop_period s = 0
      then Some (s\<lparr>tx_out := tx_out s @ beat_bytes (hd (tx_fifo s)), tx_fifo := tl (tx_fifo s)\<rparr>) else Some s)"

definition enet_count :: "enet_out \<Rightarrow> 'd enet_tb \<Rightarrow> 'd enet_tb" where
  "enet_count v s = s\<lparr>n_rx_done := n_rx_done s + of_bool (rx_done v), n_rx_drop := n_rx_drop s + of_bool (rx_dropped v),
     n_tx_done := n_tx_done s + of_bool (tx_done v), ecyc := ecyc s + 1\<rparr>"

definition enet_step :: "'d enet_dut \<Rightarrow> enet_arg \<Rightarrow> 'd enet_tb \<Rightarrow> 'd enet_tb option" where
  "enet_step E a s =
     Option.bind (enet_answer (ecyc s) (eport s)) (\<lambda>p.
       let i = enet_inputs a s;
           d = enet_low E a p s;
           v = e_out E d;
           wb = map (\<lambda>i. tx_wr_data v ! i) [0..<4];
           p' = enet_accept (ecyc s) (e_req v) p;
           d' = e_eval E True i (dp_rsp_valid p, dp_rsp_data p) d
       in if rx_rd_en v \<and> rx_fifo s = [] then None
          else map_option (enet_count (e_out E d'))
                 (tx_fifo_pop (rx_fifo_edge (rx_rd_en v) (tx_fifo_push (tx_wr_en v) wb
                   (s\<lparr>ed := d', ein := i, eport := p'\<rparr>)))))"

text \<open>One frame: its padded beats are queued, the engine is started and watched.\<close>

fun rx_wait :: "'d enet_dut \<Rightarrow> nat \<Rightarrow> int \<Rightarrow> int \<Rightarrow> 'd enet_tb \<Rightarrow> (nat \<times> 'd enet_tb) option" where
  "rx_wait E 0 dn dr s = Some (0, s)"
| "rx_wait E (Suc g) dn dr s =
     (if n_rx_done s \<noteq> dn then Some (1, s)
      else if n_rx_drop s \<noteq> dr then Some (2, s)
      else Option.bind (enet_step E (False, 0, 0, False, 0) s) (rx_wait E g dn dr))"

definition frame_beats :: "bytes \<Rightarrow> beat list" where
  "frame_beats f = (let pad = f @ replicate ((16 - length f mod 16) mod 16) 0
     in map (\<lambda>b. pack (drop (16 * b) pad)) [0..<length pad div 16])"

definition rx_frame :: "'d enet_dut \<Rightarrow> u32 \<Rightarrow> bytes \<Rightarrow> 'd enet_tb \<Rightarrow> (nat \<times> 'd enet_tb) option" where
  "rx_frame E nbdp f s =
     Option.bind (enet_step E (True, nbdp, of_nat (length f), False, 0) (s\<lparr>rx_src := rx_src s @ frame_beats f\<rparr>))
       (rx_wait E 200000 (n_rx_done s) (n_rx_drop s))"

section \<open>The SCSI test\<close>

definition ramp :: "u64 \<Rightarrow> u8" where
  "ramp b = ucast (b * 7 + 3)"

text \<open>The beat at the read cursor.\<close>

definition disk_beat :: "u64 \<Rightarrow> beat" where
  "disk_beat b = map (\<lambda>i. fold (\<lambda>j w. w OR push_bit (8 * j) (ucast (ramp (b + of_nat (4 * i) + of_nat j)))) [0..<4] 0) [0..<4]"

record scsi_in =
  s_nbdp :: u32
  s_to_device :: bool
  s_go :: bool
  disk_rd_data :: beat

record scsi_out =
  s_req :: dma_req
  disk_rd_en :: bool
  disk_wr_en :: bool
  disk_wr_data :: beat
  s_done :: bool

record 'd scsi_dut =
  s_eval :: "bool \<Rightarrow> scsi_in \<Rightarrow> bool \<times> u32 list \<Rightarrow> 'd \<Rightarrow> 'd"
  s_out :: "'d \<Rightarrow> scsi_out"

record 'd scsi_tb =
  sdut :: 'd
  sin :: scsi_in
  sport :: dma_port
  scyc :: int
  rd_byte :: u64
  wr_capture :: bytes

text \<open>One turn of the loop of \<^verbatim>\<open>run\<close>, with the outputs it saw before and after the clock edge.\<close>

definition scsi_turn :: "'d scsi_dut \<Rightarrow> 'd scsi_tb \<Rightarrow> (scsi_out \<times> scsi_out \<times> 'd scsi_tb) option" where
  "scsi_turn E s =
     map_option (\<lambda>p.
       let i = (sin s)\<lparr>disk_rd_data := disk_beat (rd_byte s)\<rparr>;
           d = s_eval E False i (dp_rsp_valid p, dp_rsp_data p) (sdut s);
           v = s_out E d;
           p' = scsi_accept (scyc s) (s_req v) p;
           cap = (if disk_wr_en v then wr_capture s @ map (sd_byte (disk_wr_data v)) [0..<16] else wr_capture s);
           d' = s_eval E True i (dp_rsp_valid p, dp_rsp_data p) d
       in (v, s_out E d', s\<lparr>sdut := d', sin := i\<lparr>s_go := False\<rparr>, sport := p', wr_capture := cap,
            rd_byte := (if disk_rd_en v then rd_byte s + 16 else rd_byte s), scyc := scyc s + 1\<rparr>))
     (scsi_answer (scyc s) (sport s))"

fun scsi_loop :: "'d scsi_dut \<Rightarrow> nat \<Rightarrow> 'd scsi_tb \<Rightarrow> (bool \<times> 'd scsi_tb) option" where
  "scsi_loop E 0 s = Some (False, s)"
| "scsi_loop E (Suc g) s =
     Option.bind (scsi_turn E s) (\<lambda>(v, v', s'). if s_done v' then Some (True, s') else scsi_loop E g s')"

definition scsi_start :: "u32 \<Rightarrow> bool \<Rightarrow> 'd scsi_tb \<Rightarrow> 'd scsi_tb" where
  "scsi_start nbdp to_dev s = s\<lparr>sport := (sport s)\<lparr>dp_last_addr := 0xffffffff, dp_last_op := 0xff, dp_reply := -1\<rparr>,
     sin := (sin s)\<lparr>s_nbdp := nbdp, s_to_device := to_dev, s_go := True\<rparr>\<rparr>"

definition scsi_run :: "'d scsi_dut \<Rightarrow> u32 \<Rightarrow> bool \<Rightarrow> 'd scsi_tb \<Rightarrow> (bool \<times> 'd scsi_tb) option" where
  "scsi_run E nbdp to_dev s = scsi_loop E 100000 (scsi_start nbdp to_dev s)"

section \<open>Bytes of lines and beats\<close>

lemma MEMSZ_mask: "(w :: u32) AND (MEMSZ - 1) = take_bit 18 w"
  by (rule and_numeral_mask) (simp add: MEMSZ_def mask_eq_exp_minus_1)

lemma unat_MEMSZ [simp]: "unat MEMSZ = 262144"
  by (simp add: MEMSZ_def)

lemma unat_tb_off: "unat (tb_off a i) = (unat a + i) mod 262144"
proof -
  have "(unat a + i mod 2 ^ 32) mod 2 ^ 32 mod 2 ^ 18 = (unat a + i) mod 2 ^ (18::nat)"
    by (simp add: mod_mod_cancel mod_simps)
  then show ?thesis
    by (simp add: tb_off_def MEMSZ_mask unat_take_bit_mod unat_word_ariths unat_of_nat take_bit_eq_mod)
qed

lemma line16_mod: "unat (line16 a) mod 16 = 0"
proof -
  have m: "(15 :: u32) = mask 4" by (simp add: mask_eq_exp_minus_1)
  have "take_bit 4 (line16 a) = 0"
    by (rule bit_word_eqI) (auto simp: line16_def m bit_take_bit_iff bit_and_iff bit_not_iff bit_mask_iff)
  then have "unat (take_bit 4 (line16 a)) = 0" by simp
  then show ?thesis by (simp add: unat_take_bit_mod)
qed

text \<open>The array index of a line, and its bytes in a row.\<close>

definition line_idx :: "u32 \<Rightarrow> nat" where
  "line_idx a = unat (line16 a) mod 262144"

lemma line_idx_bounds: "line_idx a mod 16 = 0" "line_idx a + 16 \<le> 262144"
proof -
  have d: "(16 :: nat) dvd 262144" by simp
  have "line_idx a mod 16 = unat (line16 a) mod 16" unfolding line_idx_def by (rule mod_mod_cancel [OF d])
  then show m: "line_idx a mod 16 = 0" using line16_mod by simp
  have "line_idx a < 262144" by (simp add: line_idx_def)
  then show "line_idx a + 16 \<le> 262144" using m by presburger
qed

lemma tb_off_line: "i < 16 \<Longrightarrow> unat (tb_off (line16 a) i) = line_idx a + i"
proof -
  assume "i < 16"
  then have "line_idx a + i < 262144" using line_idx_bounds(2) [of a] by linarith
  moreover have "(unat (line16 a) + i) mod 262144 = (line_idx a + i) mod 262144"
    by (simp add: line_idx_def mod_simps)
  ultimately show ?thesis by (simp add: unat_tb_off)
qed

lemma tb_load_line: "tb_load m (line16 a) = Some (map (\<lambda>i. le32 m (line_idx a + 4 * i)) [0..<4])"
proof -
  have "mem_le32 m (tb_off (line16 a) (4 * i)) = Some (le32 m (line_idx a + 4 * i))" if "i < 4" for i
    using that line_idx_bounds(2) [of a] by (simp add: mem_le32_def tb_off_line)
  note w = this [of 0] this [of 1] this [of 2] this [of 3]
  have "[0..<4] = [0, 1, 2, 3 :: nat]" by (simp add: upt_rec)
  then show ?thesis using w by (simp add: tb_load_def)
qed

lemma sd_byte_words: "i < 16 \<Longrightarrow> sd_byte (map (\<lambda>i. le32 f (p + 4 * i)) [0..<4]) i = f (p + i)"
proof -
  assume "i < 16"
  then have "i div 4 < 4" by (simp add: less_mult_imp_div_less)
  then have "map (\<lambda>i. le32 f (p + 4 * i)) [0..<4] ! (i div 4) = le32 f (p + 4 * (i div 4))"
    by (simp del: upt_rec_numeral)
  then show ?thesis by (simp add: sd_byte_def le32_byte add.assoc del: upt_rec_numeral)
qed

lemma tb_store_line:
  "tb_store m (line16 a) msk sd x =
     (if line_idx a \<le> x \<and> x < line_idx a + 16 \<and> bit msk (x - line_idx a) then sd_byte sd (x - line_idx a) else m x)"
proof (cases "line_idx a \<le> x \<and> x < line_idx a + 16")
  case True
  then obtain i where i: "i < 16" "x = line_idx a + i" by (metis add_less_cancel_left le_Suc_ex)
  have "inj_on (\<lambda>i. unat (tb_off (line16 a) i)) {..<16}" by (auto simp: inj_on_def tb_off_line)
  from store_bytes_hit [OF this i(1), of "bit msk" sd m] show ?thesis
    using i(1) by (simp add: tb_store_def i(2) tb_off_line)
next
  case False
  have "tb_store m (line16 a) msk sd x = m x"
    unfolding tb_store_def by (rule store_bytes_miss) (use False in \<open>auto simp: tb_off_line\<close>)
  then show ?thesis using False by auto
qed

lemma beat_bytes_words: "beat_bytes (map (\<lambda>i. le32 f (4 * i)) [0..<4]) = map f [0..<16]"
proof -
  have "map (sd_byte (map (\<lambda>i. le32 f (0 + 4 * i)) [0..<4])) [0..<16] = map f [0..<16]"
    by (rule map_cong [OF refl]) (simp only: sd_byte_words set_upt atLeastLessThan_iff, simp)
  then show ?thesis by (simp only: beat_bytes_def add_0)
qed

lemma beat_bytes_pack: "beat_bytes (pack b) = map (\<lambda>i. b ! i) [0..<16]"
proof -
  have "pack b = map (\<lambda>i. le32 (\<lambda>k. b ! k) (4 * i)) [0..<4]" by (simp add: pack_def le32_def)
  then show ?thesis by (simp only: beat_bytes_words)
qed

lemma disk_beat_ramp: "beat_bytes (disk_beat b) = map (\<lambda>k. ramp (b + of_nat k)) [0..<16]"
proof -
  have u: "[0..<4] = [0, 1, 2, 3 :: nat]" by (simp add: upt_rec)
  have "disk_beat b = map (\<lambda>i. le32 (\<lambda>k. ramp (b + of_nat k)) (4 * i)) [0..<4]"
    unfolding u by (simp add: disk_beat_def le32_def u add.assoc or.assoc)
  then show ?thesis by (simp only: beat_bytes_words)
qed

section \<open>A port that keeps its memory while it waits\<close>

text \<open>
  The law the guard bytes of the tests rest on: nothing is written before a request is due.
  The test ports answer \<open>LAT\<close> cycles after they accept.
\<close>

locale memory_port = one_outstanding ok step due rsp
  for ok :: "'c \<Rightarrow> bool" and step :: "'c \<Rightarrow> nat \<Rightarrow> 'i \<Rightarrow> 's \<Rightarrow> 's option"
    and due :: "'s \<Rightarrow> int" and rsp :: "'s \<Rightarrow> bool" +
  fixes memory :: "'s \<Rightarrow> 'm" and held :: "'s \<Rightarrow> 'r"
  assumes wait_keeps: "step c cyc i s = Some s' \<Longrightarrow> due s \<noteq> -1 \<Longrightarrow> due s \<noteq> int cyc \<Longrightarrow>
      memory s' = memory s \<and> held s' = held s"
begin

lemma keeps_until_due:
  "run_from (step c) cyc is s = Some s' \<Longrightarrow> due s = int (cyc + k) \<Longrightarrow> length is \<le> k \<Longrightarrow>
     memory s' = memory s \<and> held s' = held s \<and> due s' = due s"
proof (induction "is" arbitrary: cyc s k)
  case (Cons i "is")
  then obtain t where t: "step c cyc i s = Some t" "run_from (step c) (Suc cyc) is t = Some s'"
    by (auto simp: bind_eq_Some_conv)
  from Cons.prems obtain j where j: "k = Suc j" by (cases k) auto
  have "due t = due s" "memory t = memory s" "held t = held s"
    using step_wait [OF t(1)] wait_keeps [OF t(1)] Cons.prems(2) j by simp_all
  moreover from this have "due t = int (Suc cyc + j)" using Cons.prems(2) j by simp
  ultimately show ?case using Cons.IH [OF t(2), of j] Cons.prems(3) j by simp
qed simp

text \<open>A request in flight is answered at its cycle, from the memory it was accepted with.\<close>

lemma answered_from_kept:
  assumes "run_from (step c) cyc is s = Some t" "step c (cyc + k) i t = Some u"
    and "due s = int (cyc + k)" "length is = k"
  shows "memory t = memory s \<and> held t = held s \<and> due t = int (cyc + k) \<and> rsp u \<and> due u = -1"
proof -
  have "memory t = memory s \<and> held t = held s \<and> due t = due s"
    by (rule keeps_until_due [OF assms(1,3)]) (simp add: assms(4))
  moreover from this have "due u = -1 \<and> rsp u" using step_reply [OF assms(2)] assms(3) by simp
  ultimately show ?thesis using assms(3) by simp
qed

end

text \<open>The registers a request is held in, and the cycle its answer is due.\<close>

definition dp_held :: "dma_port \<Rightarrow> u32 \<times> u32 \<times> u32 \<times> u32 list" where
  "dp_held p = (dp_addr p, dp_op p, dp_mask p, dp_sd p)"

definition dp_due :: "dma_port \<Rightarrow> int" where
  "dp_due p = (if dp_reply p < 0 then -1 else dp_reply p)"

definition enet_port_step :: "int \<Rightarrow> dma_req \<Rightarrow> dma_port \<Rightarrow> dma_port option" where
  "enet_port_step cyc r p = map_option (enet_accept cyc r) (enet_answer cyc p)"

lemma enet_answer_idle: "dp_reply p \<noteq> cyc \<Longrightarrow> enet_answer cyc p = Some (p\<lparr>dp_rsp_valid := False\<rparr>)"
  by (simp add: enet_answer_def Let_def)

lemma enet_answer_due:
  "dp_reply p = cyc \<Longrightarrow> enet_answer cyc p = Some (p\<lparr>dp_rsp_valid := True, dp_reply := -1, dp_resp_cyc := cyc,
     dp_rsp_data := (if dp_op p = 4 then map (\<lambda>i. le32 (dp_mem p) (line_idx (dp_addr p) + 4 * i)) [0..<4] else dp_rsp_data p),
     dp_mem := (if dp_op p = 7 then tb_store (dp_mem p) (line16 (dp_addr p)) (dp_mask p) (dp_sd p) else dp_mem p)\<rparr>)"
  by (simp add: enet_answer_def Let_def tb_load_line)

lemma enet_accept_busy: "dp_reply p \<ge> 0 \<or> dp_resp_cyc p = cyc \<Longrightarrow> enet_accept cyc r p = p"
  by (auto simp: enet_accept_def)

interpretation enet_port: memory_port "\<lambda>_ :: unit. True" "\<lambda>_ cyc. enet_port_step (int cyc)"
  dp_due dp_rsp_valid dp_mem dp_held
proof (unfold_locales, goal_cases)
  case (1 c cyc i s)
  then show ?case by (cases "dp_reply s = int cyc") (simp_all add: enet_port_step_def enet_answer_idle enet_answer_due)
next
  case (2 c cyc i s s')
  then show ?case
    by (auto simp: enet_port_step_def dp_due_def enet_answer_idle enet_accept_busy split: if_splits)
next
  case (3 c cyc i s s')
  then have "dp_reply s = int cyc" by (auto simp: dp_due_def split: if_splits)
  then show ?case using 3 by (auto simp: enet_port_step_def dp_due_def enet_answer_due enet_accept_busy)
next
  case (4 c cyc i s s')
  then show ?case
    by (auto simp: enet_port_step_def dp_due_def dp_held_def enet_answer_idle enet_accept_busy split: if_splits)
qed

section \<open>Runs of the ethernet test\<close>

fun enet_run :: "'d enet_dut \<Rightarrow> enet_arg list \<Rightarrow> 'd enet_tb \<Rightarrow> 'd enet_tb option" where
  "enet_run E [] s = Some s"
| "enet_run E (a # as) s = Option.bind (enet_step E a s) (enet_run E as)"

text \<open>What the engine shows after the low evaluation of a step.\<close>

definition enet_shows :: "'d enet_dut \<Rightarrow> enet_arg \<Rightarrow> 'd enet_tb \<Rightarrow> enet_out" where
  "enet_shows E a s = e_out E (enet_low E a (the (enet_answer (ecyc s) (eport s))) s)"

text \<open>The beats the engine wrote and took in a run.\<close>

fun tx_written :: "'d enet_dut \<Rightarrow> enet_arg list \<Rightarrow> 'd enet_tb \<Rightarrow> beat list" where
  "tx_written E [] s = []"
| "tx_written E (a # as) s =
     (if tx_wr_en (enet_shows E a s) then [map (\<lambda>i. tx_wr_data (enet_shows E a s) ! i) [0..<4]] else [])
     @ tx_written E as (the (enet_step E a s))"

fun rx_taken :: "'d enet_dut \<Rightarrow> enet_arg list \<Rightarrow> 'd enet_tb \<Rightarrow> beat list" where
  "rx_taken E [] s = []"
| "rx_taken E (a # as) s =
     (if rx_rd_en (enet_shows E a s) then [hd (rx_fifo s)] else []) @ rx_taken E as (the (enet_step E a s))"

text \<open>An engine that holds its beat while the transmit FIFO is full.\<close>

definition holds_beat :: "'d enet_dut \<Rightarrow> bool" where
  "holds_beat E \<longleftrightarrow> (\<forall>i r d. tx_wr_full i \<longrightarrow> \<not> tx_wr_en (e_out E (e_eval E False i r d)))"

definition flat_beats :: "beat list \<Rightarrow> bytes" where
  "flat_beats bs = concat (map beat_bytes bs)"

lemma flat_beats_simps [simp]:
  "flat_beats [] = []" "flat_beats (b # bs) = beat_bytes b @ flat_beats bs"
  "flat_beats (bs @ cs) = flat_beats bs @ flat_beats cs"
  by (simp_all add: flat_beats_def)

lemma enet_answer_Some: "\<exists>p'. enet_answer cyc p = Some p'"
  by (cases "dp_reply p = cyc") (simp_all add: enet_answer_idle enet_answer_due)

lemma enet_count_fields [simp]:
  "tx_out (enet_count v s) = tx_out s" "tx_fifo (enet_count v s) = tx_fifo s" "rx_fifo (enet_count v s) = rx_fifo s"
  "rx_src (enet_count v s) = rx_src s" "eport (enet_count v s) = eport s" "ecyc (enet_count v s) = ecyc s + 1"
  by (simp_all add: enet_count_def)

lemma rx_fifo_edge_fields [simp]:
  "tx_out (rx_fifo_edge en s) = tx_out s" "tx_fifo (rx_fifo_edge en s) = tx_fifo s"
  "eport (rx_fifo_edge en s) = eport s" "ecyc (rx_fifo_edge en s) = ecyc s"
  by (simp_all add: rx_fifo_edge_def Let_def)

lemma tx_fifo_push_fields [simp]:
  "tx_out (tx_fifo_push wr wb s) = tx_out s" "rx_fifo (tx_fifo_push wr wb s) = rx_fifo s"
  "rx_src (tx_fifo_push wr wb s) = rx_src s" "eport (tx_fifo_push wr wb s) = eport s" "ecyc (tx_fifo_push wr wb s) = ecyc s"
  "tx_fifo (tx_fifo_push wr wb s) = tx_fifo s @ (if wr \<and> length (tx_fifo s) < 16 then [wb] else [])"
  by (simp_all add: tx_fifo_push_def)

lemma tx_fifo_pop_Some:
  assumes "tx_fifo_pop s = Some u"
  shows "tx_out u @ flat_beats (tx_fifo u) = tx_out s @ flat_beats (tx_fifo s)" "length (tx_fifo u) \<le> length (tx_fifo s)"
    "rx_fifo u = rx_fifo s" "rx_src u = rx_src s" "eport u = eport s" "ecyc u = ecyc s"
  using assms by (cases "tx_fifo s"; auto simp: tx_fifo_pop_def split: if_splits)+

lemma rx_fifo_edge_order:
  "\<not> (en \<and> rx_fifo s = []) \<Longrightarrow>
     (if en then [hd (rx_fifo s)] else []) @ rx_fifo (rx_fifo_edge en s) @ rx_src (rx_fifo_edge en s) = rx_fifo s @ rx_src s"
  by (cases "rx_fifo s"; cases "rx_src s") (auto simp: rx_fifo_edge_def Let_def)

text \<open>The parts of a step: the state after the push, after the pop, and the count.\<close>

lemma enet_stepE:
  assumes "enet_step E a s = Some s'"
  obtains p t u v where "enet_answer (ecyc s) (eport s) = Some p"
    "rx_fifo t = rx_fifo s" "rx_src t = rx_src s" "tx_out t = tx_out s" "ecyc t = ecyc s"
    "tx_fifo t = tx_fifo s @ (if tx_wr_en (enet_shows E a s) \<and> length (tx_fifo s) < 16
       then [map (\<lambda>i. tx_wr_data (enet_shows E a s) ! i) [0..<4]] else [])"
    "eport t = enet_accept (ecyc s) (e_req (enet_shows E a s)) p"
    "tx_fifo_pop (rx_fifo_edge (rx_rd_en (enet_shows E a s)) t) = Some u"
    "s' = enet_count v u" "\<not> (rx_rd_en (enet_shows E a s) \<and> rx_fifo s = [])"
proof -
  obtain p where p: "enet_answer (ecyc s) (eport s) = Some p" using enet_answer_Some by blast
  define d where "d = e_eval E True (enet_inputs a s) (dp_rsp_valid p, dp_rsp_data p) (enet_low E a p s)"
  define t where "t = tx_fifo_push (tx_wr_en (enet_shows E a s)) (map (\<lambda>i. tx_wr_data (enet_shows E a s) ! i) [0..<4])
    (s\<lparr>ed := d, ein := enet_inputs a s, eport := enet_accept (ecyc s) (e_req (enet_shows E a s)) p\<rparr>)"
  have sh: "e_out E (enet_low E a p s) = enet_shows E a s" using p by (simp add: enet_shows_def)
  have c: "\<not> (rx_rd_en (enet_shows E a s) \<and> rx_fifo s = [])"
    using assms p sh by (auto simp: enet_step_def Let_def simp del: upt_rec_numeral)
  then have "map_option (enet_count (e_out E d)) (tx_fifo_pop (rx_fifo_edge (rx_rd_en (enet_shows E a s)) t)) = Some s'"
    using assms p sh by (simp only: enet_step_def Let_def d_def t_def Option.bind.bind_lunit if_False)
  then obtain u where "tx_fifo_pop (rx_fifo_edge (rx_rd_en (enet_shows E a s)) t) = Some u" "s' = enet_count (e_out E d) u"
    by auto
  with p c show ?thesis by (intro that [of p t u "e_out E d"]) (simp_all add: t_def del: upt_rec_numeral)
qed

text \<open>One step: the order of the received beats, of the transmitted bytes, the FIFO bound, the port.\<close>

lemma enet_step_rx:
  assumes "enet_step E a s = Some s'"
  shows "(if rx_rd_en (enet_shows E a s) then [hd (rx_fifo s)] else []) @ rx_fifo s' @ rx_src s' = rx_fifo s @ rx_src s"
proof -
  obtain p t u v where t: "rx_fifo t = rx_fifo s" "rx_src t = rx_src s" "s' = enet_count v u"
      "tx_fifo_pop (rx_fifo_edge (rx_rd_en (enet_shows E a s)) t) = Some u" "\<not> (rx_rd_en (enet_shows E a s) \<and> rx_fifo s = [])"
    using enet_stepE [OF assms] by metis
  have "\<not> (rx_rd_en (enet_shows E a s) \<and> rx_fifo t = [])" using t(1,5) by simp
  from rx_fifo_edge_order [OF this] show ?thesis
    using tx_fifo_pop_Some(3,4) [OF t(4)] by (simp only: t(1-3) enet_count_fields)
qed

lemma enet_step_tx:
  assumes "enet_step E a s = Some s'" "holds_beat E"
  shows "tx_out s' @ flat_beats (tx_fifo s') = tx_out s @ flat_beats (tx_fifo s @
      (if tx_wr_en (enet_shows E a s) then [map (\<lambda>i. tx_wr_data (enet_shows E a s) ! i) [0..<4]] else []))"
    and "length (tx_fifo s) \<le> 16 \<Longrightarrow> length (tx_fifo s') \<le> 16"
proof -
  obtain p t u v where t: "tx_out t = tx_out s" "tx_fifo_pop (rx_fifo_edge (rx_rd_en (enet_shows E a s)) t) = Some u" "s' = enet_count v u"
     "tx_fifo t = tx_fifo s @ (if tx_wr_en (enet_shows E a s) \<and> length (tx_fifo s) < 16
       then [map (\<lambda>i. tx_wr_data (enet_shows E a s) ! i) [0..<4]] else [])"
    using enet_stepE [OF assms(1)] by metis
  have "tx_wr_full (enet_inputs a s) \<longleftrightarrow> \<not> length (tx_fifo s) < 16"
    by (simp add: enet_inputs_def case_prod_unfold not_less)
  then have "length (tx_fifo s) < 16" if "tx_wr_en (enet_shows E a s)"
    using that assms(2) unfolding holds_beat_def enet_shows_def enet_low_def by blast
  then have e: "tx_fifo t = tx_fifo s @ (if tx_wr_en (enet_shows E a s)
      then [map (\<lambda>i. tx_wr_data (enet_shows E a s) ! i) [0..<4]] else [])" using t(4) by auto
  show "tx_out s' @ flat_beats (tx_fifo s') = tx_out s @ flat_beats (tx_fifo s @
      (if tx_wr_en (enet_shows E a s) then [map (\<lambda>i. tx_wr_data (enet_shows E a s) ! i) [0..<4]] else []))"
    using tx_fifo_pop_Some(1) [OF t(2)] by (simp only: t(1,3) e enet_count_fields rx_fifo_edge_fields)
  show "length (tx_fifo s) \<le> 16 \<Longrightarrow> length (tx_fifo s') \<le> 16"
    using tx_fifo_pop_Some(2) [OF t(2)] t(3,4) by (auto split: if_splits)
qed

lemma enet_step_port:
  assumes "enet_step E a s = Some s'"
  shows "enet_port_step (ecyc s) (e_req (enet_shows E a s)) (eport s) = Some (eport s')" "ecyc s' = ecyc s + 1"
proof -
  obtain p t u v where t: "enet_answer (ecyc s) (eport s) = Some p" "ecyc t = ecyc s" "s' = enet_count v u"
      "eport t = enet_accept (ecyc s) (e_req (enet_shows E a s)) p"
      "tx_fifo_pop (rx_fifo_edge (rx_rd_en (enet_shows E a s)) t) = Some u"
    using enet_stepE [OF assms] by metis
  show "enet_port_step (ecyc s) (e_req (enet_shows E a s)) (eport s) = Some (eport s')" "ecyc s' = ecyc s + 1"
    using t(1-4) tx_fifo_pop_Some(5,6) [OF t(5)] by (simp_all add: enet_port_step_def)
qed

lemma enet_run_rx:
  "enet_run E as s = Some s' \<Longrightarrow> rx_taken E as s @ rx_fifo s' @ rx_src s' = rx_fifo s @ rx_src s"
proof (induction "as" arbitrary: s)
  case (Cons a "as")
  then obtain t where t: "enet_step E a s = Some t" "enet_run E as t = Some s'" by (auto simp: bind_eq_Some_conv)
  show ?case using Cons.IH [OF t(2)] enet_step_rx [OF t(1)] t(1) by (simp split: if_splits)
qed simp

lemma enet_run_conserved:
  assumes "holds_beat E" "enet_run E as s = Some s'"
  shows "rx_taken E as s @ rx_fifo s' @ rx_src s' = rx_fifo s @ rx_src s"
    "tx_out s' @ flat_beats (tx_fifo s') = tx_out s @ flat_beats (tx_fifo s @ tx_written E as s)"
    "length (tx_fifo s) \<le> 16 \<Longrightarrow> length (tx_fifo s') \<le> 16"
  using assms(2)
proof (induction "as" arbitrary: s)
  case (Cons a "as")
  {
    case 1
    then show ?case by (rule enet_run_rx)
  next
    case 2
    then obtain t where t: "enet_step E a s = Some t" "enet_run E as t = Some s'" by (auto simp: bind_eq_Some_conv)
    show ?case
      using Cons.IH(2) [OF t(2)] enet_step_tx(1) [OF t(1) assms(1)] t(1) by (simp del: upt_rec_numeral split: if_splits)
  next
    case 3
    then obtain t where t: "enet_step E a s = Some t" "enet_run E as t = Some s'" by (auto simp: bind_eq_Some_conv)
    show ?case using Cons.IH(3) [OF _ t(2)] enet_step_tx(2) [OF t(1) assms(1)] 3 by simp
  }
qed simp_all

text \<open>
  No beat is lost, made up or reordered: whatever the engine does with its request lines, the
  receive beats it took are the head of what was queued, and, if it holds its beat while the
  transmit FIFO is full, the bytes the consumer got, with those still queued, are the written
  beats in order.  The FIFO never holds more than its 16 beats.
\<close>

theorem enet_beats_conserved:
  assumes "holds_beat E" "enet_run E as s = Some s'" "length (tx_fifo s) \<le> 16"
  shows "rx_taken E as s @ rx_fifo s' @ rx_src s' = rx_fifo s @ rx_src s \<and>
    tx_out s' @ flat_beats (tx_fifo s') = tx_out s @ flat_beats (tx_fifo s @ tx_written E as s) \<and>
    length (tx_fifo s') \<le> 16"
  using enet_run_conserved [OF assms(1,2)] assms(3) by blast

text \<open>An engine that takes every beat it is offered and writes one whenever there is room.\<close>

definition idle_req :: dma_req where
  "idle_req = \<lparr>q_valid = False, q_addr = 0, q_op = 0, q_mask = 0, q_sd = [0, 0, 0, 0]\<rparr>"

definition loop_dut :: "enet_in enet_dut" where
  "loop_dut = \<lparr>e_eval = (\<lambda>_ i _ _. i), e_out = (\<lambda>i. \<lparr>e_req = idle_req, rx_rd_en = rx_rd_valid i, tx_wr_en = \<not> tx_wr_full i,
     tx_wr_data = [1, 2, 3, 4], rx_done = False, rx_dropped = False, tx_done = False, tx_len = 0\<rparr>)\<rparr>"

definition idle_port :: dma_port where
  "idle_port = \<lparr>dp_mem = (\<lambda>_. 0), dp_reply = -1, dp_resp_cyc = -100, dp_addr = 0, dp_op = 0, dp_mask = 0, dp_sd = [0, 0, 0, 0],
     dp_last_addr = 0xffffffff, dp_last_op = 0xff, dp_rsp_valid = False, dp_rsp_data = [0, 0, 0, 0]\<rparr>"

definition enet_in0 :: enet_in where
  "enet_in0 = \<lparr>rx_go = False, rx_nbdp = 0, rx_len = 0, tx_go = False, tx_nbdp = 0, rx_rd_valid = False,
     rx_rd_data = [0, 0, 0, 0], tx_wr_full = False\<rparr>"

definition enet_tb0 :: "'d \<Rightarrow> 'd enet_tb" where
  "enet_tb0 d = \<lparr>ed = d, ein = enet_in0, eport = idle_port, ecyc = 0, rx_src = [], rx_fifo = [], tx_fifo = [],
     tx_pop_period = 1, tx_out = [], n_rx_done = 0, n_rx_drop = 0, n_tx_done = 0\<rparr>"

definition enet_sample :: "enet_in enet_tb" where
  "enet_sample = (enet_tb0 enet_in0)\<lparr>rx_fifo := [[5, 6, 7, 8]], rx_src := [[9, 10, 11, 12]]\<rparr>"

lemma loop_dut_holds: "holds_beat loop_dut"
  by (simp add: holds_beat_def loop_dut_def)

text \<open>A step is defined when the engine pops only what it was offered and the consumer has a period.\<close>

lemma enet_step_Some:
  assumes "\<not> (rx_rd_en (enet_shows E a s) \<and> rx_fifo s = [])" "tx_pop_period s \<noteq> 0"
  shows "\<exists>s'. enet_step E a s = Some s' \<and> tx_pop_period s' = tx_pop_period s"
proof -
  obtain p where p: "enet_answer (ecyc s) (eport s) = Some p" using enet_answer_Some by blast
  have pop: "\<exists>u. tx_fifo_pop t = Some u \<and> tx_pop_period u = tx_pop_period s" if "tx_pop_period t = tx_pop_period s"
    for t :: "'a enet_tb" using that assms(2) by (auto simp: tx_fifo_pop_def)
  have "tx_pop_period (rx_fifo_edge en (tx_fifo_push wr wb (s\<lparr>ed := d, ein := i, eport := q\<rparr>))) = tx_pop_period s"
    for en wr wb d i q by (simp add: rx_fifo_edge_def tx_fifo_push_def Let_def)
  from pop [OF this] have "\<exists>u. tx_fifo_pop (rx_fifo_edge en (tx_fifo_push wr wb (s\<lparr>ed := d, ein := i, eport := q\<rparr>))) = Some u
      \<and> tx_pop_period u = tx_pop_period s" for en wr wb d i q .
  moreover have "\<not> (rx_rd_en (e_out E (enet_low E a p s)) \<and> rx_fifo s = [])"
    using assms(1) p by (simp add: enet_shows_def)
  moreover have "tx_pop_period (enet_count v u) = tx_pop_period u" for v and u :: "'a enet_tb" by (simp add: enet_count_def)
  ultimately show ?thesis unfolding enet_step_def p Option.bind.bind_lunit Let_def if_not_P by (metis option.map(2))
qed

lemma enet_run_Some:
  "(\<And>a s. rx_rd_en (enet_shows E a s) \<Longrightarrow> rx_fifo s \<noteq> []) \<Longrightarrow> tx_pop_period s \<noteq> 0 \<Longrightarrow>
     \<exists>s'. enet_run E as s = Some s' \<and> tx_pop_period s' = tx_pop_period s"
proof (induction "as" arbitrary: s)
  case (Cons a "as")
  then obtain t where t: "enet_step E a s = Some t" "tx_pop_period t = tx_pop_period s"
    using enet_step_Some [of E a s] by blast
  then show ?case using Cons.IH [of t] Cons.prems by simp
qed simp

lemma loop_dut_runs: "tx_pop_period s \<noteq> 0 \<Longrightarrow> \<exists>s'. enet_run loop_dut as s = Some s'"
  using enet_run_Some [of loop_dut s "as"]
  by (auto simp: enet_shows_def enet_low_def loop_dut_def enet_inputs_def case_prod_unfold)

theorem enet_beats_conserved_witness:
  "\<exists>s'. enet_run loop_dut [(False, 0, 0, False, 0), (False, 0, 0, False, 0)] enet_sample = Some s' \<and>
     rx_taken loop_dut [(False, 0, 0, False, 0), (False, 0, 0, False, 0)] enet_sample @ rx_fifo s' @ rx_src s' =
       [[5, 6, 7, 8], [9, 10, 11, 12]] \<and> length (tx_fifo s') \<le> 16"
proof -
  let ?as = "[(False, 0, 0, False, 0), (False, 0, 0, False, 0)] :: enet_arg list"
  have "tx_pop_period enet_sample \<noteq> 0" by (simp add: enet_sample_def enet_tb0_def)
  then obtain s' where s': "enet_run loop_dut ?as enet_sample = Some s'" using loop_dut_runs by blast
  have q: "length (tx_fifo enet_sample) \<le> 16" "rx_fifo enet_sample @ rx_src enet_sample = [[5, 6, 7, 8], [9, 10, 11, 12]]"
    by (simp_all add: enet_sample_def enet_tb0_def)
  from enet_beats_conserved [OF loop_dut_holds s' q(1)] s' show ?thesis unfolding q(2) by blast
qed

text \<open>
  The beats a frame is queued as carry its bytes in order, padded with zeros to whole beats.
\<close>

lemma frame_beats_roundtrip:
  "flat_beats (frame_beats f) = f @ replicate ((16 - length f mod 16) mod 16) 0"
proof -
  define pad where "pad = f @ replicate ((16 - length f mod 16) mod 16) (0 :: u8)"
  obtain n where n: "length pad = 16 * n"
  proof -
    define q k where "q = length f div 16" and "k = length f mod 16"
    have l: "length f = 16 * q + k" "k < 16" by (simp_all add: q_def k_def)
    have p: "length pad = length f + (16 - k) mod 16" by (simp add: pad_def k_def)
    show ?thesis
    proof (cases "k = 0")
      case True
      then show ?thesis using l p that [of q] by simp
    next
      case False
      then have "length pad = 16 * (q + 1)" using l p by simp
      then show ?thesis by (rule that)
    qed
  qed
  have b: "map (\<lambda>i. drop (16 * b) pad ! i) [0..<16] = take 16 (drop (16 * b) pad)" if "b < n" for b
    using that n by (intro nth_equalityI) auto
  have "concat (map (\<lambda>b. take 16 (drop (16 * b) pad)) [0..<k]) = take (16 * k) pad" if "k \<le> n" for k
    using that
  proof (induction k)
    case (Suc k)
    have "take (16 * k + 16) pad = take (16 * k) pad @ take 16 (drop (16 * k) pad)" by (rule take_add)
    then show ?case using Suc by (simp add: add.commute)
  qed simp
  from this [of n] have "concat (map (\<lambda>b. take 16 (drop (16 * b) pad)) [0..<n]) = pad" using n by simp
  moreover have "map (\<lambda>b. map (\<lambda>i. drop (16 * b) pad ! i) [0..<16]) [0..<n] = map (\<lambda>b. take 16 (drop (16 * b) pad)) [0..<n]"
    by (rule map_cong [OF refl]) (simp only: set_upt atLeastLessThan_iff b)
  then have "flat_beats (frame_beats f) = concat (map (\<lambda>b. take 16 (drop (16 * b) pad)) [0..<n])"
    unfolding flat_beats_def frame_beats_def pad_def [symmetric] Let_def
    by (simp add: n beat_bytes_pack comp_def del: upt_rec_numeral map_eq_conv)
  ultimately show ?thesis by (simp add: pad_def)
qed

section \<open>A request of the ethernet engine\<close>

lemma enet_run_port:
  "enet_run E as s = Some t \<Longrightarrow> ecyc s = int c \<Longrightarrow>
     \<exists>rs. length rs = length as \<and> run_from (\<lambda>cyc. enet_port_step (int cyc)) c rs (eport s) = Some (eport t) \<and>
       ecyc t = int (c + length as)"
proof (induction "as" arbitrary: s c)
  case Nil
  then show ?case by (auto intro: exI [of _ "[]"])
next
  case (Cons a "as")
  then obtain u where u: "enet_step E a s = Some u" "enet_run E as u = Some t" by (auto simp: bind_eq_Some_conv)
  have "ecyc u = int (Suc c)" using enet_step_port(2) [OF u(1)] Cons.prems(2) by simp
  from Cons.IH [OF u(2) this] obtain rs where rs: "length rs = length as"
    "run_from (\<lambda>cyc. enet_port_step (int cyc)) (Suc c) rs (eport u) = Some (eport t)" "ecyc t = int (Suc c + length as)"
    by blast
  then show ?case using enet_step_port(1) [OF u(1)] Cons.prems(2)
    by (intro exI [of _ "e_req (enet_shows E a s) # rs"]) simp
qed

lemma sd_byte_cut: "i < 16 \<Longrightarrow> sd_byte (map (\<lambda>i. w ! i) [0..<4]) i = sd_byte w i"
proof -
  assume "i < 16"
  then have "i div 4 < 4" by (simp add: less_mult_imp_div_less)
  then show ?thesis by (simp add: sd_byte_def del: upt_rec_numeral)
qed

text \<open>What a line answer does to the memory.\<close>

definition line_write :: "u32 \<Rightarrow> u32 \<Rightarrow> u32 list \<Rightarrow> mem \<Rightarrow> mem" where
  "line_write a msk sd m = (\<lambda>x. if line_idx a \<le> x \<and> x < line_idx a + 16 \<and> bit msk (x - line_idx a)
     then sd_byte sd (x - line_idx a) else m x)"

lemma tb_store_line_write: "tb_store m (line16 a) msk (map (\<lambda>i. sd ! i) [0..<4]) = line_write a msk sd m"
  unfolding line_write_def tb_store_line by (intro ext if_cong refl sd_byte_cut) auto

text \<open>
  A new request of the engine, shown to an idle port, is answered in the fourth cycle after it
  and not before; until then the memory stands still.  A load gets the sixteen bytes of the
  aligned line, a store writes the enabled bytes of that line and no other byte of the memory,
  and anything else leaves it alone.
\<close>

theorem enet_request_answered:
  fixes E :: "'d enet_dut"
  defines "r \<equiv> \<lambda>a s. e_req (enet_shows E a s)"
  assumes "enet_run E (a # as) s = Some u" "length as = 3" "enet_step E b u = Some t"
    and "0 \<le> ecyc s" "dp_reply (eport s) < 0" "dp_resp_cyc (eport s) < ecyc s" "q_valid (r a s)"
    and "q_addr (r a s) \<noteq> ucast (dp_last_addr (eport s)) \<or> q_op (r a s) \<noteq> dp_last_op (eport s)"
  shows "\<not> dp_rsp_valid (eport u) \<and> dp_mem (eport u) = dp_mem (eport s) \<and> dp_rsp_valid (eport t) \<and>
    (q_op (r a s) = 4 \<longrightarrow> (\<forall>i < 16. sd_byte (dp_rsp_data (eport t)) i
        = dp_mem (eport s) (line_idx (ucast (q_addr (r a s))) + i))) \<and>
    dp_mem (eport t) = (if q_op (r a s) = 7
      then line_write (ucast (q_addr (r a s))) (q_mask (r a s)) (q_sd (r a s)) (dp_mem (eport s)) else dp_mem (eport s))"
proof -
  obtain c where c: "ecyc s = int c" using assms(5) by (metis nat_0_le)
  obtain s1 where s1: "enet_step E a s = Some s1" "enet_run E as s1 = Some u"
    using assms(2) by (auto simp: bind_eq_Some_conv)
  let ?q = "r a s"
  have ne: "dp_reply (eport s) \<noteq> ecyc s" using assms(5,6) by simp
  have p1: "eport s1 = enet_accept (ecyc s) ?q ((eport s)\<lparr>dp_rsp_valid := False\<rparr>)"
    using enet_step_port(1) [OF s1(1)] by (simp add: enet_port_step_def enet_answer_idle [OF ne] r_def)
  then have e1: "dp_reply (eport s1) = int c + 4" "dp_mem (eport s1) = dp_mem (eport s)"
      "dp_held (eport s1) = (ucast (q_addr ?q), q_op ?q, q_mask ?q, map (\<lambda>i. q_sd ?q ! i) [0..<4])"
    using assms(6-9) c by (simp_all add: enet_accept_def LAT_def dp_held_def del: upt_rec_numeral)
  have c1: "ecyc s1 = int (Suc c)" using enet_step_port(2) [OF s1(1)] c by simp
  obtain rs where rs: "length rs = 3" "run_from (\<lambda>cyc. enet_port_step (int cyc)) (Suc c) rs (eport s1) = Some (eport u)"
      "ecyc u = int (Suc c + 3)"
    using enet_run_port [OF s1(2) c1] assms(3) by auto
  have st: "enet_port_step (int (Suc c + 3)) (r b u) (eport u) = Some (eport t)"
    using enet_step_port(1) [OF assms(4)] by (simp only: rs(3) r_def)
  have d: "dp_due (eport s1) = int (Suc c + 3)" using e1(1) by (simp add: dp_due_def)
  have k: "dp_mem (eport u) = dp_mem (eport s1) \<and> dp_held (eport u) = dp_held (eport s1) \<and> dp_due (eport u) = int (Suc c + 3)
      \<and> dp_rsp_valid (eport t) \<and> dp_due (eport t) = -1"
    by (rule enet_port.answered_from_kept [OF rs(2) st d rs(1)])
  have q: "\<not> dp_rsp_valid (eport u)"
    using enet_port.silent_until_due [OF rs(2) d] rs(1) by fastforce
  have "dp_reply (eport u) = ecyc u" using k rs(3) by (auto simp: dp_due_def split: if_splits)
  from enet_answer_due [OF this] have "eport t = enet_accept (ecyc u) (r b u) ((eport u)\<lparr>dp_rsp_valid := True,
      dp_reply := -1, dp_resp_cyc := ecyc u,
      dp_rsp_data := (if dp_op (eport u) = 4 then map (\<lambda>i. le32 (dp_mem (eport u)) (line_idx (dp_addr (eport u)) + 4 * i)) [0..<4]
        else dp_rsp_data (eport u)),
      dp_mem := (if dp_op (eport u) = 7 then tb_store (dp_mem (eport u)) (line16 (dp_addr (eport u))) (dp_mask (eport u))
        (dp_sd (eport u)) else dp_mem (eport u))\<rparr>)"
    using st rs(3) by (simp add: enet_port_step_def del: upt_rec_numeral)
  then have f: "dp_rsp_data (eport t) = (if dp_op (eport u) = 4
        then map (\<lambda>i. le32 (dp_mem (eport u)) (line_idx (dp_addr (eport u)) + 4 * i)) [0..<4] else dp_rsp_data (eport u))"
      "dp_mem (eport t) = (if dp_op (eport u) = 7 then tb_store (dp_mem (eport u)) (line16 (dp_addr (eport u)))
        (dp_mask (eport u)) (dp_sd (eport u)) else dp_mem (eport u))"
    by (simp_all add: enet_accept_busy del: upt_rec_numeral)
  have h: "dp_addr (eport u) = ucast (q_addr ?q)" "dp_op (eport u) = q_op ?q" "dp_mask (eport u) = q_mask ?q"
      "dp_sd (eport u) = map (\<lambda>i. q_sd ?q ! i) [0..<4]" "dp_mem (eport u) = dp_mem (eport s)"
    using k e1(2,3) by (simp_all add: dp_held_def del: upt_rec_numeral)
  show ?thesis
    unfolding f h using q k by (simp add: sd_byte_words tb_store_line_write del: upt_rec_numeral)
qed

text \<open>An engine that only asks for the line of address \<open>0x1008\<close>.\<close>

definition load_dut :: "unit enet_dut" where
  "load_dut = \<lparr>e_eval = (\<lambda>_ _ _ d. d), e_out = (\<lambda>_. \<lparr>e_req = \<lparr>q_valid = True, q_addr = 0x1008, q_op = 4, q_mask = 0, q_sd = [0, 0, 0, 0]\<rparr>,
     rx_rd_en = False, tx_wr_en = False, tx_wr_data = [0, 0, 0, 0], rx_done = False, rx_dropped = False, tx_done = False, tx_len = 0\<rparr>)\<rparr>"

definition load_tb :: "unit enet_tb" where
  "load_tb = (enet_tb0 ())\<lparr>eport := idle_port\<lparr>dp_mem := (\<lambda>x. of_nat (x - 0x1000))\<rparr>\<rparr>"

lemma load_dut_shows:
  "e_req (enet_shows load_dut a s) = \<lparr>q_valid = True, q_addr = 0x1008, q_op = 4, q_mask = 0, q_sd = [0, 0, 0, 0]\<rparr>"
  "\<not> rx_rd_en (enet_shows load_dut a s)"
  by (simp_all add: load_dut_def enet_shows_def)

theorem enet_request_answered_witness:
  "\<exists>u t. enet_run load_dut (replicate 4 (False, 0, 0, False, 0)) load_tb = Some u \<and>
     enet_step load_dut (False, 0, 0, False, 0) u = Some t \<and> \<not> dp_rsp_valid (eport u) \<and> dp_rsp_valid (eport t) \<and>
     sd_byte (dp_rsp_data (eport t)) 9 = 9"
proof -
  let ?a = "(False, 0, 0, False, 0) :: enet_arg"
  have pp: "tx_pop_period load_tb \<noteq> 0" by (simp add: load_tb_def enet_tb0_def)
  obtain u where u: "enet_run load_dut (?a # replicate 3 ?a) load_tb = Some u" "tx_pop_period u \<noteq> 0"
    using enet_run_Some [of load_dut load_tb "?a # replicate 3 ?a"] pp load_dut_shows(2) by metis
  obtain t where t: "enet_step load_dut ?a u = Some t"
    using enet_step_Some [of load_dut ?a u] u(2) load_dut_shows(2) by blast
  have h: "0 \<le> ecyc load_tb" "dp_reply (eport load_tb) < 0" "dp_resp_cyc (eport load_tb) < ecyc load_tb"
    by (simp_all add: load_tb_def enet_tb0_def idle_port_def)
  have l: "dp_last_op (eport load_tb) = 0xff" "dp_mem (eport load_tb) = (\<lambda>x. of_nat (x - 0x1000))"
    by (simp_all add: load_tb_def enet_tb0_def idle_port_def)
  have i: "line_idx 0x1008 = 0x1000" by (simp add: line_idx_def line16_def)
  have "\<not> dp_rsp_valid (eport u) \<and> dp_mem (eport u) = dp_mem (eport load_tb) \<and> dp_rsp_valid (eport t) \<and>
    ((4 :: u32) = 4 \<longrightarrow> (\<forall>i < 16. sd_byte (dp_rsp_data (eport t)) i
        = dp_mem (eport load_tb) (line_idx (ucast (0x1008 :: u64)) + i))) \<and>
    dp_mem (eport t) = (if (4 :: u32) = 7
      then line_write (ucast (0x1008 :: u64)) 0 [0, 0, 0, 0] (dp_mem (eport load_tb)) else dp_mem (eport load_tb))"
    using enet_request_answered [OF u(1) _ t h] by (simp add: load_dut_shows l(1))
  then have "\<not> dp_rsp_valid (eport u)" "dp_rsp_valid (eport t)" "sd_byte (dp_rsp_data (eport t)) 9 = 9"
    by (simp_all add: l(2) i)
  moreover have "?a # replicate 3 ?a = replicate 4 ?a" by (simp add: numeral_eq_Suc)
  ultimately show ?thesis using u(1) t by metis
qed

text \<open>
  A request that repeats the address and operation the port last took is never accepted: while
  the engine shows it to an idle port, the port stays idle and silent.
\<close>

lemma enet_repeat_starved:
  assumes "dp_reply p < 0" "list_all (\<lambda>r. q_addr r = ucast (dp_last_addr p) \<and> q_op r = dp_last_op p) rs"
  shows "run_from (\<lambda>cyc. enet_port_step (int cyc)) c rs p = Some q \<Longrightarrow> dp_reply q < 0 \<and> (rs \<noteq> [] \<longrightarrow> \<not> dp_rsp_valid q)"
  using assms
proof (induction rs arbitrary: c p)
  case (Cons r rs)
  have "dp_reply p \<noteq> int c" using Cons.prems(2) by simp
  then have e: "enet_port_step (int c) r p = Some (p\<lparr>dp_rsp_valid := False\<rparr>)"
    using Cons.prems(3) by (simp add: enet_port_step_def enet_answer_idle enet_accept_def)
  then show ?case using Cons.IH [of "Suc c" "p\<lparr>dp_rsp_valid := False\<rparr>"] Cons.prems by (cases rs) auto
qed simp

section \<open>The SCSI test's streams\<close>

text \<open>What the turns of a run saw: the outputs before and after the edge, with the beat offered.\<close>

fun scsi_log :: "'d scsi_dut \<Rightarrow> nat \<Rightarrow> 'd scsi_tb \<Rightarrow> (scsi_out \<times> scsi_out \<times> beat) list" where
  "scsi_log E 0 s = []"
| "scsi_log E (Suc g) s = (case scsi_turn E s of None \<Rightarrow> []
     | Some (v, v', s') \<Rightarrow> (v, v', disk_beat (rd_byte s)) # (if s_done v' then [] else scsi_log E g s'))"

definition read_beats :: "(scsi_out \<times> scsi_out \<times> beat) list \<Rightarrow> beat list" where
  "read_beats l = map (\<lambda>(v, v', b). b) (filter (\<lambda>(v, v', b). disk_rd_en v) l)"

definition written_beats :: "(scsi_out \<times> scsi_out \<times> beat) list \<Rightarrow> beat list" where
  "written_beats l = map (\<lambda>(v, v', b). disk_wr_data v) (filter (\<lambda>(v, v', b). disk_wr_en v) l)"

lemma scsi_turn_fields:
  assumes "scsi_turn E s = Some (v, v', s')"
  shows "rd_byte s' = (if disk_rd_en v then rd_byte s + 16 else rd_byte s)"
    "wr_capture s' = wr_capture s @ (if disk_wr_en v then beat_bytes (disk_wr_data v) else [])"
  using assms by (auto simp: scsi_turn_def Let_def beat_bytes_def simp del: upt_rec_numeral)

lemma ramp_append:
  "map (\<lambda>k. ramp (b + of_nat k)) [0..<16] @ map (\<lambda>k. ramp (b + 16 + of_nat k)) [0..<16 * n]
     = map (\<lambda>k. ramp (b + of_nat k)) [0..<16 * Suc n]"
proof -
  have "[0..<16 * Suc n] = [0..<16] @ map (\<lambda>k. k + 16) [0..<16 * n]"
    using upt_add_eq_append [of 0 16 "16 * n"] by (simp add: map_add_upt add.commute del: upt_rec_numeral)
  then show ?thesis by (simp add: comp_def add_ac del: upt_rec_numeral)
qed

lemma scsi_loop_cases:
  assumes "scsi_loop E (Suc g) s = Some (ok, s')"
  obtains v v' t where "scsi_turn E s = Some (v, v', t)"
    "rd_byte t = (if disk_rd_en v then rd_byte s + 16 else rd_byte s)"
    "wr_capture t = wr_capture s @ (if disk_wr_en v then beat_bytes (disk_wr_data v) else [])"
    "s_done v' \<and> ok \<and> s' = t \<or> \<not> s_done v' \<and> scsi_loop E g t = Some (ok, s')"
proof -
  obtain v v' t where t: "scsi_turn E s = Some (v, v', t)"
    "s_done v' \<and> ok \<and> s' = t \<or> \<not> s_done v' \<and> scsi_loop E g t = Some (ok, s')"
    using assms by (auto simp: bind_eq_Some_conv split: if_splits)
  then show ?thesis using that scsi_turn_fields [OF t(1)] by blast
qed

lemma scsi_loop_log:
  assumes "scsi_loop E g s = Some (ok, s')"
  shows "flat_beats (read_beats (scsi_log E g s)) = map (\<lambda>k. ramp (rd_byte s + of_nat k)) [0..<16 * length (read_beats (scsi_log E g s))]"
    "rd_byte s' = rd_byte s + 16 * of_nat (length (read_beats (scsi_log E g s)))"
    "wr_capture s' = wr_capture s @ flat_beats (written_beats (scsi_log E g s))"
    "ok \<longleftrightarrow> list_ex (\<lambda>(v, v', b). s_done v') (scsi_log E g s)" "\<not> ok \<Longrightarrow> length (scsi_log E g s) = g"
  using assms
proof (induction g arbitrary: s)
  case (Suc g)
  {
    case 1
    then show ?case
    proof (cases rule: scsi_loop_cases)
      case (1 v v' t)
      then show ?thesis
        using Suc.IH(1) [of t] ramp_append [of "rd_byte s" 0] ramp_append [of "rd_byte s" "length (read_beats (scsi_log E g t))"]
        by (auto simp: read_beats_def disk_beat_ramp simp del: upt_rec_numeral)
    qed
  next
    case 2
    then show ?case
      by (cases rule: scsi_loop_cases) (use Suc.IH(2) in \<open>auto simp: read_beats_def algebra_simps\<close>)
  next
    case 3
    then show ?case
      by (cases rule: scsi_loop_cases) (use Suc.IH(3) in \<open>auto simp: written_beats_def\<close>)
  next
    case 4
    then show ?case by (cases rule: scsi_loop_cases) (use Suc.IH(4) in auto)
  next
    case 5
    from 5(2) show ?case by (cases rule: scsi_loop_cases) (use Suc.IH(5) 5(1) in auto)
  }
qed (simp_all add: read_beats_def written_beats_def)

text \<open>
  A run of the SCSI test feeds the engine one unbroken disk stream: the beats it took are the
  ramp from the cursor on, sixteen bytes each, and the cursor ends behind them; the captured
  bytes are the beats it wrote, in order; and the run reports success exactly when the engine
  was done in one of its turns, after at most 100000 of them.
\<close>

theorem scsi_stream_exact:
  assumes "scsi_run E nbdp to_dev s = Some (ok, s')"
  defines "l \<equiv> scsi_log E 100000 (scsi_start nbdp to_dev s)"
  shows "flat_beats (read_beats l) = map (\<lambda>k. ramp (rd_byte s + of_nat k)) [0..<16 * length (read_beats l)] \<and>
    rd_byte s' = rd_byte s + 16 * of_nat (length (read_beats l)) \<and>
    wr_capture s' = wr_capture s @ flat_beats (written_beats l) \<and>
    (ok \<longleftrightarrow> list_ex (\<lambda>(v, v', b). s_done v') l) \<and> (ok \<or> length l = 100000)"
proof -
  have r: "scsi_loop E 100000 (scsi_start nbdp to_dev s) = Some (ok, s')" using assms(1) by (simp only: scsi_run_def)
  have f: "rd_byte (scsi_start nbdp to_dev s) = rd_byte s" "wr_capture (scsi_start nbdp to_dev s) = wr_capture s"
    by (simp_all add: scsi_start_def)
  show ?thesis unfolding l_def using scsi_loop_log [OF r] unfolding f by blast
qed

text \<open>An engine that takes a beat in each turn and is done in its second.\<close>

definition two_dut :: "nat scsi_dut" where
  "two_dut = \<lparr>s_eval = (\<lambda>clk _ _ n. if clk then n + 1 else n), s_out = (\<lambda>n. \<lparr>s_req = idle_req, disk_rd_en = True, disk_wr_en = False,
     disk_wr_data = [0, 0, 0, 0], s_done = (n = 2)\<rparr>)\<rparr>"

definition scsi_tb0 :: "nat scsi_tb" where
  "scsi_tb0 = \<lparr>sdut = 0, sin = \<lparr>s_nbdp = 0, s_to_device = False, s_go = False, disk_rd_data = []\<rparr>, sport = idle_port, scyc = 4,
     rd_byte = 0, wr_capture = []\<rparr>"

lemma two_dut_turn:
  "dp_reply (sport s) = -1 \<Longrightarrow> scyc s \<noteq> -1 \<Longrightarrow> \<exists>v v' s'. scsi_turn two_dut s = Some (v, v', s') \<and> disk_rd_en v \<and>
     s_done v' = (sdut s + 1 = 2) \<and> sdut s' = sdut s + 1 \<and> dp_reply (sport s') = -1 \<and> scyc s' = scyc s + 1 \<and> rd_byte s' = rd_byte s + 16"
  by (simp add: scsi_turn_def Let_def scsi_answer_def two_dut_def scsi_accept_def idle_req_def)

theorem scsi_stream_exact_witness:
  "\<exists>s'. scsi_run two_dut 0x1000 False scsi_tb0 = Some (True, s') \<and> rd_byte s' = 32"
proof -
  let ?s = "scsi_start 0x1000 False scsi_tb0"
  have s: "dp_reply (sport ?s) = -1" "scyc ?s = 4" "sdut ?s = 0" by (simp_all add: scsi_start_def scsi_tb0_def)
  obtain v v' t where t: "scsi_turn two_dut ?s = Some (v, v', t)" "disk_rd_en v" "\<not> s_done v'"
      "dp_reply (sport t) = -1" "scyc t = 5" "sdut t = 1"
    using two_dut_turn [of ?s] s by auto
  obtain w w' u where u: "scsi_turn two_dut t = Some (w, w', u)" "disk_rd_en w" "s_done w'"
    using two_dut_turn [of t] t by auto
  have g: "(100000 :: nat) = Suc (Suc 99998)" by simp
  have "scsi_loop two_dut (Suc (Suc n)) ?s = Some (True, u)" for n using t u by simp
  then have r: "scsi_run two_dut 0x1000 False scsi_tb0 = Some (True, u)" unfolding scsi_run_def g .
  have "length (read_beats (scsi_log two_dut (Suc (Suc n)) ?s)) = 2" for n using t u by (simp add: read_beats_def)
  then have "length (read_beats (scsi_log two_dut 100000 ?s)) = 2" unfolding g .
  then have "rd_byte u = 32" using scsi_stream_exact [OF r] by (simp add: scsi_tb0_def)
  then show ?thesis using r by blast
qed

end
