(* ===== verification/Stage_Tests.thy ===== *)
theory Stage_Tests
  imports Dma_Tests
begin

text \<open>
  The unit tests of the staging-ring engines, \<^verbatim>\<open>sim/enet_dma_test/tb_enet_ring_dma.cpp\<close> and
  \<^verbatim>\<open>sim/scsi_stage_test/tb_scsi_stage.cpp\<close>: guest memory and staging as two arrays behind one
  address, the model memory port with its ordering probes, and the host side: frame submission,
  staging, the completion ring and descriptor chains.  The engines are parameters, as in
  \<^verbatim>\<open>Dma_Tests\<close>.  Copies that leave an array are the value \<open>None\<close>; the word accessors are used at
  addresses that are multiples of four, where they stay inside (\<open>aligned_inside\<close>).
\<close>

section \<open>Two arrays\<close>

datatype cell = Mem nat | Stg nat

type_synonym cells = "cell \<Rightarrow> u8"

definition STG :: u32 where
  "STG = 0x1e000000"

fun cell_plus :: "cell \<Rightarrow> nat \<Rightarrow> cell" where
  "cell_plus (Mem i) k = Mem (i + k)"
| "cell_plus (Stg i) k = Stg (i + k)"

text \<open>The index masks: 256 KB of guest memory in both tests, 4 MB and 16 MB of staging.\<close>

definition ring_at :: "u32 \<Rightarrow> cell" where
  "ring_at pa = (if pa \<ge> STG then Stg (unat ((pa - STG) AND 0x3fffff)) else Mem (unat (pa AND 0x3ffff)))"

definition stage_at :: "u32 \<Rightarrow> cell" where
  "stage_at pa = (if pa \<ge> STG then Stg (unat ((pa - STG) AND 0xffffff)) else Mem (unat (pa AND 0x3ffff)))"

definition put_be :: "cell \<Rightarrow> u32 \<Rightarrow> cells \<Rightarrow> cells" where
  "put_be p v m = m(p := ucast (drop_bit 24 v), cell_plus p 1 := ucast (drop_bit 16 v),
     cell_plus p 2 := ucast (drop_bit 8 v), cell_plus p 3 := ucast v)"

definition put_le :: "cell \<Rightarrow> u32 \<Rightarrow> cells \<Rightarrow> cells" where
  "put_le p v m = m(p := ucast v, cell_plus p 1 := ucast (drop_bit 8 v),
     cell_plus p 2 := ucast (drop_bit 16 v), cell_plus p 3 := ucast (drop_bit 24 v))"

definition get_be :: "cells \<Rightarrow> cell \<Rightarrow> u32" where
  "get_be m p = be32 (\<lambda>k. m (cell_plus p k)) 0"

definition get_le :: "cells \<Rightarrow> cell \<Rightarrow> u32" where
  "get_le m p = le32 (\<lambda>k. m (cell_plus p k)) 0"

definition ring_put_be32 :: "u32 \<Rightarrow> u32 \<Rightarrow> cells \<Rightarrow> cells" where
  "ring_put_be32 pa v m = put_be (ring_at pa) v m"

definition ring_get_be32 :: "cells \<Rightarrow> u32 \<Rightarrow> u32" where
  "ring_get_be32 m pa = get_be m (ring_at pa)"

definition ring_put_le32 :: "u32 \<Rightarrow> u32 \<Rightarrow> cells \<Rightarrow> cells" where
  "ring_put_le32 pa v m = put_le (ring_at pa) v m"

definition ring_get_le32 :: "cells \<Rightarrow> u32 \<Rightarrow> u32" where
  "ring_get_le32 m pa = get_le m (ring_at pa)"

definition stage_put_be32 :: "u32 \<Rightarrow> u32 \<Rightarrow> cells \<Rightarrow> cells" where
  "stage_put_be32 pa v m = put_be (stage_at pa) v m"

definition stage_get_le32 :: "cells \<Rightarrow> u32 \<Rightarrow> u32" where
  "stage_get_le32 m pa = get_le m (stage_at pa)"

section \<open>The memory port\<close>

record stg_port =
  sp_mem :: cells
  sp_reply :: int
  sp_resp_cyc :: int
  sp_addr :: u32
  sp_op :: u32
  sp_mask :: u32
  sp_sd :: "u32 list"
  sp_rsp_valid :: bool
  sp_rsp_data :: "u32 list"

text \<open>Anything but a load is a store here.\<close>

definition cells_store :: "(u32 \<Rightarrow> cell) \<Rightarrow> u32 \<Rightarrow> u32 \<Rightarrow> u32 list \<Rightarrow> cells \<Rightarrow> cells" where
  "cells_store loc line msk sd m =
     fold (\<lambda>i m. if bit msk i then m(loc (line + of_nat i) := sd_byte sd i) else m) [0..<16] m"

definition ring_answer :: "int \<Rightarrow> stg_port \<Rightarrow> stg_port" where
  "ring_answer cyc p =
     (let p = p\<lparr>sp_rsp_valid := False\<rparr> in
      if sp_reply p = cyc then
        (let line = line16 (sp_addr p);
             p = (if sp_op p = 4
                  then p\<lparr>sp_rsp_data := map (\<lambda>i. ring_get_le32 (sp_mem p) (line + of_nat (4 * i))) [0..<4]\<rparr>
                  else p\<lparr>sp_mem := cells_store ring_at line (sp_mask p) (sp_sd p) (sp_mem p)\<rparr>)
         in p\<lparr>sp_rsp_valid := True, sp_reply := -1, sp_resp_cyc := cyc\<rparr>)
      else p)"

definition ring_accept :: "int \<Rightarrow> dma_req \<Rightarrow> stg_port \<Rightarrow> stg_port" where
  "ring_accept cyc r p =
     (if q_valid r \<and> sp_reply p < 0 \<and> cyc > sp_resp_cyc p
      then p\<lparr>sp_addr := ucast (q_addr r), sp_op := q_op r, sp_mask := q_mask r,
             sp_sd := map (\<lambda>i. q_sd r ! i) [0..<4], sp_reply := cyc + LAT\<rparr>
      else p)"

definition stage_answer :: "int \<Rightarrow> stg_port \<Rightarrow> stg_port" where
  "stage_answer cyc p =
     (let p = p\<lparr>sp_rsp_valid := False\<rparr> in
      if sp_reply p = cyc then
        (let line = line16 (sp_addr p);
             p = (if sp_op p = 4
                  then p\<lparr>sp_rsp_data := map (\<lambda>i. stage_get_le32 (sp_mem p) (line + of_nat (4 * i))) [0..<4]\<rparr>
                  else p\<lparr>sp_mem := cells_store stage_at line (sp_mask p) (sp_sd p) (sp_mem p)\<rparr>)
         in p\<lparr>sp_rsp_valid := True, sp_reply := -1, sp_resp_cyc := cyc\<rparr>)
      else p)"

definition stage_accept :: "int \<Rightarrow> dma_req \<Rightarrow> stg_port \<Rightarrow> stg_port" where
  "stage_accept cyc r p =
     (if q_valid r \<and> sp_reply p < 0 \<and> cyc > sp_resp_cyc p
      then p\<lparr>sp_addr := ucast (q_addr r), sp_op := q_op r, sp_mask := q_mask r,
             sp_sd := map (\<lambda>i. q_sd r ! i) [0..<4], sp_reply := cyc + LAT\<rparr>
      else p)"

section \<open>The ring test\<close>

record ring_in =
  ri_tx_go :: bool
  ri_tx_nbdp :: u32
  ri_tx_cons :: u32
  ri_rx_armed :: bool
  ri_rx_nbdp :: u32
  ri_rx_prod :: u32

record ring_out =
  ro_req :: dma_req
  ro_tx_done :: bool
  ro_tx_crbdp :: u32
  ro_rx_done :: bool
  ro_rx_next_nbdp :: u32
  ro_rx_dropped :: bool
  ro_rx_crbdp :: u32

record 'd ring_dut =
  r_eval :: "bool \<Rightarrow> ring_in \<Rightarrow> bool \<times> u32 list \<Rightarrow> 'd \<Rightarrow> 'd"
  r_out :: "'d \<Rightarrow> ring_out"

record 'd ring_tb =
  rdut :: 'd
  rin :: ring_in
  rport :: stg_port
  rcyc :: int
  r_tx_done :: int
  r_rx_done :: int
  r_rx_drop :: int
  g_last_load :: "u32 \<rightharpoonup> int"
  g_etxd_store :: "u32 \<rightharpoonup> int"
  g_crbdp_seen :: "u32 \<Rightarrow> nat"
  watch_addr :: u32
  watch_hits :: u32
  arm_rx_prod :: u32

text \<open>The ordering probes look at the request as it is answered.\<close>

definition ring_probe :: "'d ring_tb \<Rightarrow> 'd ring_tb" where
  "ring_probe s =
     (let p = rport s; line = line16 (sp_addr p) in
      if sp_reply p \<noteq> rcyc s then s
      else if sp_op p = 4
      then s\<lparr>g_last_load := (g_last_load s)(line \<mapsto> rcyc s),
             watch_hits := (if line = line16 (watch_addr s) then watch_hits s + 1 else watch_hits s)\<rparr>
      else if sp_mask p = 0x0040 \<and> g_etxd_store s line = None
      then s\<lparr>g_etxd_store := (g_etxd_store s)(line \<mapsto> rcyc s)\<rparr>
      else s)"

definition ring_step :: "'d ring_dut \<Rightarrow> 'd ring_tb \<Rightarrow> 'd ring_tb" where
  "ring_step E s =
     (let s = ring_probe s;
          p = ring_answer (rcyc s) (rport s);
          d = r_eval E False (rin s) (sp_rsp_valid p, sp_rsp_data p) (rdut s);
          d' = r_eval E True (rin s) (sp_rsp_valid p, sp_rsp_data p) d;
          v = r_out E d'
      in s\<lparr>rdut := d', rport := ring_accept (rcyc s) (ro_req (r_out E d)) p,
           r_tx_done := r_tx_done s + of_bool (ro_tx_done v),
           g_crbdp_seen := (g_crbdp_seen s)(ro_tx_crbdp v := g_crbdp_seen s (ro_tx_crbdp v) + 1),
           r_rx_done := r_rx_done s + of_bool (ro_rx_done v),
           r_rx_drop := r_rx_drop s + of_bool (ro_rx_dropped v),
           rin := (rin s)\<lparr>ri_rx_nbdp := (if ro_rx_done v then ro_rx_next_nbdp v else ri_rx_nbdp (rin s)), ri_tx_go := False\<rparr>,
           rcyc := rcyc s + 1\<rparr>)"

definition RXSQ :: nat where
  "RXSQ = 0x2000"

definition RXS :: nat where
  "RXS = 0x180000"

definition stg_copy :: "nat \<Rightarrow> bytes \<Rightarrow> cells \<Rightarrow> cells" where
  "stg_copy off bs m = (\<lambda>c. case c of Mem i \<Rightarrow> m c | Stg i \<Rightarrow> if off \<le> i \<and> i < off + length bs then bs ! (i - off) else m c)"

definition arm_rx_submit :: "bytes \<Rightarrow> 'd ring_tb \<Rightarrow> 'd ring_tb option" where
  "arm_rx_submit f s =
     (let slot = unat (arm_rx_prod s mod 256);
          m = stg_copy (RXSQ + slot * 16) (replicate 16 0) (stg_copy (RXS + slot * 2048) f (sp_mem (rport s)));
          m = ring_put_le32 (STG + of_nat RXSQ + of_nat (slot * 16)) (of_nat (length f)) m
      in if RXS + slot * 2048 + length f > 0x400000 then None
         else Some (s\<lparr>rport := (rport s)\<lparr>sp_mem := m\<rparr>, arm_rx_prod := arm_rx_prod s + 1,
                rin := (rin s)\<lparr>ri_rx_prod := arm_rx_prod s + 1\<rparr>\<rparr>))"

fun wait_for :: "'d ring_dut \<Rightarrow> ('d ring_tb \<Rightarrow> int) \<Rightarrow> int \<Rightarrow> nat \<Rightarrow> 'd ring_tb \<Rightarrow> bool \<times> 'd ring_tb" where
  "wait_for E ctr before 0 s = (False, s)"
| "wait_for E ctr before (Suc g) s = (if ctr s \<noteq> before then (True, s) else wait_for E ctr before g (ring_step E s))"

section \<open>The staging test\<close>

record stage_in =
  si_go :: bool
  si_cancel :: bool
  si_nbdp :: u32
  si_to_device :: bool
  si_req_seq :: u32
  si_rd_beats :: u32
  si_rd_seq :: u32
  si_cq_cons :: u32

record 'd stage_dut =
  g_eval :: "bool \<Rightarrow> stage_in \<Rightarrow> bool \<times> u32 list \<Rightarrow> 'd \<Rightarrow> 'd"
  g_req :: "'d \<Rightarrow> dma_req"
  g_busy :: "'d \<Rightarrow> bool"
  g_done :: "'d \<Rightarrow> bool"

record cqe_t =
  cq_bytes :: u32
  cq_nbdp :: u32
  cq_flags :: u32
  cq_seq :: u32

record 'd stage_tb =
  gd :: 'd
  gin :: stage_in
  gport :: stg_port
  gcyc :: int
  cur_seq :: u32
  arm_cq_cons :: u32
  n_skipped :: u32

definition stage_step :: "'d stage_dut \<Rightarrow> 'd stage_tb \<Rightarrow> 'd stage_tb" where
  "stage_step E s =
     (let p = stage_answer (gcyc s) (gport s);
          d = g_eval E False (gin s) (sp_rsp_valid p, sp_rsp_data p) (gd s);
          d' = g_eval E True (gin s) (sp_rsp_valid p, sp_rsp_data p) d
      in s\<lparr>gd := d', gport := stage_accept (gcyc s) (g_req E d) p,
           gin := (gin s)\<lparr>si_go := False, si_cancel := False\<rparr>, gcyc := gcyc s + 1\<rparr>)"

definition new_cmd :: "'d stage_tb \<Rightarrow> 'd stage_tb" where
  "new_cmd s = s\<lparr>cur_seq := cur_seq s + 1, gin := (gin s)\<lparr>si_req_seq := cur_seq s + 1\<rparr>\<rparr>"

definition RD :: nat where
  "RD = 0x800000"

text \<open>The buffer cleared to whole beats, the bytes, the beat count.\<close>

definition stage_fill :: "bytes \<Rightarrow> u32 \<Rightarrow> 'd stage_tb \<Rightarrow> 'd stage_tb" where
  "stage_fill src n s =
     s\<lparr>gport := (gport s)\<lparr>sp_mem := stg_copy RD (take (unat n) src)
         (stg_copy RD (replicate (unat ((n + 15) AND NOT 15)) 0) (sp_mem (gport s)))\<rparr>,
       gin := (gin s)\<lparr>si_rd_beats := (n + 15) div 16\<rparr>\<rparr>"

definition arm_stage :: "'d stage_dut \<Rightarrow> bytes \<Rightarrow> u32 \<Rightarrow> 'd stage_tb \<Rightarrow> 'd stage_tb option" where
  "arm_stage E src n s =
     (if unat n > length src \<or> RD + unat n > 0x1000000 \<or> RD + unat ((n + 15) AND NOT 15) > 0x1000000 then None
      else let s = stage_step E (stage_fill src n s) in Some (s\<lparr>gin := (gin s)\<lparr>si_rd_seq := cur_seq s\<rparr>\<rparr>))"

definition SIDX :: u32 where
  "SIDX = 0x50"

definition SCQ :: u32 where
  "SCQ = 0x3000"

definition cq_entry :: "cells \<Rightarrow> u32 \<Rightarrow> cqe_t" where
  "cq_entry m c = (let a = STG + SCQ + (c mod 64) * 16
     in \<lparr>cq_bytes = stage_get_le32 m a, cq_nbdp = stage_get_le32 m (a + 4), cq_flags = stage_get_le32 m (a + 8),
         cq_seq = stage_get_le32 m (a + 12)\<rparr>)"

text \<open>The inner loop: entries of other commands are skipped.  The last entry read stays in the caller's variable.\<close>

definition cq_take :: "'d stage_tb \<Rightarrow> 'd stage_tb" where
  "cq_take s = s\<lparr>arm_cq_cons := arm_cq_cons s + 1, gin := (gin s)\<lparr>si_cq_cons := arm_cq_cons s + 1\<rparr>\<rparr>"

function cq_drain :: "cqe_t \<times> 'd stage_tb \<Rightarrow> bool \<times> cqe_t \<times> 'd stage_tb" where
  "cq_drain (e, s) =
     (if stage_get_le32 (sp_mem (gport s)) (STG + SIDX) \<noteq> arm_cq_cons s then
        (let e = cq_entry (sp_mem (gport s)) (arm_cq_cons s); s = cq_take s
         in if cq_seq e = cur_seq s then (True, e, s) else cq_drain (e, s\<lparr>n_skipped := n_skipped s + 1\<rparr>))
      else (False, e, s))"
  by pat_completeness auto
termination
proof (relation "measure (\<lambda>(e, s). unat (stage_get_le32 (sp_mem (gport s)) (STG + SIDX) - arm_cq_cons s))", goal_cases)
  case (2 e s e' s')
  define w where "w = stage_get_le32 (sp_mem (gport s)) (STG + SIDX) - arm_cq_cons s"
  have "w \<noteq> 0" using 2(1) by (simp add: w_def)
  then have "0 < unat w" by (simp add: unat_gt_0)
  then have "unat (w - 1) < unat w" using \<open>w \<noteq> 0\<close> by (simp add: unat_minus_one)
  then show ?case using 2(3) by (simp add: cq_take_def w_def algebra_simps)
qed simp

declare cq_drain.simps [simp del]

fun arm_wait_cq :: "'d stage_dut \<Rightarrow> nat \<Rightarrow> cqe_t \<times> 'd stage_tb \<Rightarrow> bool \<times> cqe_t \<times> 'd stage_tb" where
  "arm_wait_cq E 0 es = (False, es)"
| "arm_wait_cq E (Suc g) es =
     (case cq_drain es of (True, es) \<Rightarrow> (True, es) | (False, e, s) \<Rightarrow> arm_wait_cq E g (e, stage_step E s))"

definition go :: "'d stage_dut \<Rightarrow> u32 \<Rightarrow> bool \<Rightarrow> 'd stage_tb \<Rightarrow> 'd stage_tb" where
  "go E nbdp to_dev s = stage_step E (s\<lparr>gin := (gin s)\<lparr>si_nbdp := nbdp, si_to_device := to_dev, si_go := True\<rparr>\<rparr>)"

definition cmd_go :: "'d stage_dut \<Rightarrow> u32 \<Rightarrow> bool \<Rightarrow> 'd stage_tb \<Rightarrow> 'd stage_tb" where
  "cmd_go E nbdp to_dev s = go E nbdp to_dev (new_cmd s)"

text \<open>A chain of segments \<^verbatim>\<open>{bp, cnt}\<close>, from descriptor \<open>i\<close> on.\<close>

fun chain_from :: "u32 \<Rightarrow> nat \<Rightarrow> (u32 \<times> u32) list \<Rightarrow> cells \<Rightarrow> cells" where
  "chain_from base i [] m = m"
| "chain_from base i ((bp, cnt) # segs) m =
     (let a = base + 16 * of_nat i;
          m = stage_put_be32 a bp m;
          m = stage_put_be32 (a + 4) (cnt OR (if segs = [] then BC_EOX else 0)) m;
          m = stage_put_be32 (a + 8) (a + 16) m
      in chain_from base (Suc i) segs m)"

definition chain :: "u32 \<Rightarrow> (u32 \<times> u32) list \<Rightarrow> cells \<Rightarrow> cells" where
  "chain base segs m = chain_from base 0 segs m"

section \<open>Addresses of the two arrays\<close>

lemma and_18_bits [mask_simps]: "(w :: u32) AND 0x3ffff = take_bit 18 w"
  by (rule and_numeral_mask) (simp add: mask_eq_exp_minus_1)

lemma and_22_bits [mask_simps]: "(w :: u32) AND 0x3fffff = take_bit 22 w"
  by (rule and_numeral_mask) (simp add: mask_eq_exp_minus_1)

lemma unat_plus_small: "unat (a :: u32) + k < 4294967296 \<Longrightarrow> unat (a + of_nat k) = unat a + k"
  by (simp add: unat_word_ariths unat_of_nat take_bit_eq_mod)

lemma block_mod:
  assumes "(x :: nat) mod n = 0" "k < n" "n dvd m" "0 < m"
  shows "x mod m + k < m" "(x + k) mod m = x mod m + k"
proof -
  have "(x mod m) mod n = 0" using assms(1,3) by (simp add: mod_mod_cancel)
  then have "n dvd m - x mod m" using assms(3) by (intro dvd_diff_nat) (simp_all add: mod_eq_0_iff_dvd)
  then have "n \<le> m - x mod m" using assms(4) by (intro dvd_imp_le) simp_all
  then show l: "x mod m + k < m" using assms(2) by linarith
  have "(x + k) mod m = (x mod m + k) mod m" by (simp add: mod_simps)
  then show "(x + k) mod m = x mod m + k" using l by simp
qed

text \<open>An address map that sends a block of \<open>n\<close> bytes to a block of one array.\<close>

lemma block_at:
  assumes "unat pa mod n = 0" "k < n" "n dvd 0x1000000" "n dvd 262144" "0 < n" "sz \<in> {0x400000, 0x1000000}" "n dvd sz"
  defines "loc \<equiv> \<lambda>pa :: u32. if pa \<ge> STG then Stg (unat (pa - STG) mod sz) else Mem (unat pa mod 262144)"
  shows "loc (pa + of_nat k) = cell_plus (loc pa) k"
proof -
  have d: "n dvd 4294967296" "n dvd unat STG"
    by (rule dvd_trans [OF assms(3)], simp add: STG_def)+
  have "unat pa < 4294967296" by (rule unat_u32_bound)
  then have l: "unat pa + k < 4294967296" using block_mod(1) [OF assms(1,2) d(1)] by simp
  note u = unat_plus_small [OF l]
  show ?thesis
  proof (cases "pa \<ge> STG")
    case True
    then have g: "unat STG \<le> unat pa" by (simp add: word_le_nat_alt)
    then have "STG \<le> pa + of_nat k" by (simp add: word_le_nat_alt u)
    moreover have "unat (pa + of_nat k - STG) = unat (pa - STG) + k"
      using g True \<open>STG \<le> pa + of_nat k\<close> by (simp add: unat_sub u)
    moreover have "unat (pa - STG) mod n = 0"
      using True g d(2) assms(1) by (simp add: unat_sub mod_eq_0_iff_dvd dvd_diff_nat)
    moreover have "0 < sz" using assms(6) by auto
    ultimately show ?thesis using True block_mod(2) [OF _ assms(2) assms(7), of "unat (pa - STG)"] by (simp add: loc_def)
  next
    case False
    then have g: "unat pa < unat STG" by (simp add: word_le_nat_alt not_le)
    have "n dvd unat STG - unat pa" using d(2) assms(1) by (intro dvd_diff_nat) (simp_all add: mod_eq_0_iff_dvd)
    then have "n \<le> unat STG - unat pa" using g by (intro dvd_imp_le) simp_all
    then have "unat pa + k < unat STG" using assms(2) by linarith
    then have "\<not> STG \<le> pa + of_nat k" by (simp add: word_le_nat_alt u)
    then show ?thesis using False block_mod(2) [OF assms(1,2,4)] by (simp add: loc_def u)
  qed
qed

lemma ring_at_eq: "ring_at pa = (if pa \<ge> STG then Stg (unat (pa - STG) mod 0x400000) else Mem (unat pa mod 262144))"
  by (simp add: ring_at_def mask_simps unat_take_bit_mod)

lemma stage_at_eq: "stage_at pa = (if pa \<ge> STG then Stg (unat (pa - STG) mod 0x1000000) else Mem (unat pa mod 262144))"
  by (simp add: stage_at_def mask_simps unat_take_bit_mod)

lemma ring_at_block: "unat pa mod n = 0 \<Longrightarrow> k < n \<Longrightarrow> n dvd 262144 \<Longrightarrow> ring_at (pa + of_nat k) = cell_plus (ring_at pa) k"
proof -
  assume a: "unat pa mod n = 0" "k < n" "n dvd 262144"
  have d: "n dvd 0x1000000" "n dvd 0x400000" by (rule dvd_trans [OF a(3)], simp)+
  show ?thesis unfolding ring_at_eq by (rule block_at) (use a d in auto)
qed

lemma stage_at_block: "unat pa mod n = 0 \<Longrightarrow> k < n \<Longrightarrow> n dvd 262144 \<Longrightarrow> stage_at (pa + of_nat k) = cell_plus (stage_at pa) k"
proof -
  assume a: "unat pa mod n = 0" "k < n" "n dvd 262144"
  have d: "n dvd 0x1000000" by (rule dvd_trans [OF a(3)]) simp
  show ?thesis unfolding stage_at_eq by (rule block_at) (use a d in auto)
qed

text \<open>Words at multiples of four lie inside their array.\<close>

definition inside :: "nat \<Rightarrow> cell \<Rightarrow> bool" where
  "inside sz c = (case c of Mem i \<Rightarrow> i < 262144 | Stg i \<Rightarrow> i < sz)"

lemma ring_at_inside: "inside 0x400000 (ring_at pa)"
  by (simp add: inside_def ring_at_eq)

lemma stage_at_inside: "inside 0x1000000 (stage_at pa)"
  by (simp add: inside_def stage_at_eq)

lemma aligned_inside:
  assumes "unat pa mod 4 = 0" "k < 4"
  shows "inside 0x400000 (cell_plus (ring_at pa) k)" "inside 0x1000000 (cell_plus (stage_at pa) k)"
proof -
  have d: "(4 :: nat) dvd 262144" by simp
  show "inside 0x400000 (cell_plus (ring_at pa) k)" "inside 0x1000000 (cell_plus (stage_at pa) k)"
    unfolding ring_at_block [OF assms d, symmetric] stage_at_block [OF assms d, symmetric]
    by (rule ring_at_inside stage_at_inside)+
qed

section \<open>Lines of two arrays\<close>

fun cell_diff :: "cell \<Rightarrow> cell \<Rightarrow> nat option" where
  "cell_diff (Mem i) (Mem j) = (if i \<le> j then Some (j - i) else None)"
| "cell_diff (Stg i) (Stg j) = (if i \<le> j then Some (j - i) else None)"
| "cell_diff _ _ = None"

lemma cell_diff_iff: "cell_diff p c = Some k \<longleftrightarrow> c = cell_plus p k"
  by (cases p; cases c) auto

lemma cell_diff_plus [simp]: "cell_diff p (cell_plus p k) = Some k"
  by (simp add: cell_diff_iff)

lemma cell_plus_inj [simp]: "cell_plus p i = cell_plus p j \<longleftrightarrow> i = j"
  by (cases p) auto

lemma cell_plus_add [simp]: "cell_plus (cell_plus p i) j = cell_plus p (i + j)"
  by (cases p) auto

lemma cell_plus_0 [simp]: "cell_plus p 0 = p"
  by (cases p) auto

definition cell_line_write :: "cell \<Rightarrow> u32 \<Rightarrow> u32 list \<Rightarrow> cells \<Rightarrow> cells" where
  "cell_line_write p msk sd m = (\<lambda>c. case cell_diff p c of
     Some i \<Rightarrow> if i < 16 \<and> bit msk i then sd_byte sd i else m c | None \<Rightarrow> m c)"

text \<open>What a test's address map owes the port: a line is sixteen cells in a row.\<close>

locale line_map =
  fixes loc :: "u32 \<Rightarrow> cell"
  assumes loc_line: "i < 16 \<Longrightarrow> loc (line16 a + of_nat i) = cell_plus (loc (line16 a)) i"
begin

lemma store_prefix:
  "n \<le> 16 \<Longrightarrow> fold (\<lambda>i m. if bit msk i then m(loc (line16 a + of_nat i) := sd_byte sd i) else m) [0..<n] m =
     (\<lambda>c. case cell_diff (loc (line16 a)) c of
        Some i \<Rightarrow> if i < n \<and> bit msk i then sd_byte sd i else m c | None \<Rightarrow> m c)"
proof (induction n)
  case 0
  then show ?case by (auto simp: fun_eq_iff split: option.splits)
next
  case (Suc n)
  then have l: "loc (line16 a + of_nat n) = cell_plus (loc (line16 a)) n" by (simp add: loc_line)
  show ?case
  proof
    fix c
    show "fold (\<lambda>i m. if bit msk i then m(loc (line16 a + of_nat i) := sd_byte sd i) else m) [0..<Suc n] m c =
        (case cell_diff (loc (line16 a)) c of Some i \<Rightarrow> if i < Suc n \<and> bit msk i then sd_byte sd i else m c | None \<Rightarrow> m c)"
    proof (cases "cell_diff (loc (line16 a)) c")
      case None
      then have "c \<noteq> cell_plus (loc (line16 a)) n" by auto
      then show ?thesis using Suc None by (simp add: l)
    next
      case (Some i)
      then have "c = cell_plus (loc (line16 a)) i" by (simp add: cell_diff_iff)
      then show ?thesis using Suc by (auto simp: l less_Suc_eq)
    qed
  qed
qed

lemma store_line: "cells_store loc (line16 a) msk sd m = cell_line_write (loc (line16 a)) msk sd m"
  unfolding cells_store_def cell_line_write_def by (rule store_prefix) simp

lemma load_line_byte:
  assumes "i < 16"
  shows "sd_byte (map (\<lambda>i. get_le m (loc (line16 a + of_nat (4 * i)))) [0..<4]) i = m (cell_plus (loc (line16 a)) i)"
proof -
  let ?f = "\<lambda>k. m (cell_plus (loc (line16 a)) k)"
  have "get_le m (loc (line16 a + of_nat (4 * j))) = le32 ?f (0 + 4 * j)" if "j < 4" for j
    using that loc_line [of "4 * j" a] by (simp add: get_le_def le32_def)
  then have "map (\<lambda>i. get_le m (loc (line16 a + of_nat (4 * i)))) [0..<4] = map (\<lambda>i. le32 ?f (0 + 4 * i)) [0..<4]"
    by (intro map_cong) auto
  then show ?thesis using sd_byte_words [OF assms, of ?f 0] by (simp only: add_0)
qed

end

interpretation ring_map: line_map ring_at
  by unfold_locales (rule ring_at_block [OF line16_mod], simp_all)

interpretation stage_map: line_map stage_at
  by unfold_locales (rule stage_at_block [OF line16_mod], simp_all)

section \<open>The ports\<close>

definition sp_held :: "stg_port \<Rightarrow> u32 \<times> u32 \<times> u32 \<times> u32 list" where
  "sp_held p = (sp_addr p, sp_op p, sp_mask p, sp_sd p)"

definition sp_due :: "stg_port \<Rightarrow> int" where
  "sp_due p = (if sp_reply p < 0 then -1 else sp_reply p)"

lemma ring_accept_busy: "sp_reply p \<ge> 0 \<or> sp_resp_cyc p = cyc \<Longrightarrow> ring_accept cyc r p = p"
  by (auto simp: ring_accept_def)

lemma stage_accept_busy: "sp_reply p \<ge> 0 \<or> sp_resp_cyc p = cyc \<Longrightarrow> stage_accept cyc r p = p"
  by (auto simp: stage_accept_def)

lemma ring_answer_idle: "sp_reply p \<noteq> cyc \<Longrightarrow> ring_answer cyc p = p\<lparr>sp_rsp_valid := False\<rparr>"
  by (simp add: ring_answer_def Let_def)

lemma stage_answer_idle: "sp_reply p \<noteq> cyc \<Longrightarrow> stage_answer cyc p = p\<lparr>sp_rsp_valid := False\<rparr>"
  by (simp add: stage_answer_def Let_def)

lemma ring_answer_due:
  "sp_reply p = cyc \<Longrightarrow> sp_reply (ring_answer cyc p) = -1 \<and> sp_resp_cyc (ring_answer cyc p) = cyc \<and> sp_rsp_valid (ring_answer cyc p) \<and>
     sp_mem (ring_answer cyc p) = (if sp_op p = 4 then sp_mem p
       else cell_line_write (ring_at (line16 (sp_addr p))) (sp_mask p) (sp_sd p) (sp_mem p))"
  by (simp add: ring_answer_def Let_def ring_map.store_line)

lemma stage_answer_due:
  "sp_reply p = cyc \<Longrightarrow> sp_reply (stage_answer cyc p) = -1 \<and> sp_resp_cyc (stage_answer cyc p) = cyc \<and> sp_rsp_valid (stage_answer cyc p) \<and>
     sp_mem (stage_answer cyc p) = (if sp_op p = 4 then sp_mem p
       else cell_line_write (stage_at (line16 (sp_addr p))) (sp_mask p) (sp_sd p) (sp_mem p))"
  by (simp add: stage_answer_def Let_def stage_map.store_line)

lemma stage_answer_data:
  "sp_reply p = cyc \<Longrightarrow> sp_op p = 4 \<Longrightarrow> i < 16 \<Longrightarrow>
     sd_byte (sp_rsp_data (stage_answer cyc p)) i = sp_mem p (cell_plus (stage_at (line16 (sp_addr p))) i)"
  by (simp add: stage_answer_def Let_def stage_get_le32_def stage_map.load_line_byte del: upt_rec_numeral of_nat_mult)

interpretation ring_port: memory_port "\<lambda>_ :: unit. True"
  "\<lambda>_ cyc r p. Some (ring_accept (int cyc) r (ring_answer (int cyc) p))" sp_due sp_rsp_valid sp_mem sp_held
proof (unfold_locales, goal_cases)
  case (2 c cyc i s s')
  then show ?case by (auto simp: sp_due_def ring_answer_idle ring_accept_busy split: if_splits)
next
  case (3 c cyc i s s')
  then have "sp_reply s = int cyc" by (auto simp: sp_due_def split: if_splits)
  then show ?case using 3 ring_answer_due [of s "int cyc"] by (auto simp: sp_due_def ring_accept_busy)
next
  case (4 c cyc i s s')
  then show ?case by (auto simp: sp_due_def sp_held_def ring_answer_idle ring_accept_busy split: if_splits)
qed simp

interpretation stage_port: memory_port "\<lambda>_ :: unit. True"
  "\<lambda>_ cyc r p. Some (stage_accept (int cyc) r (stage_answer (int cyc) p))" sp_due sp_rsp_valid sp_mem sp_held
proof (unfold_locales, goal_cases)
  case (2 c cyc i s s')
  then show ?case by (auto simp: sp_due_def stage_answer_idle stage_accept_busy split: if_splits)
next
  case (3 c cyc i s s')
  then have "sp_reply s = int cyc" by (auto simp: sp_due_def split: if_splits)
  then show ?case using 3 stage_answer_due [of s "int cyc"] by (auto simp: sp_due_def stage_accept_busy)
next
  case (4 c cyc i s s')
  then show ?case by (auto simp: sp_due_def sp_held_def stage_answer_idle stage_accept_busy split: if_splits)
qed simp

section \<open>The completion ring\<close>

definition cq_left :: "'d stage_tb \<Rightarrow> nat" where
  "cq_left s = unat (stage_get_le32 (sp_mem (gport s)) (STG + SIDX) - arm_cq_cons s)"

text \<open>The entries posted and not yet read, in order.\<close>

definition cq_pending :: "'d stage_tb \<Rightarrow> cqe_t list" where
  "cq_pending s = map (\<lambda>k. cq_entry (sp_mem (gport s)) (arm_cq_cons s + of_nat k)) [0..<cq_left s]"

definition cq_skip :: "'d stage_tb \<Rightarrow> 'd stage_tb" where
  "cq_skip s = (cq_take s)\<lparr>n_skipped := n_skipped s + 1\<rparr>"

lemma cq_take_fields [simp]:
  "gport (cq_take s) = gport s" "cur_seq (cq_take s) = cur_seq s" "arm_cq_cons (cq_take s) = arm_cq_cons s + 1"
  "n_skipped (cq_take s) = n_skipped s"
  by (simp_all add: cq_take_def)

lemma cq_skip_fields [simp]:
  "gport (cq_skip s) = gport s" "cur_seq (cq_skip s) = cur_seq s" "arm_cq_cons (cq_skip s) = arm_cq_cons s + 1"
  "n_skipped (cq_skip s) = n_skipped s + 1"
  by (simp_all add: cq_skip_def)

lemma cq_drain_step:
  "cq_drain (e, s) = (if cq_left s = 0 then (False, e, s)
     else let e = cq_entry (sp_mem (gport s)) (arm_cq_cons s)
          in if cq_seq e = cur_seq s then (True, e, cq_take s) else cq_drain (e, cq_skip s))"
proof -
  have "cq_left s = 0 \<longleftrightarrow> stage_get_le32 (sp_mem (gport s)) (STG + SIDX) = arm_cq_cons s"
    by (simp add: cq_left_def unsigned_eq_0_iff)
  then show ?thesis by (subst cq_drain.simps) (simp add: cq_skip_def Let_def)
qed

lemma cq_left_skip: "cq_left s \<noteq> 0 \<Longrightarrow> cq_left (cq_skip s) = cq_left s - 1"
proof -
  define w where "w = stage_get_le32 (sp_mem (gport s)) (STG + SIDX) - arm_cq_cons s"
  assume "cq_left s \<noteq> 0"
  then have "w \<noteq> 0" by (auto simp: cq_left_def w_def)
  then have "unat (w - 1) = unat w - 1" by (rule unat_minus_one)
  moreover have "w - 1 = stage_get_le32 (sp_mem (gport (cq_skip s))) (STG + SIDX) - arm_cq_cons (cq_skip s)"
    by (simp add: w_def)
  ultimately show ?thesis by (simp only: cq_left_def w_def)
qed

lemma cq_pending_Cons:
  "cq_left s \<noteq> 0 \<Longrightarrow> cq_pending s = cq_entry (sp_mem (gport s)) (arm_cq_cons s) # cq_pending (cq_skip s)"
proof -
  assume n: "cq_left s \<noteq> 0"
  then obtain n where l: "cq_left s = Suc n" by (cases "cq_left s") auto
  then have "cq_left (cq_skip s) = n" using cq_left_skip [OF n] by simp
  moreover have "[0..<Suc n] = 0 # map Suc [0..<n]" by (simp only: map_Suc_upt upt_conv_Cons zero_less_Suc)
  ultimately show ?thesis by (simp add: cq_pending_def l comp_def add_ac)
qed

lemma cq_pending_Nil: "cq_left s = 0 \<Longrightarrow> cq_pending s = []"
  by (simp add: cq_pending_def)

text \<open>What a pass over the ring leaves.\<close>

definition cq_first :: "'d stage_tb \<Rightarrow> cqe_t option" where
  "cq_first s = find (\<lambda>x. cq_seq x = cur_seq s) (cq_pending s)"

lemma cq_drain_exact:
  "cq_drain (e, s) = (ok, e', s') \<Longrightarrow>
     (if ok then cq_first s = Some e' \<and> (\<exists>k < cq_left s. arm_cq_cons s' = arm_cq_cons s + of_nat (Suc k) \<and>
           n_skipped s' = n_skipped s + of_nat k)
      else cq_first s = None \<and> s' = (cq_skip ^^ cq_left s) s) \<and>
     gport s' = gport s \<and> cur_seq s' = cur_seq s"
proof (induction "cq_left s" arbitrary: e s)
  case 0
  then show ?case by (auto simp: cq_drain_step cq_first_def cq_pending_Nil)
next
  case (Suc n)
  then have l: "cq_left s \<noteq> 0" by simp
  let ?x = "cq_entry (sp_mem (gport s)) (arm_cq_cons s)"
  have p: "cq_pending s = ?x # cq_pending (cq_skip s)" by (rule cq_pending_Cons [OF l])
  show ?case
  proof (cases "cq_seq ?x = cur_seq s")
    case True
    then have "ok" "e' = ?x" "s' = cq_take s" using Suc.prems l by (auto simp: cq_drain_step [of e s] Let_def)
    then show ?thesis using l True by (auto simp: cq_first_def p intro: exI [of _ 0])
  next
    case False
    have n: "n = cq_left (cq_skip s)" using cq_left_skip [OF l] Suc.hyps(2) by simp
    have d: "cq_drain (?x, cq_skip s) = (ok, e', s')" using Suc.prems l False by (simp add: cq_drain_step [of e s] Let_def)
    have f: "cq_first s = cq_first (cq_skip s)" using False by (simp add: cq_first_def p)
    from Suc.hyps(1) [OF n d] show ?thesis
    proof (cases ok)
      case True
      with Suc.hyps(1) [OF n d] obtain k where "k < n" "arm_cq_cons s' = arm_cq_cons (cq_skip s) + of_nat (Suc k)"
        "n_skipped s' = n_skipped (cq_skip s) + of_nat k" using n by auto
      then have "Suc k < cq_left s" "arm_cq_cons s' = arm_cq_cons s + of_nat (Suc (Suc k))"
        "n_skipped s' = n_skipped s + of_nat (Suc k)" using Suc.hyps(2) by simp_all
      then show ?thesis using Suc.hyps(1) [OF n d] True f by (simp del: of_nat_Suc) blast
    next
      case F: False
      then show ?thesis
        using Suc.hyps(1) [OF n d] f by (auto simp: Suc.hyps(2) [symmetric] n [symmetric] funpow_swap1)
    qed
  qed
qed

text \<open>The state in which the ring is looked at the \<open>k\<close>-th time when nothing matched before.\<close>

fun wait_state :: "'d stage_dut \<Rightarrow> nat \<Rightarrow> 'd stage_tb \<Rightarrow> 'd stage_tb" where
  "wait_state E 0 s = s"
| "wait_state E (Suc k) s = wait_state E k (stage_step E ((cq_skip ^^ cq_left s) s))"

lemma stage_step_seq [simp]: "cur_seq (stage_step E s) = cur_seq s"
  by (simp add: stage_step_def Let_def)

lemma cq_skips_seq [simp]: "cur_seq ((cq_skip ^^ n) s) = cur_seq s"
  by (induction n) simp_all

lemma wait_state_seq [simp]: "cur_seq (wait_state E k s) = cur_seq s"
  by (induction k arbitrary: s) simp_all

lemma cq_drain_cases:
  obtains e' s' where "cq_drain (e, s) = (True, e', s')" "cq_first s = Some e'"
  | e' where "cq_drain (e, s) = (False, e', (cq_skip ^^ cq_left s) s)" "cq_first s = None"
proof -
  obtain ok e' s' where d: "cq_drain (e, s) = (ok, e', s')" by (metis prod_cases3)
  from cq_drain_exact [OF d] d show ?thesis using that by (cases ok) auto
qed


text \<open>The ring has 64 slots: an entry more than 64 behind the producer has been overwritten.\<close>

lemma cq_entry_wraps: "cq_entry m (c + 64) = cq_entry m c"
proof -
  have "(c + 64) mod 64 = c mod 64"
  proof -
    have "unat ((c + 64) mod 64) = (unat c + 64) mod 4294967296 mod 64" by (simp add: unat_mod_distrib unat_word_ariths)
    also have "\<dots> = unat c mod 64" by (simp add: mod_mod_cancel)
    finally show ?thesis by (simp add: word_unat_eq_iff unat_mod_distrib)
  qed
  then show ?thesis by (simp add: cq_entry_def)
qed

text \<open>Two entries posted, the second of the current command.\<close>

definition idle_stage_dut :: "unit stage_dut" where
  "idle_stage_dut = \<lparr>g_eval = (\<lambda>_ _ _ d. d), g_req = (\<lambda>_. idle_req), g_busy = (\<lambda>_. False), g_done = (\<lambda>_. False)\<rparr>"

definition cq_sample :: "unit stage_tb" where
  "cq_sample = \<lparr>gd = (), gin = \<lparr>si_go = False, si_cancel = False, si_nbdp = 0, si_to_device = False, si_req_seq = 1, si_rd_beats = 0,
       si_rd_seq = 0, si_cq_cons = 0\<rparr>,
     gport = \<lparr>sp_mem = (\<lambda>c. if c = Stg 0x50 then 2 else if c = Stg 0x300c then 7 else if c = Stg 0x301c then 1 else 0),
       sp_reply = -1, sp_resp_cyc = -100, sp_addr = 0, sp_op = 0, sp_mask = 0, sp_sd = [0, 0, 0, 0], sp_rsp_valid = False,
       sp_rsp_data = [0, 0, 0, 0]\<rparr>,
     gcyc = 0, cur_seq = 1, arm_cq_cons = 0, n_skipped = 0\<rparr>"

lemma cq_sample_first: "cq_first cq_sample \<noteq> None"
  by (simp add: cq_first_def cq_pending_def cq_left_def cq_entry_def Let_def stage_get_le32_def get_le_def le32_def
    stage_at_def STG_def SIDX_def SCQ_def cq_sample_def upt_rec)


section \<open>Staging\<close>

lemma stg_copy_Mem [simp]: "stg_copy off bs m (Mem i) = m (Mem i)"
  by (simp add: stg_copy_def)

lemma stg_copy_Stg: "stg_copy off bs m (Stg i) = (if off \<le> i \<and> i < off + length bs then bs ! (i - off) else m (Stg i))"
  by (simp add: stg_copy_def)

text \<open>
  Staging a read: when the step that shows the new beat count to the engine runs, the buffer
  holds the bytes in order with zeros up to whole beats, every other cell is as it was, and the
  sequence number is still the old one; it is raised only after that step.
\<close>

theorem arm_stage_exact:
  fixes s :: "'d stage_tb"
  assumes "unat n \<le> length src" "unat n \<le> 0x7ffff0"
  defines "t \<equiv> stage_fill src n s"
  shows "\<exists>s'. arm_stage E src n s = Some s' \<and>
      s' = (stage_step E t)\<lparr>gin := (gin (stage_step E t))\<lparr>si_rd_seq := cur_seq s\<rparr>\<rparr> \<and> si_rd_seq (gin t) = si_rd_seq (gin s) \<and>
      unat n \<le> 16 * unat (si_rd_beats (gin t)) \<and> 16 * unat (si_rd_beats (gin t)) < unat n + 16 \<and>
      (\<forall>k. sp_mem (gport t) (Stg (RD + k)) =
         (if k < unat n then src ! k else if k < 16 * unat (si_rd_beats (gin t)) then 0 else sp_mem (gport s) (Stg (RD + k)))) \<and>
      (\<forall>i. sp_mem (gport t) (Mem i) = sp_mem (gport s) (Mem i))"
proof -
  have u: "unat (n + 15) = unat n + 15" using assms(2) by (simp add: unat_word_ariths)
  have bt: "si_rd_beats (gin t) = (n + 15) div 16" by (simp add: t_def stage_fill_def)
  have b: "unat (si_rd_beats (gin t)) = (unat n + 15) div 16" by (simp add: bt unat_div u)
  have i: "unat (line16 (n + 15)) = 16 * unat (si_rd_beats (gin t))"
  proof -
    have "line16 (n + 15) = push_bit 4 (drop_bit 4 (n + 15))"
    proof (rule bit_word_eqI)
      fix k assume "k < LENGTH(32)"
      have m: "(15 :: u32) = mask 4" by (simp add: mask_eq_exp_minus_1)
      show "bit (line16 (n + 15)) k \<longleftrightarrow> bit (push_bit 4 (drop_bit 4 (n + 15))) k"
        using \<open>k < LENGTH(32)\<close> unfolding line16_def m
        by (auto simp: bit_and_iff bit_not_iff bit_mask_iff bit_push_bit_iff bit_drop_bit_eq)
    qed
    moreover have "unat (push_bit 4 (drop_bit 4 (n + 15))) = 16 * unat (drop_bit 4 (n + 15))"
    proof -
      have "unat (drop_bit 4 (n + 15)) < 0x80000" using assms(2) by (simp add: unat_drop_bit_div u)
      then show ?thesis by (simp add: push_bit_eq_mult unat_word_ariths mult.commute)
    qed
    ultimately show ?thesis by (simp add: b unat_drop_bit_div u)
  qed
  have le: "unat n \<le> 16 * unat (si_rd_beats (gin t))" "16 * unat (si_rd_beats (gin t)) < unat n + 16"
    unfolding b by linarith+
  have ok: "\<not> (unat n > length src \<or> RD + unat n > 0x1000000 \<or> RD + unat ((n + 15) AND NOT 15) > 0x1000000)"
    using assms(1,2) le(2) i by (simp add: RD_def line16_def)
  have mem: "sp_mem (gport t) (Stg (RD + k)) = (if k < unat n then src ! k
      else if k < 16 * unat (si_rd_beats (gin t)) then 0 else sp_mem (gport s) (Stg (RD + k)))" for k
    using assms(1) i by (simp add: t_def stage_fill_def stg_copy_Stg line16_def)
  have "cur_seq (stage_step E t) = cur_seq s" by (simp add: t_def stage_fill_def)
  then show ?thesis using ok le mem unfolding arm_stage_def
    by (simp add: Let_def t_def [symmetric]) (simp add: t_def stage_fill_def)
qed

theorem arm_stage_exact_witness:
  "\<exists>s'. arm_stage idle_stage_dut [1, 2, 3] 3 cq_sample = Some s' \<and>
     sp_mem (gport (stage_fill [1, 2, 3] 3 cq_sample)) (Stg (RD + 2)) = 3 \<and>
     sp_mem (gport (stage_fill [1, 2, 3] 3 cq_sample)) (Stg (RD + 9)) = 0"
proof -
  have h: "unat (3 :: u32) \<le> length [1, 2, 3 :: u8]" "unat (3 :: u32) \<le> 0x7ffff0" by simp_all
  have "si_rd_beats (gin (stage_fill [1, 2, 3] 3 cq_sample)) = 1" by (simp add: stage_fill_def)
  note r = this and e = arm_stage_exact [OF h, of idle_stage_dut cq_sample]
  have m: "sp_mem (gport (stage_fill [1, 2, 3] 3 cq_sample)) (Stg (RD + k)) =
      (if k < 3 then [1, 2, 3] ! k else if k < 16 then 0 else sp_mem (gport cq_sample) (Stg (RD + k)))" for k
    using e by (simp add: r)
  show ?thesis using e m [of 2] m [of 9] by auto
qed

text \<open>Case 7 of the test stages 64 bytes more than its vector has.\<close>

lemma arm_stage_overread:
  assumes "length f + 64 < 4294967296"
  shows "arm_stage E f (of_nat (length f) + 64) s = None"
proof -
  have "unat (of_nat (length f) + 64 :: u32) = length f + 64"
    using assms by (simp add: unat_word_ariths unat_of_nat take_bit_eq_mod)
  then show ?thesis by (simp add: arm_stage_def)
qed

section \<open>Words of the arrays\<close>

lemma get_le_put_le: "get_le (put_le p v m) p = v"
proof -
  have "get_le (put_le p v m) p = ucast (ucast v :: u8) OR push_bit 8 (ucast (ucast (drop_bit 8 v) :: u8))
      OR push_bit 16 (ucast (ucast (drop_bit 16 v) :: u8)) OR push_bit 24 (ucast (ucast (drop_bit 24 v) :: u8))"
    by (cases p) (simp_all add: get_le_def put_le_def le32_def)
  also have "\<dots> = push_bit 24 (ucast (ucast (drop_bit 24 v) :: u8)) OR push_bit 16 (ucast (ucast (drop_bit 16 v) :: u8))
      OR push_bit 8 (ucast (ucast (drop_bit 8 v) :: u8)) OR ucast (ucast v :: u8)"
    by (simp only: or.commute or.left_commute)
  also have "\<dots> = v" by (rule bit_word_eqI) (simp only: be32_join_bits)
  finally show ?thesis .
qed

lemma get_be_put_be: "get_be (put_be p v m) p = v"
proof -
  have "get_be (put_be p v m) p = push_bit 24 (ucast (ucast (drop_bit 24 v) :: u8)) OR push_bit 16 (ucast (ucast (drop_bit 16 v) :: u8))
      OR push_bit 8 (ucast (ucast (drop_bit 8 v) :: u8)) OR ucast (ucast v :: u8)"
    by (cases p) (simp_all add: get_be_def put_be_def be32_def)
  also have "\<dots> = v" by (rule bit_word_eqI) (simp only: be32_join_bits)
  finally show ?thesis .
qed

lemma cells_apart:
  assumes "\<And>k. k < 4 \<Longrightarrow> c \<noteq> cell_plus p k"
  shows "c \<noteq> p" "c \<noteq> cell_plus p 1" "c \<noteq> cell_plus p 2" "c \<noteq> cell_plus p 3"
  using assms [of 0] assms [of 1] assms [of 2] assms [of 3] by simp_all

lemma put_be_other: "(\<And>k. k < 4 \<Longrightarrow> c \<noteq> cell_plus p k) \<Longrightarrow> put_be p v m c = m c"
  using cells_apart [of c p] by (simp add: put_be_def)

lemma put_le_other: "(\<And>k. k < 4 \<Longrightarrow> c \<noteq> cell_plus p k) \<Longrightarrow> put_le p v m c = m c"
  using cells_apart [of c p] by (simp add: put_le_def)

lemma get_cong:
  assumes "\<And>k. k < 4 \<Longrightarrow> m (cell_plus p k) = m' (cell_plus p k)"
  shows "get_be m p = get_be m' p" "get_le m p = get_le m' p"
  using assms [of 0] assms [of 1] assms [of 2] assms [of 3] by (simp_all add: get_be_def be32_def get_le_def le32_def numeral_2_eq_2)

section \<open>The ring of received frames\<close>

fun submit_all :: "bytes list \<Rightarrow> 'd ring_tb \<Rightarrow> 'd ring_tb option" where
  "submit_all [] s = Some s"
| "submit_all (f # fs) s = Option.bind (arm_rx_submit f s) (submit_all fs)"

definition slot_of :: "u32 \<Rightarrow> nat" where
  "slot_of p = unat (p mod 256)"

text \<open>A slot holds a frame: its length in the submission entry, its bytes in the slot.\<close>

definition slot_holds :: "cells \<Rightarrow> nat \<Rightarrow> bytes \<Rightarrow> bool" where
  "slot_holds m slot f \<longleftrightarrow> get_le m (Stg (RXSQ + slot * 16)) = of_nat (length f) \<and>
     (\<forall>k < length f. m (Stg (RXS + slot * 2048 + k)) = f ! k)"

lemma slot_of_bound: "slot_of p < 256"
  by (simp add: slot_of_def unat_mod_distrib)

lemma slot_of_add: "slot_of (p + of_nat i) = (unat p + i) mod 256"
proof -
  have "(unat p + i mod 4294967296) mod 4294967296 mod 256 = (unat p + i) mod 256"
    by (simp add: mod_mod_cancel mod_simps)
  then show ?thesis by (simp add: slot_of_def unat_mod_distrib unat_word_ariths unat_of_nat take_bit_eq_mod)
qed

lemma slot_of_neq: "0 < i \<Longrightarrow> i < 256 \<Longrightarrow> slot_of (p + of_nat i) \<noteq> slot_of p"
proof
  assume i: "0 < i" "i < 256" and "slot_of (p + of_nat i) = slot_of p"
  then have "(unat p + i) mod 256 = unat p mod 256" using slot_of_add [of p i] slot_of_add [of p 0] by simp
  then have "256 dvd (unat p + i) - unat p" by (subst mod_eq_dvd_iff_nat [symmetric]) simp_all
  then show False using i by (auto dest: dvd_imp_le)
qed

lemma ring_at_rxsq: "slot < 256 \<Longrightarrow> ring_at (STG + of_nat RXSQ + of_nat (slot * 16)) = Stg (RXSQ + slot * 16)"
proof -
  assume l: "slot < 256"
  have u: "unat (STG + of_nat (RXSQ + slot * 16)) = unat STG + (RXSQ + slot * 16)"
    by (rule unat_plus_small) (use l in \<open>simp add: STG_def RXSQ_def\<close>)
  then have g: "STG \<le> STG + of_nat (RXSQ + slot * 16)" by (simp add: word_le_nat_alt)
  have "STG + of_nat (RXSQ + slot * 16) - STG = (of_nat (RXSQ + slot * 16) :: u32)" by simp
  moreover have "unat (of_nat (RXSQ + slot * 16) :: u32) = RXSQ + slot * 16"
    using unat_plus_small [of 0 "RXSQ + slot * 16"] l by (simp add: RXSQ_def)
  ultimately have "ring_at (STG + of_nat (RXSQ + slot * 16)) = Stg ((RXSQ + slot * 16) mod 0x400000)"
    using g by (simp only: ring_at_eq if_True)
  moreover have "(RXSQ + slot * 16) mod 0x400000 = RXSQ + slot * 16" using l by (simp add: RXSQ_def)
  ultimately show ?thesis by (simp add: add.assoc)
qed

text \<open>One submission: its slot, and what it leaves alone.\<close>

lemma submit_step:
  assumes "length f \<le> 2048"
  obtains s' where "arm_rx_submit f s = Some s'" "slot_holds (sp_mem (rport s')) (slot_of (arm_rx_prod s)) f"
    "arm_rx_prod s' = arm_rx_prod s + 1" "ri_rx_prod (rin s') = arm_rx_prod s + 1"
    "\<And>i. sp_mem (rport s') (Mem i) = sp_mem (rport s) (Mem i)"
    "\<And>slot g. slot < 256 \<Longrightarrow> slot \<noteq> slot_of (arm_rx_prod s) \<Longrightarrow> length g \<le> 2048 \<Longrightarrow> slot_holds (sp_mem (rport s)) slot g \<Longrightarrow>
       slot_holds (sp_mem (rport s')) slot g"
proof -
  define t where "t = slot_of (arm_rx_prod s)"
  define m0 where "m0 = stg_copy (RXSQ + t * 16) (replicate 16 0) (stg_copy (RXS + t * 2048) f (sp_mem (rport s)))"
  define m where "m = put_le (Stg (RXSQ + t * 16)) (of_nat (length f)) m0"
  have tl: "t < 256" by (simp add: t_def slot_of_bound)
  have in_entry: "m (Stg i) = m0 (Stg i)" if "i < RXSQ + t * 16 \<or> RXSQ + t * 16 + 4 \<le> i" for i
    unfolding m_def by (rule put_le_other) (use that in auto)
  have far: "m (Stg i) = stg_copy (RXS + t * 2048) f (sp_mem (rport s)) (Stg i)" if "i < RXSQ + t * 16 \<or> RXSQ + t * 16 + 16 \<le> i" for i
    using that in_entry [of i] by (auto simp: m0_def stg_copy_Stg)
  have guest: "m (Mem i) = sp_mem (rport s) (Mem i)" for i
    unfolding m_def by (subst put_le_other) (auto simp: m0_def)
  have here: "slot_holds m t f"
  proof -
    have "m (Stg (RXS + t * 2048 + k)) = f ! k" if "k < length f" for k
      using far [of "RXS + t * 2048 + k"] that tl by (simp add: stg_copy_Stg RXSQ_def RXS_def)
    then show ?thesis by (simp add: slot_holds_def m_def get_le_put_le)
  qed
  have keep: "slot_holds m slot g"
    if g: "slot < 256" "slot \<noteq> t" "length g \<le> 2048" "slot_holds (sp_mem (rport s)) slot g" for slot g
  proof -
    have "m (cell_plus (Stg (RXSQ + slot * 16)) k) = sp_mem (rport s) (cell_plus (Stg (RXSQ + slot * 16)) k)" if "k < 4" for k
    proof -
      have "slot * 16 + k < t * 16 \<or> t * 16 + 16 \<le> slot * 16 + k" using g(2) that by (cases slot t rule: linorder_cases) auto
      then have "m (Stg (RXSQ + slot * 16 + k)) = stg_copy (RXS + t * 2048) f (sp_mem (rport s)) (Stg (RXSQ + slot * 16 + k))"
        by (intro far) auto
      then show ?thesis using g(1) that by (simp add: stg_copy_Stg RXSQ_def RXS_def)
    qed
    then have "get_le m (Stg (RXSQ + slot * 16)) = get_le (sp_mem (rport s)) (Stg (RXSQ + slot * 16))" by (rule get_cong)
    moreover have "m (Stg (RXS + slot * 2048 + k)) = sp_mem (rport s) (Stg (RXS + slot * 2048 + k))" if "k < length g" for k
    proof -
      have "slot * 2048 + k < t * 2048 \<or> t * 2048 + length f \<le> slot * 2048 + k"
        using g(2,3) that assms by (cases slot t rule: linorder_cases) auto
      then show ?thesis using far [of "RXS + slot * 2048 + k"] tl by (auto simp: stg_copy_Stg RXSQ_def RXS_def)
    qed
    ultimately show ?thesis using g(4) by (simp add: slot_holds_def)
  qed
  have r: "ring_put_le32 (STG + of_nat RXSQ + of_nat (t * 16)) (of_nat (length f)) m0 = m"
    by (simp only: ring_put_le32_def ring_at_rxsq [OF tl] m_def)
  have ok: "\<not> RXS + t * 2048 + length f > 0x400000" using tl assms by (simp add: RXS_def)
  have "arm_rx_submit f s = Some (s\<lparr>rport := (rport s)\<lparr>sp_mem := m\<rparr>, arm_rx_prod := arm_rx_prod s + 1,
      rin := (rin s)\<lparr>ri_rx_prod := arm_rx_prod s + 1\<rparr>\<rparr>)"
    unfolding arm_rx_submit_def Let_def slot_of_def [symmetric] t_def [symmetric] m0_def [symmetric] r using ok by simp
  from that [OF this] show ?thesis using here keep guest by (simp add: t_def [symmetric])
qed

text \<open>
  Frames of at most 2048 bytes, at most 256 of them, are all in the ring after they were
  submitted, each in the slot of its number with its length, whatever the producer index was;
  guest memory is untouched and the doorbell shows the new index.
\<close>

theorem ring_submit_exact:
  assumes "length fs \<le> 256" "list_all (\<lambda>f. length f \<le> 2048) fs"
  shows "\<exists>s'. submit_all fs s = Some s' \<and> arm_rx_prod s' = arm_rx_prod s + of_nat (length fs) \<and>
    (fs \<noteq> [] \<longrightarrow> ri_rx_prod (rin s') = arm_rx_prod s') \<and>
    (\<forall>i. sp_mem (rport s') (Mem i) = sp_mem (rport s) (Mem i)) \<and>
    (\<forall>i < length fs. slot_holds (sp_mem (rport s')) (slot_of (arm_rx_prod s + of_nat i)) (fs ! i))"
proof -
  have "\<exists>s'. submit_all fs s = Some s' \<and> arm_rx_prod s' = arm_rx_prod s + of_nat (length fs) \<and>
      (fs \<noteq> [] \<longrightarrow> ri_rx_prod (rin s') = arm_rx_prod s') \<and>
      (\<forall>i. sp_mem (rport s') (Mem i) = sp_mem (rport s) (Mem i)) \<and>
      (\<forall>i < length fs. slot_holds (sp_mem (rport s')) (slot_of (arm_rx_prod s + of_nat i)) (fs ! i)) \<and>
      (\<forall>slot g. slot < 256 \<longrightarrow> (\<forall>i < length fs. slot \<noteq> slot_of (arm_rx_prod s + of_nat i)) \<longrightarrow> length g \<le> 2048 \<longrightarrow>
        slot_holds (sp_mem (rport s)) slot g \<longrightarrow> slot_holds (sp_mem (rport s')) slot g)"
    using assms
  proof (induction fs arbitrary: s)
    case (Cons f fs)
    then have f: "length f \<le> 2048" by simp
    obtain t where t: "arm_rx_submit f s = Some t" "slot_holds (sp_mem (rport t)) (slot_of (arm_rx_prod s)) f"
        "arm_rx_prod t = arm_rx_prod s + 1" "ri_rx_prod (rin t) = arm_rx_prod s + 1"
        "\<And>i. sp_mem (rport t) (Mem i) = sp_mem (rport s) (Mem i)"
        "\<And>slot g. slot < 256 \<Longrightarrow> slot \<noteq> slot_of (arm_rx_prod s) \<Longrightarrow> length g \<le> 2048 \<Longrightarrow> slot_holds (sp_mem (rport s)) slot g \<Longrightarrow>
           slot_holds (sp_mem (rport t)) slot g"
      using submit_step [OF f, of s] by metis
    from Cons.IH [of t] Cons.prems obtain u where u: "submit_all fs t = Some u"
        "arm_rx_prod u = arm_rx_prod t + of_nat (length fs)" "fs \<noteq> [] \<Longrightarrow> ri_rx_prod (rin u) = arm_rx_prod u"
        "\<And>i. sp_mem (rport u) (Mem i) = sp_mem (rport t) (Mem i)"
        "\<And>i. i < length fs \<Longrightarrow> slot_holds (sp_mem (rport u)) (slot_of (arm_rx_prod t + of_nat i)) (fs ! i)"
        "\<And>slot g. slot < 256 \<Longrightarrow> (\<And>i. i < length fs \<Longrightarrow> slot \<noteq> slot_of (arm_rx_prod t + of_nat i)) \<Longrightarrow> length g \<le> 2048 \<Longrightarrow>
           slot_holds (sp_mem (rport t)) slot g \<Longrightarrow> slot_holds (sp_mem (rport u)) slot g"
      by (auto simp del: of_nat_Suc)
    have sh: "arm_rx_prod t + of_nat i = arm_rx_prod s + of_nat (Suc i)" for i by (simp add: t(3))
    have "slot_of (arm_rx_prod s) \<noteq> slot_of (arm_rx_prod t + of_nat i)" if "i < length fs" for i
      using slot_of_neq [of "Suc i" "arm_rx_prod s"] Cons.prems(1) that by (simp only: sh) auto
    then have "slot_holds (sp_mem (rport u)) (slot_of (arm_rx_prod s)) f"
      using u(6) [OF slot_of_bound _ f t(2)] by blast
    then have all: "slot_holds (sp_mem (rport u)) (slot_of (arm_rx_prod s + of_nat i)) ((f # fs) ! i)" if "i < length (f # fs)" for i
      using that u(5) [unfolded sh] by (cases i) auto
    have rest: "slot_holds (sp_mem (rport u)) slot g" if "slot < 256"
        "\<And>i. i < length (f # fs) \<Longrightarrow> slot \<noteq> slot_of (arm_rx_prod s + of_nat i)" "length g \<le> 2048" "slot_holds (sp_mem (rport s)) slot g" for slot g
    proof (rule u(6) [OF that(1) _ that(3)])
      show "slot \<noteq> slot_of (arm_rx_prod t + of_nat i)" if "i < length fs" for i
        using \<open>\<And>i. i < length (f # fs) \<Longrightarrow> slot \<noteq> slot_of (arm_rx_prod s + of_nat i)\<close> [of "Suc i"] that by (simp only: sh) simp
      show "slot_holds (sp_mem (rport t)) slot g"
        using t(6) [OF that(1) _ that(3,4)] that(2) [of 0] by simp
    qed
    have "ri_rx_prod (rin u) = arm_rx_prod u" using u(1,2,3) t(3,4) by (cases fs) auto
    moreover have "submit_all (f # fs) s = Some u" using t(1) u(1) by simp
    moreover have "arm_rx_prod u = arm_rx_prod s + of_nat (length (f # fs))" using u(2) sh [of "length fs"] by simp
    ultimately show ?case using all rest t(5) u(4) by (intro exI [of _ u]) metis
  qed simp
  then show ?thesis by blast
qed

definition idle_stg_port :: stg_port where
  "idle_stg_port = \<lparr>sp_mem = (\<lambda>_. 0), sp_reply = -1, sp_resp_cyc = -100, sp_addr = 0, sp_op = 0, sp_mask = 0, sp_sd = [0, 0, 0, 0],
     sp_rsp_valid = False, sp_rsp_data = [0, 0, 0, 0]\<rparr>"

definition ring_tb0 :: "'d \<Rightarrow> 'd ring_tb" where
  "ring_tb0 d = \<lparr>rdut = d, rin = \<lparr>ri_tx_go = False, ri_tx_nbdp = 0, ri_tx_cons = 0, ri_rx_armed = False, ri_rx_nbdp = 0, ri_rx_prod = 0\<rparr>,
     rport = idle_stg_port, rcyc = 0, r_tx_done = 0, r_rx_done = 0, r_rx_drop = 0, g_last_load = (\<lambda>_. None), g_etxd_store = (\<lambda>_. None),
     g_crbdp_seen = (\<lambda>_. 0), watch_addr = 0xffffffff, watch_hits = 0, arm_rx_prod = 0\<rparr>"

theorem ring_submit_exact_witness:
  "\<exists>s'. submit_all [[1, 2, 3], [4]] ((ring_tb0 ())\<lparr>arm_rx_prod := 255\<rparr>) = Some s' \<and>
     slot_holds (sp_mem (rport s')) 255 [1, 2, 3] \<and> slot_holds (sp_mem (rport s')) 0 [4]"
proof -
  let ?s = "(ring_tb0 ())\<lparr>arm_rx_prod := 255\<rparr>"
  have "length [[1, 2, 3], [4 :: u8]] \<le> 256" "list_all (\<lambda>f. length f \<le> 2048) [[1, 2, 3], [4 :: u8]]" by simp_all
  from ring_submit_exact [OF this, of ?s] obtain s' where s': "submit_all [[1, 2, 3], [4]] ?s = Some s'"
    "\<And>i. i < 2 \<Longrightarrow> slot_holds (sp_mem (rport s')) (slot_of (arm_rx_prod ?s + of_nat i)) ([[1, 2, 3], [4]] ! i)" by auto
  have "slot_of (arm_rx_prod ?s + of_nat 0) = 255" "slot_of (arm_rx_prod ?s + of_nat 1) = 0" by (simp_all add: slot_of_def)
  then show ?thesis using s'(1) s'(2) [of 0] s'(2) [of 1] by auto
qed

section \<open>The ordering probes\<close>

text \<open>The accesses answered in \<open>n\<close> steps: cycle, operation, line and mask.\<close>

fun ring_log :: "'d ring_dut \<Rightarrow> nat \<Rightarrow> 'd ring_tb \<Rightarrow> (int \<times> u32 \<times> u32 \<times> u32) list" where
  "ring_log E 0 s = []"
| "ring_log E (Suc n) s = (let p = rport s in
     if sp_reply p = rcyc s then [(rcyc s, sp_op p, line16 (sp_addr p), sp_mask p)] else []) @ ring_log E n (ring_step E s)"

definition loads_of :: "u32 \<Rightarrow> (int \<times> u32 \<times> u32 \<times> u32) list \<Rightarrow> int list" where
  "loads_of l lg = map fst (filter (\<lambda>(c, op, ln, mk). op = 4 \<and> ln = l) lg)"

definition etxd_of :: "u32 \<Rightarrow> (int \<times> u32 \<times> u32 \<times> u32) list \<Rightarrow> int list" where
  "etxd_of l lg = map fst (filter (\<lambda>(c, op, ln, mk). op \<noteq> 4 \<and> mk = 0x0040 \<and> ln = l) lg)"

lemma loads_of_append [simp]: "loads_of l (a @ b) = loads_of l a @ loads_of l b"
  by (simp add: loads_of_def)

lemma etxd_of_append [simp]: "etxd_of l (a @ b) = etxd_of l a @ etxd_of l b"
  by (simp add: etxd_of_def)

lemma ring_step_probes:
  "g_last_load (ring_step E s) = g_last_load (ring_probe s)" "g_etxd_store (ring_step E s) = g_etxd_store (ring_probe s)"
  "rcyc (ring_step E s) = rcyc s + 1"
  by (simp_all add: ring_step_def Let_def ring_probe_def)

text \<open>The maps hold the last load and the first ETXD store of a line.\<close>

lemma ring_probes_exact:
  "g_last_load ((ring_step E ^^ n) s) l = (if loads_of l (ring_log E n s) = [] then g_last_load s l else Some (last (loads_of l (ring_log E n s))))"
  "g_etxd_store ((ring_step E ^^ n) s) l = (case g_etxd_store s l of Some c \<Rightarrow> Some c
     | None \<Rightarrow> if etxd_of l (ring_log E n s) = [] then None else Some (hd (etxd_of l (ring_log E n s))))"
proof (induction n arbitrary: s)
  case (Suc n)
  {
    case 1
    show ?case using Suc.IH(1) [of "ring_step E s"]
      by (auto simp: funpow_swap1 ring_step_probes ring_probe_def Let_def loads_of_def)
  next
    case 2
    show ?case using Suc.IH(2) [of "ring_step E s"]
      by (auto simp: funpow_swap1 ring_step_probes ring_probe_def Let_def etxd_of_def split: option.splits)
  }
qed (auto simp: loads_of_def etxd_of_def split: option.splits)

lemma ring_log_cycles: "sorted_wrt (<) (map fst (ring_log E n s)) \<and> (\<forall>c \<in> set (map fst (ring_log E n s)). rcyc s \<le> c)"
proof (induction n arbitrary: s)
  case (Suc n)
  have "\<forall>c \<in> set (map fst (ring_log E n (ring_step E s))). rcyc s < c"
    using Suc.IH [of "ring_step E s"] by (force simp: ring_step_probes(3))
  then show ?case using Suc.IH [of "ring_step E s"] by (auto simp: Let_def less_imp_le)
qed simp

lemma sorted_wrt_map_filter: "sorted_wrt (<) (map f xs) \<Longrightarrow> sorted_wrt (<) (map f (filter P xs))"
  by (induction xs) auto

lemma sorted_last_ge: "sorted_wrt (<) (xs :: int list) \<Longrightarrow> x \<in> set xs \<Longrightarrow> x \<le> last xs"
  by (induction xs) (auto simp: less_imp_le)

lemma sorted_hd_le: "sorted_wrt (<) (xs :: int list) \<Longrightarrow> x \<in> set xs \<Longrightarrow> hd xs \<le> x"
  by (cases xs) (auto simp: less_imp_le)

text \<open>
  The check that a packet's head shows ETXD only after its last descriptor was read is exact:
  for probes cleared before the run, the comparison of the two recorded cycles holds if and
  only if every ETXD store of the head line was answered after every load of the descriptor's
  line.
\<close>

theorem etxd_check_exact:
  assumes "g_last_load s d = None" "g_etxd_store s h = None"
    and "g_etxd_store ((ring_step E ^^ n) s) h = Some c" "g_last_load ((ring_step E ^^ n) s) d = Some c'"
  shows "c > c' \<longleftrightarrow> list_all (\<lambda>st. list_all (\<lambda>ld. ld < st) (loads_of d (ring_log E n s))) (etxd_of h (ring_log E n s))"
proof -
  let ?l = "loads_of d (ring_log E n s)" and ?e = "etxd_of h (ring_log E n s)"
  have e: "?e \<noteq> []" "c = hd ?e" using assms(2,3) by (auto simp: ring_probes_exact(2) split: if_splits)
  have l: "?l \<noteq> []" "c' = last ?l" using assms(1,4) by (auto simp: ring_probes_exact(1) split: if_splits)
  have "sorted_wrt (<) ?l" "sorted_wrt (<) ?e"
    using ring_log_cycles [of E n s] by (auto simp: loads_of_def etxd_of_def intro!: sorted_wrt_map_filter)
  then show ?thesis
    using e l sorted_last_ge [of ?l] sorted_hd_le [of ?e] unfolding list_all_iff
    by (metis hd_in_set last_in_set le_less_trans less_le_trans)
qed

text \<open>A load of line \<open>0x1110\<close> in flight, and an engine that then marks \<open>0x1100\<close>.\<close>

definition mark_dut :: "unit ring_dut" where
  "mark_dut = \<lparr>r_eval = (\<lambda>_ _ _ d. d), r_out = (\<lambda>_. \<lparr>ro_req = \<lparr>q_valid = True, q_addr = 0x1100, q_op = 7, q_mask = 0x40, q_sd = [0, 0, 0, 0]\<rparr>,
     ro_tx_done = False, ro_tx_crbdp = 0x1100, ro_rx_done = False, ro_rx_next_nbdp = 0, ro_rx_dropped = False, ro_rx_crbdp = 0\<rparr>)\<rparr>"

definition mark_tb :: "unit ring_tb" where
  "mark_tb = (ring_tb0 ())\<lparr>rport := idle_stg_port\<lparr>sp_reply := 0, sp_addr := 0x1110, sp_op := 4\<rparr>\<rparr>"

lemmas ring_eval = ring_step_def ring_probe_def ring_answer_def ring_accept_def mark_dut_def mark_tb_def ring_tb0_def idle_stg_port_def
  Let_def LAT_def line16_def

lemma funpow_6: "(f ^^ 6) s = f (f (f (f (f (f s)))))"
  by (simp add: eval_nat_numeral)

lemma mark_run:
  "g_last_load ((ring_step mark_dut ^^ 6) mark_tb) 0x1110 = Some 0" "g_etxd_store ((ring_step mark_dut ^^ 6) mark_tb) 0x1100 = Some 5"
  unfolding funpow_6 by (simp_all add: ring_eval del: upt_rec_numeral)

theorem etxd_check_exact_witness:
  "list_all (\<lambda>st. list_all (\<lambda>ld. ld < st) (loads_of 0x1110 (ring_log mark_dut 6 mark_tb))) (etxd_of 0x1100 (ring_log mark_dut 6 mark_tb))"
proof -
  have "g_last_load mark_tb 0x1110 = None" "g_etxd_store mark_tb 0x1100 = None" by (simp_all add: mark_tb_def ring_tb0_def)
  from etxd_check_exact [OF this mark_run(2,1)] show ?thesis by simp
qed

section \<open>Descriptor chains\<close>

text \<open>A walk as the engines do it: pointer and count, on to the next until the end flag.\<close>

fun desc_walk :: "nat \<Rightarrow> cells \<Rightarrow> u32 \<Rightarrow> (u32 \<times> u32) list" where
  "desc_walk 0 m a = []"
| "desc_walk (Suc n) m a =
     (let bc = get_be m (stage_at (a + 4))
      in (get_be m (stage_at a), bc AND NOT BC_EOX) #
         (if bc AND BC_EOX \<noteq> 0 then [] else desc_walk n m (get_be m (stage_at (a + 8)))))"

lemma stage_at_mem: "unat a + k < 262144 \<Longrightarrow> stage_at (a + of_nat k) = Mem (unat a + k)"
proof -
  assume l: "unat a + k < 262144"
  then have u: "unat (a + of_nat k) = unat a + k" by (intro unat_plus_small) simp
  then have "\<not> STG \<le> a + of_nat k" using l by (simp add: word_le_nat_alt STG_def)
  then show ?thesis using u l by (simp add: stage_at_eq)
qed

text \<open>The three words of a descriptor at a guest index, and the memory around them.\<close>

definition put_desc :: "nat \<Rightarrow> u32 \<Rightarrow> u32 \<Rightarrow> u32 \<Rightarrow> cells \<Rightarrow> cells" where
  "put_desc x bp bc nx m = put_be (Mem (x + 8)) nx (put_be (Mem (x + 4)) bc (put_be (Mem x) bp m))"

lemma put_be_mem_far: "y < x \<or> x + 4 \<le> y \<Longrightarrow> put_be (Mem x) v m (Mem y) = m (Mem y)"
  by (rule put_be_other) auto

lemma put_be_mem_stg: "put_be (Mem x) v m (Stg y) = m (Stg y)"
  by (rule put_be_other) auto

lemma get_be_mem_far: "y + 4 \<le> x \<or> x + 4 \<le> y \<Longrightarrow> get_be (put_be (Mem x) v m) (Mem y) = get_be m (Mem y)"
  by (rule get_cong) (auto intro!: put_be_mem_far)

lemma put_desc_get:
  "get_be (put_desc x bp bc nx m) (Mem x) = bp" "get_be (put_desc x bp bc nx m) (Mem (x + 4)) = bc"
  "get_be (put_desc x bp bc nx m) (Mem (x + 8)) = nx"
  by (simp_all add: put_desc_def get_be_mem_far get_be_put_be)

lemma put_desc_far: "y < x \<or> x + 16 \<le> y \<Longrightarrow> put_desc x bp bc nx m (Mem y) = m (Mem y)"
  by (auto simp: put_desc_def put_be_mem_far)

lemma put_desc_stg: "put_desc x bp bc nx m (Stg y) = m (Stg y)"
  by (simp add: put_desc_def put_be_mem_stg)

lemma chain_from_Cons:
  assumes "unat base + 16 * Suc i \<le> 262144"
  shows "chain_from base i ((bp, cnt) # segs) m = chain_from base (Suc i) segs
    (put_desc (unat base + 16 * i) bp (cnt OR (if segs = [] then BC_EOX else 0)) (base + of_nat (16 * Suc i)) m)"
proof -
  have a: "base + 16 * of_nat i = base + of_nat (16 * i)" by simp
  have "stage_at (base + of_nat (16 * i)) = Mem (unat base + 16 * i)" by (rule stage_at_mem) (use assms in simp)
  moreover have "stage_at (base + of_nat (16 * i + 4)) = Mem (unat base + (16 * i + 4))" by (rule stage_at_mem) (use assms in simp)
  moreover have "stage_at (base + of_nat (16 * i + 8)) = Mem (unat base + (16 * i + 8))" by (rule stage_at_mem) (use assms in simp)
  moreover have "base + of_nat (16 * i) + 4 = base + of_nat (16 * i + 4)" "base + of_nat (16 * i) + 8 = base + of_nat (16 * i + 8)"
    "base + of_nat (16 * i) + 16 = base + of_nat (16 * Suc i)" by simp_all
  ultimately show ?thesis
    unfolding chain_from.simps Let_def a stage_put_be32_def put_desc_def by (simp only: add.assoc)
qed

lemma chain_from_far:
  "unat base + 16 * (i + length segs) \<le> 262144 \<Longrightarrow> y < unat base + 16 * i \<or> unat base + 16 * (i + length segs) \<le> y \<Longrightarrow>
     chain_from base i segs m (Mem y) = m (Mem y)"
proof (induction segs arbitrary: i m)
  case (Cons x segs)
  obtain bp cnt where x: "x = (bp, cnt)" by (cases x)
  have "unat base + 16 * Suc i \<le> 262144" using Cons.prems(1) by simp
  then show ?case unfolding x chain_from_Cons [OF \<open>unat base + 16 * Suc i \<le> 262144\<close>]
    using Cons.prems by (subst Cons.IH) (auto simp: put_desc_far)
qed simp

lemma chain_from_stg:
  "unat base + 16 * (i + length segs) \<le> 262144 \<Longrightarrow> chain_from base i segs m (Stg y) = m (Stg y)"
proof (induction segs arbitrary: i m)
  case (Cons x segs)
  obtain bp cnt where x: "x = (bp, cnt)" by (cases x)
  have "unat base + 16 * Suc i \<le> 262144" using Cons.prems(1) by simp
  then show ?case unfolding x chain_from_Cons [OF \<open>unat base + 16 * Suc i \<le> 262144\<close>]
    using Cons.prems by (subst Cons.IH) (auto simp: put_desc_stg)
qed simp

lemma eox_bits:
  assumes "\<not> bit (cnt :: u32) 31"
  shows "(cnt OR BC_EOX) AND NOT BC_EOX = cnt" "(cnt OR BC_EOX) AND BC_EOX \<noteq> 0" "cnt AND BC_EOX = 0" "cnt AND NOT BC_EOX = cnt"
proof -
  have e: "bit BC_EOX k \<longleftrightarrow> k = 31" for k
  proof -
    have b: "BC_EOX = push_bit 31 1" by (simp add: BC_EOX_def push_bit_eq_mult)
    show ?thesis unfolding b by (simp only: bit_push_bit_iff bit_1_iff) auto
  qed
  show "(cnt OR BC_EOX) AND NOT BC_EOX = cnt" "cnt AND BC_EOX = 0" "cnt AND NOT BC_EOX = cnt"
    using assms by (auto intro!: bit_word_eqI simp: bit_and_iff bit_or_iff bit_not_iff e)
  have "bit ((cnt OR BC_EOX) AND BC_EOX) 31" by (simp add: bit_and_iff bit_or_iff e)
  then show "(cnt OR BC_EOX) AND BC_EOX \<noteq> 0" by (metis bit_0_eq bot_apply bot_bool_def)
qed

lemma chain_from_walk:
  "segs \<noteq> [] \<Longrightarrow> list_all (\<lambda>(bp, cnt). \<not> bit cnt 31) segs \<Longrightarrow> unat base + 16 * (i + length segs) \<le> 262144 \<Longrightarrow>
     desc_walk (length segs) (chain_from base i segs m) (base + of_nat (16 * i)) = segs"
proof (induction segs arbitrary: i m)
  case (Cons x segs)
  obtain bp cnt where x: "x = (bp, cnt)" by (cases x)
  have lim: "unat base + 16 * Suc i \<le> 262144" "unat base + 16 * (Suc i + length segs) \<le> 262144" using Cons.prems(3) by simp_all
  define d where "d = put_desc (unat base + 16 * i) bp (cnt OR (if segs = [] then BC_EOX else 0)) (base + of_nat (16 * Suc i)) m"
  define M where "M = chain_from base (Suc i) segs d"
  have c: "chain_from base i (x # segs) m = M" unfolding x chain_from_Cons [OF lim(1)] M_def d_def ..
  have far: "M (Mem y) = d (Mem y)" if "y < unat base + 16 * Suc i" for y
    unfolding M_def using that lim(2) by (intro chain_from_far) auto
  have rd: "get_be M (Mem y) = get_be d (Mem y)" if "y + 4 \<le> unat base + 16 * Suc i" for y
    using that by (intro get_cong) (auto intro!: far)
  have at: "stage_at (base + of_nat (16 * i)) = Mem (unat base + 16 * i)"
      "stage_at (base + of_nat (16 * i) + 4) = Mem (unat base + 16 * i + 4)"
      "stage_at (base + of_nat (16 * i) + 8) = Mem (unat base + 16 * i + 8)"
    using stage_at_mem [of base "16 * i"] stage_at_mem [of base "16 * i + 4"] stage_at_mem [of base "16 * i + 8"] lim(1)
    by (simp_all add: add.assoc)
  have g: "get_be M (stage_at (base + of_nat (16 * i))) = bp"
      "get_be M (stage_at (base + of_nat (16 * i) + 4)) = cnt OR (if segs = [] then BC_EOX else 0)"
      "get_be M (stage_at (base + of_nat (16 * i) + 8)) = base + of_nat (16 * Suc i)"
    unfolding at using rd [of "unat base + 16 * i"] rd [of "unat base + 16 * i + 4"] rd [of "unat base + 16 * i + 8"]
    by (simp_all add: d_def put_desc_get)
  have nb: "\<not> bit cnt 31" using Cons.prems(2) x by simp
  have w: "desc_walk (length (x # segs)) M (base + of_nat (16 * i)) = (bp, (cnt OR (if segs = [] then BC_EOX else 0)) AND NOT BC_EOX) #
      (if (cnt OR (if segs = [] then BC_EOX else 0)) AND BC_EOX \<noteq> 0 then []
       else desc_walk (length segs) M (base + of_nat (16 * Suc i)))"
    by (simp only: length_Cons desc_walk.simps Let_def g)
  show ?case
  proof (cases "segs = []")
    case True
    then show ?thesis unfolding c w by (simp add: x eox_bits [OF nb])
  next
    case False
    have "desc_walk (length segs) M (base + of_nat (16 * Suc i)) = segs"
      unfolding M_def using Cons.prems(2) False lim(2) by (intro Cons.IH) auto
    then show ?thesis using False unfolding c w by (simp add: x eox_bits [OF nb] del: of_nat_mult of_nat_Suc)
  qed
qed simp

text \<open>
  A descriptor chain built in guest memory is walked back to its segments: the walk from its
  base, which follows the next pointers up to the end flag, reads exactly the pointers and
  counts it was built from, and nothing outside the descriptors was written.
\<close>

theorem chain_walk:
  assumes "segs \<noteq> []" "list_all (\<lambda>(bp, cnt). \<not> bit cnt 31) segs" "unat base + 16 * length segs \<le> 262144"
  shows "desc_walk (length segs) (chain base segs m) base = segs \<and>
    (\<forall>y. y < unat base \<or> unat base + 16 * length segs \<le> y \<longrightarrow> chain base segs m (Mem y) = m (Mem y)) \<and>
    (\<forall>y. chain base segs m (Stg y) = m (Stg y))"
  using chain_from_walk [of segs base 0 m] chain_from_far [of base 0 segs _ m] chain_from_stg [of base 0 segs m] assms
  by (simp add: chain_def)

theorem chain_walk_witness:
  "desc_walk 3 (chain 0x1000 [(0x4000, 200), (0x5008, 250), (0x6003, 150)] (\<lambda>_. 0xa5)) 0x1000 =
     [(0x4000, 200), (0x5008, 250), (0x6003, 150)]"
  using chain_walk [of "[(0x4000, 200), (0x5008, 250), (0x6003, 150)]" "0x1000" "\<lambda>_. 0xa5"]
  by (simp add: numeral_3_eq_3)

end
