(* ===== verification/Dma_Main.thy ===== *)
theory Dma_Main
  imports Dma_Tests
begin

text \<open>
  The scenarios of the beat-streaming tests, \<^verbatim>\<open>main\<close> of \<^verbatim>\<open>sim/scsi_dma_test/tb_scsi_dma.cpp\<close> and of
  \<^verbatim>\<open>sim/enet_dma_test/tb_enet_dma.cpp\<close>, on the ports and loops of \<^verbatim>\<open>Dma_Tests\<close>.  An engine comes with
  its reset line: \<open>E True\<close> is the engine held in reset.  The outcomes of the calls of \<^verbatim>\<open>check\<close> are
  kept as a list in their order; the test counts its entries and its failures.
\<close>

section \<open>Memory of the scenarios\<close>

definition tb_put_be32 :: "nat \<Rightarrow> u32 \<Rightarrow> mem \<Rightarrow> mem" where
  "tb_put_be32 pa v m = mem_copy m pa (be32_bytes v)"

definition tb_get_be32 :: "mem \<Rightarrow> nat \<Rightarrow> u32" where
  "tb_get_be32 m pa = be32 m pa"

definition tb_desc :: "nat \<Rightarrow> u32 \<Rightarrow> u32 \<Rightarrow> u32 \<Rightarrow> mem \<Rightarrow> mem" where
  "tb_desc a bp bc dp m = tb_put_be32 (a + 8) dp (tb_put_be32 (a + 4) bc (tb_put_be32 a bp m))"

definition holds :: "mem \<Rightarrow> nat \<Rightarrow> bytes \<Rightarrow> bool" where
  "holds m a f \<longleftrightarrow> list_all (\<lambda>k. m (a + k) = f ! k) [0..<length f]"

text \<open>The outcomes of \<^verbatim>\<open>check\<close>: their number, the failures and the exit status.\<close>

definition exit_status :: "bool list \<Rightarrow> nat \<times> nat \<times> nat" where
  "exit_status oks = (let fails = length (filter Not oks) in (length oks, fails, if fails \<noteq> 0 then 1 else 0))"

section \<open>The SCSI test\<close>

definition BC_XIE :: u32 where
  "BC_XIE = 0x20000000"

definition scsi_reset :: "(bool \<Rightarrow> 'd scsi_dut) \<Rightarrow> 'd \<Rightarrow> 'd scsi_tb" where
  "scsi_reset E d =
     (let i = \<lparr>s_nbdp = 0, s_to_device = False, s_go = False, disk_rd_data = [0, 0, 0, 0]\<rparr>;
          ev = (\<lambda>clk. s_eval (E True) clk i (False, [0, 0, 0, 0]))
      in \<lparr>sdut = ((\<lambda>d. ev False (ev True d)) ^^ 4) (ev False d), sin = i, sport = idle_port, scyc = 4, rd_byte = 0, wr_capture = []\<rparr>)"

text \<open>A case starts from a cleared memory with its descriptors and buffers, and both cursors at the beginning.\<close>

definition scsi_case :: "'d scsi_dut \<Rightarrow> mem \<Rightarrow> bool \<Rightarrow> 'd scsi_tb \<Rightarrow> (bool \<times> 'd scsi_tb) option" where
  "scsi_case E m to_dev s =
     scsi_run E 0x1000 to_dev (s\<lparr>sport := (sport s)\<lparr>dp_mem := m\<rparr>, rd_byte := 0, wr_capture := []\<rparr>)"

definition ramp_bytes :: "nat \<Rightarrow> nat \<Rightarrow> bytes" where
  "ramp_bytes k n = map (\<lambda>i. ramp (of_nat i)) [k..<k + n]"

definition scsi_case1 :: "'d scsi_dut \<Rightarrow> 'd scsi_tb \<Rightarrow> (bool \<times> 'd scsi_tb) option" where
  "scsi_case1 E s = map_option (\<lambda>(fin, s). (fin \<and> holds (dp_mem (sport s)) 0x2000 (ramp_bytes 0 64), s))
     (scsi_case E (tb_desc 0x1000 0x2000 (64 OR BC_EOX) 0 (\<lambda>_. 0)) False s)"

definition scsi_case2 :: "'d scsi_dut \<Rightarrow> 'd scsi_tb \<Rightarrow> (bool \<times> 'd scsi_tb) option" where
  "scsi_case2 E s = map_option (\<lambda>(fin, s). (fin \<and> holds (dp_mem (sport s)) 0x2000 (ramp_bytes 0 32) \<and>
       holds (dp_mem (sport s)) 0x3000 (ramp_bytes 32 32), s))
     (scsi_case E (tb_desc 0x1010 0x3000 (32 OR BC_EOX) 0 (tb_desc 0x1000 0x2000 32 0x1010 (\<lambda>_. 0))) False s)"

definition scsi_case3 :: "'d scsi_dut \<Rightarrow> 'd scsi_tb \<Rightarrow> (bool \<times> 'd scsi_tb) option" where
  "scsi_case3 E s = map_option (\<lambda>(fin, s). (fin \<and> length (wr_capture s) = 48 \<and>
       list_all (\<lambda>k. wr_capture s ! k = ramp (of_nat k)) [0..<min 48 (length (wr_capture s))], s))
     (scsi_case E (tb_desc 0x1000 0x4000 (48 OR BC_XIE OR BC_EOX) 0 (mem_copy (\<lambda>_. 0) 0x4000 (ramp_bytes 0 48))) True s)"

definition scsi_main :: "(bool \<Rightarrow> 'd scsi_dut) \<Rightarrow> 'd \<Rightarrow> (nat \<times> nat \<times> nat) option" where
  "scsi_main E d =
     Option.bind (scsi_case1 (E False) (scsi_reset E d)) (\<lambda>(ok1, s).
     Option.bind (scsi_case2 (E False) s) (\<lambda>(ok2, s).
     map_option (\<lambda>(ok3, s). exit_status [ok1, ok2, ok3]) (scsi_case3 (E False) s)))"

section \<open>The ethernet test\<close>

definition BC_ROWN :: u32 where
  "BC_ROWN = 0x4000"

definition BC_ETXD :: u32 where
  "BC_ETXD = 0x8000"

definition GUARD :: u8 where
  "GUARD = 0xa5"

definition BUFSZ :: nat where
  "BUFSZ = 1600"

definition pat :: "u32 \<Rightarrow> u32 \<Rightarrow> u8" where
  "pat seed k = ucast (k * 7 + seed * 13 + 1)"

definition frame :: "u32 \<Rightarrow> nat \<Rightarrow> bytes" where
  "frame seed len = map (\<lambda>k. pat seed (of_nat k)) [0..<len]"

definition intact :: "mem \<Rightarrow> nat \<Rightarrow> nat \<Rightarrow> bool" where
  "intact m a b \<longleftrightarrow> list_all (\<lambda>x. m x = GUARD) [a..<b]"

definition poke :: "mem \<Rightarrow> 'd enet_tb \<Rightarrow> 'd enet_tb" where
  "poke m s = s\<lparr>eport := (eport s)\<lparr>dp_mem := m\<rparr>\<rparr>"

definition fifos_empty :: "'d enet_tb \<Rightarrow> bool" where
  "fifos_empty s \<longleftrightarrow> rx_fifo s = [] \<and> rx_src s = []"

text \<open>One frame at one buffer offset, with its five checks.\<close>

definition rx_arm :: "nat \<Rightarrow> 'd enet_tb \<Rightarrow> 'd enet_tb" where
  "rx_arm off = poke (tb_desc 0x1000 (of_nat (0x4000 + off)) (BC_ROWN OR 0x20000000 OR of_nat BUFSZ) 0x1010 (\<lambda>_. GUARD))"

definition rx_verdict :: "nat \<Rightarrow> bytes \<Rightarrow> nat \<Rightarrow> 'd enet_tb \<Rightarrow> bool list" where
  "rx_verdict bp f r s =
     (let m = dp_mem (eport s); bc = tb_get_be32 m 0x1004
      in [r = 1, holds m bp f, intact m 0x3f00 bp \<and> intact m (bp + length f) (bp + BUFSZ + 64),
          bc AND BC_ROWN = 0 \<and> bc AND 0x3fff = of_nat BUFSZ - of_nat (length f), fifos_empty s])"

definition rx_round :: "'d enet_dut \<Rightarrow> u32 \<times> nat \<times> nat \<Rightarrow> 'd enet_tb \<Rightarrow> (bool list \<times> 'd enet_tb) option" where
  "rx_round E = (\<lambda>(seed, off, len) s.
     map_option (\<lambda>(r, s). (rx_verdict (0x4000 + off) (frame seed len) r s, s)) (rx_frame E 0x1000 (frame seed len) (rx_arm off s)))"

fun all_rounds :: "('p \<Rightarrow> 's \<Rightarrow> (bool list \<times> 's) option) \<Rightarrow> 'p list \<Rightarrow> 's \<Rightarrow> (bool list \<times> 's) option" where
  "all_rounds f [] s = Some ([], s)"
| "all_rounds f (p # ps) s =
     Option.bind (f p s) (\<lambda>(oks, s). map_option (\<lambda>(oks', s). (oks @ oks', s)) (all_rounds f ps s))"

text \<open>Sixteen offsets, eight lengths each, a new pattern for every frame.\<close>

definition rx_params :: "(u32 \<times> nat \<times> nat) list" where
  "rx_params = (let ps = List.product [0..<16] [3, 15, 16, 17, 61, 64, 310, 1517]
     in zip (map of_nat [1..<1 + length ps]) ps)"

definition f1 :: bytes where
  "f1 = frame 901 100"

definition f2 :: bytes where
  "f2 = frame 902 77"

definition rx_drop :: "'d enet_dut \<Rightarrow> 'd enet_tb \<Rightarrow> (bool list \<times> 'd enet_tb) option" where
  "rx_drop E s =
     Option.bind (rx_frame E 0x1000 f1 (poke (tb_desc 0x1010 0x5008 (BC_ROWN OR of_nat BUFSZ) 0x1020
         (tb_desc 0x1000 0x4008 (0x20000000 OR of_nat BUFSZ) 0x1010 (\<lambda>_. GUARD))) s)) (\<lambda>(r1, s1).
     map_option (\<lambda>(r2, s2). ([r1 = 2, fifos_empty s1, intact (dp_mem (eport s1)) 0x4000 (0x4000 + 200), r2 = 1,
         holds (dp_mem (eport s2)) 0x5008 f2], s2))
       (rx_frame E 0x1010 f2 s1))"

definition rx_clamp :: "'d enet_dut \<Rightarrow> 'd enet_tb \<Rightarrow> (bool list \<times> 'd enet_tb) option" where
  "rx_clamp E s =
     Option.bind (rx_frame E 0x1000 f1 (poke (tb_desc 0x1010 0x5004 (BC_ROWN OR of_nat BUFSZ) 0x1020
         (tb_desc 0x1000 0x4008 (BC_ROWN OR 64) 0x1010 (\<lambda>_. GUARD))) s)) (\<lambda>(r1, s1).
     map_option (\<lambda>(r2, s2). ([r1 = 1, holds (dp_mem (eport s1)) 0x4008 (take 64 f1) \<and> intact (dp_mem (eport s1)) (0x4008 + 64) 0x4100,
         r2 = 1, holds (dp_mem (eport s2)) 0x5004 f2], s2))
       (rx_frame E 0x1010 f2 s1))"

text \<open>The three-descriptor transmit chain: its memory, its bytes, the wait and the checks.\<close>

definition tx_segs :: "(nat \<times> nat) list" where
  "tx_segs = [(0x6002, 100), (0x7008, 150), (0x8000, 60)]"

definition tx_seg :: "nat \<times> nat \<times> nat \<Rightarrow> mem \<Rightarrow> mem" where
  "tx_seg = (\<lambda>(i, bp, cnt) m. let a = 0x1100 + 16 * i
     in mem_copy (tb_desc a (of_nat bp) (of_nat cnt OR (if i = 2 then BC_EOX else 0)) (of_nat (a + 16)) m) bp (frame (950 + of_nat i) cnt))"

definition tx_mem :: mem where
  "tx_mem = fold tx_seg (zip [0..<3] tx_segs) (\<lambda>_. 0)"

definition tx_want :: bytes where
  "tx_want = concat (map (\<lambda>(i, bp, cnt). frame (950 + of_nat i) cnt) (zip [0..<3] tx_segs))"

definition idle_arg :: enet_arg where
  "idle_arg = (False, 0, 0, False, 0)"

fun tx_wait :: "'d enet_dut \<Rightarrow> nat \<Rightarrow> int \<Rightarrow> 'd enet_tb \<Rightarrow> 'd enet_tb option" where
  "tx_wait E 0 td s = Some s"
| "tx_wait E (Suc g) td s = (if n_tx_done s = td then Option.bind (enet_step E idle_arg s) (tx_wait E g td) else Some s)"

definition tx_verdict :: "'d enet_dut \<Rightarrow> int \<Rightarrow> 'd enet_tb \<Rightarrow> bool list" where
  "tx_verdict E td s =
     [n_tx_done s \<noteq> td, tx_len (e_out E (ed s)) = 310,
      310 \<le> length (tx_out s) \<and> list_all (\<lambda>k. tx_out s ! k = tx_want ! k) [0..<310],
      tb_get_be32 (dp_mem (eport s)) 0x1104 AND BC_ETXD \<noteq> 0 \<and> tb_get_be32 (dp_mem (eport s)) 0x1124 AND BC_ETXD \<noteq> 0]"

definition tx_round :: "'d enet_dut \<Rightarrow> int \<Rightarrow> 'd enet_tb \<Rightarrow> (bool list \<times> 'd enet_tb) option" where
  "tx_round E period s =
     Option.bind (enet_step E (False, 0, 0, True, 0x1100) (poke tx_mem (s\<lparr>tx_out := [], tx_pop_period := period\<rparr>))) (\<lambda>t.
     Option.bind (tx_wait E 400000 (n_tx_done s) t) (\<lambda>t.
     map_option (\<lambda>t. (tx_verdict E (n_tx_done s) t, t)) (enet_run E (replicate 4000 idle_arg) t)))"

definition enet_reset :: "(bool \<Rightarrow> 'd enet_dut) \<Rightarrow> 'd \<Rightarrow> 'd enet_tb option" where
  "enet_reset E d = enet_run (E True) (replicate 4 idle_arg) (enet_tb0 (e_eval (E True) False enet_in0 (False, [0, 0, 0, 0]) d))"

definition enet_main :: "(bool \<Rightarrow> 'd enet_dut) \<Rightarrow> 'd \<Rightarrow> (nat \<times> nat \<times> nat) option" where
  "enet_main E d =
     Option.bind (enet_reset E d) (\<lambda>s.
     Option.bind (all_rounds (rx_round (E False)) rx_params s) (\<lambda>(oks1, s).
     Option.bind (rx_drop (E False) s) (\<lambda>(oks2, s).
     Option.bind (rx_clamp (E False) s) (\<lambda>(oks3, s).
     map_option (\<lambda>(oks4, s). exit_status (oks1 @ oks2 @ oks3 @ oks4)) (all_rounds (tx_round (E False)) [1, 200] s)))))"

section \<open>The outcome of the checks\<close>

lemma exit_status_pass: "snd (snd (exit_status oks)) = 0 \<longleftrightarrow> list_all id oks"
  by (simp add: exit_status_def Let_def filter_empty_conv list_all_iff)

text \<open>The rounds pass together exactly when each passes in the state the ones before it left.\<close>

lemma all_rounds_pass:
  "all_rounds f ps s = Some (oks, s') \<Longrightarrow> list_all id oks \<longleftrightarrow>
     (\<forall>qs p rs os t. ps = qs @ p # rs \<and> all_rounds f qs s = Some (os, t) \<longrightarrow> (\<exists>os' u. f p t = Some (os', u) \<and> list_all id os'))"
proof (induction ps arbitrary: s oks)
  case (Cons p ps)
  then obtain o1 t o2 where t: "f p s = Some (o1, t)" "all_rounds f ps t = Some (o2, s')" "oks = o1 @ o2"
    by (auto simp: bind_eq_Some_conv)
  have "(\<forall>qs q rs os u. p # ps = qs @ q # rs \<and> all_rounds f qs s = Some (os, u) \<longrightarrow> (\<exists>os' w. f q u = Some (os', w) \<and> list_all id os')) \<longleftrightarrow>
      list_all id o1 \<and> (\<forall>qs q rs os u. ps = qs @ q # rs \<and> all_rounds f qs t = Some (os, u) \<longrightarrow> (\<exists>os' w. f q u = Some (os', w) \<and> list_all id os'))"
    (is "?L \<longleftrightarrow> ?R")
  proof
    assume l: ?L
    have "list_all id o1" using l [rule_format, of "[]" p ps "[]" s] t(1) by simp
    moreover have "\<exists>os' w. f q u = Some (os', w) \<and> list_all id os'" if "ps = qs @ q # rs" "all_rounds f qs t = Some (os, u)" for qs q rs os u
      using l [rule_format, of "p # qs" q rs "o1 @ os" u] that t(1) by simp
    ultimately show ?R by blast
  next
    assume r: ?R
    have "\<exists>os' w. f q u = Some (os', w) \<and> list_all id os'" if h: "p # ps = qs @ q # rs" "all_rounds f qs s = Some (os, u)" for qs q rs os u
    proof (cases qs)
      case Nil
      then show ?thesis using h t(1) r by auto
    next
      case (Cons q' qs')
      then obtain os2 where "all_rounds f qs' t = Some (os2, u)" using h t(1) by (auto simp: bind_eq_Some_conv)
      then show ?thesis using r h(1) Cons by auto
    qed
    then show ?L by blast
  qed
  then show ?case using Cons.IH [OF t(2)] by (simp only: t(3) list_all_append)
qed simp

section \<open>Receive rounds\<close>

lemma enet_run_append: "enet_run E (xs @ ys) s = Option.bind (enet_run E xs s) (enet_run E ys)"
  by (induction xs arbitrary: s) (auto split: bind_splits)

lemma enet_run_cyc: "enet_run E as s = Some s' \<Longrightarrow> ecyc s' = ecyc s + int (length as)"
proof (induction "as" arbitrary: s)
  case (Cons a "as")
  then obtain t where t: "enet_step E a s = Some t" "enet_run E as t = Some s'" by (auto simp: bind_eq_Some_conv)
  then show ?case using Cons.IH [OF t(2)] enet_step_port(2) [OF t(1)] by simp
qed simp

lemma rx_wait_run:
  "rx_wait E g dn dr s = Some (r, s') \<Longrightarrow>
     \<exists>n \<le> g. enet_run E (replicate n idle_arg) s = Some s' \<and> (r = 1 \<longleftrightarrow> n < g \<and> n_rx_done s' \<noteq> dn)"
proof (induction g arbitrary: s)
  case (Suc g)
  show ?case
  proof (cases "n_rx_done s \<noteq> dn \<or> n_rx_drop s \<noteq> dr")
    case True
    then show ?thesis using Suc.prems by (intro exI [of _ 0]) (auto split: if_splits)
  next
    case False
    then obtain t where t: "enet_step E idle_arg s = Some t" "rx_wait E g dn dr t = Some (r, s')"
      using Suc.prems by (auto simp: bind_eq_Some_conv idle_arg_def)
    from Suc.IH [OF t(2)] obtain n where "n \<le> g" "enet_run E (replicate n idle_arg) t = Some s'" "r = 1 \<longleftrightarrow> n < g \<and> n_rx_done s' \<noteq> dn"
      by blast
    then show ?thesis using t(1) by (intro exI [of _ "Suc n"]) auto
  qed
qed simp

text \<open>The steps of a frame that took \<open>n\<close> idle cycles after its start, and the state they start from.\<close>

definition rx_args :: "u32 \<Rightarrow> bytes \<Rightarrow> nat \<Rightarrow> enet_arg list" where
  "rx_args nbdp f n = (True, nbdp, of_nat (length f), False, 0) # replicate n idle_arg"

definition rx_queue :: "bytes \<Rightarrow> 'd enet_tb \<Rightarrow> 'd enet_tb" where
  "rx_queue f s = s\<lparr>rx_src := rx_src s @ frame_beats f\<rparr>"

lemma rx_frame_run:
  assumes "rx_frame E nbdp f s = Some (r, s')"
  obtains n where "n \<le> 200000" "enet_run E (rx_args nbdp f n) (rx_queue f s) = Some s'" "r = 1 \<longleftrightarrow> n < 200000 \<and> n_rx_done s' \<noteq> n_rx_done s"
proof -
  obtain t where t: "enet_step E (True, nbdp, of_nat (length f), False, 0) (rx_queue f s) = Some t"
    "rx_wait E 200000 (n_rx_done s) (n_rx_drop s) t = Some (r, s')"
    using assms by (auto simp: rx_frame_def rx_queue_def bind_eq_Some_conv)
  from rx_wait_run [OF t(2)] show ?thesis using that t(1) by (auto simp: rx_args_def)
qed

text \<open>The buffer and its guard bytes, as a window of the memory.\<close>

lemma holds_intact_window:
  assumes "length f \<le> BUFSZ" "0x3f00 \<le> bp"
  shows "holds m bp f \<and> intact m 0x3f00 bp \<and> intact m (bp + length f) (bp + BUFSZ + 64) \<longleftrightarrow>
    (\<forall>a \<in> {0x3f00..<bp + BUFSZ + 64}. m a = mem_copy (\<lambda>_. GUARD) bp f a)" (is "?L \<longleftrightarrow> ?R")
proof
  assume l: ?L
  show ?R
  proof
    fix a assume a: "a \<in> {0x3f00..<bp + BUFSZ + 64}"
    consider "a < bp" | k where "a = bp + k" "k < length f" | "bp + length f \<le> a" by (metis add_less_cancel_left le_Suc_ex not_le)
    then show "m a = mem_copy (\<lambda>_. GUARD) bp f a"
      by cases (use l a in \<open>auto simp: holds_def intact_def list_all_iff mem_copy_def\<close>)
  qed
next
  assume r: ?R
  then have "m a = mem_copy (\<lambda>_. GUARD) bp f a" if "0x3f00 \<le> a" "a < bp + BUFSZ + 64" for a using that by simp
  then show ?L using assms by (auto simp: holds_def intact_def list_all_iff mem_copy_def)
qed

text \<open>
  C34.  A receive round passes exactly when the engine did its work: it was done within 200000 cycles of its
  start, it took the beats of this frame in order, all of them and no others, the memory from
  \<^verbatim>\<open>0x3f00\<close> to 64 bytes past the buffer is the guard pattern with the frame copied at the buffer,
  and the descriptor's count word is free with what is left of the buffer.
\<close>

theorem rx_round_exact:
  assumes "rx_round E (seed, off, len) s = Some (oks, s')" "rx_fifo s = []" "rx_src s = []" "len \<le> BUFSZ"
  shows "list_all id oks \<longleftrightarrow>
    (\<exists>n < 200000. enet_run E (rx_args 0x1000 (frame seed len) n) (rx_queue (frame seed len) (rx_arm off s)) = Some s' \<and>
       rx_taken E (rx_args 0x1000 (frame seed len) n) (rx_queue (frame seed len) (rx_arm off s)) = frame_beats (frame seed len)) \<and>
    n_rx_done s' \<noteq> n_rx_done s \<and>
    (\<forall>a \<in> {0x3f00..<0x4000 + off + BUFSZ + 64}. dp_mem (eport s') a = mem_copy (\<lambda>_. GUARD) (0x4000 + off) (frame seed len) a) \<and>
    tb_get_be32 (dp_mem (eport s')) 0x1004 AND BC_ROWN = 0 \<and>
    tb_get_be32 (dp_mem (eport s')) 0x1004 AND 0x3fff = of_nat BUFSZ - of_nat len"
proof -
  let ?f = "frame seed len" and ?m = "dp_mem (eport s')" and ?q = "rx_queue (frame seed len) (rx_arm off s)"
  have len: "length ?f = len" by (simp add: frame_def)
  obtain r where r: "rx_frame E 0x1000 ?f (rx_arm off s) = Some (r, s')" "oks = rx_verdict (0x4000 + off) ?f r s'"
    using assms(1) by (auto simp: rx_round_def)
  have dn: "n_rx_done (rx_arm off s) = n_rx_done s" by (simp add: rx_arm_def poke_def)
  obtain n where n: "n \<le> 200000" "enet_run E (rx_args 0x1000 ?f n) ?q = Some s'" "r = 1 \<longleftrightarrow> n < 200000 \<and> n_rx_done s' \<noteq> n_rx_done s"
    by (rule rx_frame_run [OF r(1)]) (simp add: dn)
  have q: "rx_fifo ?q @ rx_src ?q = frame_beats ?f" using assms(2,3) by (simp add: rx_queue_def rx_arm_def poke_def)
  have u: "k = n" if "enet_run E (rx_args 0x1000 ?f k) ?q = Some s'" for k
    using enet_run_cyc [OF that] enet_run_cyc [OF n(2)] by (simp add: rx_args_def)
  have b: "rx_taken E (rx_args 0x1000 ?f n) ?q = frame_beats ?f \<longleftrightarrow> fifos_empty s'"
    using enet_run_rx [OF n(2)] q by (auto simp: fifos_empty_def)
  have "list_all id oks \<longleftrightarrow> r = 1 \<and> fifos_empty s' \<and> (holds ?m (0x4000 + off) ?f \<and> intact ?m 0x3f00 (0x4000 + off) \<and>
      intact ?m (0x4000 + off + length ?f) (0x4000 + off + BUFSZ + 64)) \<and>
      tb_get_be32 ?m 0x1004 AND BC_ROWN = 0 \<and> tb_get_be32 ?m 0x1004 AND 0x3fff = of_nat BUFSZ - of_nat len"
    by (auto simp: r(2) rx_verdict_def Let_def len)
  also have "(holds ?m (0x4000 + off) ?f \<and> intact ?m 0x3f00 (0x4000 + off) \<and> intact ?m (0x4000 + off + length ?f) (0x4000 + off + BUFSZ + 64)) \<longleftrightarrow>
      (\<forall>a \<in> {0x3f00..<0x4000 + off + BUFSZ + 64}. ?m a = mem_copy (\<lambda>_. GUARD) (0x4000 + off) ?f a)"
    by (rule holds_intact_window) (simp_all add: len assms(4))
  finally show ?thesis using n u b by blast
qed

text \<open>An engine that deposits the frame of the round at offset 0 with three bytes: two stores and one beat.\<close>

definition script_dut :: "nat enet_dut" where
  "script_dut = \<lparr>e_eval = (\<lambda>clk _ _ n. if clk then Suc n else n),
     e_out = (\<lambda>n. \<lparr>e_req = (if n < 5 then \<lparr>q_valid = True, q_addr = 0x4000, q_op = 7, q_mask = 7, q_sd = [0x1c150e, 0, 0, 0]\<rparr>
                             else \<lparr>q_valid = True, q_addr = 0x1000, q_op = 7, q_mask = 0xf0, q_sd = [0, 0x3d060020, 0, 0]\<rparr>),
       rx_rd_en = (n = 3), tx_wr_en = False, tx_wr_data = [0, 0, 0, 0], rx_done = (n = 10), rx_dropped = False, tx_done = False, tx_len = 0\<rparr>)\<rparr>"

lemma script_run:
  "\<exists>s'. rx_frame script_dut 0x1000 (frame 1 3) (rx_arm 0 (enet_tb0 0)) = Some (1, s') \<and> fifos_empty s' \<and>
     dp_mem (eport s') = tb_store (tb_store (dp_mem (eport (rx_arm 0 (enet_tb0 (0 :: nat))))) 0x4000 7 [0x1c150e, 0, 0, 0]) 0x1000 0xf0 [0, 0x3d060020, 0, 0]"
proof -
  have g: "(200000 :: nat) = Suc (Suc (Suc (Suc (Suc (Suc (Suc (Suc (Suc (Suc 199990)))))))))" by simp
  have b: "length (frame_beats (frame 1 3)) = 1" by (simp add: frame_beats_def frame_def Let_def)
  then obtain x where x: "frame_beats (frame 1 3) = [x]" by (auto simp: length_Suc_conv)
  have l: "length (frame 1 3) = 3" by (simp add: frame_def)
  have u: "[0..<4] = [0, 1, 2, 3 :: nat]" by (simp add: upt_rec)
  note ev = enet_step_def enet_answer_def enet_accept_def enet_low_def enet_inputs_def script_dut_def rx_fifo_edge_def tx_fifo_push_def
    tx_fifo_pop_def enet_count_def LAT_def line16_def
  show ?thesis
    unfolding rx_frame_def g rx_wait.simps x l
    by (simp add: ev rx_arm_def poke_def enet_tb0_def idle_port_def enet_in0_def fifos_empty_def Let_def u)
qed

lemma script_mem:
  fixes m :: mem
  defines "w \<equiv> tb_store (tb_store m 0x4000 7 [0x1c150e, 0, 0, 0]) 0x1000 0xf0 [0, 0x3d060020, 0, 0]"
  shows "x \<in> {0x4000..<0x4003} \<Longrightarrow> w x = sd_byte [0x1c150e, 0, 0, 0] (x - 0x4000)"
    and "x \<in> {0x1004..<0x1008} \<Longrightarrow> w x = sd_byte [0, 0x3d060020, 0, 0] (x - 0x1000)"
    and "x \<notin> {0x4000..<0x4003} \<union> {0x1000..<0x1010} \<Longrightarrow> w x = m x"
proof -
  have l: "line16 0x4000 = 0x4000" "line16 0x1000 = 0x1000" "line_idx 0x4000 = 0x4000" "line_idx 0x1000 = 0x1000"
    by (simp_all add: line16_def line_idx_def)
  have b: "bit (7 :: u32) n \<longleftrightarrow> n < 3" for n
  proof -
    have "(7 :: u32) = mask 3" by (simp add: mask_eq_exp_minus_1)
    then show ?thesis by (simp only: bit_mask_iff) auto
  qed
  have c: "bit (0xf0 :: u32) n \<longleftrightarrow> 4 \<le> n \<and> n < 8" for n
  proof -
    have "(0xf0 :: u32) = push_bit 4 (mask 4)" by (simp add: mask_eq_exp_minus_1 push_bit_eq_mult)
    then show ?thesis by (simp only: bit_push_bit_iff bit_mask_iff) auto
  qed
  have w: "w x = (if 0x1000 \<le> x \<and> x < 0x1010 \<and> bit (0xf0 :: u32) (x - 0x1000) then sd_byte [0, 0x3d060020, 0, 0] (x - 0x1000)
      else if 0x4000 \<le> x \<and> x < 0x4010 \<and> bit (7 :: u32) (x - 0x4000) then sd_byte [0x1c150e, 0, 0, 0] (x - 0x4000) else m x)" for x
    unfolding w_def
    using tb_store_line [of "tb_store m 0x4000 7 [0x1c150e, 0, 0, 0]" "0x1000" "0xf0" "[0, 0x3d060020, 0, 0]" x]
      tb_store_line [of m "0x4000" "7" "[0x1c150e, 0, 0, 0]" x] by (simp only: l) simp
  show "x \<in> {0x4000..<0x4003} \<Longrightarrow> w x = sd_byte [0x1c150e, 0, 0, 0] (x - 0x4000)"
    "x \<in> {0x1004..<0x1008} \<Longrightarrow> w x = sd_byte [0, 0x3d060020, 0, 0] (x - 0x1000)"
    "x \<notin> {0x4000..<0x4003} \<union> {0x1000..<0x1010} \<Longrightarrow> w x = m x"
    unfolding w b c by auto
qed

lemma script_passes: "\<exists>oks s'. rx_round script_dut (1, 0, 3) (enet_tb0 0) = Some (oks, s') \<and> list_all id oks"
proof -
  obtain s' where s': "rx_frame script_dut 0x1000 (frame 1 3) (rx_arm 0 (enet_tb0 0)) = Some (1, s')" "fifos_empty s'"
    "dp_mem (eport s') = tb_store (tb_store (dp_mem (eport (rx_arm 0 (enet_tb0 (0 :: nat))))) 0x4000 7 [0x1c150e, 0, 0, 0]) 0x1000 0xf0 [0, 0x3d060020, 0, 0]"
    using script_run by blast
  note m = script_mem [of _ "dp_mem (eport (rx_arm 0 (enet_tb0 (0 :: nat))))", folded s'(3)]
  have f: "frame 1 3 = [14, 21, 28]" by (simp add: frame_def pat_def upt_rec)
  have "dp_mem (eport s') (0x4000 + k) = frame 1 3 ! k" if "k < 3" for k
  proof -
    have "k = 0 \<or> k = 1 \<or> k = 2" using that by auto
    then show ?thesis using m(1) [of "0x4000 + k"] that by (auto simp: f sd_byte_def)
  qed
  moreover have "length (frame 1 3) = 3" by (simp add: f)
  ultimately have h: "holds (dp_mem (eport s')) 0x4000 (frame 1 3)" by (simp add: holds_def list_all_iff del: upt_rec_numeral)
  have g: "dp_mem (eport s') x = GUARD" if "0x3f00 \<le> x" "x \<notin> {0x4000..<0x4003}" for x
    using m(3) [of x] that
    by (auto simp: rx_arm_def poke_def tb_desc_def tb_put_be32_def mem_copy_def)
  have "intact (dp_mem (eport s')) a b" if "b \<le> 0x4000 \<and> 0x3f00 \<le> a \<or> 0x4003 \<le> a" for a b
    unfolding intact_def list_all_iff using that by (auto intro!: g)
  then have i: "intact (dp_mem (eport s')) 0x3f00 0x4000" "intact (dp_mem (eport s')) (0x4000 + length (frame 1 3)) (0x4000 + BUFSZ + 64)"
    by (simp_all add: f)
  have c: "tb_get_be32 (dp_mem (eport s')) 0x1004 = 0x2000063d"
    using m(2) [of "0x1004"] m(2) [of "0x1005"] m(2) [of "0x1006"] m(2) [of "0x1007"]
    by (simp add: tb_get_be32_def be32_def sd_byte_def)
  have "of_nat BUFSZ - of_nat (length (frame 1 3)) = (0x63d :: u32)" by (simp add: BUFSZ_def f)
  then have "list_all id (rx_verdict 0x4000 (frame 1 3) 1 s')"
    unfolding rx_verdict_def Let_def c using h s'(2) i by (simp add: BC_ROWN_def)
  then show ?thesis using s'(1) by (simp add: rx_round_def)
qed

theorem rx_round_exact_witness:
  "\<exists>n s'. enet_run script_dut (rx_args 0x1000 (frame 1 3) n) (rx_queue (frame 1 3) (rx_arm 0 (enet_tb0 0))) = Some s' \<and>
     rx_taken script_dut (rx_args 0x1000 (frame 1 3) n) (rx_queue (frame 1 3) (rx_arm 0 (enet_tb0 0))) = frame_beats (frame 1 3)"
proof -
  obtain oks s' where s': "rx_round script_dut (1, 0, 3) (enet_tb0 0) = Some (oks, s')" "list_all id oks" using script_passes by blast
  have h: "rx_fifo (enet_tb0 (0 :: nat)) = []" "rx_src (enet_tb0 (0 :: nat)) = []" "3 \<le> BUFSZ" by (simp_all add: enet_tb0_def BUFSZ_def)
  from rx_round_exact [OF s'(1) h] s'(2) show ?thesis by blast
qed

section \<open>The test returns\<close>

text \<open>An engine that pops the receive FIFO only when it holds a beat.\<close>

definition pops_offered :: "'d enet_dut \<Rightarrow> bool" where
  "pops_offered E \<longleftrightarrow> (\<forall>i r d. rx_rd_en (e_out E (e_eval E False i r d)) \<longrightarrow> rx_rd_valid i)"

lemma pops_offered_step: "pops_offered E \<Longrightarrow> rx_rd_en (enet_shows E a s) \<Longrightarrow> rx_fifo s \<noteq> []"
  unfolding pops_offered_def enet_shows_def enet_low_def
  by (drule spec [of _ "enet_inputs a s"]) (auto simp: enet_inputs_def case_prod_unfold)

text \<open>A part of the test that returns and keeps the consumer's period.\<close>

definition returns :: "('d enet_tb \<Rightarrow> ('a \<times> 'd enet_tb) option) \<Rightarrow> bool" where
  "returns f \<longleftrightarrow> (\<forall>s. tx_pop_period s \<noteq> 0 \<longrightarrow> (\<exists>x s'. f s = Some (x, s') \<and> tx_pop_period s' \<noteq> 0))"

lemma returns_bind:
  "returns f \<Longrightarrow> (\<And>x. returns (g x)) \<Longrightarrow> returns (\<lambda>s. Option.bind (f s) (\<lambda>(x, s). g x s))"
  by (fastforce simp: returns_def)

lemma returns_map: "returns f \<Longrightarrow> returns (\<lambda>s. map_option (\<lambda>(x, t). (h x s t, t)) (f s))"
  by (fastforce simp: returns_def)

lemma returns_poke: "returns f \<Longrightarrow> returns (\<lambda>s. f (poke m s))"
  by (simp add: returns_def poke_def)

lemmas returns_intros = returns_bind returns_map returns_poke

lemma enet_step_returns: "pops_offered E \<Longrightarrow> tx_pop_period s \<noteq> 0 \<Longrightarrow> \<exists>s'. enet_step E a s = Some s' \<and> tx_pop_period s' \<noteq> 0"
  using enet_step_Some [of E a s] pops_offered_step by metis

lemma enet_run_returns: "pops_offered E \<Longrightarrow> tx_pop_period s \<noteq> 0 \<Longrightarrow> \<exists>s'. enet_run E as s = Some s' \<and> tx_pop_period s' \<noteq> 0"
  using enet_run_Some [of E s "as"] pops_offered_step by metis

lemma rx_wait_returns: "pops_offered E \<Longrightarrow> returns (rx_wait E g dn dr)"
proof (induction g)
  case (Suc g)
  then show ?case using enet_step_returns [of E _ "(False, 0, 0, False, 0)"] unfolding returns_def
    by (metis (no_types, lifting) Option.bind.bind_lunit rx_wait.simps(2))
qed (simp add: returns_def)

lemma tx_wait_returns: "pops_offered E \<Longrightarrow> tx_pop_period s \<noteq> 0 \<Longrightarrow> \<exists>s'. tx_wait E g td s = Some s' \<and> tx_pop_period s' \<noteq> 0"
proof (induction g arbitrary: s)
  case (Suc g)
  obtain t where "enet_step E idle_arg s = Some t" "tx_pop_period t \<noteq> 0"
    using enet_step_returns [OF Suc.prems] by blast
  then show ?case using Suc.IH [of t] Suc.prems by simp
qed simp

lemma rx_frame_returns: "pops_offered E \<Longrightarrow> returns (rx_frame E nbdp f)"
  unfolding returns_def
proof (intro allI impI)
  fix s :: "'a enet_tb" assume E: "pops_offered E" and p: "tx_pop_period s \<noteq> 0"
  have "tx_pop_period (s\<lparr>rx_src := rx_src s @ frame_beats f\<rparr>) \<noteq> 0" using p by simp
  from enet_step_returns [OF E this, of "(True, nbdp, of_nat (length f), False, 0)"]
  obtain t where t: "enet_step E (True, nbdp, of_nat (length f), False, 0) (s\<lparr>rx_src := rx_src s @ frame_beats f\<rparr>) = Some t" "tx_pop_period t \<noteq> 0"
    by blast
  then show "\<exists>x s'. rx_frame E nbdp f s = Some (x, s') \<and> tx_pop_period s' \<noteq> 0"
    using rx_wait_returns [OF E, unfolded returns_def] by (simp add: rx_frame_def)
qed

lemma rx_round_returns: "pops_offered E \<Longrightarrow> returns (rx_round E p)"
  by (cases p) (simp only: rx_round_def rx_arm_def prod.case, intro returns_intros rx_frame_returns)

lemma rx_drop_returns: "pops_offered E \<Longrightarrow> returns (rx_drop E)"
  unfolding rx_drop_def [abs_def] by (intro returns_intros rx_frame_returns)

lemma rx_clamp_returns: "pops_offered E \<Longrightarrow> returns (rx_clamp E)"
  unfolding rx_clamp_def [abs_def] by (intro returns_intros rx_frame_returns)

lemma tx_round_returns:
  assumes "pops_offered E" "period \<noteq> 0"
  shows "\<exists>x s'. tx_round E period s = Some (x, s') \<and> tx_pop_period s' \<noteq> 0"
proof -
  have "tx_pop_period (poke tx_mem (s\<lparr>tx_out := [], tx_pop_period := period\<rparr>)) \<noteq> 0" using assms(2) by (simp add: poke_def)
  from enet_step_returns [OF assms(1) this, of "(False, 0, 0, True, 0x1100)"]
  obtain t where t: "enet_step E (False, 0, 0, True, 0x1100) (poke tx_mem (s\<lparr>tx_out := [], tx_pop_period := period\<rparr>)) = Some t" "tx_pop_period t \<noteq> 0"
    by blast
  obtain u where u: "tx_wait E 400000 (n_tx_done s) t = Some u" "tx_pop_period u \<noteq> 0" using tx_wait_returns [OF assms(1) t(2)] by blast
  obtain v where "enet_run E (replicate 4000 idle_arg) u = Some v" "tx_pop_period v \<noteq> 0" using enet_run_returns [OF assms(1) u(2)] by blast
  then show ?thesis unfolding tx_round_def t(1) Option.bind.bind_lunit u(1) by simp
qed

text \<open>The number of checks of each part.\<close>

lemma all_rounds_returns:
  assumes "\<And>p s. p \<in> set ps \<Longrightarrow> tx_pop_period s \<noteq> 0 \<Longrightarrow> \<exists>x s'. f p s = Some (x, s') \<and> length x = k \<and> tx_pop_period s' \<noteq> 0"
    and "tx_pop_period s \<noteq> 0"
  shows "\<exists>x s'. all_rounds f ps s = Some (x, s') \<and> length x = k * length ps \<and> tx_pop_period s' \<noteq> 0"
  using assms
proof (induction ps arbitrary: s)
  case (Cons p ps)
  then obtain x t where t: "f p s = Some (x, t)" "length x = k" "tx_pop_period t \<noteq> 0" by (meson list.set_intros(1))
  obtain y u where "all_rounds f ps t = Some (y, u)" "length y = k * length ps" "tx_pop_period u \<noteq> 0"
    using Cons.IH [OF _ t(3)] Cons.prems(1) by (meson list.set_intros(2))
  then show ?case using t by simp
qed simp

lemma check_counts:
  "rx_round E p s = Some (x, s') \<Longrightarrow> length x = 5" "rx_drop E s = Some (x, s') \<Longrightarrow> length x = 5"
  "rx_clamp E s = Some (x, s') \<Longrightarrow> length x = 4" "tx_round E period s = Some (x, s') \<Longrightarrow> length x = 4"
  by (auto simp: rx_round_def rx_verdict_def rx_drop_def rx_clamp_def tx_round_def tx_verdict_def Let_def bind_eq_Some_conv split: prod.splits)

lemma length_rx_params: "length rx_params = 128"
  by (simp add: rx_params_def Let_def)

text \<open>
  The ethernet test ends with a verdict for every engine that pops the receive FIFO only when it
  is offered a beat, however long the engine takes and whatever it asks of the memory: the test
  makes 657 checks and exits with 0 exactly when none failed.
\<close>

theorem enet_main_returns:
  assumes "pops_offered (E True)" "pops_offered (E False)"
  shows "\<exists>fails \<le> 657. enet_main E d = Some (657, fails, of_bool (fails \<noteq> 0))"
proof -
  have "tx_pop_period (enet_tb0 (e_eval (E True) False enet_in0 (False, [0, 0, 0, 0]) d)) \<noteq> 0" by (simp add: enet_tb0_def)
  from enet_run_returns [OF assms(1) this] obtain s where s: "enet_reset E d = Some s" "tx_pop_period s \<noteq> 0"
    by (auto simp: enet_reset_def)
  have "\<exists>x s'. all_rounds (rx_round (E False)) rx_params s = Some (x, s') \<and> length x = 5 * length rx_params \<and> tx_pop_period s' \<noteq> 0"
    by (rule all_rounds_returns [OF _ s(2)]) (use rx_round_returns [OF assms(2)] check_counts(1) in \<open>metis returns_def\<close>)
  then obtain x1 t where t: "all_rounds (rx_round (E False)) rx_params s = Some (x1, t)" "length x1 = 640" "tx_pop_period t \<noteq> 0"
    by (auto simp: length_rx_params)
  obtain x2 u where u: "rx_drop (E False) t = Some (x2, u)" "length x2 = 5" "tx_pop_period u \<noteq> 0"
    using rx_drop_returns [OF assms(2)] t(3) check_counts(2) unfolding returns_def by metis
  obtain x3 v where v: "rx_clamp (E False) u = Some (x3, v)" "length x3 = 4" "tx_pop_period v \<noteq> 0"
    using rx_clamp_returns [OF assms(2)] u(3) check_counts(3) unfolding returns_def by metis
  have "\<exists>x s'. all_rounds (tx_round (E False)) [1, 200] v = Some (x, s') \<and> length x = 4 * length [1, 200 :: int] \<and> tx_pop_period s' \<noteq> 0"
  proof (rule all_rounds_returns [OF _ v(3)])
    fix p :: int and s :: "'a enet_tb" assume "p \<in> set [1, 200]"
    then have "p \<noteq> 0" by auto
    from tx_round_returns [OF assms(2) this] show "\<exists>x s'. tx_round (E False) p s = Some (x, s') \<and> length x = 4 \<and> tx_pop_period s' \<noteq> 0"
      using check_counts(4) by blast
  qed
  then obtain x4 w where w: "all_rounds (tx_round (E False)) [1, 200] v = Some (x4, w)" "length x4 = 8" by auto
  define x where "x = x1 @ x2 @ x3 @ x4"
  have "enet_main E d = Some (exit_status x)" by (simp only: enet_main_def s t u v w Option.bind.bind_lunit prod.case option.map x_def)
  moreover have "length x = 657" using t u v w by (simp add: x_def)
  moreover have "length (filter Not x) \<le> 657" using length_filter_le [of Not x] calculation(2) by simp
  ultimately show ?thesis by (intro exI [of _ "length (filter Not x)"]) (simp add: exit_status_def Let_def)
qed

theorem enet_main_returns_witness: "\<exists>fails \<le> 657. enet_main (\<lambda>_. loop_dut) enet_in0 = Some (657, fails, of_bool (fails \<noteq> 0))"
proof -
  have "pops_offered loop_dut" by (simp add: pops_offered_def loop_dut_def)
  from enet_main_returns [of "\<lambda>_. loop_dut", OF this this] show ?thesis by blast
qed

section \<open>Transmit rounds\<close>

text \<open>What the consumer got in a passing round is what the engine wrote, from its first byte on.\<close>

lemma tx_wait_run: "tx_wait E g td s = Some s' \<Longrightarrow> \<exists>n. enet_run E (replicate n idle_arg) s = Some s'"
proof (induction g arbitrary: s)
  case (Suc g)
  then show ?case
  proof (cases "n_tx_done s = td")
    case True
    then obtain t where t: "enet_step E idle_arg s = Some t" "tx_wait E g td t = Some s'" using Suc.prems by (auto simp: bind_eq_Some_conv)
    then show ?thesis using Suc.IH [OF t(2)] by (metis Option.bind.bind_lunit enet_run.simps(2) replicate_Suc)
  qed (auto intro: exI [of _ 0])
qed (auto intro: exI [of _ 0])

lemma tx_round_beats:
  assumes "holds_beat E" "tx_round E period s = Some (oks, s')" "tx_fifo s = []" "list_all id oks"
  defines "q \<equiv> poke tx_mem (s\<lparr>tx_out := [], tx_pop_period := period\<rparr>)"
  obtains n where "enet_run E ((False, 0, 0, True, 0x1100) # replicate n idle_arg) q = Some s'"
    "take 310 (flat_beats (tx_written E ((False, 0, 0, True, 0x1100) # replicate n idle_arg) q)) = tx_want"
proof -
  obtain t u where t: "enet_step E (False, 0, 0, True, 0x1100) q = Some t" "tx_wait E 400000 (n_tx_done s) t = Some u"
    "enet_run E (replicate 4000 idle_arg) u = Some s'" "oks = tx_verdict E (n_tx_done s) s'"
    using assms(2) by (auto simp: tx_round_def q_def bind_eq_Some_conv)
  obtain n where "enet_run E (replicate n idle_arg) t = Some u" using tx_wait_run [OF t(2)] by blast
  then have r: "enet_run E ((False, 0, 0, True, 0x1100) # replicate (n + 4000) idle_arg) q = Some s'"
    using t(1,3) by (simp add: replicate_add enet_run_append)
  define wr where "wr = flat_beats (tx_written E ((False, 0, 0, True, 0x1100) # replicate (n + 4000) idle_arg) q)"
  have "tx_out s' @ flat_beats (tx_fifo s') = wr"
    using enet_run_conserved(2) [OF assms(1) r] assms(3) by (simp only: wr_def) (simp add: q_def poke_def)
  moreover have o: "310 \<le> length (tx_out s')" "\<And>k. k < 310 \<Longrightarrow> tx_out s' ! k = tx_want ! k"
    using assms(4) t(4) by (auto simp: tx_verdict_def list_all_iff)
  ultimately have "take 310 wr = take 310 (tx_out s')" by (metis append_take_drop_id take_append diff_is_0_eq take_0 append_Nil2)
  moreover have "length tx_want = 310" by (simp add: tx_want_def tx_segs_def frame_def upt_rec)
  ultimately have "take 310 wr = tx_want" using o by (intro nth_equalityI) auto
  with r show ?thesis unfolding wr_def by (rule that)
qed

section \<open>The SCSI cases\<close>

text \<open>The ramp is 0 at some offsets, though not at those of the cases.\<close>

lemma ramp_zero: "ramp 219 = 0"
  by (simp add: ramp_def)

text \<open>
  The write case passes exactly when the engine was done in time and the three beats it wrote,
  and no others, are the 48 bytes of the buffer.
\<close>

lemma scsi_case3_exact:
  assumes "scsi_case3 E s = Some (ok, s')"
  defines "m \<equiv> tb_desc 0x1000 0x4000 (48 OR BC_XIE OR BC_EOX) 0 (mem_copy (\<lambda>_. 0) 0x4000 (ramp_bytes 0 48))"
  defines "l \<equiv> scsi_log E 100000 (scsi_start 0x1000 True (s\<lparr>sport := (sport s)\<lparr>dp_mem := m\<rparr>, rd_byte := 0, wr_capture := []\<rparr>))"
  shows "ok \<longleftrightarrow> list_ex (\<lambda>(v, v', b). s_done v') l \<and> flat_beats (written_beats l) = map m [0x4000..<0x4000 + 48]"
proof -
  let ?s = "s\<lparr>sport := (sport s)\<lparr>dp_mem := m\<rparr>, rd_byte := 0, wr_capture := []\<rparr>"
  obtain fin where r: "scsi_loop E 100000 (scsi_start 0x1000 True ?s) = Some (fin, s')"
    "ok = (fin \<and> length (wr_capture s') = 48 \<and> list_all (\<lambda>k. wr_capture s' ! k = ramp (of_nat k)) [0..<min 48 (length (wr_capture s'))])"
    using assms(1) by (auto simp: scsi_case3_def scsi_case_def scsi_run_def m_def simp del: upt_rec_numeral)
  have c: "wr_capture s' = flat_beats (written_beats l)" "fin \<longleftrightarrow> list_ex (\<lambda>(v, v', b). s_done v') l"
    using scsi_loop_log(3,4) [OF r(1)] by (simp_all add: l_def scsi_start_def)
  have m: "m (0x4000 + k) = ramp (of_nat k)" if "k < 48" for k
    using that by (simp add: m_def tb_desc_def tb_put_be32_def mem_copy_def ramp_bytes_def)
  have "xs = map m [0x4000..<0x4000 + 48] \<longleftrightarrow> length xs = 48 \<and> (\<forall>k < 48. xs ! k = ramp (of_nat k))" for xs
  proof
    assume "xs = map m [0x4000..<0x4000 + 48]"
    then show "length xs = 48 \<and> (\<forall>k < 48. xs ! k = ramp (of_nat k))" by (simp add: m del: upt_rec_numeral)
  next
    assume "length xs = 48 \<and> (\<forall>k < 48. xs ! k = ramp (of_nat k))"
    then show "xs = map m [0x4000..<0x4000 + 48]" by (intro nth_equalityI) (simp_all add: m del: upt_rec_numeral)
  qed
  then show ?thesis using r(2) by (auto simp: c list_all_iff simp del: upt_rec_numeral)
qed

end
