(* ===== verification/Stage_Main.thy ===== *)
theory Stage_Main
  imports Stage_Tests Dma_Main
begin

text \<open>
  The scenarios of the SCSI staging test, \<^verbatim>\<open>main\<close> of \<^verbatim>\<open>sim/scsi_stage_test/tb_scsi_stage.cpp\<close>, on the
  port and the host side of \<^verbatim>\<open>Stage_Tests\<close>.  \<^verbatim>\<open>rand\<close> is a parameter.  So are two things C++ leaves
  open: the value of a completion entry that was never read (\<open>e0\<close>), and the bytes behind a
  vector, which cases 7 and 9 stage (\<open>junk\<close>; \<open>arm_stage_overread\<close> of \<^verbatim>\<open>Stage_Tests\<close>).
\<close>

section \<open>Guest memory\<close>

definition guest_set :: "nat \<Rightarrow> nat \<Rightarrow> u8 \<Rightarrow> cells \<Rightarrow> cells" where
  "guest_set a n v m = (\<lambda>c. case c of Mem i \<Rightarrow> if a \<le> i \<and> i < a + n then v else m c | Stg i \<Rightarrow> m c)"

definition guest_copy :: "nat \<Rightarrow> bytes \<Rightarrow> cells \<Rightarrow> cells" where
  "guest_copy a bs m = (\<lambda>c. case c of Mem i \<Rightarrow> if a \<le> i \<and> i < a + length bs then bs ! (i - a) else m c | Stg i \<Rightarrow> m c)"

definition guest_holds :: "cells \<Rightarrow> nat \<Rightarrow> bytes \<Rightarrow> bool" where
  "guest_holds m a bs \<longleftrightarrow> list_all (\<lambda>k. m (Mem (a + k)) = bs ! k) [0..<length bs]"

definition stg_holds :: "cells \<Rightarrow> nat \<Rightarrow> bytes \<Rightarrow> bool" where
  "stg_holds m a bs \<longleftrightarrow> list_all (\<lambda>k. m (Stg (a + k)) = bs ! k) [0..<length bs]"

definition GUEST :: nat where
  "GUEST = 0x40000"

section \<open>The parts of a case\<close>

definition stage_pat :: "u32 \<Rightarrow> u32 \<Rightarrow> u8" where
  "stage_pat seed k = ucast (k * 11 + seed * 29 + 3)"

definition stage_bytes :: "u32 \<Rightarrow> nat \<Rightarrow> nat \<Rightarrow> bytes" where
  "stage_bytes seed k n = map (\<lambda>i. stage_pat seed (of_nat i)) [k..<k + n]"

definition WR :: nat where
  "WR = 0xc00000"

definition sdata :: bytes where
  "sdata = stage_bytes 1 0 4096"

type_synonym 'd stage_st = "cqe_t \<times> 'd stage_tb"

definition stage_mem :: "'d stage_tb \<Rightarrow> cells" where
  "stage_mem s = sp_mem (gport s)"

definition gpoke :: "(cells \<Rightarrow> cells) \<Rightarrow> 'd stage_tb \<Rightarrow> 'd stage_tb" where
  "gpoke f s = s\<lparr>gport := (gport s)\<lparr>sp_mem := f (sp_mem (gport s))\<rparr>\<rparr>"

definition stage_steps :: "'d stage_dut \<Rightarrow> nat \<Rightarrow> 'd stage_tb \<Rightarrow> 'd stage_tb" where
  "stage_steps E n s = (stage_step E ^^ n) s"

definition wait_cq :: "'d stage_dut \<Rightarrow> 'd stage_st \<Rightarrow> bool \<times> 'd stage_st" where
  "wait_cq E es = arm_wait_cq E 300000 es"

definition cancel_step :: "'d stage_dut \<Rightarrow> 'd stage_tb \<Rightarrow> 'd stage_tb" where
  "cancel_step E s = stage_step E (s\<lparr>gin := (gin s)\<lparr>si_cancel := True\<rparr>\<rparr>)"

definition no_entry :: "'d stage_tb \<Rightarrow> bool" where
  "no_entry s \<longleftrightarrow> stage_get_le32 (stage_mem s) (STG + SIDX) = arm_cq_cons s"

definition entry_is :: "cqe_t \<Rightarrow> u32 \<Rightarrow> u32 \<Rightarrow> bool" where
  "entry_is e n fl \<longleftrightarrow> cq_bytes e = n \<and> cq_flags e AND 7 = fl"

text \<open>A READ: a new command, its bytes staged, the go, and the wait for its completion.\<close>

definition read_cmd :: "'d stage_dut \<Rightarrow> u32 \<Rightarrow> bytes \<Rightarrow> u32 \<Rightarrow> 'd stage_st \<Rightarrow> (bool \<times> 'd stage_st) option" where
  "read_cmd E nbdp src n = (\<lambda>(e, s). map_option (\<lambda>s. wait_cq E (e, go E nbdp False s)) (arm_stage E src n (new_cmd s)))"

section \<open>The directed cases\<close>

definition stage_case1 :: "'d stage_dut \<Rightarrow> 'd stage_st \<Rightarrow> (bool list \<times> 'd stage_st) option" where
  "stage_case1 E = (\<lambda>(e, s). map_option (\<lambda>(got, e, s). let m = stage_mem s in
       ([got, entry_is e 600 1 \<and> cq_flags e AND 8 = 0 \<and> cq_nbdp e = 0x1000,
         guest_holds m 0x4000 (take 200 sdata) \<and> guest_holds m 0x5008 (take 250 (drop 200 sdata)) \<and>
           guest_holds m 0x6003 (take 150 (drop 450 sdata)),
         m (Mem (0x4000 + 200)) = GUARD \<and> m (Mem 0x5007) = GUARD \<and> m (Mem (0x5008 + 250)) = GUARD \<and>
           m (Mem 0x6002) = GUARD \<and> m (Mem (0x6003 + 150)) = GUARD], (e, s)))
     (read_cmd E 0x1000 sdata 600
       (e, gpoke (\<lambda>m. chain 0x1000 [(0x4000, 200), (0x5008, 250), (0x6003, 150)] (guest_set 0 GUEST GUARD m)) s)))"

definition stage_case2 :: "'d stage_dut \<Rightarrow> 'd stage_st \<Rightarrow> (bool list \<times> 'd stage_st) option" where
  "stage_case2 E = (\<lambda>(e, s). map_option (\<lambda>(got, e, s). let s' = stage_steps E 2000 (cancel_step E s) in
       ([got, entry_is e 400 2, no_entry s', \<not> g_busy E (gd s')], (e, s')))
     (read_cmd E 0x1000 sdata 400
       (e, gpoke (\<lambda>m. chain 0x1000 [(0x4000, 200), (0x5008, 250), (0x6003, 150)] (guest_set 0 GUEST GUARD m)) s)))"

definition stage_case3 :: "'d stage_dut \<Rightarrow> 'd stage_st \<Rightarrow> (bool list \<times> 'd stage_st) option" where
  "stage_case3 E = (\<lambda>(e, s).
     Option.bind (read_cmd E 0x1000 sdata 1000 (e, gpoke (\<lambda>m. chain 0x1000 [(0x4004, 300)] (guest_set 0 GUEST GUARD m)) s)) (\<lambda>(got1, e1, s).
     map_option (\<lambda>(got2, e, s).
       ([got1 \<and> entry_is e1 300 1, got2 \<and> entry_is e 700 1 \<and> cq_nbdp e = 0x1100,
         guest_holds (stage_mem s) 0x4004 (take 300 sdata) \<and> guest_holds (stage_mem s) 0x7001 (take 700 (drop 300 sdata))], (e, s)))
     (read_cmd E 0x1100 (drop 300 sdata) 700 (e1, gpoke (chain 0x1100 [(0x7001, 700)]) s))))"

definition stage_case4 :: "'d stage_dut \<Rightarrow> 'd stage_st \<Rightarrow> (bool list \<times> 'd stage_st) option" where
  "stage_case4 E = (\<lambda>(e, s).
     let s = stage_steps E 3000 (cmd_go E 0x1000 False (gpoke (\<lambda>m. chain 0x1000 [(0x4000, 333)] (guest_set 0 GUEST GUARD m)) s))
     in map_option (\<lambda>s'. let (got, e, t) = wait_cq E (e, s') in
          ([no_entry s, got \<and> entry_is e 333 1, guest_holds (stage_mem t) 0x4000 (take 333 (drop 7 sdata))], (e, t)))
        (arm_stage E (drop 7 sdata) 333 s))"

definition stage_case5 :: "'d stage_dut \<Rightarrow> 'd stage_st \<Rightarrow> bool list \<times> 'd stage_st" where
  "stage_case5 E = (\<lambda>(e, s).
     let s = gpoke (\<lambda>m. chain 0x1000 [(0x4002, 100), (0x5009, 400), (0x6000, 200)]
           (stg_copy WR (replicate 4096 0) (guest_copy 0x6000 (stage_bytes 5 500 200) (guest_copy 0x5009 (stage_bytes 5 100 400)
             (guest_copy 0x4002 (stage_bytes 5 0 100) m))))) s;
         (got, e, s) = wait_cq E (e, cmd_go E 0x1000 True s)
     in ([got \<and> entry_is e 700 1 \<and> cq_flags e AND 8 \<noteq> 0, stg_holds (stage_mem s) WR (stage_bytes 5 0 700)], (e, s)))"

definition stage_case6 :: "'d stage_dut \<Rightarrow> 'd stage_st \<Rightarrow> bool list \<times> 'd stage_st" where
  "stage_case6 E = (\<lambda>(e, s).
     let s = cancel_step E (stage_steps E 500 (cmd_go E 0x1000 False (gpoke (chain 0x1000 [(0x4000, 64)]) s)));
         (got, e, s) = wait_cq E (e, s)
     in ([got \<and> entry_is e 0 4], (e, s)))"

text \<open>Case 7: the bytes of the frame and 64 more are staged.\<close>

definition stage_case7 :: "(nat \<Rightarrow> bytes) \<Rightarrow> 'd stage_dut \<Rightarrow> nat \<Rightarrow> 'd stage_st \<Rightarrow> (bool list \<times> 'd stage_st) option" where
  "stage_case7 junk E r = (\<lambda>(e, s).
     let n = 17 + 97 * r; bp = 0x4000 + r mod 16; f = stage_bytes (100 + of_nat r) 0 n
     in map_option (\<lambda>(got, e, s). ([got \<and> entry_is e (of_nat n) 1 \<and> guest_holds (stage_mem s) bp f], (e, s)))
        (read_cmd E 0x1000 (f @ junk r) (of_nat (n + 64))
          (e, gpoke (\<lambda>m. chain 0x1000 [(of_nat bp, of_nat n)] (guest_set 0x4000 0x2000 GUARD m)) s)))"

text \<open>Case 8: the next go right after the engine is done; it has an entry variable of its own.\<close>

fun until_done :: "'d stage_dut \<Rightarrow> nat \<Rightarrow> 'd stage_tb \<Rightarrow> 'd stage_tb" where
  "until_done E 0 s = s"
| "until_done E (Suc g) s = (if g_done E (gd s) then s else until_done E g (stage_step E s))"

definition stage_case8 :: "cqe_t \<Rightarrow> 'd stage_dut \<Rightarrow> nat \<Rightarrow> 'd stage_st \<Rightarrow> (bool list \<times> 'd stage_st) option" where
  "stage_case8 e0 E r = (\<lambda>(e, s).
     let n1 = 40 + 16 * r; n2 = 300 + 7 * r;
         f1 = stage_bytes (200 + of_nat r) 0 (n1 + 96); f2 = stage_bytes (300 + of_nat r) 0 n2;
         s = gpoke (\<lambda>m. chain 0x1100 [(0x6005, of_nat n2)] (chain 0x1000 [(0x4000, of_nat n1)] (guest_set 0x4000 0x4000 GUARD m))) s
     in map_option (\<lambda>s.
          let s = new_cmd (until_done E 100000 (go E 0x1000 False s));
              s = go E 0x1100 False (stage_fill f2 (of_nat n2) s);
              (got, e2, s) = wait_cq E (e0, s\<lparr>gin := (gin s)\<lparr>si_rd_seq := cur_seq s\<rparr>\<rparr>)
          in ([got \<and> cq_bytes e2 = of_nat n2 \<and> cq_nbdp e2 = 0x1100, guest_holds (stage_mem s) 0x6005 f2], (e, s)))
        (arm_stage E f1 (of_nat (length f1)) (new_cmd s)))"

section \<open>Random chains\<close>

type_synonym 'r rand = "'r \<Rightarrow> nat \<times> 'r"

fun draw_segs :: "'r rand \<Rightarrow> nat list \<Rightarrow> 'r \<Rightarrow> (nat \<times> nat) list \<times> 'r" where
  "draw_segs rand [] g = ([], g)"
| "draw_segs rand (i # is) g =
     (let (a, g) = rand g; (b, g) = rand g; (segs, g) = draw_segs rand is g
      in ((0x8000 + 0x3000 * i + a mod 16, 1 + b mod 2500) # segs, g))"

definition chain_of :: "(nat \<times> nat) list \<Rightarrow> (u32 \<times> u32) list" where
  "chain_of segs = map (\<lambda>(bp, cnt). (of_nat bp, of_nat cnt)) segs"

text \<open>The bytes of a WRITE put into its buffers, one after the other.\<close>

fun scatter :: "(nat \<times> nat) list \<Rightarrow> bytes \<Rightarrow> cells \<Rightarrow> cells" where
  "scatter [] f m = m"
| "scatter ((bp, cnt) # segs) f m = scatter segs (drop cnt f) (guest_copy bp (take cnt f) m)"

text \<open>The scan of the windows around the buffers.\<close>

fun windows_ok :: "bool \<Rightarrow> (nat \<times> nat) list \<Rightarrow> bytes \<Rightarrow> nat \<Rightarrow> cells \<Rightarrow> bool" where
  "windows_ok wr [] f k m = True"
| "windows_ok wr ((bp, cnt) # segs) f k m \<longleftrightarrow>
     (let base = bp div 0x1000 * 0x1000
      in list_all (\<lambda>a. if bp \<le> a \<and> a < bp + cnt then wr \<or> m (Mem a) = f ! (k + (a - bp)) else m (Mem a) = GUARD) [base..<base + 0x3000])
     \<and> windows_ok wr segs f (k + cnt) m"

definition pad16 :: "nat \<Rightarrow> nat" where
  "pad16 n = (n + 15) div 16 * 16"

definition write_ok :: "bytes \<Rightarrow> cells \<Rightarrow> bool" where
  "write_ok f m \<longleftrightarrow> stg_holds m WR f \<and> list_all (\<lambda>j. m (Stg (WR + j)) = 0) [length f..<pad16 (length f)]"

definition chain_verdict :: "bool \<Rightarrow> (nat \<times> nat) list \<Rightarrow> bytes \<Rightarrow> bool \<times> 'd stage_st \<Rightarrow> bool" where
  "chain_verdict wr segs f = (\<lambda>(got, e, s).
     (got \<and> entry_is e (of_nat (length f)) 1 \<and> cq_nbdp e = 0x1000) \<and> windows_ok wr segs f 0 (stage_mem s) \<and> (wr \<longrightarrow> write_ok f (stage_mem s)))"

definition seg_total :: "(nat \<times> nat) list \<Rightarrow> nat" where
  "seg_total segs = sum_list (map snd segs)"

text \<open>The chain and, for a WRITE, its bytes and the cleared staging area, as the command finds them.\<close>

definition chain_setup :: "bool \<Rightarrow> (nat \<times> nat) list \<Rightarrow> bytes \<Rightarrow> cells \<Rightarrow> cells" where
  "chain_setup wr segs f m =
     (let m = chain 0x1000 (chain_of segs) (guest_set 0x8000 (4 * 0x3000) GUARD m)
      in if wr then stg_copy WR (replicate (pad16 (length f) + 32) 0x5a) (scatter segs f m) else m)"

definition chain_round :: "(nat \<Rightarrow> bytes) \<Rightarrow> 'd stage_dut \<Rightarrow> bool \<Rightarrow> (nat \<times> nat) list \<Rightarrow> nat \<Rightarrow> nat \<Rightarrow> 'd stage_st \<Rightarrow> (bool \<times> 'd stage_st) option" where
  "chain_round junk E wr segs over r = (\<lambda>(e, s).
     let f = stage_bytes (500 + of_nat r) 0 (seg_total segs); s = gpoke (chain_setup wr segs f) s
     in map_option (\<lambda>res. (chain_verdict wr segs f res, snd res))
        (if wr then Some (wait_cq E (e, go E 0x1000 True (new_cmd s)))
         else read_cmd E 0x1000 (f @ junk r) (of_nat (length f + over * 16)) (e, s)))"

definition random_round :: "(nat \<Rightarrow> bytes) \<Rightarrow> 'r rand \<Rightarrow> 'd stage_dut \<Rightarrow> nat \<Rightarrow> 'd stage_st \<times> 'r \<Rightarrow> (bool list \<times> 'd stage_st \<times> 'r) option" where
  "random_round junk rand E r = (\<lambda>(es, g).
     let (a, g) = rand g; (b, g) = rand g; wr = (b mod 2 \<noteq> 0);
         (segs, g) = draw_segs rand [0..<1 + a mod 4] g;
         (over, g) = (if wr then (0, g) else let (c, g) = rand g in (c mod 3, g))
     in map_option (\<lambda>(ok, es). ([ok], es, g)) (chain_round junk E wr segs over r es))"

section \<open>The test\<close>

definition stage_reset :: "(bool \<Rightarrow> 'd stage_dut) \<Rightarrow> 'd \<Rightarrow> 'd stage_tb" where
  "stage_reset E d =
     (let i = \<lparr>si_go = False, si_cancel = False, si_nbdp = 0, si_to_device = False, si_req_seq = 0, si_rd_beats = 0, si_rd_seq = 0, si_cq_cons = 0\<rparr>;
          p = \<lparr>sp_mem = (\<lambda>_. 0), sp_reply = -1, sp_resp_cyc = -100, sp_addr = 0, sp_op = 0, sp_mask = 0, sp_sd = [0, 0, 0, 0],
               sp_rsp_valid = False, sp_rsp_data = [0, 0, 0, 0]\<rparr>
      in stage_steps (E True) 4 \<lparr>gd = g_eval (E True) False i (False, [0, 0, 0, 0]) d, gin = i, gport = p, gcyc = 0,
           cur_seq = 0, arm_cq_cons = 0, n_skipped = 0\<rparr>)"

text \<open>Parts in sequence, their checks one after the other.\<close>

definition then_do :: "('s \<Rightarrow> (bool list \<times> 's) option) \<Rightarrow> ('s \<Rightarrow> (bool list \<times> 's) option) \<Rightarrow> 's \<Rightarrow> (bool list \<times> 's) option" where
  "then_do f g s = Option.bind (f s) (\<lambda>(oks, s). map_option (\<lambda>(oks', s). (oks @ oks', s)) (g s))"

definition stage_directed :: "(nat \<Rightarrow> bytes) \<Rightarrow> cqe_t \<Rightarrow> 'd stage_dut \<Rightarrow> 'd stage_st \<Rightarrow> (bool list \<times> 'd stage_st) option" where
  "stage_directed junk e0 E =
     then_do (stage_case1 E) (then_do (stage_case2 E) (then_do (stage_case3 E) (then_do (stage_case4 E)
       (then_do (Some \<circ> stage_case5 E) (then_do (Some \<circ> stage_case6 E)
         (then_do (all_rounds (stage_case7 junk E) [0..<20]) (all_rounds (stage_case8 e0 E) [0..<16])))))))"

definition stage_main :: "(nat \<Rightarrow> bytes) \<Rightarrow> (nat \<Rightarrow> bytes) \<Rightarrow> cqe_t \<Rightarrow> 'r rand \<Rightarrow> (bool \<Rightarrow> 'd stage_dut) \<Rightarrow> 'd \<Rightarrow> 'r \<Rightarrow> (nat \<times> nat \<times> nat) option" where
  "stage_main junk7 junk9 e0 rand E d g =
     Option.bind (stage_directed junk7 e0 (E False) (e0, stage_reset E d)) (\<lambda>(oks, es).
       map_option (\<lambda>(oks9, esg). exit_status (oks @ [list_all id oks9]))
         (all_rounds (random_round junk9 rand (E False)) [0..<300] (es, g)))"

section \<open>Buffers in their windows\<close>

text \<open>The segments of a random chain: one per window of \<^verbatim>\<open>0x3000\<close> bytes, near its beginning.\<close>

definition window :: "nat \<Rightarrow> nat" where
  "window i = 0x8000 + 0x3000 * i"

fun laid :: "nat \<Rightarrow> (nat \<times> nat) list \<Rightarrow> bool" where
  "laid i [] = True"
| "laid i ((bp, cnt) # segs) \<longleftrightarrow> window i \<le> bp \<and> bp < window i + 16 \<and> 1 \<le> cnt \<and> cnt \<le> 2500 \<and> laid (Suc i) segs"

definition buffers :: "(nat \<times> nat) list \<Rightarrow> nat set" where
  "buffers segs = (\<Union>(bp, cnt) \<in> set segs. {bp..<bp + cnt})"

lemma window_Suc: "window (Suc i) = window i + 0x3000"
  by (simp add: window_def)

lemma window_base: "window i \<le> bp \<Longrightarrow> bp < window i + 16 \<Longrightarrow> bp div 0x1000 * 0x1000 = window i"
proof -
  assume h: "window i \<le> bp" "bp < window i + 16"
  then have "bp div 0x1000 = 8 + 3 * i" by (intro div_nat_eqI) (auto simp: window_def)
  then show ?thesis by (simp add: window_def)
qed

lemma draw_segs_laid:
  "draw_segs rand [i..<j] g = (segs, g') \<Longrightarrow> laid i segs \<and> length segs = j - i"
proof (induction "j - i" arbitrary: i g segs g')
  case (Suc d)
  then have u: "[i..<j] = i # [Suc i..<j]" "d = j - Suc i" by (simp_all add: upt_rec)
  obtain a g1 b g2 segs1 where r: "rand g = (a, g1)" "rand g1 = (b, g2)" "draw_segs rand [Suc i..<j] g2 = (segs1, g')"
      "segs = (0x8000 + 0x3000 * i + a mod 16, 1 + b mod 2500) # segs1"
    using Suc.prems unfolding u by (auto simp: case_prod_unfold Let_def prod_eq_iff)
  have "b mod 2500 < 2500" by simp
  then have "1 + b mod 2500 \<le> 2500" by linarith
  then show ?case using Suc.hyps(1) [OF u(2) r(3)] Suc.hyps(2) r(4) by (simp add: window_def)
qed simp

lemma scatter_below: "laid i segs \<Longrightarrow> a < window i \<Longrightarrow> scatter segs f m (Mem a) = m (Mem a)"
  by (induction i segs arbitrary: f m rule: laid.induct) (auto simp: guest_copy_def window_Suc)

lemma scatter_stg: "scatter segs f m (Stg j) = m (Stg j)"
  by (induction segs f m rule: scatter.induct) (simp_all add: guest_copy_def)

lemma buffers_Cons: "a \<in> buffers ((bp, cnt) # segs) \<longleftrightarrow> bp \<le> a \<and> a < bp + cnt \<or> a \<in> buffers segs"
  by (auto simp: buffers_def)

lemma buffers_above: "laid i segs \<Longrightarrow> a \<in> buffers segs \<Longrightarrow> window i \<le> a"
  by (induction i segs rule: laid.induct) (auto simp: buffers_Cons window_Suc, simp add: buffers_def)

text \<open>The scan compares every byte of the windows with the bytes scattered over guards, but for the buffers of a WRITE.\<close>

lemma windows_ok_scatter:
  assumes "laid i segs" "length f = k + seg_total segs" "\<And>a. window i \<le> a \<Longrightarrow> a < window (i + length segs) \<Longrightarrow> M (Mem a) = GUARD"
  shows "windows_ok wr segs f k m \<longleftrightarrow>
    (\<forall>a \<in> {window i..<window (i + length segs)}. wr \<and> a \<in> buffers segs \<or> m (Mem a) = scatter segs (drop k f) M (Mem a))"
  using assms
proof (induction i segs arbitrary: k M rule: laid.induct)
  case (2 i bp cnt segs)
  let ?M = "guest_copy bp (take cnt (drop k f)) M"
  have l: "window i \<le> bp" "bp < window i + 16" "cnt \<le> 2500" "laid (Suc i) segs" using "2.prems"(1) by simp_all
  have len: "length (take cnt (drop k f)) = cnt" using "2.prems"(2) by (simp add: seg_total_def)
  have g: "?M (Mem a) = GUARD" if "window (Suc i) \<le> a" "a < window (Suc i + length segs)" for a
    using that l "2.prems"(3) [of a] by (auto simp: guest_copy_def len window_Suc)
  have ih: "windows_ok wr segs f (k + cnt) m \<longleftrightarrow> (\<forall>a \<in> {window (Suc i)..<window (Suc i + length segs)}.
      wr \<and> a \<in> buffers segs \<or> m (Mem a) = scatter segs (drop cnt (drop k f)) ?M (Mem a))"
    using "2.IH" [OF l(4), of "k + cnt" ?M] "2.prems"(2) g by (simp add: seg_total_def add.commute)
  have w: "window i \<le> window (Suc i)" "window (Suc i) \<le> window (Suc i + length segs)" by (simp_all add: window_def)
  have head: "(if bp \<le> a \<and> a < bp + cnt then wr \<or> m (Mem a) = f ! (k + (a - bp)) else m (Mem a) = GUARD) \<longleftrightarrow>
      wr \<and> a \<in> buffers ((bp, cnt) # segs) \<or> m (Mem a) = scatter segs (drop cnt (drop k f)) ?M (Mem a)"
    if "window i \<le> a" "a < window (Suc i)" for a
    using that "2.prems"(3) [of a] w "2.prems"(2) buffers_above [OF l(4), of a]
    by (auto simp: scatter_below [OF l(4)] guest_copy_def len buffers_Cons seg_total_def)
  have tail: "a \<in> buffers ((bp, cnt) # segs) \<longleftrightarrow> a \<in> buffers segs" if "window (Suc i) \<le> a" for a
    using that l by (auto simp: buffers_Cons window_Suc)
  have split: "{window i..<window (i + length ((bp, cnt) # segs))} = {window i..<window (Suc i)} \<union> {window (Suc i)..<window (Suc i + length segs)}"
    using w by (simp add: ivl_disj_un_two(3))
  have "windows_ok wr ((bp, cnt) # segs) f k m \<longleftrightarrow>
      (\<forall>a \<in> {window i..<window (Suc i)}. if bp \<le> a \<and> a < bp + cnt then wr \<or> m (Mem a) = f ! (k + (a - bp)) else m (Mem a) = GUARD) \<and>
      windows_ok wr segs f (k + cnt) m"
    by (simp add: window_base [OF l(1,2)] list_all_iff window_Suc Let_def)
  then show ?case unfolding split ball_Un ih using head tail by simp
qed simp

text \<open>The bytes of the staging area after a WRITE, with the padding of the last beat.\<close>

lemma write_ok_bytes: "write_ok f m \<longleftrightarrow> (\<forall>j < pad16 (length f). m (Stg (WR + j)) = (f @ replicate 15 0) ! j)"
proof -
  have p: "length f \<le> pad16 (length f)" "pad16 (length f) \<le> length f + 15" unfolding pad16_def by presburger+
  show ?thesis
  proof
    assume w: "write_ok f m"
    show "\<forall>j < pad16 (length f). m (Stg (WR + j)) = (f @ replicate 15 0) ! j"
      using w p by (auto simp: write_ok_def stg_holds_def list_all_iff nth_append)
  next
    assume a: "\<forall>j < pad16 (length f). m (Stg (WR + j)) = (f @ replicate 15 0) ! j"
    then have "m (Stg (WR + j)) = (f @ replicate 15 0) ! j" if "j < pad16 (length f)" for j using that by blast
    then show "write_ok f m" using p by (auto simp: write_ok_def stg_holds_def list_all_iff nth_append)
  qed
qed

section \<open>What a random chain tests\<close>

text \<open>The bytes a chain describes, read from the memory in the order of its segments.\<close>

fun gather :: "(u32 \<times> u32) list \<Rightarrow> cells \<Rightarrow> bytes" where
  "gather [] m = []"
| "gather ((bp, cnt) # segs) m = map (\<lambda>k. m (Mem (unat bp + k))) [0..<unat cnt] @ gather segs m"

lemma gather_cong:
  "(\<And>a. window i \<le> a \<Longrightarrow> m (Mem a) = m' (Mem a)) \<Longrightarrow> laid i segs \<Longrightarrow> window (i + length segs) \<le> 2 ^ 31 \<Longrightarrow>
     gather (chain_of segs) m = gather (chain_of segs) m'"
proof (induction i segs rule: laid.induct)
  case (2 i bp cnt segs)
  then have "bp < 2 ^ 32" "cnt < 2 ^ 32" by (auto simp: window_def)
  then have u: "unat (of_nat bp :: u32) = bp" "unat (of_nat cnt :: u32) = cnt" by (simp_all add: unat_of_nat)
  show ?case using 2 by (auto simp: chain_of_def u window_Suc)
qed (simp add: chain_of_def)

lemma gather_scatter:
  "laid i segs \<Longrightarrow> length f = seg_total segs \<Longrightarrow> window (i + length segs) \<le> 2 ^ 31 \<Longrightarrow> gather (chain_of segs) (scatter segs f m) = f"
proof (induction i segs arbitrary: f m rule: laid.induct)
  case (2 i bp cnt segs)
  then have "bp < 2 ^ 32" "cnt < 2 ^ 32" by (auto simp: window_def)
  then have u: "unat (of_nat bp :: u32) = bp" "unat (of_nat cnt :: u32) = cnt" by (simp_all add: unat_of_nat)
  have l: "window i \<le> bp" "bp < window i + 16" "cnt \<le> 2500" "laid (Suc i) segs" using "2.prems"(1) by simp_all
  have len: "cnt \<le> length f" using "2.prems"(2) by (simp add: seg_total_def)
  have "scatter segs (drop cnt f) (guest_copy bp (take cnt f) m) (Mem (bp + k)) = f ! k" if "k < cnt" for k
    using that l len by (subst scatter_below [OF l(4)]) (auto simp: window_Suc guest_copy_def)
  then have "map (\<lambda>k. scatter segs (drop cnt f) (guest_copy bp (take cnt f) m) (Mem (bp + k))) [0..<cnt] = take cnt f"
    using len by (intro nth_equalityI) auto
  moreover have "gather (chain_of segs) (scatter segs (drop cnt f) (guest_copy bp (take cnt f) m)) = drop cnt f"
    using "2.IH" [OF l(4)] "2.prems"(2,3) by (simp add: seg_total_def)
  ultimately show ?case by (simp add: chain_of_def u)
qed (simp add: chain_of_def seg_total_def)

text \<open>Setting up the buffers and the staging area leaves the chain alone.\<close>

lemma put_be_agree: "m c = m' c \<Longrightarrow> put_be p v m c = put_be p v m' c"
  by (simp add: put_be_def)

lemma chain_from_agree: "m c = m' c \<Longrightarrow> chain_from base i segs m c = chain_from base i segs m' c"
proof (induction segs arbitrary: i m m')
  case (Cons x segs)
  obtain bp cnt where x: "x = (bp, cnt)" by (cases x)
  show ?case unfolding x chain_from.simps Let_def stage_put_be32_def
    by (rule Cons.IH) (intro put_be_agree Cons.prems)
qed simp

lemma scatter_agree: "m c = m' c \<Longrightarrow> scatter segs f m c = scatter segs f m' c"
proof (induction segs arbitrary: f m m')
  case (Cons x segs)
  obtain bp cnt where x: "x = (bp, cnt)" by (cases x)
  show ?case unfolding x scatter.simps
    by (rule Cons.IH) (use Cons.prems in \<open>auto simp: guest_copy_def split: cell.split\<close>)
qed simp

lemma chain_over:
  assumes "\<And>y. y < 0x8000 \<Longrightarrow> m' (Mem y) = chain 0x1000 cs m (Mem y)" "length cs \<le> 4"
  shows "m' = chain 0x1000 cs (\<lambda>c. case c of Mem y \<Rightarrow> if y < 0x8000 then m c else m' c | Stg y \<Rightarrow> m' c)" (is "_ = chain _ _ ?m")
proof
  fix c
  have l: "unat (0x1000 :: u32) + 16 * (0 + length cs) \<le> 262144" using assms(2) by simp
  show "m' c = chain 0x1000 cs ?m c"
  proof (cases c)
    case (Mem y)
    show ?thesis
    proof (cases "y < 0x8000")
      case True
      then have "chain_from 0x1000 0 cs ?m c = chain_from 0x1000 0 cs m c" using Mem by (intro chain_from_agree) simp
      then show ?thesis using assms(1) [OF True] Mem by (simp add: chain_def)
    next
      case False
      then have "chain_from 0x1000 0 cs ?m (Mem y) = ?m (Mem y)" using assms(2) by (intro chain_from_far [OF l]) simp
      then show ?thesis using False Mem by (simp add: chain_def)
    qed
  next
    case (Stg y)
    then show ?thesis using chain_from_stg [OF l, of ?m y] by (simp add: chain_def)
  qed
qed

lemma laid_counts: "laid i segs \<Longrightarrow> list_all (\<lambda>(bp, cnt). \<not> bit cnt 31) (chain_of segs)"
proof (induction i segs rule: laid.induct)
  case (2 i bp cnt segs)
  then have "\<not> bit cnt 31" by (simp add: bit_iff_odd)
  then have "\<not> bit (of_nat cnt :: u32) 31" by (simp only: bit_of_nat_iff simp_thms)
  then show ?case using 2 by (simp add: chain_of_def)
qed (simp add: chain_of_def)

lemma chain_setup_walk:
  assumes "laid 0 segs" "segs \<noteq> []" "length segs \<le> 4"
  shows "desc_walk (length segs) (chain_setup wr segs f m) 0x1000 = chain_of segs"
proof -
  let ?c = "chain 0x1000 (chain_of segs) (guest_set 0x8000 (4 * 0x3000) GUARD m)"
  have "chain_setup wr segs f m (Mem y) = ?c (Mem y)" if "y < 0x8000" for y
    using scatter_below [OF assms(1), of y f ?c] that by (auto simp: chain_setup_def Let_def window_def)
  from chain_over [OF this] assms(3) obtain m' where m': "chain_setup wr segs f m = chain 0x1000 (chain_of segs) m'"
    by (metis (no_types, lifting) chain_of_def length_map)
  note laid_counts [OF assms(1)]
  then show ?thesis
    using chain_from_walk [of "chain_of segs" "0x1000" 0 m'] assms(2,3) by (simp add: m' chain_def chain_of_def)
qed

text \<open>
  C35.  A random chain is judged by what the chain in memory describes: the walk from \<^verbatim>\<open>0x1000\<close> reads
  the drawn segments; for a WRITE the bytes they describe are the test's bytes.  The round passes
  exactly when the command completed with all its bytes, no flag but success, and its own
  chain; every byte of the windows around the buffers is the guard or the scattered byte (on a
  WRITE the buffers themselves are not looked at); and on a WRITE the staging area holds the
  gathered bytes, padded with zeros to whole beats.
\<close>

theorem random_chain_exact:
  assumes "draw_segs rand [0..<n] g = (segs, g')" "0 < n" "n \<le> 4" "length f = seg_total segs"
  shows "desc_walk n (chain_setup wr segs f m) 0x1000 = chain_of segs \<and>
    gather (chain_of segs) (chain_setup True segs f m) = f \<and>
    (chain_verdict wr segs f (got, e, s) \<longleftrightarrow> got \<and> cq_bytes e = of_nat (length f) \<and> cq_flags e AND 7 = 1 \<and> cq_nbdp e = 0x1000 \<and>
       (\<forall>a \<in> {0x8000..<0x8000 + 0x3000 * n}. wr \<and> a \<in> buffers segs \<or>
          stage_mem s (Mem a) = scatter segs f (guest_set 0x8000 (0x3000 * n) GUARD m) (Mem a)) \<and>
       (wr \<longrightarrow> (\<forall>j < pad16 (length f). stage_mem s (Stg (WR + j)) = (f @ replicate 15 0) ! j)))"
proof -
  have l: "laid 0 segs" "length segs = n" using draw_segs_laid [OF assms(1)] by simp_all
  have "segs \<noteq> []" "length segs \<le> 4" using l(2) assms(2,3) by auto
  then have w: "desc_walk n (chain_setup wr segs f m) 0x1000 = chain_of segs" using chain_setup_walk [OF l(1)] l(2) by blast
  let ?c = "chain 0x1000 (chain_of segs) (guest_set 0x8000 (4 * 0x3000) GUARD m)"
  have "gather (chain_of segs) (chain_setup True segs f m) = gather (chain_of segs) (scatter segs f ?c)"
    by (rule gather_cong [OF _ l(1)]) (use l(2) assms(3) in \<open>simp_all add: chain_setup_def Let_def window_def\<close>)
  also have "\<dots> = f" using gather_scatter [OF l(1) assms(4), of ?c] l(2) assms(3) by (simp add: window_def)
  finally have f: "gather (chain_of segs) (chain_setup True segs f m) = f" .
  have "windows_ok wr segs f 0 (stage_mem s) \<longleftrightarrow> (\<forall>a \<in> {window 0..<window (0 + length segs)}. wr \<and> a \<in> buffers segs \<or>
      stage_mem s (Mem a) = scatter segs (drop 0 f) (guest_set 0x8000 (0x3000 * n) GUARD m) (Mem a))"
    by (rule windows_ok_scatter [OF l(1)]) (use assms(4) l(2) in \<open>auto simp: guest_set_def window_def\<close>)
  then have "windows_ok wr segs f 0 (stage_mem s) \<longleftrightarrow> (\<forall>a \<in> {0x8000..<0x8000 + 0x3000 * n}. wr \<and> a \<in> buffers segs \<or>
      stage_mem s (Mem a) = scatter segs f (guest_set 0x8000 (0x3000 * n) GUARD m) (Mem a))" by (simp add: window_def l(2))
  then show ?thesis using w f by (auto simp: chain_verdict_def entry_is_def write_ok_bytes)
qed

text \<open>All zeros from \<^verbatim>\<open>rand\<close>: a one-byte buffer at the beginning of the first window.\<close>

theorem random_chain_exact_witness:
  "desc_walk 1 (chain_setup True [(0x8000, 1)] [7] (\<lambda>_. 0)) 0x1000 = [(0x8000, 1)] \<and>
   gather [(0x8000, 1)] (chain_setup True [(0x8000, 1)] [7] (\<lambda>_. 0)) = [7] \<and>
   chain_verdict False [(0x8000, 1)] [7] (True, \<lparr>cq_bytes = 1, cq_nbdp = 0x1000, cq_flags = 1, cq_seq = 1\<rparr>,
     cq_sample\<lparr>gport := (gport cq_sample)\<lparr>sp_mem := guest_copy 0x8000 [7] (\<lambda>_. GUARD)\<rparr>\<rparr>)"
proof -
  have d: "draw_segs (\<lambda>g :: unit. (0, g)) [0..<1] () = ([(0x8000, 1)], ())" by simp
  have c: "chain_of [(0x8000, 1)] = [(0x8000, 1)]" by (simp add: chain_of_def)
  have l: "length [7 :: u8] = seg_total [(0x8000, 1)]" by (simp add: seg_total_def)
  have "scatter [(0x8000, 1)] [7] (guest_set 0x8000 (0x3000 * 1) GUARD (\<lambda>_. 0)) (Mem a) = guest_copy 0x8000 [7] (\<lambda>_. GUARD) (Mem a)"
    if "a \<in> {0x8000..<0x8000 + 0x3000 * 1}" for a using that by (auto simp: guest_copy_def guest_set_def)
  note e = this and r = random_chain_exact [OF d _ _ l, unfolded c]
  show ?thesis
    using r [of True "\<lambda>_. 0"] r [of False "\<lambda>_. 0" True "\<lparr>cq_bytes = 1, cq_nbdp = 0x1000, cq_flags = 1, cq_seq = 1\<rparr>"
        "cq_sample\<lparr>gport := (gport cq_sample)\<lparr>sp_mem := guest_copy 0x8000 [7] (\<lambda>_. GUARD)\<rparr>\<rparr>"] e
    by (auto simp: stage_mem_def)
qed

section \<open>The test returns\<close>

text \<open>A part of the test that returns from every state, with a number of checks.\<close>

definition gives :: "nat \<Rightarrow> ('s \<Rightarrow> (bool list \<times> 's) option) \<Rightarrow> bool" where
  "gives n f \<longleftrightarrow> (\<forall>s. \<exists>x s'. f s = Some (x, s') \<and> length x = n)"

lemma gives_then:
  assumes "gives m f" "gives n g"
  shows "gives (m + n) (then_do f g)"
  unfolding gives_def
proof
  fix s
  obtain x t where t: "f s = Some (x, t)" "length x = m" using assms(1) unfolding gives_def by blast
  obtain y u where "g t = Some (y, u)" "length y = n" using assms(2) unfolding gives_def by blast
  then show "\<exists>x s'. then_do f g s = Some (x, s') \<and> length x = m + n" using t by (simp add: then_do_def)
qed

lemma gives_rounds: "(\<And>p. p \<in> set ps \<Longrightarrow> gives k (f p)) \<Longrightarrow> gives (k * length ps) (all_rounds f ps)"
proof (induction ps)
  case (Cons p ps)
  have "gives (k + k * length ps) (then_do (f p) (all_rounds f ps))" by (rule gives_then) (use Cons in simp_all)
  then show ?case by (simp add: then_do_def gives_def)
qed (simp add: gives_def)

lemma gives_Some: "(\<And>s. length (fst (f s)) = n) \<Longrightarrow> gives n (Some \<circ> f)"
  by (auto simp: gives_def) (metis fst_conv surj_pair)

lemma u32_of_nat: "x < 4294967296 \<Longrightarrow> unat (of_nat x :: u32) = x"
  by (simp add: unat_of_nat)

lemma arm_stage_Some:
  assumes "unat n \<le> length src" "unat n \<le> 0x10000"
  shows "\<exists>t. arm_stage E src n s = Some t"
proof -
  have "unat (n + 15) = unat n + 15" using assms(2) unat_plus_small [of n 15] by simp
  moreover have "unat ((n + 15) AND NOT 15) \<le> unat (n + 15)" by (simp only: word_and_le2 flip: word_le_nat_alt)
  ultimately have "RD + unat ((n + 15) AND NOT 15) \<le> 0x1000000" using assms(2) by (simp add: RD_def)
  then show ?thesis using assms by (simp add: arm_stage_def Let_def RD_def)
qed

lemma read_cmd_Some:
  assumes "unat n \<le> length src" "unat n \<le> 0x10000"
  shows "\<exists>got e t. read_cmd E nbdp src n es = Some (got, e, t)"
proof -
  obtain t where "arm_stage E src n (new_cmd (snd es)) = Some t" using arm_stage_Some [OF assms] by blast
  then show ?thesis by (cases es; cases "wait_cq E (fst es, go E nbdp False t)") (simp add: read_cmd_def)
qed

lemma length_sdata: "length sdata = 4096"
  by (simp add: sdata_def stage_bytes_def)

lemma directed_give:
  "gives 4 (stage_case1 E)" "gives 4 (stage_case2 E)" "gives 3 (stage_case3 E)" "gives 3 (stage_case4 E)"
proof -
  have rc: "\<exists>got e t. read_cmd E nbdp (drop k sdata) n es = Some (got, e, t)" if "unat n + k \<le> 4096" for nbdp k n es
    using that by (intro read_cmd_Some) (simp_all add: length_sdata)
  note rc = rc [of 600 0, simplified] rc [of 400 0, simplified] rc [of 1000 0, simplified] rc [of 700 300, simplified]
  show "gives 4 (stage_case1 E)" unfolding gives_def
  proof
    fix es :: "'a stage_st"
    obtain e s where es: "es = (e, s)" by (cases es)
    obtain r where "read_cmd E 0x1000 sdata 600
        (e, gpoke (\<lambda>m. chain 0x1000 [(0x4000, 200), (0x5008, 250), (0x6003, 150)] (guest_set 0 GUEST GUARD m)) s) = Some r"
      using rc(1) by blast
    then show "\<exists>x s'. stage_case1 E es = Some (x, s') \<and> length x = 4" unfolding es stage_case1_def prod.case by (cases r) (simp add: Let_def)
  qed
  show "gives 4 (stage_case2 E)" unfolding gives_def
  proof
    fix es :: "'a stage_st"
    obtain e s where es: "es = (e, s)" by (cases es)
    obtain r where "read_cmd E 0x1000 sdata 400
        (e, gpoke (\<lambda>m. chain 0x1000 [(0x4000, 200), (0x5008, 250), (0x6003, 150)] (guest_set 0 GUEST GUARD m)) s) = Some r"
      using rc(2) by blast
    then show "\<exists>x s'. stage_case2 E es = Some (x, s') \<and> length x = 4" unfolding es stage_case2_def prod.case by (cases r) (simp add: Let_def)
  qed
  show "gives 3 (stage_case3 E)" unfolding gives_def
  proof
    fix es :: "'a stage_st"
    obtain e s where es: "es = (e, s)" by (cases es)
    obtain got e1 t where a: "read_cmd E 0x1000 sdata 1000 (e, gpoke (\<lambda>m. chain 0x1000 [(0x4004, 300)] (guest_set 0 GUEST GUARD m)) s) = Some (got, e1, t)"
      using rc(3) by blast
    obtain r where b: "read_cmd E 0x1100 (drop 300 sdata) 700 (e1, gpoke (chain 0x1100 [(0x7001, 700)]) t) = Some r"
      using rc(4) by blast
    then show "\<exists>x s'. stage_case3 E es = Some (x, s') \<and> length x = 3"
      unfolding es stage_case3_def prod.case a Option.bind.bind_lunit b by (cases r) (simp add: Let_def)
  qed
  show "gives 3 (stage_case4 E)" unfolding gives_def
  proof
    fix es :: "'a stage_st"
    obtain e s where es: "es = (e, s)" by (cases es)
    obtain t where t: "arm_stage E (drop 7 sdata) 333 (stage_steps E 3000 (cmd_go E 0x1000 False
        (gpoke (\<lambda>m. chain 0x1000 [(0x4000, 333)] (guest_set 0 GUEST GUARD m)) s))) = Some t"
      using arm_stage_Some [of 333 "drop 7 sdata"] length_sdata by fastforce
    then show "\<exists>x s'. stage_case4 E es = Some (x, s') \<and> length x = 3"
      unfolding es stage_case4_def prod.case Let_def t by (cases "wait_cq E (e, t)") simp
  qed
qed

lemma short_give: "gives 2 (Some \<circ> stage_case5 E)" "gives 1 (Some \<circ> stage_case6 E)"
  by (auto intro!: gives_Some simp: stage_case5_def stage_case6_def Let_def case_prod_unfold)

lemma stage_case7_gives:
  assumes "64 \<le> length (junk r)" "r < 20"
  shows "gives 1 (stage_case7 junk E r)"
  unfolding gives_def
proof
  fix es :: "'a stage_st"
  obtain e s where es: "es = (e, s)" by (cases es)
  let ?n = "17 + 97 * r" let ?f = "stage_bytes (100 + of_nat r) 0 ?n"
  have "unat (of_nat (?n + 64) :: u32) = ?n + 64" by (rule u32_of_nat) (use assms(2) in simp)
  then have u: "unat (of_nat (?n + 64) :: u32) \<le> length (?f @ junk r)" "unat (of_nat (?n + 64) :: u32) \<le> 0x10000"
    using assms by (simp_all add: stage_bytes_def)
  obtain res where res: "read_cmd E 0x1000 (?f @ junk r) (of_nat (?n + 64))
      (e, gpoke (\<lambda>m. chain 0x1000 [(of_nat (0x4000 + r mod 16), of_nat ?n)] (guest_set 0x4000 0x2000 GUARD m)) s) = Some res"
    using read_cmd_Some [OF u] by blast
  show "\<exists>x s'. stage_case7 junk E r es = Some (x, s') \<and> length x = 1"
    unfolding es stage_case7_def Let_def prod.case res by (simp add: case_prod_unfold)
qed

lemma stage_case8_gives:
  assumes "r < 16"
  shows "gives 2 (stage_case8 e0 E r)"
  unfolding gives_def
proof
  fix es :: "'a stage_st"
  obtain e s where es: "es = (e, s)" by (cases es)
  let ?f = "stage_bytes (200 + of_nat r) 0 (40 + 16 * r + 96)"
  have l: "length ?f = 40 + 16 * r + 96" by (simp add: stage_bytes_def)
  have "unat (of_nat (40 + 16 * r + 96) :: u32) = 40 + 16 * r + 96" by (rule u32_of_nat) (use assms in simp)
  then have u: "unat (of_nat (length ?f) :: u32) \<le> length ?f" "unat (of_nat (length ?f) :: u32) \<le> 0x10000"
    unfolding l using assms by simp_all
  obtain t where t: "arm_stage E ?f (of_nat (length ?f)) (new_cmd (gpoke (\<lambda>m. chain 0x1100 [(0x6005, of_nat (300 + 7 * r))]
      (chain 0x1000 [(0x4000, of_nat (40 + 16 * r))] (guest_set 0x4000 0x4000 GUARD m))) s)) = Some t"
    using arm_stage_Some [OF u] by blast
  show "\<exists>x s'. stage_case8 e0 E r es = Some (x, s') \<and> length x = 2"
    unfolding es stage_case8_def Let_def prod.case t by (simp add: case_prod_unfold)
qed

lemma laid_total: "laid i segs \<Longrightarrow> seg_total segs \<le> 2500 * length segs"
  by (induction i segs rule: laid.induct) (auto simp: seg_total_def)

lemma random_round_gives:
  assumes "32 \<le> length (junk r)"
  shows "gives 1 (random_round junk rand E r)"
  unfolding gives_def
proof
  fix x :: "'a stage_st \<times> 'b"
  obtain e s g where x: "x = ((e, s), g)" by (metis prod.exhaust)
  obtain a g1 b g2 segs g3 where d: "rand g = (a, g1)" "rand g1 = (b, g2)" "draw_segs rand [0..<1 + a mod 4] g2 = (segs, g3)"
    by (metis prod.exhaust)
  obtain over g4 where o: "(if b mod 2 \<noteq> 0 then (0, g3) else let (c, g) = rand g3 in (c mod 3, g)) = (over, g4)" by (metis prod.exhaust)
  have ov: "over \<le> 2" using o by (auto simp: Let_def split: if_splits prod.splits)
  let ?f = "stage_bytes (500 + of_nat r) 0 (seg_total segs)"
  have "length segs \<le> 4" "laid 0 segs" using draw_segs_laid [OF d(3)] by auto
  then have t: "seg_total segs \<le> 10000" using laid_total [of 0 segs] by simp
  have l: "length ?f = seg_total segs" by (simp add: stage_bytes_def)
  have "unat (of_nat (length ?f + over * 16) :: u32) = length ?f + over * 16" by (rule u32_of_nat) (use t ov in \<open>simp add: l\<close>)
  then have u: "unat (of_nat (length ?f + over * 16) :: u32) \<le> length (?f @ junk r)" "unat (of_nat (length ?f + over * 16) :: u32) \<le> 0x10000"
    using assms t ov by (simp_all add: l)
  have "\<exists>ok es. chain_round junk E (b mod 2 \<noteq> 0) segs over r (e, s) = Some (ok, es)"
  proof (cases "b mod 2 \<noteq> 0")
    case True
    then show ?thesis by (cases "wait_cq E (e, go E 0x1000 True (new_cmd (gpoke (chain_setup True segs ?f) s)))") (simp add: chain_round_def Let_def)
  next
    case False
    then show ?thesis
      using read_cmd_Some [OF u, of E "0x1000" "(e, gpoke (chain_setup False segs ?f) s)"] by (simp add: chain_round_def Let_def) blast
  qed
  then obtain ok es where c: "chain_round junk E (b mod 2 \<noteq> 0) segs over r (e, s) = Some (ok, es)" by blast
  have "random_round junk rand E r x = Some ([ok], es, g4)"
    by (simp only: x random_round_def prod.case Let_def d o [unfolded Let_def] c option.map)
  then show "\<exists>y s'. random_round junk rand E r x = Some (y, s') \<and> length y = 1" by simp
qed

text \<open>
  The staging test ends with a verdict for every engine, if the bytes behind its vectors can be
  read: whatever the engine asks of the memory and however long it takes, the test makes 70
  checks and exits with 0 exactly when none failed.
\<close>

lemma stage_main_returns:
  assumes "\<And>r. 64 \<le> length (junk7 r)" "\<And>r. 32 \<le> length (junk9 r)"
  shows "\<exists>fails \<le> 70. stage_main junk7 junk9 e0 rand E d g = Some (70, fails, of_bool (fails \<noteq> 0))"
proof -
  have c7: "gives (1 * length [0..<20 :: nat]) (all_rounds (stage_case7 junk7 (E False)) [0..<20])"
    by (rule gives_rounds) (rule stage_case7_gives [OF assms(1)], simp)
  have c8: "gives (2 * length [0..<16 :: nat]) (all_rounds (stage_case8 e0 (E False)) [0..<16])"
    by (rule gives_rounds) (rule stage_case8_gives, simp)
  note parts = gives_then [OF directed_give(1) gives_then [OF directed_give(2) gives_then [OF directed_give(3) gives_then [OF directed_give(4)
    gives_then [OF short_give(1) gives_then [OF short_give(2) gives_then [OF c7 c8]]]]]]]
  obtain x s where s: "stage_directed junk7 e0 (E False) (e0, stage_reset E d) = Some (x, s)" "length x = 69"
    using parts [of "E False" "E False" "E False" "E False" "E False" "E False"] unfolding gives_def stage_directed_def
    by (simp del: upt_rec_numeral) blast
  have "gives (1 * length [0..<300 :: nat]) (all_rounds (random_round junk9 rand (E False)) [0..<300])"
    by (rule gives_rounds) (rule random_round_gives [OF assms(2)])
  then obtain y z where y: "all_rounds (random_round junk9 rand (E False)) [0..<300] (s, g) = Some (y, z)" unfolding gives_def by blast
  define v where "v = x @ [list_all id y]"
  have "stage_main junk7 junk9 e0 rand E d g = Some (exit_status v)"
    unfolding stage_main_def s(1) Option.bind.bind_lunit prod.case y v_def by (simp only: option.map prod.case)
  moreover have "length v = 70" using s(2) by (simp add: v_def)
  moreover have "length (filter Not v) \<le> 70" using length_filter_le [of Not v] calculation(2) by simp
  ultimately show ?thesis by (intro exI [of _ "length (filter Not v)"]) (simp add: exit_status_def Let_def)
qed

end
