(* ===== verification/Ring_Main.thy ===== *)
theory Ring_Main
  imports Stage_Main
begin

text \<open>
  The scenarios of the ethernet ring test, \<^verbatim>\<open>main\<close> of \<^verbatim>\<open>sim/enet_dma_test/tb_enet_ring_dma.cpp\<close>, on the
  port, the probes and the frame submission of \<^verbatim>\<open>Stage_Tests\<close>.  The byte pattern, the guard byte
  and the flags are those of the other ethernet test (\<^verbatim>\<open>Dma_Main\<close>); \<^verbatim>\<open>rand\<close> is a parameter.  Reading
  a probe map at a missing key gives 0, as \<^verbatim>\<open>std::map\<close> does; the key it inserts is never looked at again.
\<close>

section \<open>The parts of a scenario\<close>

definition BC_EOXP :: u32 where
  "BC_EOXP = 0x40000000"

definition IDX :: u32 where
  "IDX = 0x40"

definition TXCQ :: nat where
  "TXCQ = 0x1000"

definition TXS :: nat where
  "TXS = 0x100000"

definition rmem :: "'d ring_tb \<Rightarrow> cells" where
  "rmem s = sp_mem (rport s)"

definition rpoke :: "(cells \<Rightarrow> cells) \<Rightarrow> 'd ring_tb \<Rightarrow> 'd ring_tb" where
  "rpoke f s = s\<lparr>rport := (rport s)\<lparr>sp_mem := f (sp_mem (rport s))\<rparr>\<rparr>"

definition ring_steps :: "'d ring_dut \<Rightarrow> nat \<Rightarrow> 'd ring_tb \<Rightarrow> 'd ring_tb" where
  "ring_steps E n s = (ring_step E ^^ n) s"

definition ring_desc :: "u32 \<Rightarrow> u32 \<Rightarrow> u32 \<Rightarrow> u32 \<Rightarrow> cells \<Rightarrow> cells" where
  "ring_desc a bp bc dp m = ring_put_be32 (a + 8) dp (ring_put_be32 (a + 4) bc (ring_put_be32 a bp m))"

definition rx_at :: "u32 \<Rightarrow> 'd ring_tb \<Rightarrow> 'd ring_tb" where
  "rx_at nbdp s = s\<lparr>rin := (rin s)\<lparr>ri_rx_nbdp := nbdp\<rparr>\<rparr>"

definition tx_start :: "u32 \<Rightarrow> 'd ring_tb \<Rightarrow> 'd ring_tb" where
  "tx_start nbdp s = s\<lparr>rin := (rin s)\<lparr>ri_tx_nbdp := nbdp, ri_tx_go := True\<rparr>\<rparr>"

definition set_cons :: "u32 \<Rightarrow> 'd ring_tb \<Rightarrow> 'd ring_tb" where
  "set_cons c s = s\<lparr>rin := (rin s)\<lparr>ri_tx_cons := c\<rparr>\<rparr>"

definition idx_word :: "'d ring_tb \<Rightarrow> u32 \<Rightarrow> u32" where
  "idx_word s k = ring_get_le32 (rmem s) (STG + IDX + k)"

definition guest_intact :: "cells \<Rightarrow> nat \<Rightarrow> nat \<Rightarrow> bool" where
  "guest_intact m a b \<longleftrightarrow> list_all (\<lambda>x. m (Mem x) = GUARD) [a..<b]"

section \<open>Receive\<close>

definition ring_rx_verdict :: "'d ring_dut \<Rightarrow> nat \<Rightarrow> bytes \<Rightarrow> bool \<Rightarrow> 'd ring_tb \<Rightarrow> bool list" where
  "ring_rx_verdict E bp f got s =
     (let m = rmem s; bc = ring_get_be32 m 0x1004
      in [got, guest_holds m bp f, guest_intact m 0x3f00 bp \<and> guest_intact m (bp + length f) (bp + BUFSZ + 64),
          bc AND BC_ROWN = 0 \<and> bc AND 0x3fff = of_nat BUFSZ - of_nat (length f), drop_bit 16 bc = 0x2100,
          idx_word s 4 = arm_rx_prod s, ro_rx_crbdp (r_out E (rdut s)) = 0x1000])"

definition ring_rx_round :: "'d ring_dut \<Rightarrow> u32 \<times> nat \<times> nat \<Rightarrow> 'd ring_tb \<Rightarrow> (bool list \<times> 'd ring_tb) option" where
  "ring_rx_round E = (\<lambda>(seed, off, len) s.
     let bp = 0x4000 + off; f = frame seed len;
         s = rx_at 0x1000 (rpoke (\<lambda>m. ring_desc 0x1000 (of_nat bp) (BC_ROWN OR 0x20000000 OR 0x01000000 OR of_nat BUFSZ) 0x1010
               (guest_set 0 GUEST GUARD m)) s)
     in map_option (\<lambda>t. let (got, t) = wait_for E r_rx_done (r_rx_done s) 400000 t; t = ring_steps E 20 t
          in (ring_rx_verdict E bp f got t, t)) (arm_rx_submit f s))"

definition ring_rx_params :: "(u32 \<times> nat \<times> nat) list" where
  "ring_rx_params = (let ps = List.product [0..<16] [3, 15, 16, 17, 61, 310, 1517]
     in zip (map of_nat [1..<1 + length ps]) ps)"

definition ring_rx_drop :: "'d ring_dut \<Rightarrow> 'd ring_tb \<Rightarrow> (bool list \<times> 'd ring_tb) option" where
  "ring_rx_drop E s =
     (let s = rx_at 0x1000 (rpoke (\<lambda>m. ring_desc 0x1000 0x4008 (of_nat BUFSZ) 0x1010 (guest_set 0 GUEST GUARD m)) s)
      in map_option (\<lambda>t. let (got, t) = wait_for E r_rx_drop (r_rx_drop s) 400000 t
           in ([got, guest_intact (rmem t) 0x4000 0x4100, idx_word t 8 = 1, idx_word t 4 = arm_rx_prod t], t))
         (arm_rx_submit (frame 901 100) s))"

section \<open>Transmit\<close>

definition td :: "(nat \<times> nat \<times> u32) list" where
  "td = [(0x6002, 100, 0), (0x7008, 150, BC_EOXP), (0x8000, 60, BC_EOXP), (0x9005, 333, BC_EOXP OR BC_EOX)]"

definition td_bytes :: "nat \<Rightarrow> bytes" where
  "td_bytes i = frame (950 + of_nat i) (fst (snd (td ! i)))"

definition td_setup :: "cells \<Rightarrow> cells" where
  "td_setup m = fold (\<lambda>i m. let (bp, cnt, fl) = td ! i; a = 0x1100 + 16 * of_nat i
     in guest_copy bp (td_bytes i) (ring_desc a (of_nat bp) (of_nat cnt OR fl) (a + 16) m)) [0..<4] m"

definition td_want :: "bytes list" where
  "td_want = [td_bytes 0 @ td_bytes 1, td_bytes 2, td_bytes 3]"

definition td_again :: "cells \<Rightarrow> cells" where
  "td_again m = fold (\<lambda>i. ring_put_be32 (0x1104 + 16 * of_nat i) (of_nat (fst (snd (td ! i))) OR snd (snd (td ! i)))) [0..<4] m"

text \<open>The loop in which the guest edits byte 4 of the first descriptor once the engine has read it.\<close>

fun tx_flip :: "'d ring_dut \<Rightarrow> nat \<Rightarrow> int \<Rightarrow> bool \<times> 'd ring_tb \<Rightarrow> bool \<times> 'd ring_tb" where
  "tx_flip E 0 td0 fs = fs"
| "tx_flip E (Suc g) td0 (flipped, s) =
     (if r_tx_done s = td0 then
        (let s = ring_step E s
         in if \<not> flipped \<and> watch_hits s > 0
            then tx_flip E g td0 (True, rpoke (\<lambda>m. m(Mem 0x1104 := m (Mem 0x1104) XOR 1)) s)
            else tx_flip E g td0 (flipped, s))
      else (flipped, s))"

definition slot_ok :: "cells \<Rightarrow> u32 \<Rightarrow> nat \<Rightarrow> bytes \<Rightarrow> bool \<times> bool" where
  "slot_ok m bits slot f = (ring_get_le32 m (STG + of_nat (TXCQ + 16 * slot)) AND bits = of_nat (length f), stg_holds m (TXS + slot * 2048) f)"

definition head_last :: "'d ring_tb \<Rightarrow> bool" where
  "head_last s = (case g_etxd_store s 0x1100 of None \<Rightarrow> False
     | Some c \<Rightarrow> c > (case g_last_load s 0x1110 of None \<Rightarrow> 0 | Some l \<Rightarrow> l))"

definition tx_chain_verdict :: "'d ring_dut \<Rightarrow> bool \<Rightarrow> 'd ring_tb \<Rightarrow> bool list" where
  "tx_chain_verdict E flipped s =
     (let m = rmem s
      in [idx_word s 0 = 3] @
         concat (map (\<lambda>p. let (l, b) = slot_ok m 0xffff p (td_want ! p) in [l, b]) [0..<3]) @
         map (\<lambda>i. ring_get_be32 m (0x1104 + 16 * of_nat i) AND BC_ETXD \<noteq> 0) [0..<4] @
         [m (Mem 0x1104) AND 1 = 1 \<and> flipped, ring_get_be32 m 0x1134 AND BC_EOX \<noteq> 0, ro_tx_crbdp (r_out E (rdut s)) = 0x1140,
          head_last s, g_crbdp_seen s 0x1110 = 0])"

definition tx_chain :: "'d ring_dut \<Rightarrow> 'd ring_tb \<Rightarrow> bool list \<times> 'd ring_tb" where
  "tx_chain E s =
     (let s = tx_start 0x1100 ((set_cons 0 (rpoke (\<lambda>_. td_setup (\<lambda>_. 0)) s))\<lparr>g_last_load := (\<lambda>_. None), g_etxd_store := (\<lambda>_. None),
            g_crbdp_seen := (\<lambda>_. 0), watch_addr := 0x1100, watch_hits := 0\<rparr>);
          (flipped, t) = tx_flip E 400000 (r_tx_done s) (False, s);
          u = ring_steps E 20 t
      in ((r_tx_done t \<noteq> r_tx_done s) # tx_chain_verdict E flipped u, u))"

definition tx_pressure :: "'d ring_dut \<Rightarrow> 'd ring_tb \<Rightarrow> bool list \<times> 'd ring_tb" where
  "tx_pressure E s =
     (let s = tx_start 0x1100 (set_cons (3 + 1 - 256) (rpoke (\<lambda>m. td_again (stg_copy 0 (replicate (TXCQ + 4096) 0) m)) s));
          t = ring_steps E 20000 s;
          (got, u) = wait_for E r_tx_done (r_tx_done s) 400000 (set_cons 4 t);
          v = ring_steps E 20 u
      in ([r_tx_done t = r_tx_done s \<and> idx_word t 0 = 4, got, idx_word v 0 = 6], v))"

fun both_wait :: "'d ring_dut \<Rightarrow> nat \<Rightarrow> int \<Rightarrow> int \<Rightarrow> 'd ring_tb \<Rightarrow> 'd ring_tb" where
  "both_wait E 0 rd0 td0 s = s"
| "both_wait E (Suc g) rd0 td0 s = (if r_rx_done s = rd0 \<or> r_tx_done s = td0 then both_wait E g rd0 td0 (ring_step E s) else s)"

definition rx_and_tx :: "'d ring_dut \<Rightarrow> 'd ring_tb \<Rightarrow> (bool list \<times> 'd ring_tb) option" where
  "rx_and_tx E s =
     (let s = set_cons 6 (rx_at 0x1000 (rpoke (\<lambda>m. td_again (ring_desc 0x1000 0x4004 (BC_ROWN OR of_nat BUFSZ) 0x1010 (guest_set 0x4000 0x1000 GUARD m))) s));
          f = frame 990 777
      in map_option (\<lambda>t. let t = both_wait E 400000 (r_rx_done s) (r_tx_done s) (tx_start 0x1100 t); u = ring_steps E 20 t
           in ([r_rx_done t \<noteq> r_rx_done s \<and> r_tx_done t \<noteq> r_tx_done s, guest_holds (rmem t) 0x4004 f, idx_word u 0 = 9], u))
         (arm_rx_submit f s))"

definition tx_oversize :: "'d ring_dut \<Rightarrow> 'd ring_tb \<Rightarrow> bool list \<times> 'd ring_tb" where
  "tx_oversize E s =
     (let s = tx_start 0x1200 (set_cons 9 (rpoke (\<lambda>m. ring_desc 0x1200 0x20000 (2100 OR BC_EOXP OR BC_EOX) 0x1210
            (guest_copy 0x20000 (frame 77 2100) m)) s));
          (got, t) = wait_for E r_tx_done (r_tx_done s) 400000 s;
          u = ring_steps E 20 t; m = rmem u; e9 = ring_get_le32 m (STG + of_nat (TXCQ + 16 * 9))
      in ([got, e9 AND 0xffff = 2100 \<and> e9 AND 0x10000 \<noteq> 0, stg_holds m (TXS + 9 * 2048) (frame 77 2048), m (Stg (TXS + 10 * 2048)) = 0], u))"

section \<open>Random chains\<close>

text \<open>The descriptors of a packet, and the packets of a chain; \<open>j\<close> counts the descriptors of the chain.\<close>

fun draw_pkt :: "'r rand \<Rightarrow> nat \<Rightarrow> nat list \<Rightarrow> nat \<Rightarrow> 'r \<Rightarrow> (nat \<times> bytes) list \<times> 'r" where
  "draw_pkt rand seed [] j g = ([], g)"
| "draw_pkt rand seed (i # is) j g =
     (let (a, g) = rand g; (b, g) = rand g; (ds, g) = draw_pkt rand seed is (Suc j) g
      in ((0x10000 + 0x800 * j + a mod 16, frame (of_nat (seed + i)) (1 + b mod 480)) # ds, g))"

fun draw_pkts :: "'r rand \<Rightarrow> nat \<Rightarrow> nat list \<Rightarrow> nat \<Rightarrow> 'r \<Rightarrow> (nat \<times> bytes) list list \<times> 'r" where
  "draw_pkts rand r [] j g = ([], g)"
| "draw_pkts rand r (p # ps) j g =
     (let (c, g) = rand g; nd = 1 + c mod 4;
          (ds, g) = draw_pkt rand (3000 + r * 16 + p * 4) [0..<nd] j g;
          (pks, g) = draw_pkts rand r ps (j + nd) g
      in (ds # pks, g))"

fun put_pkt :: "bool \<Rightarrow> (nat \<times> bytes) list \<Rightarrow> nat \<Rightarrow> cells \<Rightarrow> cells" where
  "put_pkt last_p [] a m = m"
| "put_pkt last_p ((bp, f) # ds) a m =
     put_pkt last_p ds (a + 16) (ring_desc (of_nat a) (of_nat bp)
       (of_nat (length f) OR (if ds = [] then BC_EOXP else 0) OR (if ds = [] \<and> last_p then BC_EOX else 0)) (of_nat (a + 16)) (guest_copy bp f m))"

fun put_pkts :: "(nat \<times> bytes) list list \<Rightarrow> nat \<Rightarrow> cells \<Rightarrow> cells" where
  "put_pkts [] a m = m"
| "put_pkts (pk # pks) a m = put_pkts pks (a + 16 * length pk) (put_pkt (pks = []) pk a m)"

definition pkt_bytes :: "(nat \<times> bytes) list \<Rightarrow> bytes" where
  "pkt_bytes pk = concat (map snd pk)"

definition chain_len :: "(nat \<times> bytes) list list \<Rightarrow> nat" where
  "chain_len pks = length (concat pks)"

definition tx_random_verdict :: "'d ring_dut \<Rightarrow> u32 \<Rightarrow> (nat \<times> bytes) list list \<Rightarrow> bool \<Rightarrow> 'd ring_tb \<Rightarrow> bool" where
  "tx_random_verdict E pr pks got s \<longleftrightarrow>
     (let m = rmem s
      in got \<and> idx_word s 0 = pr + of_nat (length pks) \<and>
         list_all (\<lambda>p. let (l, b) = slot_ok m 0x1ffff (unat ((pr + of_nat p) AND 255)) (pkt_bytes (pks ! p)) in l \<and> b) [0..<length pks] \<and>
         list_all (\<lambda>i. ring_get_be32 m (0x1404 + 16 * of_nat i) AND BC_ETXD \<noteq> 0) [0..<chain_len pks] \<and>
         ro_tx_crbdp (r_out E (rdut s)) = of_nat (0x1400 + 16 * chain_len pks))"

definition tx_random_setup :: "(nat \<times> bytes) list list \<Rightarrow> cells \<Rightarrow> cells" where
  "tx_random_setup pks m = put_pkts pks 0x1400 (guest_set 0x10000 0x30000 0 m)"

definition tx_random :: "'r rand \<Rightarrow> 'd ring_dut \<Rightarrow> nat \<Rightarrow> 'd ring_tb \<times> u32 \<times> 'r \<Rightarrow> (bool list \<times> 'd ring_tb \<times> u32 \<times> 'r) option" where
  "tx_random rand E r = (\<lambda>(s, pr, g).
     let (a, g) = rand g;
         (pks, g) = draw_pkts rand r [0..<1 + a mod 3] 0 g;
         s = tx_start 0x1400 (set_cons pr (rpoke (tx_random_setup pks) s));
         (got, t) = wait_for E r_tx_done (r_tx_done s) 400000 s;
         u = ring_steps E 20 t
     in Some ([tx_random_verdict E pr pks got u], u, pr + of_nat (length pks), g))"

section \<open>The test\<close>

definition ring_reset :: "(bool \<Rightarrow> 'd ring_dut) \<Rightarrow> 'd \<Rightarrow> 'd ring_tb" where
  "ring_reset E d =
     (let s = ring_tb0 d
      in ring_steps (E True) 4 (s\<lparr>rdut := r_eval (E True) False (rin s) (False, [0, 0, 0, 0]) d\<rparr>))"

definition ring_directed :: "'d ring_dut \<Rightarrow> 'd ring_tb \<Rightarrow> (bool list \<times> 'd ring_tb) option" where
  "ring_directed E s =
     then_do (all_rounds (ring_rx_round E) ring_rx_params) (then_do (ring_rx_drop E) (then_do (Some \<circ> tx_chain E)
       (then_do (Some \<circ> tx_pressure E) (then_do (rx_and_tx E) (Some \<circ> tx_oversize E)))))
     (s\<lparr>rin := (rin s)\<lparr>ri_rx_armed := True\<rparr>\<rparr>)"

definition ring_main :: "'r rand \<Rightarrow> (bool \<Rightarrow> 'd ring_dut) \<Rightarrow> 'd \<Rightarrow> 'r \<Rightarrow> (nat \<times> nat \<times> nat) option" where
  "ring_main rand E d g =
     Option.bind (ring_directed (E False) (ring_reset E d)) (\<lambda>(oks, s).
       map_option (\<lambda>(oks', _). exit_status (oks @ [list_all id oks']))
         (all_rounds (tx_random rand (E False)) [0..<200] (s, idx_word s 0, g)))"

section \<open>The packets of a chain\<close>

text \<open>
  A walk as the engine does it: the bytes of the descriptors are collected up to one that ends a
  packet, and the chain ends at the end flag.
\<close>

definition guest_bytes :: "cells \<Rightarrow> nat \<Rightarrow> nat \<Rightarrow> bytes" where
  "guest_bytes m a n = map (\<lambda>k. m (Mem (a + k))) [0..<n]"

fun tx_walk :: "nat \<Rightarrow> cells \<Rightarrow> u32 \<Rightarrow> bytes \<Rightarrow> bytes list" where
  "tx_walk 0 m a acc = []"
| "tx_walk (Suc n) m a acc =
     (let bc = ring_get_be32 m (a + 4); acc = acc @ guest_bytes m (unat (ring_get_be32 m a)) (unat (bc AND 0x3fff)); nx = ring_get_be32 m (a + 8)
      in if bc AND BC_EOXP = 0 then tx_walk n m nx acc
         else acc # (if bc AND BC_EOX = 0 then tx_walk n m nx [] else []))"

text \<open>The descriptors of a chain in one row, each with its flags.\<close>

fun flat_pkt :: "bool \<Rightarrow> (nat \<times> bytes) list \<Rightarrow> (nat \<times> bytes \<times> u32) list" where
  "flat_pkt last_p [] = []"
| "flat_pkt last_p ((bp, f) # ds) =
     (bp, f, (if ds = [] then BC_EOXP else 0) OR (if ds = [] \<and> last_p then BC_EOX else 0)) # flat_pkt last_p ds"

fun flat_pkts :: "(nat \<times> bytes) list list \<Rightarrow> (nat \<times> bytes \<times> u32) list" where
  "flat_pkts [] = []"
| "flat_pkts (pk # pks) = flat_pkt (pks = []) pk @ flat_pkts pks"

fun put_flat :: "(nat \<times> bytes \<times> u32) list \<Rightarrow> nat \<Rightarrow> cells \<Rightarrow> cells" where
  "put_flat [] a m = m"
| "put_flat ((bp, f, fl) # ds) a m =
     put_flat ds (a + 16) (put_desc a (of_nat bp) (of_nat (length f) OR fl) (of_nat (a + 16)) (guest_copy bp f m))"

fun split_flat :: "(nat \<times> bytes \<times> u32) list \<Rightarrow> bytes \<Rightarrow> bytes list" where
  "split_flat [] acc = []"
| "split_flat ((bp, f, fl) # ds) acc =
     (if fl = 0 then split_flat ds (acc @ f) else (acc @ f) # (if fl = BC_EOXP then split_flat ds [] else []))"

text \<open>Each descriptor has a buffer near the beginning of its own 2 KB.\<close>

definition slab :: "nat \<Rightarrow> nat" where
  "slab j = 0x10000 + 0x800 * j"

fun laid_tx :: "nat \<Rightarrow> (nat \<times> bytes \<times> u32) list \<Rightarrow> bool" where
  "laid_tx j [] = True"
| "laid_tx j ((bp, f, fl) # ds) \<longleftrightarrow> slab j \<le> bp \<and> bp < slab j + 16 \<and> length f \<le> 480 \<and>
     fl \<in> {0, BC_EOXP, BC_EOXP OR BC_EOX} \<and> laid_tx (Suc j) ds"

lemma ring_at_mem: "x < 262144 \<Longrightarrow> ring_at (of_nat x) = Mem x"
proof -
  assume x: "x < 262144"
  then have "unat (of_nat x :: u32) = x" by (simp add: unat_of_nat)
  moreover from this have "\<not> STG \<le> of_nat x" using x by (simp add: word_le_nat_alt STG_def)
  ultimately show ?thesis using x by (simp add: ring_at_eq)
qed

lemma ring_words:
  assumes "x + 16 \<le> 262144"
  shows "ring_desc (of_nat x) bp bc nx m = put_desc x bp bc nx m"
    "ring_get_be32 m (of_nat x) = get_be m (Mem x)" "ring_get_be32 m (of_nat x + 4) = get_be m (Mem (x + 4))"
    "ring_get_be32 m (of_nat x + 8) = get_be m (Mem (x + 8))"
proof -
  have r: "ring_at (of_nat x) = Mem x" "ring_at (of_nat x + 4) = Mem (x + 4)" "ring_at (of_nat x + 8) = Mem (x + 8)"
    using ring_at_mem [of x] ring_at_mem [of "x + 4"] ring_at_mem [of "x + 8"] assms by simp_all
  show "ring_desc (of_nat x) bp bc nx m = put_desc x bp bc nx m"
    "ring_get_be32 m (of_nat x) = get_be m (Mem x)" "ring_get_be32 m (of_nat x + 4) = get_be m (Mem (x + 4))"
    "ring_get_be32 m (of_nat x + 8) = get_be m (Mem (x + 8))"
    by (simp_all add: ring_desc_def put_desc_def ring_put_be32_def ring_get_be32_def r)
qed

lemma put_flat_keeps:
  "laid_tx j ds \<Longrightarrow> y < a \<or> 0x2000 \<le> y \<Longrightarrow> y < slab j \<Longrightarrow> a + 16 * length ds \<le> 0x2000 \<Longrightarrow> put_flat ds a m (Mem y) = m (Mem y)"
proof (induction j ds arbitrary: a m rule: laid_tx.induct)
  case (2 j bp f fl ds)
  let ?m = "put_desc a (of_nat bp) (of_nat (length f) OR fl) (of_nat (a + 16)) (guest_copy bp f m)"
  have "y < slab (Suc j)" using "2.prems"(3) by (simp add: slab_def)
  then have "put_flat ((bp, f, fl) # ds) a m (Mem y) = ?m (Mem y)"
    using "2.IH" [of "a + 16" ?m] "2.prems" by auto
  also have "\<dots> = m (Mem y)" using "2.prems" by (subst put_desc_far) (auto simp: guest_copy_def)
  finally show ?case .
qed simp

lemma flag_bits:
  assumes "l \<le> 480" "fl \<in> {0, BC_EOXP, BC_EOXP OR BC_EOX}"
  defines "w \<equiv> of_nat l OR fl"
  shows "w AND 0x3fff = (of_nat l :: u32)" "w AND BC_EOXP = 0 \<longleftrightarrow> fl = 0" "w AND BC_EOX = 0 \<longleftrightarrow> fl \<noteq> BC_EOXP OR BC_EOX"
proof -
  have n: "\<not> bit (of_nat l :: u32) k" if "9 \<le> k" for k
  proof -
    have "(2 :: nat) ^ 9 \<le> 2 ^ k" using that by (intro power_increasing) simp_all
    then have "\<not> bit l k" using assms(1) by (simp add: bit_iff_odd)
    then show ?thesis by (simp only: bit_of_nat_iff simp_thms)
  qed
  have x: "bit BC_EOX k \<longleftrightarrow> k = 31" for k
  proof -
    have b: "BC_EOX = push_bit 31 1" by (simp add: BC_EOX_def push_bit_eq_mult)
    show ?thesis unfolding b by (simp only: bit_push_bit_iff bit_1_iff) auto
  qed
  have p: "bit BC_EOXP k \<longleftrightarrow> k = 30" for k
  proof -
    have b: "BC_EOXP = push_bit 30 1" by (simp add: BC_EOXP_def push_bit_eq_mult)
    show ?thesis unfolding b by (simp only: bit_push_bit_iff bit_1_iff) auto
  qed
  define q where "q = (0x3fff :: u32)"
  have m: "bit q k \<longleftrightarrow> k < 14" for k
  proof -
    have b: "q = mask 14" by (simp add: q_def mask_eq_exp_minus_1)
    show ?thesis unfolding b by (simp only: bit_mask_iff) auto
  qed
  have n': "k < 14" if "bit (of_nat l :: u32) k" for k using n [of k] that by linarith
  have d: "BC_EOXP \<noteq> 0" "BC_EOX \<noteq> 0" "BC_EOXP OR BC_EOX \<noteq> 0" "BC_EOXP OR BC_EOX \<noteq> BC_EOXP" by (simp_all add: BC_EOXP_def BC_EOX_def)
  note b = bit_and_iff bit_or_iff m x p
  have e: "(of_nat l OR fl) AND BC_EOXP = (if fl = 0 then 0 else BC_EOXP) \<and>
      (of_nat l OR fl) AND BC_EOX = (if fl = BC_EOXP OR BC_EOX then BC_EOX else 0) \<and> (of_nat l OR fl) AND q = (of_nat l :: u32)"
    if "fl \<in> {0, BC_EOXP, BC_EOXP OR BC_EOX}" for fl
    using that d by (elim insertE emptyE) (auto intro!: bit_word_eqI simp: b n dest: n')
  show "w AND 0x3fff = (of_nat l :: u32)" "w AND BC_EOXP = 0 \<longleftrightarrow> fl = 0" "w AND BC_EOX = 0 \<longleftrightarrow> fl \<noteq> BC_EOXP OR BC_EOX"
    using e [OF assms(2)] d by (auto simp: w_def q_def)
qed

lemma tx_walk_flat:
  "laid_tx j ds \<Longrightarrow> a + 16 * length ds \<le> 0x2000 \<Longrightarrow> slab (j + length ds) \<le> 262144 \<Longrightarrow>
     tx_walk (length ds) (put_flat ds a m) (of_nat a) acc = split_flat ds acc"
proof (induction j ds arbitrary: a m acc rule: laid_tx.induct)
  case (2 j bp f fl ds)
  let ?m = "put_desc a (of_nat bp) (of_nat (length f) OR fl) (of_nat (a + 16)) (guest_copy bp f m)" and ?M = "put_flat ((bp, f, fl) # ds) a m"
  have l: "slab j \<le> bp" "bp < slab j + 16" "length f \<le> 480" "fl \<in> {0, BC_EOXP, BC_EOXP OR BC_EOX}" "laid_tx (Suc j) ds" using "2.prems"(1) by auto
  have M: "?M = put_flat ds (a + 16) ?m" by simp
  have keep: "?M (Mem y) = ?m (Mem y)" if "y < a + 16 \<or> 0x2000 \<le> y" "y < slab (Suc j)" for y
    unfolding M using "2.prems"(2) that by (intro put_flat_keeps [OF l(5)]) auto
  have s: "a + 16 \<le> slab j" "slab j + 0x800 = slab (Suc j)" using "2.prems"(2) by (simp_all add: slab_def)
  have rd: "get_be ?M (Mem y) = get_be ?m (Mem y)" if "y + 4 \<le> a + 16" for y
  proof (rule get_cong)
    fix k :: nat assume "k < 4"
    then have "y + k < a + 16" "y + k < slab (Suc j)" using that s by linarith+
    then show "?M (cell_plus (Mem y) k) = ?m (cell_plus (Mem y) k)" unfolding cell_plus.simps by (intro keep disjI1)
  qed
  have lim: "a + 16 \<le> 262144" using "2.prems"(2) by simp
  note w = ring_words [OF lim]
  have g: "ring_get_be32 ?M (of_nat a) = of_nat bp" "ring_get_be32 ?M (of_nat a + 4) = of_nat (length f) OR fl"
      "ring_get_be32 ?M (of_nat a + 8) = of_nat (a + 16)"
    unfolding w(2-4) using rd [of a] rd [of "a + 4"] rd [of "a + 8"] by (simp_all only: put_desc_get)
  have u: "unat (of_nat bp :: u32) = bp" "unat (of_nat (length f) :: u32) = length f"
    using l(2,3) "2.prems"(3) by (simp_all add: unat_of_nat slab_def)
  have "?M (Mem (bp + k)) = f ! k" if "k < length f" for k
  proof -
    have "?M (Mem (bp + k)) = ?m (Mem (bp + k))" using that l s "2.prems"(2) by (intro keep) (auto simp: slab_def)
    also have "\<dots> = f ! k" using that l s by (subst put_desc_far) (auto simp: guest_copy_def)
    finally show ?thesis .
  qed
  then have "guest_bytes ?M bp (length f) = f" unfolding guest_bytes_def by (intro nth_equalityI) auto
  moreover have ih: "tx_walk (length ds) ?M (of_nat (a + 16)) x = split_flat ds x" for x
    unfolding M using "2.prems"(2,3) by (intro "2.IH" [OF l(5)]) simp_all
  ultimately show ?case
    unfolding length_Cons tx_walk.simps Let_def g flag_bits [OF l(3,4)] u split_flat.simps using l(4) by (auto simp: BC_EOXP_def BC_EOX_def)
qed simp

lemma put_flat_append: "put_flat (xs @ ys) a m = put_flat ys (a + 16 * length xs) (put_flat xs a m)"
proof (induction xs arbitrary: a m)
  case (Cons x xs)
  then show ?case by (cases x) (simp add: algebra_simps)
qed simp

lemma length_flat_pkt [simp]: "length (flat_pkt last_p ds) = length ds"
  by (induction last_p ds rule: flat_pkt.induct) simp_all

lemma length_flat_pkts: "length (flat_pkts pks) = chain_len pks"
  by (induction pks) (simp_all add: chain_len_def)

lemma put_pkt_flat: "a + 16 * length ds \<le> 0x2000 \<Longrightarrow> put_pkt last_p ds a m = put_flat (flat_pkt last_p ds) a m"
proof (induction ds arbitrary: a m)
  case (Cons x ds)
  obtain bp f where x: "x = (bp, f)" by (cases x)
  have "a + 16 \<le> 262144" using Cons.prems by simp
  note w = ring_words(1) [OF this]
  show ?case unfolding x put_pkt.simps flat_pkt.simps put_flat.simps w using Cons.prems by (intro Cons.IH) simp
qed simp

lemma put_pkts_flat: "a + 16 * chain_len pks \<le> 0x2000 \<Longrightarrow> put_pkts pks a m = put_flat (flat_pkts pks) a m"
proof (induction pks arbitrary: a m)
  case (Cons pk pks)
  then have "a + 16 * length pk \<le> 0x2000" "a + 16 * length pk + 16 * chain_len pks \<le> 0x2000" by (simp_all add: chain_len_def)
  then show ?case using Cons.IH by (simp add: put_pkt_flat put_flat_append)
qed simp

lemma split_flat_pkt:
  "pk \<noteq> [] \<Longrightarrow> split_flat (flat_pkt last_p pk @ rest) acc = (acc @ pkt_bytes pk) # (if last_p then [] else split_flat rest [])"
proof (induction pk arbitrary: acc)
  case (Cons x pk)
  have d: "BC_EOXP \<noteq> 0" "BC_EOXP OR BC_EOX \<noteq> 0" "BC_EOXP OR BC_EOX \<noteq> BC_EOXP" by (simp_all add: BC_EOXP_def BC_EOX_def)
  show ?case using Cons d by (cases x; cases "pk = []") (simp_all add: pkt_bytes_def)
qed simp

lemma split_flat_pkts: "\<forall>pk \<in> set pks. pk \<noteq> [] \<Longrightarrow> split_flat (flat_pkts pks) [] = map pkt_bytes pks"
  by (induction pks) (auto simp: split_flat_pkt)

lemma laid_tx_append: "laid_tx j (xs @ ys) \<longleftrightarrow> laid_tx j xs \<and> laid_tx (j + length xs) ys"
  by (induction j xs rule: laid_tx.induct) auto

lemma draw_pkt_laid:
  "draw_pkt rand seed is j g = (ds, g') \<Longrightarrow> laid_tx j (flat_pkt last_p ds) \<and> length ds = length is \<and> length (pkt_bytes ds) \<le> 480 * length is"
proof (induction rand seed "is" j g arbitrary: ds g' rule: draw_pkt.induct)
  case (2 rand seed i "is" j g)
  obtain a g1 b g2 ds1 where r: "rand g = (a, g1)" "rand g1 = (b, g2)" "draw_pkt rand seed is (Suc j) g2 = (ds1, g')"
      "ds = (0x10000 + 0x800 * j + a mod 16, frame (of_nat (seed + i)) (1 + b mod 480)) # ds1"
    using "2.prems" by (auto simp: Let_def split: prod.splits)
  have "b mod 480 < 480" by simp
  then have b: "Suc (b mod 480) \<le> 480" by linarith
  have "laid_tx (Suc j) (flat_pkt last_p ds1) \<and> length ds1 = length is \<and> length (pkt_bytes ds1) \<le> 480 * length is"
    using "2.IH" [OF _ _ _ _ r(3)] r(1,2) by auto
  then show ?case using b by (auto simp: r(4) slab_def frame_def pkt_bytes_def)
qed (simp add: pkt_bytes_def)

lemma draw_pkts_laid:
  "draw_pkts rand r ps j g = (pks, g') \<Longrightarrow> laid_tx j (flat_pkts pks) \<and> length pks = length ps \<and>
     (\<forall>pk \<in> set pks. pk \<noteq> [] \<and> length pk \<le> 4 \<and> length (pkt_bytes pk) \<le> 1920)"
proof (induction ps arbitrary: j g pks g')
  case (Cons p ps)
  obtain c g1 ds g2 pks1 where r: "rand g = (c, g1)" "draw_pkt rand (3000 + r * 16 + p * 4) [0..<1 + c mod 4] j g1 = (ds, g2)"
      "draw_pkts rand r ps (j + (1 + c mod 4)) g2 = (pks1, g')" "pks = ds # pks1"
    using Cons.prems by (auto simp: Let_def split: prod.splits)
  have d: "laid_tx j (flat_pkt (pks1 = []) ds)" "length ds = 1 + c mod 4" "length (pkt_bytes ds) \<le> 480 * (1 + c mod 4)"
    using draw_pkt_laid [OF r(2), of "pks1 = []"] by simp_all
  have "c mod 4 < 4" by simp
  then have q: "1 + c mod 4 \<le> 4" by linarith
  have "length ds \<le> 4" using d(2) q by simp
  moreover have "length (pkt_bytes ds) \<le> 1920" using d(3) mult_le_mono2 [OF q, of 480] by simp
  moreover have "ds \<noteq> []" using d(2) by auto
  ultimately show ?case using Cons.IH [OF r(3)] d(1,2) by (auto simp: r(4) laid_tx_append)
qed simp

lemma and_255: "unat ((a + of_nat i :: u32) AND 255) = (unat a + i) mod 256"
proof -
  have m: "(255 :: u32) = mask 8" by (simp add: mask_eq_exp_minus_1)
  have "(a + of_nat i) AND 255 = (a + of_nat i) mod 256" unfolding m by (simp add: take_bit_eq_mod flip: take_bit_eq_mask)
  then show ?thesis using slot_of_add [of a i] by (simp only: slot_of_def)
qed

lemma length_concat_le: "\<forall>x \<in> set xss. length x \<le> k \<Longrightarrow> length (concat xss) \<le> k * length xss"
  by (induction xss) auto



section \<open>Receive rounds\<close>

lemma ring_rx_verdict_exact:
  assumes "length f \<le> BUFSZ" "0x3f00 \<le> bp"
  shows "list_all id (ring_rx_verdict E bp f got s) \<longleftrightarrow> got \<and>
    (\<forall>a \<in> {0x3f00..<bp + BUFSZ + 64}. rmem s (Mem a) = mem_copy (\<lambda>_. GUARD) bp f a) \<and>
    ring_get_be32 (rmem s) 0x1004 AND BC_ROWN = 0 \<and> ring_get_be32 (rmem s) 0x1004 AND 0x3fff = of_nat BUFSZ - of_nat (length f) \<and>
    drop_bit 16 (ring_get_be32 (rmem s) 0x1004) = 0x2100 \<and> idx_word s 4 = arm_rx_prod s \<and> ro_rx_crbdp (r_out E (rdut s)) = 0x1000"
proof -
  have "guest_holds (rmem s) bp f \<and> guest_intact (rmem s) 0x3f00 bp \<and> guest_intact (rmem s) (bp + length f) (bp + BUFSZ + 64) \<longleftrightarrow>
      (\<forall>a \<in> {0x3f00..<bp + BUFSZ + 64}. rmem s (Mem a) = mem_copy (\<lambda>_. GUARD) bp f a)"
    using holds_intact_window [OF assms, of "\<lambda>a. rmem s (Mem a)"]
    by (simp only: holds_def intact_def guest_holds_def guest_intact_def)
  then show ?thesis by (auto simp: ring_rx_verdict_def Let_def)
qed

section \<open>The test returns\<close>

lemma arm_rx_submit_Some: "length f \<le> 2048 \<Longrightarrow> \<exists>t. arm_rx_submit f s = Some t"
proof -
  assume l: "length f \<le> 2048"
  have "unat (arm_rx_prod s mod 256) < 256" using slot_of_bound [of "arm_rx_prod s"] by (simp only: slot_of_def)
  then have "\<not> RXS + unat (arm_rx_prod s mod 256) * 2048 + length f > 0x400000" using l by (simp add: RXS_def)
  then show ?thesis by (simp add: arm_rx_submit_def Let_def)
qed

lemma ring_rx_round_gives: "len \<le> 2048 \<Longrightarrow> gives 7 (ring_rx_round E (seed, off, len))"
  unfolding gives_def
proof
  fix s assume "len \<le> 2048"
  then have l: "length (frame seed len) \<le> 2048" by (simp add: frame_def)
  show "\<exists>x s'. ring_rx_round E (seed, off, len) s = Some (x, s') \<and> length x = 7"
  proof -
    let ?s = "rx_at 0x1000 (rpoke (\<lambda>m. ring_desc 0x1000 (of_nat (0x4000 + off)) (BC_ROWN OR 0x20000000 OR 0x01000000 OR of_nat BUFSZ) 0x1010
      (guest_set 0 GUEST GUARD m)) s)"
    obtain t where t: "arm_rx_submit (frame seed len) ?s = Some t" using arm_rx_submit_Some [OF l] by blast
    show ?thesis unfolding ring_rx_round_def Let_def prod.case t by (simp add: case_prod_unfold ring_rx_verdict_def Let_def)
  qed
qed

lemma ring_rx_drop_gives: "gives 4 (ring_rx_drop E)"
  unfolding gives_def
proof
  fix s :: "'a ring_tb"
  have l: "length (frame 901 100) \<le> 2048" by (simp add: frame_def)
  let ?s = "rx_at 0x1000 (rpoke (\<lambda>m. ring_desc 0x1000 0x4008 (of_nat BUFSZ) 0x1010 (guest_set 0 GUEST GUARD m)) s)"
  obtain t where t: "arm_rx_submit (frame 901 100) ?s = Some t" using arm_rx_submit_Some [OF l] by blast
  show "\<exists>x s'. ring_rx_drop E s = Some (x, s') \<and> length x = 4"
    unfolding ring_rx_drop_def Let_def t by (simp add: case_prod_unfold)
qed

lemma rx_and_tx_gives: "gives 3 (rx_and_tx E)"
  unfolding gives_def
proof
  fix s :: "'a ring_tb"
  have l: "length (frame 990 777) \<le> 2048" by (simp add: frame_def)
  let ?s = "set_cons 6 (rx_at 0x1000 (rpoke (\<lambda>m. td_again (ring_desc 0x1000 0x4004 (BC_ROWN OR of_nat BUFSZ) 0x1010 (guest_set 0x4000 0x1000 GUARD m))) s))"
  obtain t where t: "arm_rx_submit (frame 990 777) ?s = Some t" using arm_rx_submit_Some [OF l] by blast
  show "\<exists>x s'. rx_and_tx E s = Some (x, s') \<and> length x = 3" unfolding rx_and_tx_def Let_def t by simp
qed

lemma tx_parts_give: "gives 17 (Some \<circ> tx_chain E)" "gives 3 (Some \<circ> tx_pressure E)" "gives 4 (Some \<circ> tx_oversize E)"
  by (auto intro!: gives_Some simp: tx_chain_def tx_chain_verdict_def tx_pressure_def tx_oversize_def Let_def case_prod_unfold upt_rec)

lemma tx_random_gives: "gives 1 (tx_random rand E r)"
  by (simp add: gives_def tx_random_def Let_def case_prod_unfold)

lemma ring_rx_params_lens: "(seed, off, len) \<in> set ring_rx_params \<Longrightarrow> len \<le> 2048"
proof -
  assume "(seed, off, len) \<in> set ring_rx_params"
  then have "(off, len) \<in> set (List.product [0..<16] [3, 15, 16, 17, 61, 310, 1517])"
    unfolding ring_rx_params_def Let_def by (rule set_zip_rightD)
  then show ?thesis by (auto simp del: upt_rec_numeral)
qed

text \<open>
  The ring test ends with a verdict for every engine: whatever it asks of the memory and however
  long it takes, no wait of the test is longer than its bound and no frame leaves the staging
  area; the test makes 816 checks and exits with 0 exactly when none failed.
\<close>

theorem ring_main_returns: "\<exists>fails \<le> 816. ring_main rand E d g = Some (816, fails, of_bool (fails \<noteq> 0))"
proof -
  have rx: "gives (7 * length ring_rx_params) (all_rounds (ring_rx_round (E False)) ring_rx_params)"
    by (rule gives_rounds) (metis ring_rx_round_gives ring_rx_params_lens prod_cases3)
  have n: "length ring_rx_params = 112" by (simp add: ring_rx_params_def Let_def)
  note parts = gives_then [OF rx gives_then [OF ring_rx_drop_gives gives_then [OF tx_parts_give(1) gives_then [OF tx_parts_give(2)
    gives_then [OF rx_and_tx_gives tx_parts_give(3)]]]]]
  obtain x s where s: "ring_directed (E False) (ring_reset E d) = Some (x, s)" "length x = 815"
    using parts [of "E False" "E False" "E False" "E False" "E False"] unfolding n gives_def ring_directed_def by simp blast
  have "gives (1 * length [0..<200 :: nat]) (all_rounds (tx_random rand (E False)) [0..<200])" by (rule gives_rounds) (rule tx_random_gives)
  then obtain y z where y: "all_rounds (tx_random rand (E False)) [0..<200] (s, idx_word s 0, g) = Some (y, z)" unfolding gives_def by blast
  define v where "v = x @ [list_all id y]"
  have "ring_main rand E d g = Some (exit_status v)"
    unfolding ring_main_def s(1) Option.bind.bind_lunit prod.case y v_def by (simp only: option.map prod.case)
  moreover have "length v = 816" using s(2) by (simp add: v_def)
  moreover have "length (filter Not v) \<le> 816" using length_filter_le [of Not v] calculation(2) by simp
  ultimately show ?thesis by (intro exI [of _ "length (filter Not v)"]) (simp add: exit_status_def Let_def)
qed

end
