(* ===== verification/Gio_Test.thy ===== *)
theory Gio_Test
  imports Mem_Bus
begin

text \<open>
  The unit test of the GIO capture window (\<^verbatim>\<open>sim/gio_window_test/tb_gio_window.cpp\<close>): a CPU that
  issues random accesses one at a time, the memory behind the window's record writer, and the host
  that consumes the record ring and answers reads, checking every record against the accesses.
  The window is Verilog: its evaluation and outputs are parameters.  \<^verbatim>\<open>rand\<close> is a generator
  \<open>rnd\<close> threaded in the order of its calls.  The map of 16-byte lines reads as zero where it has
  no line, so it is a memory.
\<close>

section \<open>State\<close>

definition BASE :: u32 where
  "BASE = 0x1f0f0000"

definition RING_PA :: u32 where
  "RING_PA = 0x1e200000"

definition PROD_PA :: u32 where
  "PROD_PA = 0x1e000060"

definition RING_N :: u32 where
  "RING_N = 16"

record access_t =
  a_store :: bool
  a_dwoff :: u32
  a_mask :: u8
  a_lanes :: u64
  a_space :: bool

record gio_in =
  w_sel :: bool
  w_addr :: u32
  w_mask :: u16
  w_wdata :: "u32 list"
  w_is_store :: bool
  w_space :: bool
  w_mem_rsp_valid :: bool
  w_cons :: u32
  w_ans_seq :: u32
  w_ans_lo :: u32
  w_ans_hi :: u32

record gio_out =
  o_hit :: bool
  o_done :: bool
  o_rdata :: "u32 list"
  o_prod :: u32
  o_req_valid :: bool
  o_req_addr :: u64
  o_req_opcode :: u32
  o_req_mask :: u16
  o_req_data :: "u32 list"

record 'd gio_dut =
  w_eval :: "bool \<Rightarrow> gio_in \<Rightarrow> 'd \<Rightarrow> 'd"
  w_out :: "'d \<Rightarrow> gio_out"

record 'd gio_tb =
  wd :: 'd
  win :: gio_in
  wmem :: mem
  g_checks :: int
  g_fail :: int
  n_bursts :: int
  n_singles :: int
  issued :: "access_t list"
  expect_recno :: u32
  cons :: u32
  arm_prod_seen :: u32
  cpu_busy :: bool
  cur :: access_t
  cpu_wait :: u64
  max_wait :: u64
  mem_lat :: int
  n_loads :: int
  n_stores :: int
  n_held_full :: int
  pending_ans_seq :: u32
  ans_delay :: int
  pending_ans_val :: u64
  arm_pause :: int
  n_ring_full :: int

definition CHECK :: "bool \<Rightarrow> 'd gio_tb \<Rightarrow> 'd gio_tb" where
  "CHECK c s = s\<lparr>g_checks := g_checks s + 1, g_fail := g_fail s + of_bool (\<not> c)\<rparr>"

definition answer_for :: "u32 \<Rightarrow> u32 \<Rightarrow> u64" where
  "answer_for recno dwoff = (ucast recno * 0x9e3779b97f4a7c15) XOR ucast dwoff"

definition tick :: "'d gio_dut \<Rightarrow> 'd gio_tb \<Rightarrow> 'd gio_tb" where
  "tick E s = s\<lparr>wd := w_eval E True (win s) (w_eval E False (win s) (wd s))\<rparr>"

section \<open>The CPU\<close>

text \<open>The lanes of a random access: one draw per enabled byte.\<close>

fun draw_lanes :: "('r \<Rightarrow> nat \<times> 'r) \<Rightarrow> u8 \<Rightarrow> nat list \<Rightarrow> u64 \<Rightarrow> 'r \<Rightarrow> u64 \<times> 'r" where
  "draw_lanes rnd msk [] v r = (v, r)"
| "draw_lanes rnd msk (i # is) v r =
     (if bit msk i then (let (x, r) = rnd r in draw_lanes rnd msk is (v OR push_bit (8 * i) (of_nat x AND 0xff)) r)
      else draw_lanes rnd msk is v r)"

definition draw_access :: "('r \<Rightarrow> nat \<times> 'r) \<Rightarrow> 'r \<Rightarrow> access_t \<times> 'r" where
  "draw_access rnd r =
     (let (x1, r) = rnd r; (x2, r) = rnd r; (x3, r) = rnd r;
          sz = 2 ^ (x3 mod 4);
          (x4, r) = rnd r;
          off = (x4 mod (8 div sz)) * sz;
          msk = (push_bit off (push_bit sz 1 - 1) :: u32);
          (lanes, r) = draw_lanes rnd (ucast msk) [0..<8] 0 r;
          (x5, r) = rnd r
      in (\<lparr>a_store = (x1 mod 5 \<noteq> 0), a_dwoff = of_nat (x2 mod 1024), a_mask = ucast msk, a_lanes = lanes, a_space = (x5 mod 4 = 0)\<rparr>, r))"

text \<open>The access on the window's inputs: the doubleword in the half of the line its address selects.\<close>

definition drive :: "access_t \<Rightarrow> gio_in \<Rightarrow> gio_in" where
  "drive a i =
     (let pa = BASE + a_dwoff a * 8;
          high = (pa AND 8 \<noteq> 0);
          lanes = (if a_store a then a_lanes a else 0);
          lw = (ucast lanes :: u32); hw = (ucast (drop_bit 32 lanes) :: u32)
      in i\<lparr>w_addr := pa AND NOT 15, w_mask := (if high then push_bit 8 (ucast (a_mask a)) else ucast (a_mask a)),
           w_wdata := (if high then [0, 0, lw, hw] else [lw, hw, 0, 0]), w_is_store := a_store a, w_space := a_space a\<rparr>)"

definition gio_cpu :: "'d gio_dut \<Rightarrow> ('r \<Rightarrow> nat \<times> 'r) \<Rightarrow> 'd gio_tb \<times> 'r \<Rightarrow> 'd gio_tb \<times> 'r" where
  "gio_cpu E rnd sr =
     (let (s, r) = sr; s = s\<lparr>win := (win s)\<lparr>w_sel := False\<rparr>\<rparr> in
      if cpu_busy s then (s, r)
      else let (x, r) = rnd r in
        if x mod 3 \<noteq> 0 then (s, r)
        else let (a, r) = draw_access rnd r;
                 s = s\<lparr>cur := a, win := drive a (win s)\<rparr>;
                 s = s\<lparr>wd := w_eval E True (win s) (wd s)\<rparr>;
                 s = CHECK (o_hit (w_out E (wd s))) s
             in (s\<lparr>win := (win s)\<lparr>w_sel := True\<rparr>, cpu_busy := True, cpu_wait := 0, issued := issued s @ [a],
                   n_stores := n_stores s + of_bool (a_store a), n_loads := n_loads s + of_bool (\<not> a_store a)\<rparr>, r))"

section \<open>The memory\<close>

definition gio_write :: "gio_out \<Rightarrow> 'd gio_tb \<Rightarrow> 'd gio_tb" where
  "gio_write v s =
     (let a = (ucast (o_req_addr v) :: u32);
          s = CHECK (o_req_opcode v = 7 \<or> o_req_opcode v = 6) s
      in if o_req_opcode v = 6 then
           (let s = CHECK (a AND 63 = 0) s;
                s = CHECK (a \<ge> RING_PA \<and> a + 64 \<le> RING_PA + RING_N * 16) s
            in s\<lparr>wmem := store_bytes (\<lambda>_. True) (o_req_data v)
                   (\<lambda>i. unat ((a + of_nat (16 * (i div 16))) AND NOT 15) + i mod 16) 64 (wmem s), n_bursts := n_bursts s + 1\<rparr>)
         else s\<lparr>wmem := store_bytes (bit (o_req_mask v)) (o_req_data v) (\<lambda>i. unat (a AND NOT 15) + i) 16 (wmem s),
                n_singles := n_singles s + 1\<rparr>)"

text \<open>One request outstanding, answered after a random wait; a zero \<open>max_lat\<close> is a division by zero.\<close>

definition gio_memory :: "'d gio_dut \<Rightarrow> ('r \<Rightarrow> nat \<times> 'r) \<Rightarrow> nat \<Rightarrow> 'd gio_tb \<times> 'r \<Rightarrow> ('d gio_tb \<times> 'r) option" where
  "gio_memory E rnd max_lat sr =
     (let (s, r) = sr; s = s\<lparr>win := (win s)\<lparr>w_mem_rsp_valid := False\<rparr>\<rparr>; v = w_out E (wd s) in
      if \<not> o_req_valid v then Some (s, r)
      else if mem_lat s < 0 then
        (if max_lat = 0 then None else let (x, r) = rnd r in Some (s\<lparr>mem_lat := int (x mod max_lat)\<rparr>, r))
      else if mem_lat s = 0 then
        (let s = gio_write v s in Some (s\<lparr>win := (win s)\<lparr>w_mem_rsp_valid := True\<rparr>, mem_lat := -1\<rparr>, r))
      else Some (s\<lparr>mem_lat := mem_lat s - 1\<rparr>, r))"

text \<open>The clock edge, and the CPU's access done.\<close>

definition gio_edge :: "'d gio_dut \<Rightarrow> 'd gio_tb \<Rightarrow> 'd gio_tb" where
  "gio_edge E s =
     (let s = tick E s; v = w_out E (wd s) in
      if cpu_busy s then
        (let s = s\<lparr>cpu_wait := cpu_wait s + 1\<rparr> in
         if o_done v then
           (let s = s\<lparr>cpu_busy := False, max_wait := max (max_wait s) (cpu_wait s)\<rparr> in
            if \<not> a_store (cur s)
            then CHECK ((push_bit 32 (ucast (o_rdata v ! 1)) OR ucast (o_rdata v ! 0) :: u64) = pending_ans_val s) s
            else s)
         else s)
      else s)"

section \<open>The host\<close>

record gio_rec =
  r_w0 :: u32
  r_recno :: u32
  r_lanes :: u64

definition ring_rec :: "mem \<Rightarrow> u32 \<Rightarrow> gio_rec" where
  "ring_rec m c = (let p = unat ((RING_PA + (c mod RING_N) * 16) AND NOT 15)
     in \<lparr>r_w0 = le32 m p, r_recno = le32 m (p + 4), r_lanes = ucast (le32 m (p + 8)) OR push_bit 32 (ucast (le32 m (p + 12)))\<rparr>)"

definition prod_seen :: "mem \<Rightarrow> u32" where
  "prod_seen m = le32 m (unat (PROD_PA AND NOT 15) + unat (PROD_PA AND 15))"

definition arm_head :: "'d gio_dut \<Rightarrow> ('r \<Rightarrow> nat \<times> 'r) \<Rightarrow> 'd gio_tb \<times> 'r \<Rightarrow> 'd gio_tb \<times> 'r" where
  "arm_head E rnd sr =
     (let (s, r) = sr;
          p = prod_seen (wmem s);
          s = (CHECK (p \<ge> arm_prod_seen s) s)\<lparr>arm_prod_seen := p\<rparr>;
          s = (if ans_delay s > 0 then
                 (let s = s\<lparr>ans_delay := ans_delay s - 1\<rparr>
                  in if ans_delay s = 0 then s\<lparr>win := (win s)\<lparr>w_ans_seq := pending_ans_seq s\<rparr>\<rparr> else s)
               else s);
          (s, r) = (if arm_pause s > 0 then (s\<lparr>arm_pause := arm_pause s - 1\<rparr>, r)
                    else let (x, r) = rnd r in
                      if x mod 2000 = 0 then let (y, r) = rnd r in (s\<lparr>arm_pause := 100 + int (y mod 400)\<rparr>, r) else (s, r))
      in (s\<lparr>n_ring_full := n_ring_full s + of_bool (cpu_busy s \<and> a_store (cur s) \<and> o_prod (w_out E (wd s)) - cons s \<ge> RING_N - 2)\<rparr>, r))"

text \<open>A record against the access it should be.\<close>

definition check_rec :: "gio_rec \<Rightarrow> access_t \<Rightarrow> 'd gio_tb \<Rightarrow> 'd gio_tb" where
  "check_rec q a s =
     CHECK (drop_bit 21 (r_w0 q) AND 1 = of_bool (a_space a)) (CHECK (r_w0 q AND 0x1fffff = a_dwoff a)
       (CHECK (drop_bit 22 (r_w0 q) AND 0xff = ucast (a_mask a)) (CHECK (drop_bit 30 (r_w0 q) AND 3 = (if a_store a then 0 else 1)) s)))"

text \<open>One record taken from the ring; a read is answered after a random delay.\<close>

definition arm_take :: "('r \<Rightarrow> nat \<times> 'r) \<Rightarrow> 'd gio_tb \<times> 'r \<Rightarrow> 'd gio_tb \<times> 'r" where
  "arm_take rnd sr =
     (let (s, r) = sr;
          q = ring_rec (wmem s) (cons s);
          s = CHECK (r_recno q = expect_recno s) s;
          s = CHECK (issued s \<noteq> []) s;
          (s, r) = (case issued s of [] \<Rightarrow> (s, r)
            | a # rest \<Rightarrow>
                (let s = check_rec q a (s\<lparr>issued := rest\<rparr>) in
                 if a_store a then (CHECK (r_lanes q = a_lanes a) s, r)
                 else let s = CHECK (issued s = []) s;
                          v = answer_for (r_recno q) (a_dwoff a);
                          (x, r) = rnd r
                      in (s\<lparr>pending_ans_val := v, win := (win s)\<lparr>w_ans_lo := ucast v, w_ans_hi := ucast (drop_bit 32 v)\<rparr>,
                            pending_ans_seq := r_recno q, ans_delay := 1 + int (x mod 50)\<rparr>, r)))
      in (s\<lparr>expect_recno := expect_recno s + 1, cons := cons s + 1, win := (win s)\<lparr>w_cons := cons s + 1\<rparr>\<rparr>, r))"

text \<open>The host takes a record only when it is there, not paused, not answering, and one draw in four.\<close>

definition arm_ready :: "('r \<Rightarrow> nat \<times> 'r) \<Rightarrow> 'd gio_tb \<times> 'r \<Rightarrow> bool" where
  "arm_ready rnd sr = (let (s, r) = sr in
     arm_pause s = 0 \<and> ans_delay s \<le> 0 \<and> cons s < prod_seen (wmem s) \<and> fst (rnd r) mod 4 = 0)"

definition gio_arm :: "'d gio_dut \<Rightarrow> ('r \<Rightarrow> nat \<times> 'r) \<Rightarrow> 'd gio_tb \<times> 'r \<Rightarrow> 'd gio_tb \<times> 'r" where
  "gio_arm E rnd sr =
     (let (s, r) = arm_head E rnd sr;
          (s, r) = (if arm_pause s = 0 \<and> ans_delay s \<le> 0 \<and> cons s < prod_seen (wmem s) then
                      (let (x, r') = rnd r in if x mod 4 = 0 then arm_take rnd (s, r') else (s, r'))
                    else (s, r))
      in (s\<lparr>n_held_full := n_held_full s + of_bool (cpu_busy s \<and> a_store (cur s) \<and> cpu_wait s > 3)\<rparr>, r))"

definition gio_cycle :: "'d gio_dut \<Rightarrow> ('r \<Rightarrow> nat \<times> 'r) \<Rightarrow> nat \<Rightarrow> 'd gio_tb \<times> 'r \<Rightarrow> ('d gio_tb \<times> 'r) option" where
  "gio_cycle E rnd max_lat sr =
     map_option (\<lambda>(s, r). gio_arm E rnd (gio_edge E s, r)) (gio_memory E rnd max_lat (gio_cpu E rnd sr))"

fun gio_run :: "'d gio_dut \<Rightarrow> ('r \<Rightarrow> nat \<times> 'r) \<Rightarrow> nat \<Rightarrow> nat \<Rightarrow> 'd gio_tb \<times> 'r \<Rightarrow> ('d gio_tb \<times> 'r) option" where
  "gio_run E rnd max_lat 0 sr = Some sr"
| "gio_run E rnd max_lat (Suc n) sr = Option.bind (gio_cycle E rnd max_lat sr) (gio_run E rnd max_lat n)"

text \<open>The verdict: the loop of 400000 cycles, the demand that back-pressure was exercised, the failures.\<close>

definition gio_verdict :: "'d gio_tb \<Rightarrow> bool" where
  "gio_verdict s \<longleftrightarrow> g_fail (CHECK (n_ring_full s > 300) s) \<noteq> 0"

section \<open>What each part of a cycle leaves alone\<close>

lemma CHECK_fields [simp]:
  "issued (CHECK c s) = issued s" "cons (CHECK c s) = cons s" "expect_recno (CHECK c s) = expect_recno s" "wmem (CHECK c s) = wmem s"
  "g_fail (CHECK c s) = g_fail s + of_bool (\<not> c)" "win (CHECK c s) = win s" "wd (CHECK c s) = wd s" "cur (CHECK c s) = cur s"
  "arm_pause (CHECK c s) = arm_pause s" "ans_delay (CHECK c s) = ans_delay s"
  by (simp_all add: CHECK_def)

text \<open>The part of the state the record check is about.\<close>

definition ring_view :: "'d gio_tb \<Rightarrow> access_t list \<times> u32 \<times> u32" where
  "ring_view s = (issued s, cons s, expect_recno s)"

lemma ring_view_CHECK [simp]: "ring_view (CHECK c s) = ring_view s"
  by (simp add: ring_view_def)

definition gio_issues :: "'d gio_dut \<Rightarrow> ('r \<Rightarrow> nat \<times> 'r) \<Rightarrow> 'd gio_tb \<times> 'r \<Rightarrow> access_t list" where
  "gio_issues E rnd sr = drop (length (issued (fst sr))) (issued (fst (gio_cpu E rnd sr)))"

lemma gio_cpu_view:
  "ring_view (fst (gio_cpu E rnd sr)) = (issued (fst sr) @ gio_issues E rnd sr, cons (fst sr), expect_recno (fst sr)) \<and>
   g_fail (fst sr) \<le> g_fail (fst (gio_cpu E rnd sr))"
  by (simp add: gio_cpu_def gio_issues_def ring_view_def Let_def case_prod_unfold)

lemma gio_write_view: "ring_view (gio_write v s) = ring_view s \<and> g_fail s \<le> g_fail (gio_write v s)"
  by (simp add: gio_write_def ring_view_def Let_def)

lemma gio_memory_view:
  assumes "gio_memory E rnd max_lat sr = Some sr'"
  shows "ring_view (fst sr') = ring_view (fst sr)" "g_fail (fst sr) \<le> g_fail (fst sr')"
  using assms gio_write_view [of "w_out E (wd (fst sr))" "(fst sr)\<lparr>win := (win (fst sr))\<lparr>w_mem_rsp_valid := False\<rparr>\<rparr>"]
  by (auto simp: gio_memory_def ring_view_def Let_def case_prod_unfold split: if_splits)

lemma gio_edge_view: "ring_view (gio_edge E s) = ring_view s \<and> g_fail s \<le> g_fail (gio_edge E s)"
  by (simp add: gio_edge_def ring_view_def tick_def Let_def)

lemma arm_head_view: "ring_view (fst (arm_head E rnd sr)) = ring_view (fst sr) \<and> g_fail (fst sr) \<le> g_fail (fst (arm_head E rnd sr))"
  by (simp add: arm_head_def ring_view_def Let_def case_prod_unfold)

section \<open>Records and accesses\<close>

text \<open>The record of an access, by its fields.\<close>

definition rec_matches :: "gio_rec \<Rightarrow> access_t \<Rightarrow> bool" where
  "rec_matches q a \<longleftrightarrow> drop_bit 30 (r_w0 q) AND 3 = (if a_store a then 0 else 1) \<and> drop_bit 22 (r_w0 q) AND 0xff = ucast (a_mask a) \<and>
     r_w0 q AND 0x1fffff = a_dwoff a \<and> drop_bit 21 (r_w0 q) AND 1 = of_bool (a_space a) \<and> (a_store a \<longrightarrow> r_lanes q = a_lanes a)"

lemma check_rec_fields [simp]:
  "issued (check_rec q a s) = issued s" "cons (check_rec q a s) = cons s" "expect_recno (check_rec q a s) = expect_recno s"
  "g_fail (check_rec q a s) = g_fail s + of_bool (drop_bit 30 (r_w0 q) AND 3 \<noteq> (if a_store a then 0 else 1))
     + of_bool (drop_bit 22 (r_w0 q) AND 0xff \<noteq> ucast (a_mask a)) + of_bool (r_w0 q AND 0x1fffff \<noteq> a_dwoff a)
     + of_bool (drop_bit 21 (r_w0 q) AND 1 \<noteq> of_bool (a_space a))"
  by (simp_all add: check_rec_def)

text \<open>A record taken without a failed check.\<close>

lemma arm_take_view:
  defines "q \<equiv> \<lambda>s. ring_rec (wmem s) (cons s)"
  shows "g_fail s \<le> g_fail (fst (arm_take rnd (s, r)))"
    and "cons (fst (arm_take rnd (s, r))) = cons s + 1" "expect_recno (fst (arm_take rnd (s, r))) = expect_recno s + 1"
    and "g_fail (fst (arm_take rnd (s, r))) = g_fail s \<Longrightarrow> r_recno (q s) = expect_recno s \<and>
      issued s \<noteq> [] \<and> rec_matches (q s) (hd (issued s)) \<and> issued (fst (arm_take rnd (s, r))) = tl (issued s)"
proof -
  show "g_fail s \<le> g_fail (fst (arm_take rnd (s, r)))"
    by (cases "issued s") (simp_all add: arm_take_def Let_def case_prod_unfold)
  show "cons (fst (arm_take rnd (s, r))) = cons s + 1" "expect_recno (fst (arm_take rnd (s, r))) = expect_recno s + 1"
    by (cases "issued s"; simp add: arm_take_def Let_def case_prod_unfold)+
  assume f: "g_fail (fst (arm_take rnd (s, r))) = g_fail s"
  show "r_recno (q s) = expect_recno s \<and> issued s \<noteq> [] \<and> rec_matches (q s) (hd (issued s)) \<and>
      issued (fst (arm_take rnd (s, r))) = tl (issued s)"
  proof (cases "issued s")
    case Nil
    then show ?thesis using f by (simp add: arm_take_def Let_def case_prod_unfold of_bool_def split: if_splits)
  next
    case (Cons a rest)
    then show ?thesis using f unfolding rec_matches_def q_def
      by (cases "a_store a") (auto simp: arm_take_def Let_def case_prod_unfold of_bool_def split: if_splits)
  qed
qed

definition gio_takes :: "'d gio_dut \<Rightarrow> ('r \<Rightarrow> nat \<times> 'r) \<Rightarrow> nat \<Rightarrow> 'd gio_tb \<times> 'r \<Rightarrow> gio_rec list" where
  "gio_takes E rnd max_lat sr = (case gio_memory E rnd max_lat (gio_cpu E rnd sr) of None \<Rightarrow> []
     | Some (s, r) \<Rightarrow> let h = arm_head E rnd (gio_edge E s, r)
         in if arm_ready rnd h then [ring_rec (wmem (fst h)) (cons (fst h))] else [])"

lemma gio_arm_view:
  "ring_view (fst (gio_arm E rnd sr)) = (let h = arm_head E rnd sr in
     ring_view (if arm_ready rnd h then fst (arm_take rnd (fst h, snd (rnd (snd h)))) else fst h))"
  "g_fail (fst (gio_arm E rnd sr)) = (let h = arm_head E rnd sr in
     g_fail (if arm_ready rnd h then fst (arm_take rnd (fst h, snd (rnd (snd h)))) else fst h))"
  by (auto simp: gio_arm_def arm_ready_def ring_view_def Let_def case_prod_unfold)

text \<open>A cycle without a failed check: the accesses issued, the record taken.\<close>

lemma gio_cycle_view:
  assumes "gio_cycle E rnd max_lat sr = Some sr'"
  shows "g_fail (fst sr) \<le> g_fail (fst sr')"
    and "g_fail (fst sr') = g_fail (fst sr) \<Longrightarrow>
      \<exists>as. issued (fst sr) @ gio_issues E rnd sr = as @ issued (fst sr') \<and> list_all2 rec_matches (gio_takes E rnd max_lat sr) as \<and>
        map r_recno (gio_takes E rnd max_lat sr) = replicate (length as) (expect_recno (fst sr)) \<and> length as \<le> 1 \<and>
        cons (fst sr') = cons (fst sr) + of_nat (length as) \<and> expect_recno (fst sr') = expect_recno (fst sr) + of_nat (length as)"
proof -
  obtain s r where m: "gio_memory E rnd max_lat (gio_cpu E rnd sr) = Some (s, r)" and sr': "sr' = gio_arm E rnd (gio_edge E s, r)"
    using assms by (auto simp: gio_cycle_def)
  obtain t u where h: "arm_head E rnd (gio_edge E s, r) = (t, u)" by fastforce
  have v: "issued t = issued (fst sr) @ gio_issues E rnd sr" "cons t = cons (fst sr)" "expect_recno t = expect_recno (fst sr)"
    using gio_cpu_view [of E rnd sr] gio_memory_view(1) [OF m] gio_edge_view [of E s] arm_head_view [of E rnd "(gio_edge E s, r)"]
    by (simp_all add: h ring_view_def)
  have f: "g_fail (fst sr) \<le> g_fail t"
    using gio_cpu_view [of E rnd sr] gio_memory_view(2) [OF m] gio_edge_view [of E s] arm_head_view [of E rnd "(gio_edge E s, r)"]
    by (simp add: h)
  have tk: "gio_takes E rnd max_lat sr = (if arm_ready rnd (t, u) then [ring_rec (wmem t) (cons t)] else [])"
    by (simp add: gio_takes_def m h Let_def)
  show "g_fail (fst sr) \<le> g_fail (fst sr')"
    using f arm_take_view(1) [of t rnd "snd (rnd u)"] by (simp add: sr' gio_arm_view(2) h Let_def)
  assume e: "g_fail (fst sr') = g_fail (fst sr)"
  show "\<exists>as. issued (fst sr) @ gio_issues E rnd sr = as @ issued (fst sr') \<and> list_all2 rec_matches (gio_takes E rnd max_lat sr) as \<and>
        map r_recno (gio_takes E rnd max_lat sr) = replicate (length as) (expect_recno (fst sr)) \<and> length as \<le> 1 \<and>
        cons (fst sr') = cons (fst sr) + of_nat (length as) \<and> expect_recno (fst sr') = expect_recno (fst sr) + of_nat (length as)"
  proof (cases "arm_ready rnd (t, u)")
    case True
    let ?x = "fst (arm_take rnd (t, snd (rnd u)))"
    have r: "ring_view (fst sr') = ring_view ?x" "g_fail (fst sr') = g_fail ?x"
      using True by (simp_all add: sr' gio_arm_view h Let_def)
    then have "g_fail ?x = g_fail t" using e f arm_take_view(1) [of t rnd "snd (rnd u)"] by linarith
    from arm_take_view(4) [OF this] obtain a rest where "issued t = a # rest" "issued ?x = rest"
        "rec_matches (ring_rec (wmem t) (cons t)) a" "r_recno (ring_rec (wmem t) (cons t)) = expect_recno t"
      by (cases "issued t") auto
    then show ?thesis using True r(1) v arm_take_view(2,3) [of rnd t "snd (rnd u)"]
      by (intro exI [of _ "[a]"]) (simp add: tk ring_view_def)
  next
    case False
    then have "ring_view (fst sr') = ring_view t" by (simp add: sr' gio_arm_view(1) h Let_def)
    then show ?thesis using False v by (intro exI [of _ "[]"]) (simp add: tk ring_view_def)
  qed
qed

fun run_issues :: "'d gio_dut \<Rightarrow> ('r \<Rightarrow> nat \<times> 'r) \<Rightarrow> nat \<Rightarrow> nat \<Rightarrow> 'd gio_tb \<times> 'r \<Rightarrow> access_t list" where
  "run_issues E rnd max_lat 0 sr = []"
| "run_issues E rnd max_lat (Suc n) sr = gio_issues E rnd sr @ run_issues E rnd max_lat n (the (gio_cycle E rnd max_lat sr))"

fun run_takes :: "'d gio_dut \<Rightarrow> ('r \<Rightarrow> nat \<times> 'r) \<Rightarrow> nat \<Rightarrow> nat \<Rightarrow> 'd gio_tb \<times> 'r \<Rightarrow> gio_rec list" where
  "run_takes E rnd max_lat 0 sr = []"
| "run_takes E rnd max_lat (Suc n) sr = gio_takes E rnd max_lat sr @ run_takes E rnd max_lat n (the (gio_cycle E rnd max_lat sr))"

lemma gio_run_fail: "gio_run E rnd max_lat n sr = Some sr' \<Longrightarrow> g_fail (fst sr) \<le> g_fail (fst sr')"
proof (induction n arbitrary: sr)
  case (Suc n)
  then obtain t where "gio_cycle E rnd max_lat sr = Some t" "gio_run E rnd max_lat n t = Some sr'" by (auto simp: bind_eq_Some_conv)
  then show ?case using gio_cycle_view(1) [of E rnd max_lat sr t] Suc.IH [of t] by linarith
qed simp

text \<open>
  C33.  A run of the window test that reports no failure means what it should: the records the host
  took from the ring are the accesses the CPU issued, in order, none missing, none twice, each
  with its type, byte mask, offset, device bit and store data, under consecutive record numbers;
  the accesses not yet seen are still queued.
\<close>

theorem gio_pass_fifo:
  assumes "gio_run E rnd max_lat n sr = Some sr'" "g_fail (fst sr') = g_fail (fst sr)"
  shows "\<exists>as. issued (fst sr) @ run_issues E rnd max_lat n sr = as @ issued (fst sr') \<and>
    list_all2 rec_matches (run_takes E rnd max_lat n sr) as \<and>
    map r_recno (run_takes E rnd max_lat n sr) = map (\<lambda>k. expect_recno (fst sr) + of_nat k) [0..<length as] \<and>
    cons (fst sr') = cons (fst sr) + of_nat (length as)"
proof -
  have "\<exists>as. issued (fst sr) @ run_issues E rnd max_lat n sr = as @ issued (fst sr') \<and>
    list_all2 rec_matches (run_takes E rnd max_lat n sr) as \<and>
    map r_recno (run_takes E rnd max_lat n sr) = map (\<lambda>k. expect_recno (fst sr) + of_nat k) [0..<length as] \<and>
    cons (fst sr') = cons (fst sr) + of_nat (length as)"
    using assms
  proof (induction n arbitrary: sr)
    case (Suc n)
    then obtain t where t: "gio_cycle E rnd max_lat sr = Some t" "gio_run E rnd max_lat n t = Some sr'"
      by (auto simp: bind_eq_Some_conv)
    have f: "g_fail (fst t) = g_fail (fst sr)" "g_fail (fst sr') = g_fail (fst t)"
      using gio_cycle_view(1) [OF t(1)] gio_run_fail [OF t(2)] Suc.prems(2) by linarith+
    obtain bs where bs: "issued (fst t) @ run_issues E rnd max_lat n t = bs @ issued (fst sr')"
        "list_all2 rec_matches (run_takes E rnd max_lat n t) bs"
        "map r_recno (run_takes E rnd max_lat n t) = map (\<lambda>k. expect_recno (fst t) + of_nat k) [0..<length bs]"
        "cons (fst sr') = cons (fst t) + of_nat (length bs)"
      using Suc.IH [OF t(2) f(2)] by blast
    obtain as where as: "issued (fst sr) @ gio_issues E rnd sr = as @ issued (fst t)" "list_all2 rec_matches (gio_takes E rnd max_lat sr) as"
        "map r_recno (gio_takes E rnd max_lat sr) = replicate (length as) (expect_recno (fst sr))" "length as \<le> 1"
        "cons (fst t) = cons (fst sr) + of_nat (length as)" "expect_recno (fst t) = expect_recno (fst sr) + of_nat (length as)"
      using gio_cycle_view(2) [OF t(1) f(1)] by blast
    have "map (\<lambda>k. expect_recno (fst sr) + of_nat k) [0..<length (as @ bs)] =
        replicate (length as) (expect_recno (fst sr)) @ map (\<lambda>k. expect_recno (fst t) + of_nat k) [0..<length bs]"
    proof (cases "as")
      case (Cons a xs)
      then have "xs = []" using as(4) by simp
      have "[0..<Suc (length bs)] = 0 # map Suc [0..<length bs]" by (simp only: map_Suc_upt upt_conv_Cons zero_less_Suc)
      then show ?thesis using Cons \<open>xs = []\<close> as(6) by (simp add: comp_def add_ac del: upt_Suc)
    qed (simp add: as(6))
    moreover have "issued (fst sr) @ run_issues E rnd max_lat (Suc n) sr = (as @ bs) @ issued (fst sr')"
      using as(1) bs(1) t(1) by (metis append.assoc option.sel run_issues.simps(2))
    ultimately show ?case using as bs t(1)
      by (intro exI [of _ "as @ bs"]) (simp add: list_all2_appendI)
  qed simp
  then show ?thesis .
qed

text \<open>A store issued before, its record in the ring, and a host that takes it.\<close>

definition idle_window :: "unit gio_dut" where
  "idle_window = \<lparr>w_eval = (\<lambda>_ _ d. d), w_out = (\<lambda>_. \<lparr>o_hit = True, o_done = False, o_rdata = [0, 0], o_prod = 1, o_req_valid = False,
     o_req_addr = 0, o_req_opcode = 0, o_req_mask = 0, o_req_data = []\<rparr>)\<rparr>"

definition sample_access :: access_t where
  "sample_access = \<lparr>a_store = True, a_dwoff = 3, a_mask = 0xff, a_lanes = 0, a_space = False\<rparr>"

definition gio_sample :: "unit gio_tb" where
  "gio_sample = \<lparr>wd = (), win = \<lparr>w_sel = False, w_addr = 0, w_mask = 0, w_wdata = [0, 0, 0, 0], w_is_store = False, w_space = False,
       w_mem_rsp_valid = False, w_cons = 0, w_ans_seq = 0, w_ans_lo = 0, w_ans_hi = 0\<rparr>,
     wmem = (\<lambda>x. if x = 0x1e000060 then 1 else if x = 0x1e200000 then 3 else if x = 0x1e200002 then 0xc0
       else if x = 0x1e200003 then 0x3f else if x = 0x1e200004 then 1 else 0),
     g_checks = 0, g_fail = 0, n_bursts = 0, n_singles = 0, issued = [sample_access], expect_recno = 1, cons = 0, arm_prod_seen = 0,
     cpu_busy = True, cur = sample_access, cpu_wait = 0, max_wait = 0, mem_lat = -1, n_loads = 0, n_stores = 1, n_held_full = 0,
     pending_ans_seq = 0, ans_delay = -1, pending_ans_val = 0, arm_pause = 0, n_ring_full = 0\<rparr>"

lemmas gio_eval = gio_cycle_def gio_memory_def gio_cpu_def gio_edge_def gio_arm_def arm_head_def arm_take_def check_rec_def CHECK_def tick_def
  ring_rec_def prod_seen_def le32_def idle_window_def gio_sample_def sample_access_def RING_PA_def PROD_PA_def RING_N_def Let_def

lemma gio_sample_run:
  "\<exists>sr'. gio_run idle_window (\<lambda>r :: unit. (4, r)) 5 1 (gio_sample, ()) = Some sr' \<and> g_fail (fst sr') = g_fail (fst (gio_sample, ())) \<and>
     issued (fst sr') = []"
  by (simp add: gio_eval)

theorem gio_pass_fifo_witness:
  "list_all2 rec_matches (run_takes idle_window (\<lambda>r :: unit. (4, r)) 5 1 (gio_sample, ())) [sample_access]"
proof -
  obtain sr' where r: "gio_run idle_window (\<lambda>r :: unit. (4, r)) 5 1 (gio_sample, ()) = Some sr'"
    "g_fail (fst sr') = g_fail (fst (gio_sample, ()))" "issued (fst sr') = []"
    using gio_sample_run by blast
  have "run_issues idle_window (\<lambda>r :: unit. (4, r)) 5 1 (gio_sample, ()) = []" "issued (fst (gio_sample, ())) = [sample_access]"
    by (simp_all add: gio_issues_def gio_cpu_def gio_sample_def Let_def)
  then show ?thesis using gio_pass_fifo [OF r(1,2)] r(3) by (simp del: run_takes.simps run_issues.simps)
qed

section \<open>The access on the wires\<close>

text \<open>
  A store drives exactly its enabled bytes: byte \<open>j\<close> of the sixteen on the wires is enabled if
  and only if it is a byte of the access, and then carries that byte of its data.
\<close>

lemma drive_exact:
  assumes "j < 16"
  defines "h \<equiv> \<lambda>a. if (BASE + a_dwoff a * 8) AND 8 \<noteq> 0 then 8 else 0"
  shows "bit (w_mask (drive a i)) j \<longleftrightarrow> h a \<le> j \<and> bit (a_mask a) (j - h a)"
    and "a_store a \<Longrightarrow> bit (w_mask (drive a i)) j \<Longrightarrow>
      sd_byte (w_wdata (drive a i)) j = ucast (drop_bit (8 * (j - h a)) (a_lanes a))"
proof -
  show m: "bit (w_mask (drive a i)) j \<longleftrightarrow> h a \<le> j \<and> bit (a_mask a) (j - h a)"
    using assms(1) by (auto simp: drive_def Let_def h_def bit_push_bit_iff bit_ucast_iff)
  assume st: "a_store a" and b: "bit (w_mask (drive a i)) j"
  then have k: "h a \<le> j" "j - h a < 8" using m bit_imp_le_length [of "a_mask a" "j - h a"] by auto
  have w: "ucast (drop_bit (8 * (k mod 4)) ((if k < 4 then ucast (a_lanes a) else ucast (drop_bit 32 (a_lanes a))) :: u32))
      = (ucast (drop_bit (8 * k) (a_lanes a)) :: u8)" if "k < 8" for k
  proof (rule bit_word_eqI)
    fix n assume "n < LENGTH(8)"
    then have n: "n < 8" by simp
    show "bit (ucast (drop_bit (8 * (k mod 4)) ((if k < 4 then ucast (a_lanes a) else ucast (drop_bit 32 (a_lanes a))) :: u32)) :: u8) n
        \<longleftrightarrow> bit (ucast (drop_bit (8 * k) (a_lanes a)) :: u8) n"
    proof (cases "k < 4")
      case True
      then show ?thesis using n by (simp add: bit_ucast_iff bit_drop_bit_eq)
    next
      case False
      then have "k mod 4 = k - 4" using that by (simp add: mod_if)
      then have e: "32 + (8 * (k mod 4) + n) = 8 * k + n" using False by simp
      have "k mod 4 < 4" by simp
      then have l: "8 * (k mod 4) + n < 32" using n by linarith
      show ?thesis using n False by (simp add: bit_ucast_iff bit_drop_bit_eq add.assoc l) (simp only: e l simp_thms)
    qed
  qed
  have "sd_byte (w_wdata (drive a i)) j = ucast (drop_bit (8 * ((j - h a) mod 4))
      ((if j - h a < 4 then ucast (a_lanes a) else ucast (drop_bit 32 (a_lanes a))) :: u32))"
  proof (cases "(BASE + a_dwoff a * 8) AND 8 = 0")
    case True
    then have h0: "h a = 0" by (simp add: h_def)
    then have "j < 4 \<or> j div 4 = 1" using k by auto
    then show ?thesis using True st h0 by (auto simp: sd_byte_def drive_def Let_def)
  next
    case False
    then have h8: "h a = 8" by (simp add: h_def)
    then obtain k where k': "j = k + 8" "k < 8" using k by (metis le_add_diff_inverse2)
    then have "k < 4 \<or> k div 4 = 1" by auto
    moreover have "(k + 8) mod 4 = k mod 4" "(k + 8) div 4 = k div 4 + 2" by presburger+
    ultimately show ?thesis using False st h8 k' by (auto simp: sd_byte_def drive_def Let_def)
  qed
  then show "sd_byte (w_wdata (drive a i)) j = ucast (drop_bit (8 * (j - h a)) (a_lanes a))" using w [OF k(2)] by simp
qed

end
