(* ===== verification/Spec2Isabelle.thy ===== *)
theory Spec2Isabelle
  imports Address_Map Mem_Bus Ctrace Dram_Trace Store_Check Checker Image_Loader
    Device_Service Console Retire_Probes Monitor Mipsmon
    Run_Loop Run_Safety Save_Restore Line_Probes Debug_Probes Options Boot
    Vdma_Ref Vdma_Test Dma_Tests Stage_Tests Dma_Main Stage_Main Ring_Main Gio_Test
begin

text \<open>
  A verification development for the C++ side of the Henry IP22 system on chip.

  \<^bold>\<open>The program.\<close>  \<^verbatim>\<open>sim/henry_tb.cpp\<close> is a cycle-accurate testbench: it drives a Verilator
  model of an out-of-order MIPS core and its SoC, one clock at a time, and plays the parts of the
  board that are not RTL.  It reads its options, loads an image or a checkpoint into the two
  memories, resets the model and launches the core; then, in each cycle, it issues external cache-flush requests, serves the
  monitor socket (which may freeze the clock), moves console characters, clocks the model, counts
  retirements and watches for a wedge, runs the golden instruction-set simulator in lockstep,
  serves the SCSI, ethernet and GIO doorbells, possibly writes a checkpoint, and answers the two
  memory lanes.  Beside it stand the retire-trace writer (\<^verbatim>\<open>sim/ctrace.hh\<close>) and reader
  (\<^verbatim>\<open>sim/ctrace_dump.cc\<close>), the retire record (\<^verbatim>\<open>sim/inst_record.hh\<close>), the curses client of the monitor
  (\<^verbatim>\<open>sim/mipsmon.cc\<close>) and six unit tests of DMA engines and of the
  graphics window.

  \<^bold>\<open>Conventions.\<close>  A C++ integer of \<open>w\<close> bits is a \<open>w word\<close>; a byte array is a function from its
  index (\<open>mem\<close>) or a list of bytes; a file is its list of bytes.  Globals and statics are fields of
  records and are passed through; every function of the source is one definition, with its early
  returns and its errors as values of a sum or option type.  The Verilated models, the
  instruction-set simulator, the disk, the device models and zstd are code outside the repository:
  they are arguments of the definitions, and what a theorem needs of them is a named hypothesis.

  \<^bold>\<open>Theories, in the order of import.\<close>

  \<^item> \<^verbatim>\<open>Henry_Prelude\<close>: types, byte encodings, memory blocks, C strings, rewriting collections.
  \<^item> \<^verbatim>\<open>Address_Map\<close>: \<^verbatim>\<open>fpga_map\<close>, the device accessors and the AXI master's map in Verilog; they agree on
    every address.
  \<^item> \<^verbatim>\<open>Mem_Bus\<close>: the latency generator and both memory lanes of \<^verbatim>\<open>main\<close>.  The locale
    \<open>one_outstanding\<close> states what a port with one request in flight promises; it is interpreted on
    both lanes and on the ports of the unit tests.  A store is read back, the golden model's memory
    follows the DRAM, every request is answered once.
  \<^item> \<^verbatim>\<open>Ctrace\<close>: the trace file, written and read back, complete and cut.
  \<^item> \<^verbatim>\<open>Dram_Trace\<close>: the control-flow trace codec of \<^verbatim>\<open>rtl/dram_trace.sv\<close> and its C++ decoder and
    validators.
  \<^item> \<^verbatim>\<open>Store_Check\<close>, \<^verbatim>\<open>Checker\<close>: the lockstep checker: store queues, TLB mirror, compare, suppression,
    full register check.
  \<^item> \<^verbatim>\<open>Image_Loader\<close>: ELF, blobs, the ARCS handoff, checkpoints and compressed images.
  \<^item> \<^verbatim>\<open>Recent_Log\<close>: bounded histories.  The locale \<open>recent_log\<close> says what a log of the last entries
    promises; it is interpreted on the retire trace, the page-fault ring and the GO_DEBUG ring, and
    the lemmas on circular arrays and on searching a tail are shared.
  \<^item> \<^verbatim>\<open>Retire_Probes\<close>, \<^verbatim>\<open>Line_Probes\<close>, \<^verbatim>\<open>Debug_Probes\<close>: the probes on the retire ports, on cache lines and
    translations, and the diagnostic traces with the final report: what each log holds is stated
    against the whole stream of events.
  \<^item> \<^verbatim>\<open>Device_Service\<close>: the SCSI, ethernet and GIO doorbells and completions.
  \<^item> \<^verbatim>\<open>Console\<close>: console input, crash watchers, the script engine.
  \<^item> \<^verbatim>\<open>Monitor\<close>, \<^verbatim>\<open>Mipsmon\<close>: the monitor server and its client.
  \<^item> \<^verbatim>\<open>Run_Loop\<close>: one cycle of \<^verbatim>\<open>main\<close> composed from the parts above in the order of the source, the loop
    and its verdict; \<^verbatim>\<open>Run_Safety\<close>: what a run guarantees (termination, the watchdog, single steps, the
    flush list); \<^verbatim>\<open>Save_Restore\<close>: a restored run against the run that went on.
  \<^item> \<^verbatim>\<open>Options\<close>, \<^verbatim>\<open>Boot\<close>: the argument loop with the C conversions it uses, the trace settings of the
    environment, the choice among checkpoint, compact image, PROM and kernel, the resume address,
    and the reset and launch handshake.
  \<^item> \<^verbatim>\<open>Vdma_Ref\<close>, \<^verbatim>\<open>Vdma_Test\<close>: the DMA reference and the random test around it, with its draws in a
    state monad: the scenarios stay in memory, and a pass means that every transfer equals the
    reference.
  \<^item> \<^verbatim>\<open>Dma_Tests\<close>, \<^verbatim>\<open>Stage_Tests\<close>, \<^verbatim>\<open>Gio_Test\<close>: the ports, rings, staging areas and wait loops of the
    ethernet, SCSI and graphics-window tests.  The locale \<open>memory_port\<close>, an extension of
    \<open>one_outstanding\<close>, carries the data of an answered request and \<open>line_map\<close> its placement; both
    are interpreted on the tests' own definitions.
  \<^item> \<^verbatim>\<open>Dma_Main\<close>, \<^verbatim>\<open>Stage_Main\<close>, \<^verbatim>\<open>Ring_Main\<close>: the scenarios of these tests with every check and the
    exit status.  A receive round, a random disk chain and a random transmit chain pass exactly when
    the engine did what a reference copy, or a walk of the chain in memory, says; and each test
    ends with a verdict whatever its engine does (\<open>enet_main_returns\<close>, \<open>stage_main_returns\<close>,
    \<open>ring_main_returns\<close>).
  \<^item> This theory: the properties that span components.

  \<^bold>\<open>Bounds and fuel.\<close>  The main loop is a \<open>function\<close> with the measure \<open>max_cyc - cyc\<close>; no fuel is
  added anywhere: the loops that count down in the model (\<open>rx_wait\<close>, \<open>scsi_loop\<close>, \<open>wait_for\<close>,
  \<open>arm_wait_cq\<close>, \<open>gio_run\<close>, \<open>vt_wait\<close>, \<open>tx_wait\<close>, \<open>tx_flip\<close>, \<open>until_done\<close>) count the bound the source has in its own loop head, and
  their last case is the source's exit on that bound.  The wait for the core at launch has no bound
  in the source: it is a \<open>partial_function\<close> in the option monad, and it is proved to return when
  the core gets ready.

  \<^bold>\<open>Not modelled.\<close>  The core, its simulator and the SoC RTL are other languages and other
  repositories (only the address map and the trace codec, which the C++ mirrors, are taken from the
  RTL).  The blocks the unit tests drive are Verilog and parameters of their models.  Banners
  and reports that leave no state behind are left out; the device models of the board driver,
  sockets, curses and the file system appear as inputs and outputs.
\<close>

section \<open>From the image to the first fetch\<close>

lemma prom_line_off:
  assumes "i < 16"
  shows "line_off 0x10c00000 i = 0x10c00000 + i"
proof -
  define w where "w = (0x10c00000 :: u64) + of_nat i"
  have "w = of_nat (0x10c00000 + i)" by (simp add: w_def)
  then have w: "unat w = 0x10c00000 + i" using assms by (simp add: unat_of_nat del: of_nat_add)
  have "MEM_MASK = mask 29" by (simp add: MEM_MASK_def mask_eq_exp_minus_1)
  then have "w AND MEM_MASK = take_bit 29 w" by (simp only: take_bit_eq_mask)
  then have "unat (w AND MEM_MASK) = take_bit 29 (unat w)" by (simp only: unsigned_take_bit_eq)
  then show ?thesis using w assms by (simp add: line_off_def w_def take_bit_nat_eq_self)
qed

text \<open>
  C13.  What the core fetches from the reset vector is what was booted: after a kernel was loaded
  behind a firmware of at least one line, a line load of physical \<^verbatim>\<open>0x1fc00000\<close> that lane 0 accepts is
  answered, in the cycle it is due, with the bytes of the firmware and, in the entry slot, the
  big-endian entry point of the kernel, and without a bus error.
\<close>

theorem reset_fetch_exact:
  assumes "boot_main rp fs c gmem iss0 = Inr (b, pc64)" "o_ckpt c = []" "o_cimg c = []" "o_prom c = []"
    and "fs (o_kernel c) = Some f" "o_arcs c \<noteq> []" "fs (o_arcs c) = Some a" "o_arcs_addr c = 0x1fc00000" "o_start_pc c \<noteq> 0"
    and "16 \<le> length a"
    and "g_mem bus = dram (b_mems b)" "\<not> prev_req_valid (lane0 bus)" "reply_cyc (lane0 bus) = - 1"
    and "rq_valid rq" "rq_opcode rq = 4" "tb_phys (rq_addr rq) = 0x1fc00000"
    and "lane0_accept bc cyc rq bus = Some bus'" "reply_cyc (lane0 bus') = int cyc'" "\<not> rsp_bad (lane0 bus)"
  shows "rsp_valid (lane0 (lane0_reply bc rp cyc' bus')) \<and> \<not> rsp_bad (lane0 (lane0_reply bc rp cyc' bus')) \<and>
    map (sd_byte (rsp_load_data (lane0 (lane0_reply bc rp cyc' bus')))) [0..<16] =
      take 8 a @ be32_bytes (b_kentry b) @ take 4 (drop 12 a)"
proof -
  have "\<exists>m :: mems. dram (b_mems b) = mem_copy (mem_copy (dram m) 0x10c00000 a) 0x10c00008 (be32_bytes (b_kentry b))"
  proof (rule fsbl_boot_memory [OF assms(1-9)])
    fix m :: mems assume "dram (b_mems b) = mem_copy (mem_copy (dram m) 0x10c00000 a) 0x10c00008 (be32_bytes (b_kentry b))"
    then show ?thesis by blast
  qed
  then obtain m :: mems where dr: "dram (b_mems b) = mem_copy (mem_copy (dram m) 0x10c00000 a) 0x10c00008 (be32_bytes (b_kentry b))" ..
  have ph: "lane0_phys bc rq = 0x1fc00000" by (simp add: lane0_phys_def assms(16))
  have map: "fpga_map 0x1fc00000 = (0x10c00000, False)" by (simp add: fpga_map_def FPGA_ADDRMASK_def Let_def)
  have l: "req_addr (lane0 bus') = 0x10c00000" "\<not> req_bad (lane0 bus')" "req_op (lane0 bus') = 4" "g_mem bus' = g_mem bus"
    "rsp_bad (lane0 bus') = rsp_bad (lane0 bus)"
    using assms(17) by (auto simp: lane0_accept_def assms(12-15) ph map FPGA_ADDRESS_MAP_def Let_def)
  have r: "rsp_load_data (lane0 (lane0_reply bc rp cyc' bus')) = load_words (dram (b_mems b)) 0x10c00000 4"
    "rsp_valid (lane0 (lane0_reply bc rp cyc' bus'))" "rsp_bad (lane0 (lane0_reply bc rp cyc' bus')) = rsp_bad (lane0 bus)"
    using assms(18) l assms(11) by (simp_all add: lane0_reply_def Let_def)
  have "sd_byte (load_words (dram (b_mems b)) 0x10c00000 4) i = (if i \<in> {8..<12} then be32_bytes (b_kentry b) ! (i - 8) else a ! i)" if "i < 16" for i
    using load_words_byte [of "0x10c00000" i 4 "dram (b_mems b)"] that assms(10) fsbl_bytes [of i a "dram m" "b_kentry b"]
    by (simp add: prom_line_off dr)
  then have "map (sd_byte (load_words (dram (b_mems b)) 0x10c00000 4)) [0..<16] = take 8 a @ be32_bytes (b_kentry b) @ take 4 (drop 12 a)"
    using assms(10) by (intro nth_equalityI) (auto simp: nth_append simp del: upt_rec_numeral)
  then show ?thesis using r assms(19) by (simp only: simp_thms)
qed

definition reset_bus :: "mem \<Rightarrow> bus" where
  "reset_bus m = (bus_init 1)\<lparr>g_mem := m\<rparr>"

definition reset_req :: mem_req where
  "reset_req = sample_req\<lparr>rq_addr := 0x1fc00000\<rparr>"

theorem reset_fetch_exact_witness:
  "\<exists>b pc64 bus' cyc'. boot_main unat sample_fs sample_opts (\<lambda>_. 0) undefined = Inr (b, pc64) \<and>
     lane0_accept (default_cfg False) 0 reset_req (reset_bus (dram (b_mems b))) = Some bus' \<and>
     map (sd_byte (rsp_load_data (lane0 (lane0_reply (default_cfg False) unat cyc' bus')))) [0..<16] =
       replicate 8 0xaa @ be32_bytes (b_kentry b) @ replicate 4 0xaa"
proof -
  obtain b pc64 where b: "boot_main unat sample_fs sample_opts (\<lambda>_. 0) undefined = Inr (b, pc64)" using sample_boots by blast
  let ?bus = "reset_bus (dram (b_mems b))"
  obtain lat where lat: "memlat_draw (default_cfg False) (memlat_state ?bus) = Some (memlat_next (memlat_state ?bus), lat)"
    "MEM_LAT_MIN (default_cfg False) \<le> lat" by (rule memlat_draw_bounds [OF lat_ok_default])
  obtain bus' where acc: "lane0_accept (default_cfg False) 0 reset_req ?bus = Some bus'"
    using lane0_accept_total [OF lat_ok_default] by blast
  have idle: "\<not> prev_req_valid (lane0 ?bus)" "reply_cyc (lane0 ?bus) = - 1" "\<not> rsp_bad (lane0 ?bus)" "g_mem ?bus = dram (b_mems b)"
    by (simp_all add: reset_bus_def bus_init_def lane_init_def)
  have rq: "rq_valid reset_req" "rq_opcode reset_req = 4" "tb_phys (rq_addr reset_req) = 0x1fc00000"
    by (simp_all add: reset_req_def sample_req_def tb_phys_def)
  have "reply_cyc (lane0 bus') = lat"
    using acc by (auto simp: lane0_accept_def idle rq lat(1) Let_def case_prod_unfold simp del: upt_rec_numeral)
  moreover have "0 \<le> lat" using lat(2) by (simp add: default_cfg_def)
  ultimately have due: "reply_cyc (lane0 bus') = int (nat lat)" by simp
  have o: "sample_fs (o_kernel sample_opts) = Some sample_elf" "sample_fs (o_arcs sample_opts) = Some (replicate 16 0xaa)"
    "o_arcs sample_opts \<noteq> []" "o_arcs_addr sample_opts = 0x1fc00000" "o_start_pc sample_opts \<noteq> 0"
    "o_ckpt sample_opts = []" "o_cimg sample_opts = []" "o_prom sample_opts = []"
    by (simp_all add: sample_fs_def sample_opts_def opts0_def)
  have "16 \<le> length (replicate 16 (0xaa :: u8))" by simp
  from reset_fetch_exact [OF b o(6-8) o(1) o(3) o(2) o(4,5) this idle(4) idle(1,2) rq acc due idle(3)]
  have "map (sd_byte (rsp_load_data (lane0 (lane0_reply (default_cfg False) unat (nat lat) bus')))) [0..<16] =
    replicate 8 0xaa @ be32_bytes (b_kentry b) @ replicate 4 0xaa" by (simp del: upt_rec_numeral)
  then show ?thesis using b acc by blast
qed

end
